(* ===== verification/Prelude.thy ===== *)
theory Prelude
  imports Main "HOL-Library.Word"
begin

text \<open>
  Shared vocabulary of the development: the named collections the component
  proofs use, the decimal text of an unsigned number as \<^verbatim>\<open>snprintf\<close> and
  \<^verbatim>\<open>std::to_string\<close> print it and \<^verbatim>\<open>strtoul\<close> reads it back, the wrapping
  32-bit millisecond clock the runtime compares with a signed difference, and a few
  facts on lists.
\<close>

named_theorems frame_simps \<open>what an operation leaves unchanged\<close>
named_theorems step_intros \<open>invariant preservation, one fact per operation\<close>

type_synonym byte = "8 word"
type_synonym u16 = "16 word"
type_synonym u32 = "32 word"
type_synonym u64 = "64 word"

section \<open>Decimal text\<close>

definition is_digit :: "char \<Rightarrow> bool" where
  "is_digit c \<longleftrightarrow> 48 \<le> (of_char c :: nat) \<and> (of_char c :: nat) \<le> 57"

definition digit_val :: "char \<Rightarrow> nat" where
  "digit_val c = of_char c - 48"

definition digit_char :: "nat \<Rightarrow> char" where
  "digit_char d = char_of (48 + d)"

fun nat_dec :: "nat \<Rightarrow> string" where
  "nat_dec n = (if n < 10 then [digit_char n] else nat_dec (n div 10) @ [digit_char (n mod 10)])"

declare nat_dec.simps [simp del]

definition dec_nat :: "string \<Rightarrow> nat" where
  "dec_nat s = foldl (\<lambda>a c. a * 10 + digit_val c) 0 s"

definition int_dec :: "int \<Rightarrow> string" where
  "int_dec i = (if i < 0 then CHR ''-'' # nat_dec (nat (- i)) else nat_dec (nat i))"

lemma of_char_digit_char [simp]: "d < 10 \<Longrightarrow> (of_char (digit_char d) :: nat) = 48 + d"
  by (simp add: digit_char_def)

lemma is_digit_digit_char [simp]: "d < 10 \<Longrightarrow> is_digit (digit_char d)"
  by (simp add: is_digit_def)

lemma digit_val_digit_char [simp]: "d < 10 \<Longrightarrow> digit_val (digit_char d) = d"
  by (simp add: digit_val_def)

lemma nat_dec_not_Nil [simp]: "nat_dec n \<noteq> []"
  by (subst nat_dec.simps) simp

lemma nat_dec_digits: "c \<in> set (nat_dec n) \<Longrightarrow> is_digit c"
proof (induction n rule: nat_dec.induct)
  case (1 n)
  show ?case
  proof (cases "n < 10")
    case True
    with "1.prems" show ?thesis by (simp add: nat_dec.simps [of n])
  next
    case False
    with "1.prems" have "c \<in> set (nat_dec (n div 10)) \<or> c = digit_char (n mod 10)"
      by (auto simp: nat_dec.simps [of n])
    with "1.IH" [OF False] show ?thesis by auto
  qed
qed

lemma list_all_nat_dec [simp]: "list_all is_digit (nat_dec n)"
  by (auto simp: list_all_iff nat_dec_digits)

lemma dec_nat_nat_dec [simp]: "dec_nat (nat_dec n) = n"
proof (induction n rule: nat_dec.induct)
  case (1 n)
  show ?case
  proof (cases "n < 10")
    case True
    then show ?thesis by (simp add: nat_dec.simps [of n] dec_nat_def)
  next
    case False
    then have "dec_nat (nat_dec n) = dec_nat (nat_dec (n div 10)) * 10 + n mod 10"
      by (simp add: nat_dec.simps [of n] dec_nat_def)
    with "1.IH" [OF False] show ?thesis by simp
  qed
qed

lemma newline_not_digit: "\<not> is_digit (CHR 0x0A)"
  by (simp add: is_digit_def)

lemma newline_notin_nat_dec [simp]: "CHR 0x0A \<notin> set (nat_dec n)"
  using nat_dec_digits newline_not_digit by blast

section \<open>The wrapping millisecond clock\<close>

text \<open>
  Deadlines are kept as \<^verbatim>\<open>uint32_t\<close> milliseconds and compared by the sign of a
  difference, so that they survive the wrap of the clock every 49.7 days. The next
  lemma is what that comparison rests on: as long as both the elapsed time and the window are
  below half the range, the signed difference is the true one, wherever the clock started.
\<close>

abbreviation s32 :: "u32 \<Rightarrow> int" where
  "s32 w \<equiv> sint w"

lemma sint_diff_small:
  fixes e w :: u32
  assumes "uint e < 2 ^ 31" and "uint w < 2 ^ 31"
  shows "sint (e - w) = uint e - uint w"
proof -
  have se: "sint e = uint e" and sw: "sint w = uint w"
    using assms uint_ge_0 [of e] uint_ge_0 [of w]
    by (auto simp: sint_uint intro!: signed_take_bit_int_eq_self intro: order_trans [of _ 0])
  have "sint (e - w) = signed_take_bit 31 (sint e - sint w)"
    by (simp add: sint_word_ariths)
  also have "\<dots> = signed_take_bit 31 (uint e - uint w)"
    by (simp only: se sw)
  also have "\<dots> = uint e - uint w"
    by (rule signed_take_bit_int_eq_self) (use assms uint_ge_0 [of e] uint_ge_0 [of w] in linarith)+
  finally show ?thesis .
qed

lemma clock_diff_elapsed:
  fixes t e w :: u32
  assumes "uint e < 2 ^ 31" and "uint w < 2 ^ 31"
  shows "sint ((t + e) - (t + w)) = uint e - uint w"
proof -
  have "(t + e) - (t + w) = e - w" by simp
  with sint_diff_small [OF assms] show ?thesis by simp
qed

section \<open>Lists\<close>

text \<open>The values of a list of optional values, in order.\<close>

fun somes :: "'a option list \<Rightarrow> 'a list" where
  "somes [] = []"
| "somes (None # xs) = somes xs"
| "somes (Some x # xs) = x # somes xs"

lemma find_None_conv: "find P xs = None \<longleftrightarrow> (\<forall>x\<in>set xs. \<not> P x)"
  by (auto simp: find_None_iff)

lemma find_SomeD: "find P xs = Some x \<Longrightarrow> x \<in> set xs \<and> P x"
  by (auto simp: find_Some_iff)

end
