(* ===== verification/Core_Result.thy ===== *)
theory Core_Result
  imports Prelude
begin

text \<open>
  The status value every fallible call of the runtime returns
  (\<^verbatim>\<open>machino/src/core/result.hpp\<close>). There are no exceptions: a caller looks at
  the status and decides.
\<close>

datatype status = Ok | Error | Timeout | Busy | Unsupported

record result =
  r_status :: status
  r_code :: int

definition result_ok :: result where
  "result_ok = \<lparr>r_status = Ok, r_code = 0\<rparr>"

definition result_error :: "int \<Rightarrow> result" where
  "result_error c = \<lparr>r_status = Error, r_code = c\<rparr>"

definition result_timeout :: result where
  "result_timeout = \<lparr>r_status = Timeout, r_code = 0\<rparr>"

definition result_busy :: result where
  "result_busy = \<lparr>r_status = Busy, r_code = 0\<rparr>"

definition result_unsupported :: result where
  "result_unsupported = \<lparr>r_status = Unsupported, r_code = 0\<rparr>"

definition is_ok :: "result \<Rightarrow> bool" where
  "is_ok r \<longleftrightarrow> r_status r = Ok"

fun status_name :: "status \<Rightarrow> string" where
  "status_name Ok = ''ok''"
| "status_name Error = ''error''"
| "status_name Timeout = ''timeout''"
| "status_name Busy = ''busy''"
| "status_name Unsupported = ''unsupported''"

lemmas result_defs =
  result_ok_def result_error_def result_timeout_def result_busy_def result_unsupported_def

lemma is_ok_simps [simp]:
  "is_ok result_ok"
  "\<not> is_ok (result_error c)"
  "\<not> is_ok result_timeout"
  "\<not> is_ok result_busy"
  "\<not> is_ok result_unsupported"
  by (simp_all add: is_ok_def result_defs)

lemma result_distinct [simp]:
  "result_ok \<noteq> result_error c" "result_ok \<noteq> result_busy"
  "result_ok \<noteq> result_timeout" "result_ok \<noteq> result_unsupported"
  by (simp_all add: result_defs)

end
