(* ===== verification/Stream_Hub.thy ===== *)
theory Stream_Hub
  imports Complex_Main Core_Result "HOL-Library.Sublist"
begin

text \<open>
  Encoded frames and their fan-out: the access unit and its slot pool
  (\<^verbatim>\<open>core/frame.hpp\<close>), the bounded per-consumer queue with the stale-frame policy
  and the hub that feeds all consumers and keeps the latency window
  (\<^verbatim>\<open>core/stream_hub.hpp\<close>, \<^verbatim>\<open>core/stream_hub.cpp\<close>).

  A shared pointer to a frame is the frame itself; the reference count of a pool slot is the
  parameter \<open>busy\<close> of \<open>pool_acquire\<close>. Consumers keep their sink after the hub
  dropped it, so sinks live in a store of their own (\<open>hub_store\<close>) and the hub holds
  their names. Each method body is one atomic step, as its mutex makes it; a wait that runs
  into its deadline is the result \<open>None\<close> of \<open>sink_pop\<close>, and a wait that is
  woken by a push is a \<open>sink_pop\<close> after that push. The averages of the latency
  window are rationals: the rounding of \<^verbatim>\<open>double\<close> is not modelled.
\<close>

section \<open>Access units and the slot pool\<close>

record access_unit =
  au_data :: "byte list"
  au_pts_us :: int
  au_fetched_us :: int
  au_key :: bool
  au_seq :: u32

record au_pool =
  pool_slots :: nat
  pool_next :: nat
  pool_exhausted :: u32

definition au_pool_new :: "nat \<Rightarrow> au_pool" where
  "au_pool_new slots = \<lparr>pool_slots = slots, pool_next = 0, pool_exhausted = 0\<rparr>"

text \<open>The scan over the slots, starting at \<open>next_\<close>; \<open>busy i\<close> says that slot
  \<open>i\<close> is still referenced outside the pool (\<^verbatim>\<open>use_count() != 1\<close>).\<close>

fun pool_scan :: "(nat \<Rightarrow> bool) \<Rightarrow> nat \<Rightarrow> au_pool \<Rightarrow> nat option \<times> au_pool" where
  "pool_scan busy 0 p = (None, p\<lparr>pool_exhausted := pool_exhausted p + 1\<rparr>)"
| "pool_scan busy (Suc n) p =
     (let s = pool_next p;
          p' = p\<lparr>pool_next := (pool_next p + 1) mod pool_slots p\<rparr>
      in if \<not> busy s then (Some s, p') else pool_scan busy n p')"

definition pool_acquire :: "(nat \<Rightarrow> bool) \<Rightarrow> au_pool \<Rightarrow> nat option \<times> au_pool" where
  "pool_acquire busy p = pool_scan busy (pool_slots p) p"

section \<open>The per-consumer queue\<close>

record sink =
  sk_q :: "access_unit list"
  sk_depth :: nat
  sk_key_supersedes :: bool
  sk_closed :: bool
  sk_disc :: bool
  sk_dropped :: u32

definition sink_new :: "nat \<Rightarrow> bool \<Rightarrow> sink" where
  "sink_new depth key_supersedes =
     \<lparr>sk_q = [], sk_depth = (if depth \<noteq> 0 then depth else 1),
      sk_key_supersedes = key_supersedes, sk_closed = False, sk_disc = False, sk_dropped = 0\<rparr>"

text \<open>\<open>None\<close> is the \<^verbatim>\<open>false\<close> of a timeout or of a closed sink;
  \<open>Some (au, d)\<close> a frame with its discontinuity mark. The loop discards the frames
  that follow a lost reference until a key frame is found or the queue is empty.\<close>

function sink_pop :: "sink \<Rightarrow> (access_unit \<times> bool) option \<times> sink" where
  "sink_pop s =
     (case sk_q s of
        [] \<Rightarrow> (None, s)
      | out # q \<Rightarrow>
          if \<not> sk_disc s then (Some (out, False), s\<lparr>sk_q := q\<rparr>)
          else if au_key out then (Some (out, True), s\<lparr>sk_q := q, sk_disc := False\<rparr>)
          else sink_pop (s\<lparr>sk_q := q, sk_dropped := sk_dropped s + 1\<rparr>))"
  by pat_completeness auto
termination
  by (relation "measure (\<lambda>s. length (sk_q s))") auto

declare sink_pop.simps [simp del]

definition sink_push :: "access_unit \<Rightarrow> sink \<Rightarrow> sink" where
  "sink_push au s =
     (if sk_closed s then s
      else let s1 =
             (if sk_depth s \<le> length (sk_q s)
              then if au_key au \<and> sk_key_supersedes s
                   then s\<lparr>sk_dropped := sk_dropped s + of_nat (length (sk_q s)), sk_q := []\<rparr>
                   else s\<lparr>sk_q := tl (sk_q s), sk_dropped := sk_dropped s + 1,
                          sk_disc := (if \<not> sk_key_supersedes s then sk_disc s else True)\<rparr>
              else s)
           in s1\<lparr>sk_q := sk_q s1 @ [au]\<rparr>)"

definition sink_close :: "sink \<Rightarrow> sink" where
  "sink_close s = s\<lparr>sk_closed := True, sk_q := []\<rparr>"

section \<open>The hub\<close>

record latency_stats =
  ls_valid :: bool
  ls_samples :: u32
  ls_capture_to_out_avg_ms :: rat
  ls_capture_to_out_max_ms :: rat
  ls_out_to_send_avg_ms :: rat
  ls_out_to_send_max_ms :: rat
  ls_discontinuities :: u32

definition latency_stats0 :: latency_stats where
  "latency_stats0 = \<lparr>ls_valid = False, ls_samples = 0, ls_capture_to_out_avg_ms = 0,
     ls_capture_to_out_max_ms = 0, ls_out_to_send_avg_ms = 0, ls_out_to_send_max_ms = 0,
     ls_discontinuities = 0\<rparr>"

record latency_window =
  lw_last :: latency_stats
  lw_win_start_us :: int
  lw_n_c2o :: u32
  lw_n_o2s :: u32
  lw_sum_c2o :: rat
  lw_max_c2o :: rat
  lw_sum_o2s :: rat
  lw_max_o2s :: rat
  lw_disc :: u32

definition latency_window0 :: latency_window where
  "latency_window0 = \<lparr>lw_last = latency_stats0, lw_win_start_us = 0, lw_n_c2o = 0, lw_n_o2s = 0,
     lw_sum_c2o = 0, lw_max_c2o = 0, lw_sum_o2s = 0, lw_max_o2s = 0, lw_disc = 0\<rparr>"

record hub =
  hub_sinks :: "nat list"
  hub_default_depth :: nat
  hub_key_supersedes :: bool
  hub_lat :: latency_window
  hub_store :: "nat \<rightharpoonup> sink"
  hub_fresh :: nat

definition hub_new :: hub where
  "hub_new = \<lparr>hub_sinks = [], hub_default_depth = 4, hub_key_supersedes = True,
     hub_lat = latency_window0, hub_store = Map.empty, hub_fresh = 0\<rparr>"

definition hub_subscribe :: "nat \<Rightarrow> hub \<Rightarrow> nat \<times> hub" where
  "hub_subscribe depth h =
     (let s = sink_new (if depth \<noteq> 0 then depth else hub_default_depth h) (hub_key_supersedes h);
          i = hub_fresh h
      in (i, h\<lparr>hub_store := (hub_store h)(i \<mapsto> s), hub_sinks := hub_sinks h @ [i],
               hub_fresh := Suc i\<rparr>))"

definition hub_unsubscribe :: "nat option \<Rightarrow> hub \<Rightarrow> hub" where
  "hub_unsubscribe so h =
     (case so of
        None \<Rightarrow> h
      | Some i \<Rightarrow> h\<lparr>hub_store := (hub_store h)(i := map_option sink_close (hub_store h i)),
                    hub_sinks := removeAll i (hub_sinks h)\<rparr>)"

fun push_all :: "access_unit \<Rightarrow> nat list \<Rightarrow> (nat \<rightharpoonup> sink) \<Rightarrow> (nat \<rightharpoonup> sink)" where
  "push_all au [] st = st"
| "push_all au (i # is) st = push_all au is (st(i := map_option (sink_push au) (st i)))"

definition hub_publish :: "access_unit \<Rightarrow> hub \<Rightarrow> hub" where
  "hub_publish au h = h\<lparr>hub_store := push_all au (hub_sinks h) (hub_store h)\<rparr>"

fun sink_close_all :: "nat list \<Rightarrow> (nat \<rightharpoonup> sink) \<Rightarrow> (nat \<rightharpoonup> sink)" where
  "sink_close_all [] st = st"
| "sink_close_all (i # is) st = sink_close_all is (st(i := map_option sink_close (st i)))"

definition hub_close_all :: "hub \<Rightarrow> hub" where
  "hub_close_all h =
     h\<lparr>hub_sinks := [], hub_store := sink_close_all (hub_sinks h) (hub_store h)\<rparr>"

definition hub_consumers :: "hub \<Rightarrow> nat" where
  "hub_consumers h = length (hub_sinks h)"

definition hub_set_default_depth :: "nat \<Rightarrow> hub \<Rightarrow> hub" where
  "hub_set_default_depth d h = h\<lparr>hub_default_depth := (if d \<noteq> 0 then d else 1)\<rparr>"

definition hub_set_key_supersedes :: "bool \<Rightarrow> hub \<Rightarrow> hub" where
  "hub_set_key_supersedes on h = h\<lparr>hub_key_supersedes := on\<rparr>"

text \<open>A consumer's pop on its own sink.\<close>

definition hub_pop :: "nat \<Rightarrow> hub \<Rightarrow> (access_unit \<times> bool) option \<times> hub" where
  "hub_pop i h =
     (case hub_store h i of
        None \<Rightarrow> (None, h)
      | Some s \<Rightarrow> let (r, s') = sink_pop s in (r, h\<lparr>hub_store := (hub_store h)(i \<mapsto> s')\<rparr>))"

subsection \<open>Latency accounting\<close>

definition roll_window :: "int \<Rightarrow> latency_window \<Rightarrow> latency_window" where
  "roll_window now w =
     (if lw_win_start_us w = 0 then w\<lparr>lw_win_start_us := now\<rparr>
      else if now - lw_win_start_us w < 1000000 then w
      else let s0 = latency_stats0\<lparr>ls_valid := 0 < lw_n_c2o w + lw_n_o2s w,
                                   ls_samples := lw_n_c2o w\<rparr>;
               s1 = (if lw_n_c2o w \<noteq> 0
                     then s0\<lparr>ls_capture_to_out_avg_ms := lw_sum_c2o w / rat_of_nat (unat (lw_n_c2o w)) / 1000,
                             ls_capture_to_out_max_ms := lw_max_c2o w / 1000\<rparr> else s0);
               s2 = (if lw_n_o2s w \<noteq> 0
                     then s1\<lparr>ls_out_to_send_avg_ms := lw_sum_o2s w / rat_of_nat (unat (lw_n_o2s w)) / 1000,
                             ls_out_to_send_max_ms := lw_max_o2s w / 1000\<rparr> else s1);
               s3 = s2\<lparr>ls_discontinuities := lw_disc w\<rparr>
           in w\<lparr>lw_last := s3, lw_win_start_us := now, lw_n_c2o := 0, lw_n_o2s := 0,
                lw_sum_c2o := 0, lw_max_c2o := 0, lw_sum_o2s := 0, lw_max_o2s := 0, lw_disc := 0\<rparr>)"

definition record_capture_to_out :: "int \<Rightarrow> int \<Rightarrow> latency_window \<Rightarrow> latency_window" where
  "record_capture_to_out now us w =
     roll_window now
       (if 0 \<le> us \<and> us < 10000000
        then w\<lparr>lw_n_c2o := lw_n_c2o w + 1, lw_sum_c2o := lw_sum_c2o w + rat_of_int us,
               lw_max_c2o := (if lw_max_c2o w < rat_of_int us then rat_of_int us else lw_max_c2o w)\<rparr>
        else w)"

definition record_out_to_send :: "int \<Rightarrow> int \<Rightarrow> latency_window \<Rightarrow> latency_window" where
  "record_out_to_send now us w =
     roll_window now
       (if 0 \<le> us \<and> us < 10000000
        then w\<lparr>lw_n_o2s := lw_n_o2s w + 1, lw_sum_o2s := lw_sum_o2s w + rat_of_int us,
               lw_max_o2s := (if lw_max_o2s w < rat_of_int us then rat_of_int us else lw_max_o2s w)\<rparr>
        else w)"

definition record_discontinuity :: "latency_window \<Rightarrow> latency_window" where
  "record_discontinuity w = w\<lparr>lw_disc := lw_disc w + 1\<rparr>"

definition hub_latency :: "hub \<Rightarrow> latency_stats" where
  "hub_latency h = lw_last (hub_lat h)"

section \<open>The pool hands out a free slot whenever there is one\<close>

definition pool_ok :: "au_pool \<Rightarrow> bool" where
  "pool_ok p \<longleftrightarrow> pool_next p < pool_slots p"

lemma pool_ok_new: "0 < n \<Longrightarrow> pool_ok (au_pool_new n)"
  by (simp add: pool_ok_def au_pool_new_def)

lemma pool_scan_Some:
  "pool_scan busy n p = (Some i, p') \<Longrightarrow> pool_ok p \<Longrightarrow> \<not> busy i \<and> i < pool_slots p"
proof (induction n arbitrary: p)
  case 0
  then show ?case by simp
next
  case (Suc n)
  show ?case
  proof (cases "busy (pool_next p)")
    case True
    with Suc.prems(1)
    have "pool_scan busy n (p\<lparr>pool_next := (pool_next p + 1) mod pool_slots p\<rparr>) = (Some i, p')"
      by (simp add: Let_def)
    from Suc.IH [OF this] Suc.prems(2) show ?thesis by (simp add: pool_ok_def)
  next
    case False
    with Suc.prems show ?thesis by (auto simp: Let_def pool_ok_def)
  qed
qed

lemma pool_scan_None:
  "fst (pool_scan busy n p) = None \<Longrightarrow> pool_ok p \<Longrightarrow> k < n \<Longrightarrow>
   busy ((pool_next p + k) mod pool_slots p)"
proof (induction n arbitrary: p k)
  case 0
  then show ?case by simp
next
  case (Suc n)
  let ?p = "p\<lparr>pool_next := (pool_next p + 1) mod pool_slots p\<rparr>"
  from Suc.prems(1) have b: "busy (pool_next p)" and r: "fst (pool_scan busy n ?p) = None"
    by (auto simp: Let_def split: if_splits)
  show ?case
  proof (cases k)
    case 0
    with b Suc.prems(2) show ?thesis by (simp add: pool_ok_def)
  next
    case (Suc m)
    from Suc.prems(2) have "pool_ok ?p" by (simp add: pool_ok_def)
    moreover from Suc Suc.prems(3) have "m < n" by simp
    ultimately have "busy ((pool_next ?p + m) mod pool_slots ?p)"
      using Suc.IH [OF r] by blast
    moreover have "(pool_next ?p + m) mod pool_slots ?p = (pool_next p + k) mod pool_slots p"
      using Suc by (simp add: mod_simps)
    ultimately show ?thesis by simp
  qed
qed

lemma mod_shift_onto:
  assumes "(a::nat) < n" and "i < n"
  obtains k where "k < n" and "(a + k) mod n = i"
proof
  show "(i + n - a) mod n < n" using assms by simp
  have "(a + (i + n - a) mod n) mod n = (a + (i + n - a)) mod n" by (simp add: mod_simps)
  also have "\<dots> = i" using assms by simp
  finally show "(a + (i + n - a) mod n) mod n = i" .
qed

lemma pool_acquire_None:
  assumes "fst (pool_acquire busy p) = None" and "pool_ok p" and "i < pool_slots p"
  shows "busy i"
proof -
  from assms(2,3) obtain k where "k < pool_slots p" and "(pool_next p + k) mod pool_slots p = i"
    unfolding pool_ok_def by (rule mod_shift_onto)
  with pool_scan_None [of busy "pool_slots p" p k] assms(1,2) show ?thesis
    by (simp add: pool_acquire_def)
qed

lemma pool_scan_keeps:
  "pool_ok p \<Longrightarrow> pool_ok (snd (pool_scan busy n p)) \<and>
   pool_slots (snd (pool_scan busy n p)) = pool_slots p \<and>
   pool_exhausted (snd (pool_scan busy n p)) =
     pool_exhausted p + (if fst (pool_scan busy n p) = None then 1 else 0)"
proof (induction n arbitrary: p)
  case (Suc n)
  from Suc.prems have "pool_ok (p\<lparr>pool_next := (pool_next p + 1) mod pool_slots p\<rparr>)"
    by (simp add: pool_ok_def)
  from Suc.IH [OF this] Suc.prems show ?case by (simp add: Let_def pool_ok_def)
qed (simp add: pool_ok_def)

section \<open>Bounded queues\<close>

text \<open>
  What a consumer queue promises to its producer, as an interface: a push or a pop never
  lets the queue grow past its depth, and whatever it drops it drops from the old end, so the queue
  is always a final segment of what was pushed.
\<close>

locale frame_queue =
  fixes push :: "'f \<Rightarrow> 's \<Rightarrow> 's"
    and pop :: "'s \<Rightarrow> 's"
    and queue :: "'s \<Rightarrow> 'f list"
    and depth :: "'s \<Rightarrow> nat"
    and ok :: "'s \<Rightarrow> bool"
  assumes ok_bound: "ok s \<Longrightarrow> length (queue s) \<le> depth s"
    and ok_push: "ok s \<Longrightarrow> ok (push f s)"
    and ok_pop: "ok s \<Longrightarrow> ok (pop s)"
    and depth_push: "depth (push f s) = depth s"
    and depth_pop: "depth (pop s) = depth s"
    and queue_push: "ok s \<Longrightarrow> suffix (queue (push f s)) (queue s @ [f]) \<or> queue (push f s) = []"
    and queue_pop: "suffix (queue (pop s)) (queue s)"
begin

text \<open>A run of the queue: \<open>Some f\<close> pushes a frame, \<open>None\<close> pops one.\<close>

definition run :: "'f option list \<Rightarrow> 's \<Rightarrow> 's" where
  "run ops s = fold (\<lambda>oo s. case oo of Some f \<Rightarrow> push f s | None \<Rightarrow> pop s) ops s"

lemma run_simps [simp]:
  "run [] s = s"
  "run (Some f # ops) s = run ops (push f s)"
  "run (None # ops) s = run ops (pop s)"
  by (simp_all add: run_def)

lemma run_ok: "ok s \<Longrightarrow> ok (run ops s)"
proof (induction ops arbitrary: s)
  case (Cons a ops)
  then show ?case by (cases a) (auto simp: ok_push ok_pop)
qed simp

lemma run_depth: "depth (run ops s) = depth s"
proof (induction ops arbitrary: s)
  case (Cons a ops)
  then show ?case by (cases a) (auto simp: depth_push depth_pop)
qed simp

lemma run_bounded: "ok s \<Longrightarrow> length (queue (run ops s)) \<le> depth s"
  using ok_bound [OF run_ok] run_depth by metis

lemma run_suffix: "ok s \<Longrightarrow> suffix (queue (run ops s)) (queue s @ somes ops)"
proof (induction ops arbitrary: s)
  case Nil
  then show ?case by simp
next
  case (Cons a ops)
  show ?case
  proof (cases a)
    case None
    have "suffix (queue (run ops (pop s))) (queue (pop s) @ somes ops)"
      using Cons by (simp add: ok_pop)
    moreover have "suffix (queue (pop s) @ somes ops) (queue s @ somes ops)"
      using queue_pop by simp
    ultimately show ?thesis
      using None by (auto intro: suffix_order.trans)
  next
    case (Some f)
    have "suffix (queue (run ops (push f s))) (queue (push f s) @ somes ops)"
      using Cons by (simp add: ok_push)
    moreover have "suffix (queue (push f s) @ somes ops)
                          ((queue s @ [f]) @ somes ops)"
      using queue_push [OF Cons.prems, of f] by (auto simp: suffix_def)
    ultimately show ?thesis
      using Some by (auto intro: suffix_order.trans)
  qed
qed

text \<open>Hence the queue holds at most the last \<open>depth\<close> frames pushed.\<close>

lemma run_recent:
  assumes "ok s" and "queue s = []" and "depth s \<le> d"
  shows "set (queue (run ops s)) \<subseteq> set (drop (length (somes ops) - d) (somes ops))"
proof -
  let ?h = "somes ops" and ?q = "queue (run ops s)"
  have suf: "suffix ?q ?h" using run_suffix [OF assms(1)] assms(2) by simp
  then have "?q = drop (length ?h - length ?q) ?h" by (auto simp: suffix_def)
  moreover have "length ?q \<le> d" using run_bounded [OF assms(1), of ops] assms(3) by simp
  then have "length ?h - d \<le> length ?h - length ?q" by simp
  then have "set (drop (length ?h - length ?q) ?h) \<subseteq> set (drop (length ?h - d) ?h)"
    by (rule set_drop_subset_set_drop)
  ultimately show ?thesis by simp
qed

end

subsection \<open>The sink is such a queue\<close>

definition sink_ok :: "sink \<Rightarrow> bool" where
  "sink_ok s \<longleftrightarrow> 0 < sk_depth s \<and> length (sk_q s) \<le> sk_depth s \<and> (sk_closed s \<longrightarrow> sk_q s = [])"

lemma sink_ok_new [simp]: "sink_ok (sink_new d k)"
  by (simp add: sink_ok_def sink_new_def)

lemma sink_push_frame [frame_simps]:
  "sk_depth (sink_push au s) = sk_depth s"
  "sk_closed (sink_push au s) = sk_closed s"
  "sk_key_supersedes (sink_push au s) = sk_key_supersedes s"
  by (simp_all add: sink_push_def Let_def)

lemma sink_push_queue:
  "sk_q (sink_push au s) =
     (if sk_closed s then sk_q s
      else if length (sk_q s) < sk_depth s then sk_q s @ [au]
      else if au_key au \<and> sk_key_supersedes s then [au]
      else tl (sk_q s) @ [au])"
  by (auto simp: sink_push_def Let_def)

lemma sink_ok_push: "sink_ok s \<Longrightarrow> sink_ok (sink_push au s)"
  by (auto simp: sink_ok_def sink_push_queue frame_simps)

lemma sink_pop_frame [frame_simps]:
  "sk_depth (snd (sink_pop s)) = sk_depth s"
  "sk_closed (snd (sink_pop s)) = sk_closed s"
  "sk_key_supersedes (snd (sink_pop s)) = sk_key_supersedes s"
  by (induction s rule: sink_pop.induct, simp add: sink_pop.simps split: list.split)+

lemma sink_pop_suffix: "suffix (sk_q (snd (sink_pop s))) (sk_q s)"
proof (induction s rule: sink_pop.induct)
  case (1 s)
  show ?case
  proof (cases "sk_q s")
    case Nil
    then show ?thesis by (simp add: sink_pop.simps [of s])
  next
    case (Cons out q)
    with 1 [of out q] show ?thesis
      by (auto simp: sink_pop.simps [of s] intro: suffix_ConsI)
  qed
qed

lemma sink_ok_pop: "sink_ok s \<Longrightarrow> sink_ok (snd (sink_pop s))"
  using suffix_length_le [OF sink_pop_suffix, of s] sink_pop_suffix [of s]
  by (auto simp: sink_ok_def frame_simps)

lemma sink_ok_close: "sink_ok s \<Longrightarrow> sink_ok (sink_close s)"
  by (simp add: sink_ok_def sink_close_def)

lemma sink_close_simps [simp]:
  "sk_closed (sink_close s)" "sk_q (sink_close s) = []" "sk_depth (sink_close s) = sk_depth s"
  by (simp_all add: sink_close_def)

lemma sink_new_simps [simp]:
  "sk_q (sink_new d k) = []" "sk_disc (sink_new d k) = False" "sk_closed (sink_new d k) = False"
  "sk_key_supersedes (sink_new d k) = k" "sk_dropped (sink_new d k) = 0"
  "sk_depth (sink_new d k) = (if d \<noteq> 0 then d else 1)"
  by (simp_all add: sink_new_def)

interpretation sq: frame_queue sink_push "\<lambda>s. snd (sink_pop s)" sk_q sk_depth sink_ok
proof
  fix s :: sink and f :: access_unit
  show "sink_ok s \<Longrightarrow> length (sk_q s) \<le> sk_depth s" by (simp add: sink_ok_def)
  show "sink_ok s \<Longrightarrow> sink_ok (sink_push f s)" by (rule sink_ok_push)
  show "sink_ok s \<Longrightarrow> sink_ok (snd (sink_pop s))" by (rule sink_ok_pop)
  show "sk_depth (sink_push f s) = sk_depth s" by (simp add: frame_simps)
  show "sk_depth (snd (sink_pop s)) = sk_depth s" by (simp add: frame_simps)
  show "suffix (sk_q (sink_push f s)) (sk_q s @ [f]) \<or> sk_q (sink_push f s) = []"
    if "sink_ok s"
  proof (cases "sk_q s")
    case (Cons a list)
    with that show ?thesis by (auto simp: sink_push_queue suffix_def sink_ok_def)
  qed (auto simp: sink_push_queue)
  show "suffix (sk_q (snd (sink_pop s))) (sk_q s)" by (rule sink_pop_suffix)
qed

section \<open>What a consumer receives\<close>

datatype sink_op = Push access_unit | Pop | Close

fun sink_run :: "sink_op list \<Rightarrow> sink \<Rightarrow> (access_unit \<times> bool) list \<times> sink" where
  "sink_run [] s = ([], s)"
| "sink_run (Push au # ops) s = sink_run ops (sink_push au s)"
| "sink_run (Close # ops) s = sink_run ops (sink_close s)"
| "sink_run (Pop # ops) s =
     (let (r, s1) = sink_pop s; (out, s2) = sink_run ops s1
      in (case r of None \<Rightarrow> out | Some x \<Rightarrow> x # out, s2))"

fun pushes :: "sink_op list \<Rightarrow> access_unit list" where
  "pushes [] = []"
| "pushes (Push au # ops) = au # pushes ops"
| "pushes (Pop # ops) = pushes ops"
| "pushes (Close # ops) = pushes ops"

text \<open>
  The promise of the stale-frame policy to a decoder: read against the encoder's output, each
  frame handed over is either the very next one or a key frame. \<open>delivers g h out\<close>
  says so for the output \<open>h\<close> still to come, where \<open>g\<close> records that a
  frame has been skipped since the last one handed over.
\<close>

inductive delivers :: "bool \<Rightarrow> access_unit list \<Rightarrow> access_unit list \<Rightarrow> bool" where
  d_nil: "delivers g h []"
| d_next: "delivers False h out \<Longrightarrow> delivers False (a # h) (a # out)"
| d_key: "au_key a \<Longrightarrow> delivers False h out \<Longrightarrow> delivers g (a # h) (a # out)"
| d_drop: "delivers True h out \<Longrightarrow> delivers g (a # h) out"

inductive_cases delivers_ConsE: "delivers g (a # h) out"

lemma delivers_drop_list: "delivers True h out \<Longrightarrow> delivers True (xs @ h) out"
  by (induction xs) (auto intro: delivers.intros)

lemma delivers_from_gap: "delivers True h out \<Longrightarrow> delivers g h out"
  by (erule delivers.cases) (auto intro: delivers.intros)

lemma delivers_key_gap: "au_key x \<Longrightarrow> delivers g (x # h) out \<Longrightarrow> delivers True (x # h) out"
  by (erule delivers_ConsE) (auto intro: delivers.intros)

lemma delivers_flush:
  "au_key x \<Longrightarrow> delivers g (x # h) out \<Longrightarrow> delivers g' (xs @ x # h) out"
  by (meson delivers_drop_list delivers_from_gap delivers_key_gap)

lemma sink_pop_delivers:
  assumes "\<And>s' out. (\<exists>r. sink_pop s = (r, s')) \<Longrightarrow>
             P s' out \<Longrightarrow> delivers (sk_disc s') (sk_q s' @ h) out"
    and "sink_pop s = (r, s')" and "P s' out"
  shows "delivers (sk_disc s) (sk_q s @ h) (case r of None \<Rightarrow> out | Some (a, d) \<Rightarrow> a # out)"
  using assms
proof (induction s arbitrary: r s' rule: sink_pop.induct)
  case (1 s)
  show ?case
  proof (cases "sk_q s")
    case Nil
    with "1.prems"(2) have "r = None" "s' = s" by (simp_all add: sink_pop.simps [of s])
    with "1.prems"(1) [of s' out] "1.prems"(2,3) show ?thesis by auto
  next
    case (Cons a q)
    consider (hand) "\<not> sk_disc s" | (key) "sk_disc s" "au_key a" | (skip) "sk_disc s" "\<not> au_key a"
      by blast
    then show ?thesis
    proof cases
      case hand
      with Cons "1.prems"(2) have "r = Some (a, False)" "s' = s\<lparr>sk_q := q\<rparr>"
        by (simp_all add: sink_pop.simps [of s])
      with "1.prems"(1) [of s' out] "1.prems"(2,3) hand Cons show ?thesis
        by (auto intro: d_next)
    next
      case key
      with Cons "1.prems"(2) have "r = Some (a, True)" "s' = s\<lparr>sk_q := q, sk_disc := False\<rparr>"
        by (simp_all add: sink_pop.simps [of s])
      with "1.prems"(1) [of s' out] "1.prems"(2,3) key Cons show ?thesis
        by (auto intro: d_key)
    next
      case skip
      let ?s = "s\<lparr>sk_q := q, sk_dropped := sk_dropped s + 1\<rparr>"
      from skip Cons have eq: "sink_pop s = sink_pop ?s" by (simp add: sink_pop.simps [of s])
      have "delivers (sk_disc ?s) (sk_q ?s @ h) (case r of None \<Rightarrow> out | Some (a, d) \<Rightarrow> a # out)"
        using "1.prems" skip by (intro "1.IH" [OF Cons]) (auto simp: eq)
      with skip Cons show ?thesis by (auto intro: d_drop)
    qed
  qed
qed

lemma sink_run_closed:
  "sink_ok s \<Longrightarrow> sk_closed s \<Longrightarrow> fst (sink_run ops s) = []"
proof (induction ops s rule: sink_run.induct)
  case (2 au ops s)
  then show ?case by (simp add: sink_push_def)
next
  case (3 ops s)
  then show ?case by (simp add: sink_ok_close)
next
  case (4 ops s)
  from "4.prems" have "sink_pop s = (None, s)" by (simp add: sink_ok_def sink_pop.simps [of s])
  with 4 show ?case by (auto split: prod.splits)
qed simp

lemma sink_run_delivers:
  "sink_ok s \<Longrightarrow> sk_key_supersedes s \<Longrightarrow>
   delivers (sk_disc s) (sk_q s @ pushes ops) (map fst (fst (sink_run ops s)))"
proof (induction ops s rule: sink_run.induct)
  case (1 s)
  then show ?case by (simp add: d_nil)
next
  case (2 au ops s)
  have IH: "delivers (sk_disc (sink_push au s)) (sk_q (sink_push au s) @ pushes ops)
              (map fst (fst (sink_run ops (sink_push au s))))"
    using 2 by (simp add: sink_ok_push frame_simps)
  consider (closed) "sk_closed s" | (room) "\<not> sk_closed s" "length (sk_q s) < sk_depth s"
    | (flush) "\<not> sk_closed s" "\<not> length (sk_q s) < sk_depth s" "au_key au"
    | (drop) "\<not> sk_closed s" "\<not> length (sk_q s) < sk_depth s" "\<not> au_key au"
    by blast
  then show ?case
  proof cases
    case closed
    with 2 sink_run_closed [of s "Push au # ops"] show ?thesis by (simp add: d_nil)
  next
    case room
    with IH show ?thesis by (simp add: sink_push_def Let_def)
  next
    case flush
    with IH 2 show ?thesis
      by (auto simp: sink_push_def Let_def intro: delivers_flush)
  next
    case drop
    with "2.prems" obtain a q where q: "sk_q s = a # q"
      by (cases "sk_q s") (auto simp: sink_ok_def)
    with IH drop "2.prems" show ?thesis
      by (auto simp: sink_push_def Let_def intro: d_drop)
  qed
next
  case (3 ops s)
  then have "fst (sink_run ops (sink_close s)) = []"
    by (intro sink_run_closed) (simp_all add: sink_ok_close)
  then show ?case by (simp add: d_nil)
next
  case (4 ops s)
  obtain r s1 where p: "sink_pop s = (r, s1)" by (cases "sink_pop s")
  obtain out s2 where r: "sink_run ops s1 = (out, s2)" by (cases "sink_run ops s1")
  from p "4.prems" have "sink_ok s1" "sk_key_supersedes s1"
    using sink_ok_pop [of s] sink_pop_frame(3) [of s] by simp_all
  with "4.IH" p have IH: "delivers (sk_disc s1) (sk_q s1 @ pushes ops) (map fst (fst (sink_run ops s1)))"
    by auto
  have "delivers (sk_disc s) (sk_q s @ pushes ops)
          (case r of None \<Rightarrow> map fst out | Some (a, d) \<Rightarrow> a # map fst out)"
    by (rule sink_pop_delivers [OF _ p, where P = "\<lambda>s' out'. s' = s1 \<and> out' = map fst out"])
      (use IH r in auto)
  with p r show ?case by (auto split: option.split)
qed

text \<open>C4: Whatever the interleaving of the producer's pushes with a consumer's pops, a video
  sink (key frames supersede) hands over only frames that are either the immediate successor of the
  previous one or a key frame: a decoder never sees a frame whose reference was dropped.\<close>

theorem sink_never_breaks_reference_chain:
  "delivers False (pushes ops) (map fst (fst (sink_run ops (sink_new d True))))"
  using sink_run_delivers [of "sink_new d True" ops] by simp

subsection \<open>Every frame is accounted for\<close>

lemma sink_pop_count:
  "sink_pop s = (r, s') \<Longrightarrow>
   sk_dropped s + of_nat (length (sk_q s)) =
     (if r = None then 0 else 1) + sk_dropped s' + of_nat (length (sk_q s'))"
proof (induction s arbitrary: r s' rule: sink_pop.induct)
  case (1 s)
  show ?case
  proof (cases "sk_q s")
    case Nil
    with "1.prems" show ?thesis by (simp add: sink_pop.simps [of s])
  next
    case (Cons a q)
    show ?thesis
    proof (cases "sk_disc s \<and> \<not> au_key a")
      case True
      let ?s = "s\<lparr>sk_q := q, sk_dropped := sk_dropped s + 1\<rparr>"
      from True Cons "1.prems" have "sink_pop ?s = (r, s')" by (simp add: sink_pop.simps [of s])
      with "1.IH" [OF Cons] True have
        "sk_dropped ?s + of_nat (length (sk_q ?s)) =
           (if r = None then 0 else 1) + sk_dropped s' + of_nat (length (sk_q s'))"
        by blast
      with Cons show ?thesis by (simp add: algebra_simps)
    next
      case False
      with Cons "1.prems" show ?thesis
        by (auto simp: sink_pop.simps [of s] algebra_simps split: if_splits)
    qed
  qed
qed

lemma sink_push_count:
  "sink_ok s \<Longrightarrow> \<not> sk_closed s \<Longrightarrow>
   sk_dropped (sink_push au s) + of_nat (length (sk_q (sink_push au s))) =
     sk_dropped s + of_nat (length (sk_q s)) + 1"
  by (cases "sk_q s") (auto simp: sink_push_def Let_def sink_ok_def)

lemma sink_run_count:
  "sink_ok s \<Longrightarrow> \<not> sk_closed s \<Longrightarrow> Close \<notin> set ops \<Longrightarrow> sink_run ops s = (out, s') \<Longrightarrow>
   sk_dropped s + of_nat (length (sk_q s)) + of_nat (length (pushes ops)) =
     of_nat (length out) + sk_dropped s' + of_nat (length (sk_q s'))"
proof (induction ops s arbitrary: out rule: sink_run.induct)
  case (2 au ops s)
  from 2 have "sk_dropped (sink_push au s) + of_nat (length (sk_q (sink_push au s)))
      + of_nat (length (pushes ops)) =
      of_nat (length out) + sk_dropped s' + of_nat (length (sk_q s'))"
    by (simp add: sink_ok_push frame_simps)
  with sink_push_count [OF "2.prems"(1,2), of au] show ?case by (simp add: algebra_simps)
next
  case (4 ops s)
  obtain r s1 where p: "sink_pop s = (r, s1)" by (cases "sink_pop s")
  obtain o1 s2 where o1: "sink_run ops s1 = (o1, s2)" by (cases "sink_run ops s1")
  from p "4.prems"(1,2) have "sink_ok s1" "\<not> sk_closed s1"
    using sink_ok_pop [of s] sink_pop_frame(2) [of s] by simp_all
  moreover from p o1 "4.prems"(4) have "s2 = s'" "out = (case r of None \<Rightarrow> o1 | Some x \<Rightarrow> x # o1)"
    by auto
  ultimately have "sk_dropped s1 + of_nat (length (sk_q s1)) + of_nat (length (pushes ops)) =
      of_nat (length o1) + sk_dropped s' + of_nat (length (sk_q s'))"
    using "4.IH" [of "(r, s1)" r s1 o1] p o1 "4.prems"(3) by simp
  with sink_pop_count [OF p] \<open>out = _\<close> show ?case
    by (cases r) (simp_all add: algebra_simps)
qed simp_all

text \<open>As long as the sink is open, every frame pushed is handed over, still queued or counted
  in \<open>dropped_\<close>, in the 32-bit arithmetic of that counter.\<close>

theorem sink_accounts_for_every_frame:
  assumes "Close \<notin> set ops" and "sink_run ops (sink_new d k) = (out, s)"
  shows "of_nat (length (pushes ops)) = of_nat (length out) + sk_dropped s + of_nat (length (sk_q s))"
  using sink_run_count [OF _ _ assms] by simp

definition demo_au :: "bool \<Rightarrow> u32 \<Rightarrow> access_unit" where
  "demo_au k n = \<lparr>au_data = [], au_pts_us = 0, au_fetched_us = 0, au_key = k, au_seq = n\<rparr>"

definition demo_ops :: "sink_op list" where
  "demo_ops = [Push (demo_au True 0), Push (demo_au False 1), Push (demo_au False 2), Pop]"

theorem sink_accounts_for_every_frame_witness:
  "\<exists>out s. Close \<notin> set demo_ops \<and> sink_run demo_ops (sink_new 2 True) = (out, s) \<and> sk_dropped s = 3 \<and>
     of_nat (length (pushes demo_ops)) = of_nat (length out) + sk_dropped s + of_nat (length (sk_q s))"
proof -
  let ?s = "\<lparr>sk_q = [], sk_depth = 2, sk_key_supersedes = True, sk_closed = False, sk_disc = True, sk_dropped = 3\<rparr>"
  have c: "Close \<notin> set demo_ops" by (simp add: demo_ops_def)
  have r: "sink_run demo_ops (sink_new 2 True) = ([], ?s)"
    by (simp add: demo_ops_def sink_push_def sink_new_def sink_pop.simps demo_au_def)
  from sink_accounts_for_every_frame [OF c r] c r show ?thesis by auto
qed

subsection \<open>Audio sinks keep order\<close>

lemma sink_pop_subseq:
  assumes "sink_pop s = (r, s')" and "subseq out (sk_q s' @ h)"
  shows "subseq (case r of None \<Rightarrow> out | Some x \<Rightarrow> fst x # out) (sk_q s @ h)"
  using assms
proof (induction s arbitrary: r s' rule: sink_pop.induct)
  case (1 s)
  show ?case
  proof (cases "sk_q s")
    case Nil
    with "1.prems" show ?thesis by (auto simp: sink_pop.simps [of s])
  next
    case (Cons a q)
    show ?thesis
    proof (cases "sk_disc s \<and> \<not> au_key a")
      case True
      let ?s = "s\<lparr>sk_q := q, sk_dropped := sk_dropped s + 1\<rparr>"
      from True Cons "1.prems" have "sink_pop ?s = (r, s')" by (simp add: sink_pop.simps [of s])
      with "1.IH" [OF Cons] True "1.prems"(2)
      have "subseq (case r of None \<Rightarrow> out | Some x \<Rightarrow> fst x # out) (sk_q ?s @ h)" by blast
      with Cons show ?thesis by (auto intro: list_emb_Cons)
    next
      case False
      with Cons "1.prems" show ?thesis
        by (auto simp: sink_pop.simps [of s] split: if_splits)
    qed
  qed
qed

lemma sink_run_subseq: "subseq (map fst (fst (sink_run ops s))) (sk_q s @ pushes ops)"
proof (induction ops s rule: sink_run.induct)
  case (2 au ops s)
  have "subseq (sk_q (sink_push au s) @ pushes ops) (sk_q s @ au # pushes ops)"
    by (cases "sk_q s")
      (auto simp: sink_push_queue intro: list_emb_append_mono list_emb_append2 list_emb_Cons)
  with 2 show ?case by (auto intro: subseq_order.trans)
next
  case (3 ops s)
  then show ?case by (auto intro: subseq_order.trans)
next
  case (4 ops s)
  obtain r s1 where p: "sink_pop s = (r, s1)" by (cases "sink_pop s")
  with 4 have "subseq (map fst (fst (sink_run ops s1))) (sk_q s1 @ pushes ops)" by auto
  from sink_pop_subseq [OF p this] p show ?case by (auto split: prod.splits option.splits)
qed simp

section \<open>The hub\<close>

definition hub_ok :: "hub \<Rightarrow> bool" where
  "hub_ok h \<longleftrightarrow> distinct (hub_sinks h) \<and> (\<forall>i \<in> set (hub_sinks h). hub_store h i \<noteq> None) \<and>
     (\<forall>i s. hub_store h i = Some s \<longrightarrow> i < hub_fresh h \<and> sink_ok s)"

lemma push_all_apply:
  "distinct is \<Longrightarrow> push_all au is st i = (if i \<in> set is then map_option (sink_push au) (st i) else st i)"
  by (induction "is" arbitrary: st) auto

lemma sink_close_all_apply:
  "distinct is \<Longrightarrow> sink_close_all is st i = (if i \<in> set is then map_option sink_close (st i) else st i)"
  by (induction "is" arbitrary: st) auto

lemma hub_ok_storeD: "hub_ok h \<Longrightarrow> hub_store h i = Some s \<Longrightarrow> sink_ok s"
  by (auto simp: hub_ok_def)

lemma hub_ok_publish [step_intros]:
  assumes "hub_ok h"
  shows "hub_ok (hub_publish au h)"
proof -
  have st: "hub_store (hub_publish au h) i =
      (if i \<in> set (hub_sinks h) then map_option (sink_push au) (hub_store h i) else hub_store h i)" for i
    using assms by (simp add: hub_publish_def push_all_apply hub_ok_def)
  have sinks: "hub_sinks (hub_publish au h) = hub_sinks h" "hub_fresh (hub_publish au h) = hub_fresh h"
    by (simp_all add: hub_publish_def)
  show ?thesis
    using assms by (auto simp: hub_ok_def st sinks sink_ok_push)
qed

text \<open>Publishing pushes the frame onto every subscribed sink by that sink's own state alone, and
  touches no other sink: a consumer that does not drain its queue changes nothing for the others.\<close>

theorem hub_publish_independent:
  assumes "hub_ok h"
  shows "hub_store (hub_publish au h) i =
    (if i \<in> set (hub_sinks h) then map_option (sink_push au) (hub_store h i) else hub_store h i)"
  using assms by (simp add: hub_publish_def push_all_apply hub_ok_def)

theorem hub_publish_independent_witness:
  "hub_store (hub_publish (demo_au True 7) (snd (hub_subscribe 0 hub_new))) 0 =
     Some (sink_push (demo_au True 7) (sink_new 4 True))"
proof -
  have ok: "hub_ok (snd (hub_subscribe 0 hub_new))"
    by (simp add: hub_subscribe_def hub_new_def hub_ok_def Let_def)
  show ?thesis
    using hub_publish_independent [OF ok, of "demo_au True 7" 0]
    by (simp add: hub_subscribe_def hub_new_def Let_def)
qed

subsection \<open>Which frames the queues can still refer to\<close>

datatype hub_op = HSubscribe nat | HUnsubscribe "nat option" | HPublish access_unit | HPop nat
  | HCloseAll | HSetDepth nat | HSetKey bool

fun hub_step :: "hub_op \<Rightarrow> hub \<Rightarrow> hub" where
  "hub_step (HSubscribe d) h = snd (hub_subscribe d h)"
| "hub_step (HUnsubscribe so) h = hub_unsubscribe so h"
| "hub_step (HPublish au) h = hub_publish au h"
| "hub_step (HPop i) h = snd (hub_pop i h)"
| "hub_step HCloseAll h = hub_close_all h"
| "hub_step (HSetDepth d) h = hub_set_default_depth d h"
| "hub_step (HSetKey b) h = hub_set_key_supersedes b h"

fun published :: "hub_op list \<Rightarrow> access_unit list" where
  "published [] = []"
| "published (HPublish au # ops) = au # published ops"
| "published (_ # ops) = published ops"

fun depths_within :: "nat \<Rightarrow> hub_op \<Rightarrow> bool" where
  "depths_within d (HSubscribe n) = (n \<le> d)"
| "depths_within d (HSetDepth n) = (n \<le> d)"
| "depths_within d _ = True"

definition hub_hist :: "nat \<Rightarrow> access_unit list \<Rightarrow> hub \<Rightarrow> bool" where
  "hub_hist d hist h \<longleftrightarrow> hub_ok h \<and> 0 < d \<and> hub_default_depth h \<le> d \<and>
     (\<forall>i s. hub_store h i = Some s \<longrightarrow>
        sk_depth s \<le> d \<and> suffix (sk_q s) hist \<and> (i \<notin> set (hub_sinks h) \<longrightarrow> sk_q s = []))"

lemma hub_hist_new: "4 \<le> d \<Longrightarrow> hub_hist d [] hub_new"
  by (simp add: hub_hist_def hub_new_def hub_ok_def)

lemma hub_hist_subscribe:
  assumes "hub_hist d hist h" and "n \<le> d"
  shows "hub_hist d hist (snd (hub_subscribe n h))"
proof -
  from assms have "hub_fresh h \<notin> set (hub_sinks h)" by (auto simp: hub_hist_def hub_ok_def)
  moreover from assms have "1 \<le> d" by (simp add: hub_hist_def)
  ultimately show ?thesis using assms
    by (auto simp: hub_hist_def hub_ok_def hub_subscribe_def Let_def less_SucI)
qed

lemma hub_hist_unsubscribe:
  assumes "hub_hist d hist h"
  shows "hub_hist d hist (hub_unsubscribe so h)"
proof (cases so)
  case (Some i)
  with assms show ?thesis
    by (auto simp: hub_hist_def hub_ok_def hub_unsubscribe_def sink_ok_close distinct_removeAll)
qed (use assms in \<open>simp add: hub_unsubscribe_def\<close>)

lemma suffix_push: "sink_ok s \<Longrightarrow> suffix (sk_q s) hist \<Longrightarrow> suffix (sk_q (sink_push au s)) (hist @ [au])"
proof -
  assume ok: "sink_ok s" and suf: "suffix (sk_q s) hist"
  have "suffix (sk_q s @ [au]) (hist @ [au])" using suf by simp
  moreover have "suffix (sk_q (sink_push au s)) (sk_q s @ [au]) \<or> sk_q (sink_push au s) = []"
    by (rule sq.queue_push [OF ok])
  ultimately show ?thesis using suffix_order.trans by (metis suffix_bot.bot_least)
qed

lemma hub_hist_publish:
  assumes "hub_hist d hist h"
  shows "hub_hist d (hist @ [au]) (hub_publish au h)"
proof -
  from assms have ok: "hub_ok h" by (simp add: hub_hist_def)
  have st: "hub_store (hub_publish au h) i =
      (if i \<in> set (hub_sinks h) then map_option (sink_push au) (hub_store h i) else hub_store h i)" for i
    using ok by (simp add: hub_publish_def push_all_apply hub_ok_def)
  have "sk_depth s \<le> d \<and> suffix (sk_q s) (hist @ [au]) \<and> (i \<notin> set (hub_sinks h) \<longrightarrow> sk_q s = [])"
    if s: "hub_store (hub_publish au h) i = Some s" for i s
  proof (cases "i \<in> set (hub_sinks h)")
    case True
    with s st obtain s0 where s0: "hub_store h i = Some s0" "s = sink_push au s0" by auto
    with assms have "sk_depth s0 \<le> d" "suffix (sk_q s0) hist" by (auto simp: hub_hist_def)
    with s0 True suffix_push [OF hub_ok_storeD [OF ok s0(1)]] show ?thesis
      by (simp add: frame_simps del: suffix_snoc)
  next
    case False
    with s st assms show ?thesis by (fastforce simp: hub_hist_def)
  qed
  with hub_ok_publish [OF ok] assms show ?thesis
    by (auto simp: hub_hist_def) (auto simp: hub_publish_def)
qed

lemma hub_hist_pop:
  assumes "hub_hist d hist h"
  shows "hub_hist d hist (snd (hub_pop i h))"
proof (cases "hub_store h i")
  case None
  with assms show ?thesis by (simp add: hub_pop_def)
next
  case (Some s)
  obtain r s' where p: "sink_pop s = (r, s')" by (cases "sink_pop s")
  with Some have h: "snd (hub_pop i h) = h\<lparr>hub_store := (hub_store h)(i \<mapsto> s')\<rparr>"
    by (simp add: hub_pop_def)
  from assms Some have "sink_ok s" "suffix (sk_q s) hist" by (auto simp: hub_hist_def hub_ok_def)
  with p have "sink_ok s'" "suffix (sk_q s') hist" "suffix (sk_q s') (sk_q s)" "sk_depth s' = sk_depth s"
    using sink_ok_pop [of s] sink_pop_suffix [of s] sink_pop_frame(1) [of s]
    by (auto intro: suffix_order.trans)
  with assms Some show ?thesis
    by (auto simp: h hub_hist_def hub_ok_def)
qed

lemma hub_hist_close_all:
  assumes "hub_hist d hist h"
  shows "hub_hist d hist (hub_close_all h)"
proof -
  from assms have "distinct (hub_sinks h)" by (simp add: hub_hist_def hub_ok_def)
  with assms show ?thesis
    by (auto simp: hub_hist_def hub_ok_def hub_close_all_def sink_close_all_apply sink_ok_close
        split: if_splits)
qed

lemma hub_hist_step:
  "hub_hist d hist h \<Longrightarrow> depths_within d op \<Longrightarrow> hub_hist d (hist @ published [op]) (hub_step op h)"
  by (cases op) (auto simp: hub_hist_subscribe hub_hist_unsubscribe hub_hist_publish hub_hist_pop
      hub_hist_close_all, auto simp: hub_hist_def hub_ok_def hub_set_default_depth_def
      hub_set_key_supersedes_def)

lemma published_Cons: "published (op # ops) = published [op] @ published ops"
  by (cases op) simp_all

lemma hub_hist_run:
  "hub_hist d hist h \<Longrightarrow> list_all (depths_within d) ops \<Longrightarrow>
   hub_hist d (hist @ published ops) (fold hub_step ops h)"
proof (induction ops arbitrary: hist h)
  case (Cons op ops)
  then have "hub_hist d (hist @ published [op]) (hub_step op h)" by (simp add: hub_hist_step)
  from Cons.IH [OF this] Cons.prems show ?case by (simp add: published_Cons [of op ops])
qed simp

lemma suffix_recent:
  "suffix q h \<Longrightarrow> length q \<le> d \<Longrightarrow> set q \<subseteq> set (drop (length h - d) h)"
proof -
  assume "suffix q h" and d: "length q \<le> d"
  then have q: "q = drop (length h - length q) h" by (auto simp: suffix_def)
  from d have "length h - d \<le> length h - length q" by simp
  from set_drop_subset_set_drop [OF this, of h] q show ?thesis by metis
qed

text \<open>However the hub is used, all its queues together refer only to the last \<open>d\<close>
  frames published, where \<open>d\<close> bounds the queue depths (4 by default): the sixteen pool slots
  of a capture path cannot be used up by stalled queues.\<close>

theorem hub_queues_hold_recent_frames:
  assumes "4 \<le> d" and "list_all (depths_within d) ops"
    and "hub_store (fold hub_step ops hub_new) i = Some s"
  shows "set (sk_q s) \<subseteq> set (drop (length (published ops) - d) (published ops))"
proof -
  have "hub_hist d (published ops) (fold hub_step ops hub_new)"
    using hub_hist_run [OF hub_hist_new [OF assms(1)] assms(2)] by simp
  with assms(3) have "sink_ok s" "sk_depth s \<le> d" "suffix (sk_q s) (published ops)"
    by (auto simp: hub_hist_def hub_ok_def)
  then show ?thesis by (intro suffix_recent) (auto simp: sink_ok_def)
qed

theorem hub_queues_hold_recent_frames_witness:
  "set (sk_q (the (hub_store (fold hub_step [HSubscribe 0, HPublish (demo_au True 1), HPublish (demo_au False 2)] hub_new) 0)))
   \<subseteq> {demo_au True 1, demo_au False 2}"
proof -
  let ?ops = "[HSubscribe 0, HPublish (demo_au True 1), HPublish (demo_au False 2)]"
  obtain s where s: "hub_store (fold hub_step ?ops hub_new) 0 = Some s"
    by (simp add: hub_new_def hub_subscribe_def hub_publish_def Let_def)
  from hub_queues_hold_recent_frames [OF _ _ s, of 4] s show ?thesis by simp
qed

text \<open>The slot pool returns a slot nobody references whenever fewer than all slots are referenced,
  and otherwise refuses and counts the refusal; its cursor stays inside the pool.\<close>

theorem pool_acquire_finds_free_slot:
  assumes "pool_ok p"
  shows "case pool_acquire busy p of
      (Some i, p') \<Rightarrow> i < pool_slots p \<and> \<not> busy i \<and> pool_ok p' \<and> pool_exhausted p' = pool_exhausted p
    | (None, p') \<Rightarrow> (\<forall>i < pool_slots p. busy i) \<and> pool_ok p' \<and> pool_exhausted p' = pool_exhausted p + 1"
proof -
  obtain r p' where r: "pool_acquire busy p = (r, p')" by (cases "pool_acquire busy p")
  from pool_scan_keeps [OF assms, of busy "pool_slots p"] r
  have k: "pool_ok p'" "pool_exhausted p' = pool_exhausted p + (if r = None then 1 else 0)"
    by (simp_all add: pool_acquire_def)
  show ?thesis
  proof (cases r)
    case None
    then show ?thesis using r k pool_acquire_None [OF _ assms, of busy] by simp
  next
    case (Some i)
    then show ?thesis using r k pool_scan_Some [of busy "pool_slots p" p i p'] assms
      by (simp add: pool_acquire_def)
  qed
qed

theorem pool_acquire_finds_free_slot_witness:
  "pool_ok (au_pool_new 3) \<and> fst (pool_acquire (\<lambda>i. i \<noteq> 2) (au_pool_new 3)) \<noteq> None"
proof -
  have ok: "pool_ok (au_pool_new 3)" by (simp add: pool_ok_new)
  have "(2::nat) < pool_slots (au_pool_new 3)" by (simp add: au_pool_new_def)
  with pool_acquire_finds_free_slot [OF ok, of "\<lambda>i. i \<noteq> 2"] ok show ?thesis
    by (cases "pool_acquire (\<lambda>i. i \<noteq> 2) (au_pool_new 3)") (force split: option.splits)
qed

end
