(* ===== verification/Lifecycle.thy ===== *)
theory Lifecycle
  imports Stream_Hub
begin

text \<open>
  The demand-driven media lifecycle (\<^verbatim>\<open>core/lifecycle/demand.hpp\<close>,
  \<^verbatim>\<open>core/lifecycle/pipeline_manager.hpp\<close> and \<^verbatim>\<open>pipeline_manager.cpp\<close>): one
  manager owns the sensor and ISP (the base), the two H.264 units and the JPEG encoder, and keeps
  them up only while somebody holds demand.

  The SoC platform, the timers, the state listener and the post-start hook are ports. What a
  call of them returns is the parameter \<open>env\<close> of the operation that makes it; every
  such call is also written, in order, to \<open>m_log\<close>, so that what the manager does to the
  hardware can be stated and proved. An owned object (\<^verbatim>\<open>unique_ptr\<close>, a joinable
  thread) is a flag. Each public method is one atomic step, as \<^verbatim>\<open>m_\<close> makes it; \<open>snapshot\<close>, which
  gives the lock up around the capture, is three steps.
\<close>

section \<open>Data\<close>

datatype rc_mode = Cbr | Vbr | FixQp

record effective_stream =
  es_width :: int
  es_height :: int
  es_fps :: int
  es_native_width :: int
  es_native_height :: int
  es_gop :: int
  es_bitrate_kbps :: int
  es_profile :: int
  es_qp :: int
  es_buffers :: int
  es_encoder_buffers :: int
  es_rc :: rc_mode

definition effective_stream0 :: effective_stream where
  "effective_stream0 = \<lparr>es_width = 0, es_height = 0, es_fps = 0, es_native_width = 0,
     es_native_height = 0, es_gop = 40, es_bitrate_kbps = 3000, es_profile = 2, es_qp = 35,
     es_buffers = 2, es_encoder_buffers = 0, es_rc = Cbr\<rparr>"

record jpeg_params =
  jp_width :: int
  jp_height :: int
  jp_quality :: int
  jp_buffers :: int

definition jpeg_params0 :: jpeg_params where
  "jpeg_params0 = \<lparr>jp_width = 0, jp_height = 0, jp_quality = 80, jp_buffers = 1\<rparr>"

datatype consumer_type = Rtsp | Snapshot | Recording | Ai | HttpStream | Onvif | Manual

fun consumer_name :: "consumer_type \<Rightarrow> string" where
  "consumer_name Rtsp = ''rtsp''"
| "consumer_name Snapshot = ''snapshot''"
| "consumer_name Recording = ''recording''"
| "consumer_name Ai = ''ai''"
| "consumer_name HttpStream = ''http''"
| "consumer_name Onvif = ''onvif''"
| "consumer_name Manual = ''manual''"

abbreviation (input) UNIT_MAIN :: int where "UNIT_MAIN \<equiv> 0"
abbreviation (input) UNIT_SUB :: int where "UNIT_SUB \<equiv> 1"
abbreviation (input) UNIT_JPEG :: int where "UNIT_JPEG \<equiv> 2"
abbreviation (input) UNIT_AI :: int where "UNIT_AI \<equiv> 3"

definition unit_name :: "int \<Rightarrow> string" where
  "unit_name u = (if u = UNIT_MAIN then ''main'' else if u = UNIT_SUB then ''sub''
     else if u = UNIT_JPEG then ''jpeg'' else if u = UNIT_AI then ''ai'' else ''?'')"

datatype state = ColdIdle | Starting | Active | GraceIdle | Stopping | Failed

fun state_name :: "state \<Rightarrow> string" where
  "state_name ColdIdle = ''COLD_IDLE''"
| "state_name Starting = ''STARTING''"
| "state_name Active = ''ACTIVE''"
| "state_name GraceIdle = ''GRACE_IDLE''"
| "state_name Stopping = ''STOPPING''"
| "state_name Failed = ''FAILED''"

record measurement =
  ms_valid :: bool
  ms_encoded_fps :: rat
  ms_bitrate_kbps :: rat
  ms_dropped_frames :: u32

definition measurement0 :: measurement where
  "measurement0 = \<lparr>ms_valid = False, ms_encoded_fps = 0, ms_bitrate_kbps = 0, ms_dropped_frames = 0\<rparr>"

text \<open>The ports: timers, and everything the manager calls on the platform and its objects.\<close>

datatype timer_id = BaseTimer | UnitTimer int | JpegTimer

datatype action =
    BringUp bool
  | TearDown
  | CreateFs int effective_stream bool
  | DestroyFs int
  | CreateEnc int effective_stream bool
  | DestroyEnc int
  | Bind int bool
  | Unbind int
  | FsEnable int bool
  | FsDisable int
  | EncStart int bool
  | EncStop int
  | SetSensorFps int
  | PostStart
  | CreateJpeg jpeg_params bool
  | DestroyJpeg
  | ArmTimer timer_id int
  | DisarmTimer timer_id
  | Notify state state
  | RequestIdr int

record unit_env =
  ue_fs :: bool
  ue_enc :: bool
  ue_bind :: result
  ue_enable :: result
  ue_start :: result

record plat_env =
  pe_bring_up :: result
  pe_unit :: "int \<Rightarrow> unit_env"
  pe_create_jpeg :: bool

record unit_rec =
  u_stream :: effective_stream
  u_configured :: bool
  u_demand :: "consumer_type \<Rightarrow> int"
  u_total :: int
  u_fs :: bool
  u_enc :: bool
  u_bound :: bool
  u_fs_enabled :: bool
  u_enc_started :: bool
  u_running :: bool
  u_thread :: bool
  u_quit :: bool
  u_timer :: bool
  u_grace_armed :: bool
  u_seq :: u32
  u_frames :: u32
  u_dropped :: u32
  u_last_win :: measurement
  u_win_start_us :: int
  u_win_frames :: u32
  u_win_bytes :: u64
  u_total_bytes :: u64

definition unit_rec0 :: unit_rec where
  "unit_rec0 = \<lparr>u_stream = effective_stream0, u_configured = False, u_demand = (\<lambda>_. 0), u_total = 0,
     u_fs = False, u_enc = False, u_bound = False, u_fs_enabled = False, u_enc_started = False,
     u_running = False, u_thread = False, u_quit = False, u_timer = False, u_grace_armed = False,
     u_seq = 0, u_frames = 0, u_dropped = 0, u_last_win = measurement0, u_win_start_us = 0,
     u_win_frames = 0, u_win_bytes = 0, u_total_bytes = 0\<rparr>"

record jpeg_unit =
  j_configured :: bool
  j_enabled :: bool
  j_params :: jpeg_params
  j_cache_ms :: int
  j_grace_ms :: int
  j_demand :: int
  j_enc :: bool
  j_timer :: bool
  j_grace_armed :: bool
  j_captures :: u32
  j_failures :: u32
  j_last_capture_ms :: int
  j_cache :: "byte list"
  j_cache_at_us :: int

definition jpeg_unit0 :: jpeg_unit where
  "jpeg_unit0 = \<lparr>j_configured = False, j_enabled = True, j_params = jpeg_params0, j_cache_ms = 300,
     j_grace_ms = 2000, j_demand = 0, j_enc = False, j_timer = False, j_grace_armed = False,
     j_captures = 0, j_failures = 0, j_last_capture_ms = -1, j_cache = [], j_cache_at_us = -1\<rparr>"

record manager =
  m_idle_grace_ms :: int
  m_poll_timeout_ms :: int
  m_units :: "int \<Rightarrow> unit_rec"
  m_jpeg :: jpeg_unit
  m_state :: state
  m_generation :: u32
  m_start_count :: u32
  m_stop_count :: u32
  m_failed_count :: u32
  m_restart_count :: u32
  m_sub_restart_count :: u32
  m_ai_demand :: int
  m_last_error :: string
  m_shutdown :: bool
  m_failed_refused :: bool
  m_sensor_fps_target :: int
  m_listener :: bool
  m_post_start :: bool
  m_log :: "action list"

record demand_handle =
  h_active :: bool
  h_type :: consumer_type
  h_unit :: int

definition no_handle :: demand_handle where
  "no_handle = \<lparr>h_active = False, h_type = Manual, h_unit = UNIT_MAIN\<rparr>"

section \<open>Construction and configuration\<close>

definition manager_new :: "effective_stream \<Rightarrow> int \<Rightarrow> int \<Rightarrow> manager" where
  "manager_new stream idle_grace_ms poll_timeout_ms =
     \<lparr>m_idle_grace_ms = idle_grace_ms, m_poll_timeout_ms = poll_timeout_ms,
      m_units = (\<lambda>_. unit_rec0)(UNIT_MAIN := unit_rec0\<lparr>u_configured := True, u_stream := stream\<rparr>),
      m_jpeg = jpeg_unit0, m_state = ColdIdle, m_generation = 0, m_start_count = 0, m_stop_count = 0,
      m_failed_count = 0, m_restart_count = 0, m_sub_restart_count = 0, m_ai_demand = 0,
      m_last_error = [], m_shutdown = False, m_failed_refused = False, m_sensor_fps_target = -1,
      m_listener = False, m_post_start = False, m_log = []\<rparr>"

definition mlog :: "action list \<Rightarrow> manager \<Rightarrow> manager" where
  "mlog as m = m\<lparr>m_log := m_log m @ as\<rparr>"

definition upd_unit :: "int \<Rightarrow> (unit_rec \<Rightarrow> unit_rec) \<Rightarrow> manager \<Rightarrow> manager" where
  "upd_unit i f m = m\<lparr>m_units := (m_units m)(i := f (m_units m i))\<rparr>"

definition upd_jpeg :: "(jpeg_unit \<Rightarrow> jpeg_unit) \<Rightarrow> manager \<Rightarrow> manager" where
  "upd_jpeg f m = m\<lparr>m_jpeg := f (m_jpeg m)\<rparr>"

definition configure_sub :: "effective_stream \<Rightarrow> bool \<Rightarrow> manager \<Rightarrow> manager" where
  "configure_sub s timer = upd_unit UNIT_SUB (\<lambda>u. u\<lparr>u_configured := True, u_stream := s, u_timer := timer\<rparr>)"

definition set_unit_grace_timer :: "int \<Rightarrow> bool \<Rightarrow> manager \<Rightarrow> manager" where
  "set_unit_grace_timer i timer m =
     (if 0 \<le> i \<and> i \<le> UNIT_SUB then upd_unit i (\<lambda>u. u\<lparr>u_timer := timer\<rparr>) m else m)"

definition configure_jpeg :: "jpeg_params \<Rightarrow> int \<Rightarrow> int \<Rightarrow> bool \<Rightarrow> manager \<Rightarrow> manager" where
  "configure_jpeg p cache_ms grace_ms timer =
     upd_jpeg (\<lambda>j. j\<lparr>j_configured := True, j_params := p, j_cache_ms := cache_ms,
                     j_grace_ms := grace_ms, j_timer := timer\<rparr>)"

section \<open>The media chain\<close>

definition transition :: "state \<Rightarrow> manager \<Rightarrow> manager" where
  "transition to m =
     mlog (if m_listener m then [Notify (m_state m) to] else []) (m\<lparr>m_state := to\<rparr>)"

definition total_all :: "manager \<Rightarrow> int" where
  "total_all m = u_total (m_units m UNIT_MAIN) + u_total (m_units m UNIT_SUB)
                 + j_demand (m_jpeg m) + m_ai_demand m"

definition stop_actions :: "int \<Rightarrow> unit_rec \<Rightarrow> action list" where
  "stop_actions i u =
     (if u_enc u \<and> u_enc_started u then [EncStop i] else [])
     @ (if u_fs u \<and> u_fs_enabled u then [FsDisable i] else [])
     @ (if u_bound u \<and> u_fs u \<and> u_enc u then [Unbind i] else [])
     @ (if u_enc u then [DestroyEnc i] else [])
     @ (if u_fs u then [DestroyFs i] else [])"

definition stop_unit_locked :: "int \<Rightarrow> manager \<Rightarrow> manager" where
  "stop_unit_locked i m =
     upd_unit i (\<lambda>u. u\<lparr>u_quit := True, u_thread := False, u_enc_started := False,
                       u_fs_enabled := False, u_bound := False, u_enc := False, u_fs := False,
                       u_running := False\<rparr>)
       (mlog (stop_actions i (m_units m i)) m)"

definition unit_fail :: "int \<Rightarrow> string \<Rightarrow> int \<Rightarrow> manager \<Rightarrow> bool \<times> manager" where
  "unit_fail i stage code m =
     (False, stop_unit_locked i
        (m\<lparr>m_last_error := unit_name i @ '' '' @ stage @ '' failed ('' @ int_dec code @ '')''\<rparr>))"

text \<open>Overwriting an owned object destroys the old one after the new one was made; that is the
  \<open>DestroyFs\<close>/\<open>DestroyEnc\<close> after a creation.\<close>

definition start_unit_locked :: "int \<Rightarrow> unit_env \<Rightarrow> manager \<Rightarrow> bool \<times> manager" where
  "start_unit_locked i env m =
     (let u = m_units m i in
      if u_running u then (True, m)
      else
      let m = upd_unit i (\<lambda>u. u\<lparr>u_fs := ue_fs env\<rparr>)
                (mlog (CreateFs i (u_stream u) (ue_fs env) # (if u_fs u then [DestroyFs i] else [])) m) in
      if \<not> ue_fs env then unit_fail i ''framesource create'' (-1) m
      else
      let m = upd_unit i (\<lambda>u. u\<lparr>u_enc := ue_enc env\<rparr>)
                (mlog (CreateEnc i (u_stream u) (ue_enc env) # (if u_enc u then [DestroyEnc i] else [])) m) in
      if \<not> ue_enc env then unit_fail i ''encoder create'' (-1) m
      else
      let m = mlog [Bind i (is_ok (ue_bind env))] m in
      if \<not> is_ok (ue_bind env) then unit_fail i ''bind'' (r_code (ue_bind env)) m
      else
      let m = mlog [FsEnable i (is_ok (ue_enable env))] (upd_unit i (\<lambda>u. u\<lparr>u_bound := True\<rparr>) m) in
      if \<not> is_ok (ue_enable env) then unit_fail i ''framesource enable'' (r_code (ue_enable env)) m
      else
      let m = mlog [EncStart i (is_ok (ue_start env))] (upd_unit i (\<lambda>u. u\<lparr>u_fs_enabled := True\<rparr>) m) in
      if \<not> is_ok (ue_start env) then unit_fail i ''encoder start'' (r_code (ue_start env)) m
      else
      (True, upd_unit i (\<lambda>u. u\<lparr>u_enc_started := True, u_quit := False, u_frames := 0, u_dropped := 0,
                u_last_win := measurement0, u_win_start_us := 0, u_win_frames := 0, u_win_bytes := 0,
                u_thread := True, u_running := True\<rparr>) m))"

definition start_jpeg_locked :: "bool \<Rightarrow> manager \<Rightarrow> bool \<times> manager" where
  "start_jpeg_locked created m =
     (if j_enc (m_jpeg m) then (True, m)
      else
      let p0 = j_params (m_jpeg m);
          p = (if jp_width p0 \<le> 0 \<or> jp_height p0 \<le> 0
               then p0\<lparr>jp_width := es_width (u_stream (m_units m UNIT_MAIN)),
                       jp_height := es_height (u_stream (m_units m UNIT_MAIN))\<rparr>
               else p0);
          m = upd_jpeg (\<lambda>j. j\<lparr>j_enc := created\<rparr>) (mlog [CreateJpeg p created] m)
      in if \<not> created then (False, m\<lparr>m_last_error := ''jpeg encoder create failed''\<rparr>) else (True, m))"

definition stop_jpeg_locked :: "manager \<Rightarrow> manager" where
  "stop_jpeg_locked m =
     (if \<not> j_enc (m_jpeg m) then m
      else upd_jpeg (\<lambda>j. j\<lparr>j_enc := False, j_cache := [], j_cache_at_us := -1\<rparr>) (mlog [DestroyJpeg] m))"

definition stop_base_locked :: "manager \<Rightarrow> manager" where
  "stop_base_locked m =
     (let m = stop_unit_locked UNIT_SUB m;
          m = stop_unit_locked UNIT_MAIN m;
          m = stop_jpeg_locked m;
          m = mlog [TearDown] m
      in m\<lparr>m_stop_count := m_stop_count m + 1\<rparr>)"

text \<open>The loop over the units: the requesting unit and every configured unit that still
  holds demand are started, main before sub; the first failure takes everything down again.\<close>

fun start_wanted :: "int list \<Rightarrow> int \<Rightarrow> plat_env \<Rightarrow> manager \<Rightarrow> bool \<times> manager" where
  "start_wanted [] first env m = (True, m)"
| "start_wanted (i # is) first env m =
     (let u = m_units m i;
          wanted = (i = first \<or> (u_configured u \<and> 0 < u_total u))
      in if \<not> wanted \<or> u_running u then start_wanted is first env m
         else case start_unit_locked i (pe_unit env i) m of
                (True, m1) \<Rightarrow> start_wanted is first env m1
              | (False, m1) \<Rightarrow>
                  let m2 = stop_base_locked m1
                  in (False, m2\<lparr>m_failed_count := m_failed_count m2 + 1\<rparr>))"

definition start_base_locked :: "int \<Rightarrow> plat_env \<Rightarrow> manager \<Rightarrow> bool \<times> manager" where
  "start_base_locked first env m =
     (let m = m\<lparr>m_start_count := m_start_count m + 1, m_last_error := []\<rparr>;
          r = pe_bring_up env;
          m = mlog [BringUp (is_ok r)] m
      in if \<not> is_ok r
         then let m = m\<lparr>m_last_error := ''platform bring-up failed ('' @ int_dec (r_code r) @ '')''\<rparr>;
                  m = stop_base_locked m
              in (False, m\<lparr>m_failed_count := m_failed_count m + 1\<rparr>)
         else case start_wanted [UNIT_MAIN, UNIT_SUB] first env m of
                (False, m) \<Rightarrow> (False, m)
              | (True, m) \<Rightarrow>
                  let m = (if 0 < m_sensor_fps_target m then mlog [SetSensorFps (m_sensor_fps_target m)] m else m);
                      m = (if m_post_start m then mlog [PostStart] m else m)
                  in (True, m\<lparr>m_generation := m_generation m + 1\<rparr>))"

section \<open>Demand\<close>

definition ensure_base_locked :: "int \<Rightarrow> plat_env \<Rightarrow> manager \<Rightarrow> bool \<times> manager" where
  "ensure_base_locked i env m =
     (case m_state m of
        Failed \<Rightarrow> (False, m\<lparr>m_failed_refused := True\<rparr>)
      | ColdIdle \<Rightarrow>
          (case start_base_locked i env (transition Starting m) of
             (False, m1) \<Rightarrow> (False, transition Failed m1)
           | (True, m1) \<Rightarrow> (True, transition Active m1))
      | GraceIdle \<Rightarrow> (True, transition Active (mlog [DisarmTimer BaseTimer] m))
      | Active \<Rightarrow> (True, m)
      | Starting \<Rightarrow> (True, m)
      | Stopping \<Rightarrow> (True, m))"

text \<open>Cancel the grace timer of one unit, of the JPEG encoder, of both units.\<close>

definition disarm_unit :: "int \<Rightarrow> manager \<Rightarrow> manager" where
  "disarm_unit i m =
     (if u_grace_armed (m_units m i) \<and> u_timer (m_units m i)
      then upd_unit i (\<lambda>u. u\<lparr>u_grace_armed := False\<rparr>) (mlog [DisarmTimer (UnitTimer i)] m)
      else m)"

definition disarm_jpeg :: "manager \<Rightarrow> manager" where
  "disarm_jpeg m =
     (if j_grace_armed (m_jpeg m) \<and> j_timer (m_jpeg m)
      then upd_jpeg (\<lambda>j. j\<lparr>j_grace_armed := False\<rparr>) (mlog [DisarmTimer JpegTimer] m)
      else m)"

text \<open>The last demand is gone: every per-unit grace is cancelled and the base grace begins.\<close>

definition enter_grace :: "manager \<Rightarrow> manager" where
  "enter_grace m =
     (let m = disarm_unit UNIT_SUB (disarm_unit UNIT_MAIN m);
          m = transition GraceIdle m
      in mlog [ArmTimer BaseTimer (m_idle_grace_ms m)] m)"

text \<open>A unit or JPEG encoder that could not be started must not leave an unused base up.\<close>

definition fail_unused_base :: "manager \<Rightarrow> manager" where
  "fail_unused_base m =
     (if total_all m = 0 \<and> m_state m = Active
      then transition Failed (stop_base_locked (transition Stopping m)) else m)"

definition acquire_unit ::
    "int \<Rightarrow> consumer_type \<Rightarrow> plat_env \<Rightarrow> manager \<Rightarrow> result \<times> demand_handle \<times> manager" where
  "acquire_unit i ty env m =
     (if m_shutdown m \<or> i < 0 \<or> UNIT_SUB < i \<or> \<not> u_configured (m_units m i)
      then (if m_shutdown m then result_busy else result_unsupported, no_handle, m)
      else
      case ensure_base_locked i env m of
        (False, m) \<Rightarrow> (result_error (-1), no_handle, m)
      | (True, m) \<Rightarrow>
          let m = disarm_unit i m;
              (ok, m) = (if u_running (m_units m i) then (True, m)
                         else start_unit_locked i (pe_unit env i) m)
          in if \<not> ok then (result_error (-1), no_handle, fail_unused_base m)
             else (result_ok, \<lparr>h_active = True, h_type = ty, h_unit = i\<rparr>,
                   upd_unit i (\<lambda>u. u\<lparr>u_demand := (u_demand u)(ty := u_demand u ty + 1),
                                     u_total := u_total u + 1\<rparr>) m))"

definition acquire :: "consumer_type \<Rightarrow> plat_env \<Rightarrow> manager \<Rightarrow> result \<times> demand_handle \<times> manager" where
  "acquire ty = acquire_unit UNIT_MAIN ty"

definition acquire_base :: "consumer_type \<Rightarrow> plat_env \<Rightarrow> manager \<Rightarrow> result \<times> demand_handle \<times> manager" where
  "acquire_base ty env m =
     (if m_shutdown m then (result_busy, no_handle, m)
      else
      case ensure_base_locked (-1) env m of
        (False, m) \<Rightarrow> (result_error (-1), no_handle, m)
      | (True, m) \<Rightarrow> (result_ok, \<lparr>h_active = True, h_type = ty, h_unit = UNIT_AI\<rparr>,
                      m\<lparr>m_ai_demand := m_ai_demand m + 1\<rparr>))"

definition drop_ai_demand :: "manager \<Rightarrow> manager" where
  "drop_ai_demand m = (if 0 < m_ai_demand m then m\<lparr>m_ai_demand := m_ai_demand m - 1\<rparr> else m)"

definition drop_unit_demand :: "consumer_type \<Rightarrow> int \<Rightarrow> manager \<Rightarrow> manager" where
  "drop_unit_demand ty i =
     upd_unit i (\<lambda>u. u\<lparr>u_demand := (if 0 < u_demand u ty then (u_demand u)(ty := u_demand u ty - 1)
                                   else u_demand u),
                       u_total := (if 0 < u_total u then u_total u - 1 else u_total u)\<rparr>)"

text \<open>Others still need the base: the unit winds down on its own grace, or at once without a timer.\<close>

definition wind_down_unit :: "int \<Rightarrow> manager \<Rightarrow> manager" where
  "wind_down_unit i m =
     (if u_total (m_units m i) = 0 \<and> u_running (m_units m i) \<and> m_state m = Active
      then if u_timer (m_units m i)
           then upd_unit i (\<lambda>u. u\<lparr>u_grace_armed := True\<rparr>)
                  (mlog [ArmTimer (UnitTimer i) (m_idle_grace_ms m)] m)
           else stop_unit_locked i m
      else m)"

definition release :: "consumer_type \<Rightarrow> int \<Rightarrow> manager \<Rightarrow> manager" where
  "release ty i m =
     (if i = UNIT_AI
      then let m = drop_ai_demand m
           in if \<not> m_shutdown m \<and> total_all m = 0 \<and> m_state m = Active then enter_grace m else m
      else
      let m = drop_unit_demand ty i m
      in if m_shutdown m then m
         else if total_all m = 0 \<and> m_state m = Active then enter_grace m
         else wind_down_unit i m)"

text \<open>\<open>DemandHandle::release\<close>: idempotent, because the first call forgets the manager.\<close>

definition handle_release :: "demand_handle \<Rightarrow> manager \<Rightarrow> demand_handle \<times> manager" where
  "handle_release h m =
     (if \<not> h_active h then (h, m) else (h\<lparr>h_active := False\<rparr>, release (h_type h) (h_unit h) m))"

definition on_grace_timeout :: "manager \<Rightarrow> manager" where
  "on_grace_timeout m =
     (if m_state m \<noteq> GraceIdle \<or> 0 < total_all m then m
      else transition ColdIdle (stop_base_locked (transition Stopping m)))"

definition on_unit_grace :: "int \<Rightarrow> manager \<Rightarrow> manager" where
  "on_unit_grace i m =
     (if i < 0 \<or> UNIT_SUB < i then m
      else let m = upd_unit i (\<lambda>u. u\<lparr>u_grace_armed := False\<rparr>) m
           in if u_total (m_units m i) = 0 \<and> u_running (m_units m i) \<and> m_state m = Active
              then stop_unit_locked i m else m)"

definition on_jpeg_grace :: "manager \<Rightarrow> manager" where
  "on_jpeg_grace m =
     (let m = upd_jpeg (\<lambda>j. j\<lparr>j_grace_armed := False\<rparr>) m
      in if j_demand (m_jpeg m) = 0 \<and> j_enc (m_jpeg m) \<and> m_state m = Active
         then stop_jpeg_locked m else m)"

definition set_jpeg_enabled :: "bool \<Rightarrow> manager \<Rightarrow> manager" where
  "set_jpeg_enabled on m =
     (if j_enabled (m_jpeg m) = on then m
      else let m = upd_jpeg (\<lambda>j. j\<lparr>j_enabled := on\<rparr>) m
           in if \<not> on \<and> j_enc (m_jpeg m) \<and> j_demand (m_jpeg m) = 0 \<and> m_state m = Active
              then stop_jpeg_locked (disarm_jpeg m) else m)"

definition shutdown :: "manager \<Rightarrow> manager" where
  "shutdown m =
     (let m = mlog [DisarmTimer BaseTimer] (m\<lparr>m_shutdown := True\<rparr>);
          m = disarm_jpeg (disarm_unit UNIT_SUB (disarm_unit UNIT_MAIN m))
      in if m_state m = Active \<or> m_state m = GraceIdle
         then transition ColdIdle (stop_base_locked (transition Stopping m)) else m)"

section \<open>Controls\<close>

definition pipeline_running :: "manager \<Rightarrow> bool" where
  "pipeline_running m \<longleftrightarrow> m_state m = Active \<or> m_state m = GraceIdle"

definition update_stream :: "effective_stream \<Rightarrow> bool \<Rightarrow> plat_env \<Rightarrow> manager \<Rightarrow> result \<times> manager" where
  "update_stream s restart_if_running env m =
     (let m = upd_unit UNIT_MAIN (\<lambda>u. u\<lparr>u_stream := s\<rparr>) m
      in if \<not> pipeline_running m \<or> \<not> restart_if_running then (result_ok, m)
         else
         let back = m_state m;
             m = stop_base_locked (transition Stopping m);
             m = transition Starting (m\<lparr>m_restart_count := m_restart_count m + 1\<rparr>)
         in case start_base_locked UNIT_MAIN env m of
              (False, m) \<Rightarrow> (result_error (-1), transition Failed m)
            | (True, m) \<Rightarrow>
                let m = transition back m
                in (result_ok, if back = GraceIdle
                               then mlog [ArmTimer BaseTimer (m_idle_grace_ms m)] m else m))"

definition update_sub_stream ::
    "effective_stream \<Rightarrow> bool \<Rightarrow> plat_env \<Rightarrow> manager \<Rightarrow> result \<times> manager" where
  "update_sub_stream s enabled env m =
     (let u = m_units m UNIT_SUB in
      if \<not> enabled
      then (result_ok, upd_unit UNIT_SUB (\<lambda>u. u\<lparr>u_configured := False\<rparr>)
              (if u_running u then stop_unit_locked UNIT_SUB m else m))
      else if \<not> u_configured u then (result_unsupported, m)
      else
      let m = upd_unit UNIT_SUB (\<lambda>u. u\<lparr>u_stream := s\<rparr>) m
      in if \<not> u_running u then (result_ok, m)
         else
         let m = stop_unit_locked UNIT_SUB m;
             m = m\<lparr>m_sub_restart_count := m_sub_restart_count m + 1\<rparr>
         in case start_unit_locked UNIT_SUB (pe_unit env UNIT_SUB) m of
              (False, m) \<Rightarrow> (result_error (-1), m)
            | (True, m) \<Rightarrow> (result_ok, m))"

text \<open>The live setters. \<open>call\<close> is what the encoder or platform answers: a status and the
  effective value it reports.\<close>

definition live_bitrate :: "int \<Rightarrow> result \<times> int \<Rightarrow> manager \<Rightarrow> result \<times> int \<times> manager" where
  "live_bitrate kbps call m =
     (if \<not> pipeline_running m \<or> \<not> u_enc (m_units m UNIT_MAIN) then (result_busy, -1, m)
      else let (r, effective) = call
           in (r, effective,
               if is_ok r
               then upd_unit UNIT_MAIN (\<lambda>u. u\<lparr>u_stream := (u_stream u)
                      \<lparr>es_bitrate_kbps := (if 0 < effective then effective else kbps)\<rparr>\<rparr>) m
               else m))"

definition live_encoder_fps :: "result \<times> int \<Rightarrow> manager \<Rightarrow> result \<times> int" where
  "live_encoder_fps call m =
     (if \<not> pipeline_running m \<or> \<not> u_enc (m_units m UNIT_MAIN) then (result_busy, -1) else call)"

definition live_sensor_fps :: "result \<times> int \<Rightarrow> manager \<Rightarrow> result \<times> int" where
  "live_sensor_fps call m = (if \<not> pipeline_running m then (result_busy, -1) else call)"

definition read_sensor_fps :: "result \<times> int \<Rightarrow> manager \<Rightarrow> result \<times> int" where
  "read_sensor_fps call m = (if \<not> pipeline_running m then (result_busy, -1) else call)"

definition set_sensor_fps_target :: "int \<Rightarrow> manager \<Rightarrow> manager" where
  "set_sensor_fps_target fps m = m\<lparr>m_sensor_fps_target := fps\<rparr>"

definition live_gop :: "int \<Rightarrow> result \<times> int \<Rightarrow> manager \<Rightarrow> result \<times> int \<times> manager" where
  "live_gop frames call m =
     (if frames < 1 \<or> 1000 < frames then (result_error (-1), -1, m)
      else if \<not> pipeline_running m \<or> \<not> u_enc (m_units m UNIT_MAIN) then (result_busy, -1, m)
      else let (r, effective) = call
           in if is_ok r
              then (r, frames, upd_unit UNIT_MAIN (\<lambda>u. u\<lparr>u_stream := (u_stream u)\<lparr>es_gop := frames\<rparr>\<rparr>) m)
              else (r, effective, m))"

text \<open>\<open>img\<close> is \<open>None\<close> when the platform has no image control.\<close>

definition live_image :: "(result \<times> int) option \<Rightarrow> manager \<Rightarrow> result \<times> int" where
  "live_image img m =
     (if \<not> pipeline_running m then (result_busy, -1)
      else case img of Some call \<Rightarrow> call | None \<Rightarrow> (result_unsupported, -1))"

definition request_idr :: "int \<Rightarrow> manager \<Rightarrow> manager" where
  "request_idr i m =
     (if i < 0 \<or> UNIT_SUB < i then m
      else if pipeline_running m \<and> u_enc (m_units m i) then mlog [RequestIdr i] m else m)"

section \<open>Snapshots\<close>

text \<open>The first critical section. \<open>Some (r, err)\<close> is an early return.\<close>

definition snapshot_begin :: "plat_env \<Rightarrow> manager \<Rightarrow> (result \<times> string) option \<times> manager" where
  "snapshot_begin env m =
     (if m_shutdown m then (Some (result_busy, ''shutting down''), m)
      else if \<not> j_configured (m_jpeg m)
      then (Some (result_unsupported, ''jpeg not configured on this platform''), m)
      else if \<not> j_enabled (m_jpeg m)
      then (Some (result_unsupported, ''jpeg snapshots are disabled (jpeg.enabled=false)''), m)
      else
      case ensure_base_locked UNIT_JPEG env m of
        (False, m) \<Rightarrow> (Some (result_error (-1), m_last_error m), m)
      | (True, m) \<Rightarrow>
          let m = disarm_jpeg m;
              (ok, m) = (if j_enc (m_jpeg m) then (True, m) else start_jpeg_locked (pe_create_jpeg env) m)
          in if \<not> ok then (Some (result_error (-1), m_last_error m), fail_unused_base m)
             else (None, upd_jpeg (\<lambda>j. j\<lparr>j_demand := j_demand j + 1\<rparr>) m))"

text \<open>The capture, outside the manager lock. \<open>now\<close>, \<open>t0\<close>, \<open>t1\<close> and
  \<open>t2\<close> are the successive readings of the monotonic clock, \<open>call\<close> the encoder's
  answer.\<close>

definition snapshot_capture ::
    "int \<Rightarrow> int \<Rightarrow> int \<Rightarrow> int \<Rightarrow> int \<Rightarrow> result \<times> byte list \<Rightarrow> manager \<Rightarrow> result \<times> byte list \<times> string \<times> manager" where
  "snapshot_capture max_age_ms now t0 t1 t2 call m =
     (let j = m_jpeg m;
          max_age_us = (if 0 \<le> max_age_ms then max_age_ms else j_cache_ms j) * 1000;
          fresh = (0 < j_cache_at_us j \<and> now - j_cache_at_us j < max_age_us \<and> j_cache j \<noteq> [])
      in if fresh then (result_ok, j_cache j, [], m)
         else
         let (r, out) = (if j_enc j then call else (result_busy, []));
             m = upd_jpeg (\<lambda>j. j\<lparr>j_last_capture_ms := (t1 - t0) div 1000\<rparr>) m
         in if is_ok r
            then (r, out, [], upd_jpeg (\<lambda>j. j\<lparr>j_captures := j_captures j + 1, j_cache := out,
                                             j_cache_at_us := t2\<rparr>) m)
            else (r, out, ''jpeg capture failed'',
                  upd_jpeg (\<lambda>j. j\<lparr>j_failures := j_failures j + 1\<rparr>) m))"

definition drop_jpeg_demand :: "manager \<Rightarrow> manager" where
  "drop_jpeg_demand =
     upd_jpeg (\<lambda>j. j\<lparr>j_demand := (if 0 < j_demand j then j_demand j - 1 else j_demand j)\<rparr>)"

definition wind_down_jpeg :: "manager \<Rightarrow> manager" where
  "wind_down_jpeg m =
     (if j_demand (m_jpeg m) = 0 \<and> j_enc (m_jpeg m) \<and> m_state m = Active
      then if j_timer (m_jpeg m)
           then upd_jpeg (\<lambda>j. j\<lparr>j_grace_armed := True\<rparr>)
                  (mlog [ArmTimer JpegTimer (j_grace_ms (m_jpeg m))] m)
           else stop_jpeg_locked m
      else m)"

definition snapshot_end :: "manager \<Rightarrow> manager" where
  "snapshot_end m =
     (let m = drop_jpeg_demand m
      in if m_shutdown m then m
         else if total_all m = 0 \<and> m_state m = Active then enter_grace m
         else wind_down_jpeg m)"

text \<open>The whole method when nothing else runs in between.\<close>

definition snapshot ::
    "int \<Rightarrow> int \<Rightarrow> int \<Rightarrow> int \<Rightarrow> int \<Rightarrow> plat_env \<Rightarrow> result \<times> byte list \<Rightarrow> manager \<Rightarrow> result \<times> byte list \<times> string \<times> manager" where
  "snapshot max_age_ms now t0 t1 t2 env call m =
     (case snapshot_begin env m of
        (Some (r, err), m) \<Rightarrow> (r, [], err, m)
      | (None, m) \<Rightarrow>
          let (r, out, err, m) = snapshot_capture max_age_ms now t0 t1 t2 call m
          in (r, out, err, snapshot_end m))"

text \<open>The retry loop of \<open>snap_nv12\<close>: each attempt is the frame source's answer and the
  clock after it; \<open>None\<close> means that the attempts listed do not end the loop.\<close>

fun snap_loop :: "int \<Rightarrow> int \<Rightarrow> (result \<times> byte list \<times> int) list \<Rightarrow> manager \<Rightarrow> (result \<times> byte list \<times> string) option" where
  "snap_loop i until [] m = None"
| "snap_loop i until ((r, out, t) # as) m =
     (if \<not> u_fs (m_units m i) \<or> \<not> u_running (m_units m i) then Some (result_busy, [], ''stream stopped'')
      else if is_ok r then Some (r, out, [])
      else if r_status r = Unsupported then Some (r, out, ''this platform cannot hand out raw frames'')
      else if until \<le> t then Some (r, out, ''frame capture failed'')
      else snap_loop i until as m)"

definition snap_nv12 ::
    "int \<Rightarrow> plat_env \<Rightarrow> int \<Rightarrow> int \<Rightarrow> (result \<times> byte list \<times> int) list \<Rightarrow> manager
     \<Rightarrow> (result \<times> byte list \<times> string) option \<times> manager" where
  "snap_nv12 i env t0 timeout_ms attempts m =
     (if i \<noteq> UNIT_MAIN \<and> i \<noteq> UNIT_SUB then (Some (result_unsupported, [], ''no such unit''), m)
      else
      let (ar, d, m) = acquire_unit i Snapshot env m
      in if \<not> h_active d
         then (Some (if is_ok ar then result_error (-1) else ar, [],
                 if r_status ar = Unsupported then ''stream not configured'' else ''pipeline start failed''),
               snd (handle_release d m))
         else (snap_loop i (t0 + timeout_ms * 1000) attempts m, snd (handle_release d m)))"

section \<open>Readouts\<close>

record stats =
  st_state :: state
  st_total_demand :: int
  st_demand :: "consumer_type \<Rightarrow> int"
  st_unit_demand :: "int list"
  st_unit_active :: "bool list"
  st_generation :: u32
  st_start_count :: u32
  st_stop_count :: u32
  st_failed_count :: u32
  st_restart_count :: u32
  st_sub_restart_count :: u32
  st_last_error :: string
  st_frames_this_run :: u32
  st_total_bytes :: "u64 list"
  st_jpeg_captures :: u32
  st_jpeg_failures :: u32
  st_jpeg_last_capture_ms :: int

definition stats :: "manager \<Rightarrow> stats" where
  "stats m = \<lparr>st_state = m_state m, st_total_demand = total_all m,
     st_demand = u_demand (m_units m UNIT_MAIN),
     st_unit_demand = [u_total (m_units m UNIT_MAIN), u_total (m_units m UNIT_SUB),
                       j_demand (m_jpeg m), m_ai_demand m],
     st_unit_active = [u_running (m_units m UNIT_MAIN), u_running (m_units m UNIT_SUB),
                       j_enc (m_jpeg m), 0 < m_ai_demand m],
     st_generation = m_generation m, st_start_count = m_start_count m, st_stop_count = m_stop_count m,
     st_failed_count = m_failed_count m, st_restart_count = m_restart_count m,
     st_sub_restart_count = m_sub_restart_count m, st_last_error = m_last_error m,
     st_frames_this_run = u_frames (m_units m UNIT_MAIN),
     st_total_bytes = [u_total_bytes (m_units m UNIT_MAIN), u_total_bytes (m_units m UNIT_SUB), 0, 0],
     st_jpeg_captures = j_captures (m_jpeg m), st_jpeg_failures = j_failures (m_jpeg m),
     st_jpeg_last_capture_ms = j_last_capture_ms (m_jpeg m)\<rparr>"

definition measurement_unit :: "int \<Rightarrow> manager \<Rightarrow> measurement" where
  "measurement_unit i m =
     (if i < 0 \<or> UNIT_SUB < i then measurement0
      else (u_last_win (m_units m i))\<lparr>ms_dropped_frames := u_dropped (m_units m i)\<rparr>)"

definition stream_unit :: "int \<Rightarrow> manager \<Rightarrow> effective_stream" where
  "stream_unit i m = (if i < 0 \<or> UNIT_SUB < i then effective_stream0 else u_stream (m_units m i))"

definition unit_configured :: "int \<Rightarrow> manager \<Rightarrow> bool" where
  "unit_configured i m =
     (if i = UNIT_JPEG then j_configured (m_jpeg m) \<and> j_enabled (m_jpeg m)
      else 0 \<le> i \<and> i \<le> UNIT_SUB \<and> u_configured (m_units m i))"

definition unit_active :: "int \<Rightarrow> manager \<Rightarrow> bool" where
  "unit_active i m =
     (if i = UNIT_JPEG then j_enc (m_jpeg m)
      else if i = UNIT_AI then 0 < m_ai_demand m
      else 0 \<le> i \<and> i \<le> UNIT_SUB \<and> u_running (m_units m i))"

section \<open>The capture thread\<close>

text \<open>One pass of the capture loop. The environment says which pool slots are still referenced, what
  the encoder's \<open>fetch\<close> answered, and the clock readings. The unit, its pool and its hub are what the pass
  changes; the log lines of the code are not modelled.\<close>

record fetch_env =
  fe_busy :: "nat \<Rightarrow> bool"
  fe_result :: result
  fe_au :: access_unit
  fe_mono_us :: int
  fe_platform_us :: int
  fe_hub_us :: int

record capture_state =
  cs_unit :: unit_rec
  cs_pool :: au_pool
  cs_hub :: hub

definition window_frame :: "access_unit \<Rightarrow> unit_rec \<Rightarrow> unit_rec" where
  "window_frame au u =
     (let u = (if u_win_start_us u = 0 then u\<lparr>u_win_start_us := au_pts_us au\<rparr> else u);
          n = of_nat (length (au_data au));
          u = u\<lparr>u_win_frames := u_win_frames u + 1, u_win_bytes := u_win_bytes u + n,
                u_total_bytes := u_total_bytes u + n\<rparr>;
          span = au_pts_us au - u_win_start_us u
      in if 1000000 \<le> span
         then u\<lparr>u_last_win := (u_last_win u)\<lparr>ms_valid := True,
                  ms_encoded_fps := rat_of_nat (unat (u_win_frames u)) * 1000000 / rat_of_int span,
                  ms_bitrate_kbps := rat_of_nat (unat (u_win_bytes u)) * 8 / 1000 * 1000000 / rat_of_int span\<rparr>,
                u_win_start_us := au_pts_us au, u_win_frames := 0, u_win_bytes := 0\<rparr>
         else u)"

definition capture_pass :: "fetch_env \<Rightarrow> capture_state \<Rightarrow> capture_state" where
  "capture_pass e c =
     (case pool_acquire (fe_busy e) (cs_pool c) of
        (None, pool) \<Rightarrow>
          c\<lparr>cs_pool := pool,
            cs_unit := (if is_ok (fe_result e) then (cs_unit c)\<lparr>u_dropped := u_dropped (cs_unit c) + 1\<rparr>
                        else cs_unit c)\<rparr>
      | (Some slot, pool) \<Rightarrow>
          let c = c\<lparr>cs_pool := pool\<rparr>
          in if r_status (fe_result e) = Timeout then c
             else if \<not> is_ok (fe_result e) then c
             else
             let u = cs_unit c;
                 au = (fe_au e)\<lparr>au_fetched_us := fe_mono_us e, au_seq := u_seq u\<rparr>;
                 hb = (if 0 < au_pts_us au \<and> au_pts_us au \<le> fe_platform_us e
                        then (cs_hub c)\<lparr>hub_lat := record_capture_to_out (fe_hub_us e)
                                (fe_platform_us e - au_pts_us au) (hub_lat (cs_hub c))\<rparr>
                        else cs_hub c);
                 u = window_frame au (u\<lparr>u_seq := u_seq u + 1, u_frames := u_frames u + 1\<rparr>)
             in c\<lparr>cs_unit := u, cs_hub := hub_publish au hb\<rparr>)"

text \<open>The loop runs until \<open>stop_unit_locked\<close> sets \<open>quit\<close>; a run is the list of its passes.\<close>

definition capture_loop :: "fetch_env list \<Rightarrow> capture_state \<Rightarrow> capture_state" where
  "capture_loop es c = fold (\<lambda>e c. if u_quit (cs_unit c) then c else capture_pass e c) es c"

end
