(* ===== verification/Lifecycle_Inv.thy ===== *)
theory Lifecycle_Inv
  imports Lifecycle
begin

text \<open>
  Invariants of the pipeline manager. First what each primitive of the media chain
  leaves alone and what it achieves, then the manager together with its live demand
  handles and in-flight snapshots as one system with a step per public method, and the invariants
  of every reachable state: which resources exist in which state, that the counters equal the
  live handles, and that no method leaves the state \<open>Failed\<close>.
\<close>

section \<open>Projections of the small updates\<close>

lemma mlog_simps [simp]:
  "m_units (mlog as m) = m_units m" "m_jpeg (mlog as m) = m_jpeg m" "m_state (mlog as m) = m_state m"
  "m_ai_demand (mlog as m) = m_ai_demand m" "m_shutdown (mlog as m) = m_shutdown m"
  "m_listener (mlog as m) = m_listener m" "m_log (mlog as m) = m_log m @ as"
  "m_idle_grace_ms (mlog as m) = m_idle_grace_ms m" "m_last_error (mlog as m) = m_last_error m"
  "m_sensor_fps_target (mlog as m) = m_sensor_fps_target m" "m_post_start (mlog as m) = m_post_start m"
  "m_generation (mlog as m) = m_generation m" "m_start_count (mlog as m) = m_start_count m"
  "m_stop_count (mlog as m) = m_stop_count m" "m_failed_count (mlog as m) = m_failed_count m"
  by (simp_all add: mlog_def)

lemma upd_unit_simps [simp]:
  "m_units (upd_unit i f m) = (m_units m)(i := f (m_units m i))"
  "m_jpeg (upd_unit i f m) = m_jpeg m" "m_state (upd_unit i f m) = m_state m"
  "m_ai_demand (upd_unit i f m) = m_ai_demand m" "m_shutdown (upd_unit i f m) = m_shutdown m"
  "m_listener (upd_unit i f m) = m_listener m" "m_log (upd_unit i f m) = m_log m"
  "m_idle_grace_ms (upd_unit i f m) = m_idle_grace_ms m" "m_last_error (upd_unit i f m) = m_last_error m"
  "m_sensor_fps_target (upd_unit i f m) = m_sensor_fps_target m"
  "m_post_start (upd_unit i f m) = m_post_start m"
  "m_generation (upd_unit i f m) = m_generation m" "m_start_count (upd_unit i f m) = m_start_count m"
  "m_stop_count (upd_unit i f m) = m_stop_count m" "m_failed_count (upd_unit i f m) = m_failed_count m"
  by (simp_all add: upd_unit_def)

lemma upd_jpeg_simps [simp]:
  "m_jpeg (upd_jpeg f m) = f (m_jpeg m)"
  "m_units (upd_jpeg f m) = m_units m" "m_state (upd_jpeg f m) = m_state m"
  "m_ai_demand (upd_jpeg f m) = m_ai_demand m" "m_shutdown (upd_jpeg f m) = m_shutdown m"
  "m_listener (upd_jpeg f m) = m_listener m" "m_log (upd_jpeg f m) = m_log m"
  "m_idle_grace_ms (upd_jpeg f m) = m_idle_grace_ms m" "m_last_error (upd_jpeg f m) = m_last_error m"
  by (simp_all add: upd_jpeg_def)

lemma transition_simps [simp]:
  "m_state (transition to m) = to"
  "m_units (transition to m) = m_units m" "m_jpeg (transition to m) = m_jpeg m"
  "m_ai_demand (transition to m) = m_ai_demand m" "m_shutdown (transition to m) = m_shutdown m"
  "m_idle_grace_ms (transition to m) = m_idle_grace_ms m" "m_last_error (transition to m) = m_last_error m"
  by (simp_all add: transition_def)

section \<open>What the media chain leaves alone\<close>

text \<open>\<open>keeps m m'\<close>: no demand counter, no configuration and not the shutdown flag differ.\<close>

definition keeps :: "manager \<Rightarrow> manager \<Rightarrow> bool" where
  "keeps m m' \<longleftrightarrow>
     (\<forall>i. u_total (m_units m' i) = u_total (m_units m i)
        \<and> u_demand (m_units m' i) = u_demand (m_units m i)
        \<and> u_configured (m_units m' i) = u_configured (m_units m i)
        \<and> u_timer (m_units m' i) = u_timer (m_units m i))
     \<and> j_demand (m_jpeg m') = j_demand (m_jpeg m)
     \<and> m_ai_demand m' = m_ai_demand m \<and> m_shutdown m' = m_shutdown m"

lemma keeps_refl [simp]: "keeps m m"
  by (simp add: keeps_def)

lemma keeps_trans: "keeps a b \<Longrightarrow> keeps b c \<Longrightarrow> keeps a c"
  by (simp add: keeps_def)

lemma keeps_total_all: "keeps m m' \<Longrightarrow> total_all m' = total_all m"
  by (simp add: keeps_def total_all_def)

lemma keeps_totals:
  "keeps m m' \<Longrightarrow> u_total (m_units m' i) = u_total (m_units m i)"
  "keeps m m' \<Longrightarrow> u_demand (m_units m' i) = u_demand (m_units m i)"
  "keeps m m' \<Longrightarrow> u_configured (m_units m' i) = u_configured (m_units m i)"
  "keeps m m' \<Longrightarrow> j_demand (m_jpeg m') = j_demand (m_jpeg m)"
  "keeps m m' \<Longrightarrow> m_ai_demand m' = m_ai_demand m"
  "keeps m m' \<Longrightarrow> m_shutdown m' = m_shutdown m"
  by (simp_all add: keeps_def)

lemma keeps_mlog [simp]: "keeps m (mlog as m') \<longleftrightarrow> keeps m m'"
  by (simp add: keeps_def)

lemma keeps_transition [simp]: "keeps m (transition to m') \<longleftrightarrow> keeps m m'"
  by (simp add: keeps_def)

lemma keeps_record [simp]:
  "keeps m (m'\<lparr>m_last_error := e\<rparr>) \<longleftrightarrow> keeps m m'"
  "keeps m (m'\<lparr>m_stop_count := n\<rparr>) \<longleftrightarrow> keeps m m'"
  "keeps m (m'\<lparr>m_start_count := n\<rparr>) \<longleftrightarrow> keeps m m'"
  "keeps m (m'\<lparr>m_failed_count := n\<rparr>) \<longleftrightarrow> keeps m m'"
  "keeps m (m'\<lparr>m_restart_count := n\<rparr>) \<longleftrightarrow> keeps m m'"
  "keeps m (m'\<lparr>m_sub_restart_count := n\<rparr>) \<longleftrightarrow> keeps m m'"
  "keeps m (m'\<lparr>m_generation := n\<rparr>) \<longleftrightarrow> keeps m m'"
  "keeps m (m'\<lparr>m_failed_refused := b\<rparr>) \<longleftrightarrow> keeps m m'"
  by (simp_all add: keeps_def)

text \<open>A unit owns all of its resources while it runs and none otherwise.\<close>

definition unit_ok :: "unit_rec \<Rightarrow> bool" where
  "unit_ok u \<longleftrightarrow> u_fs u = u_running u \<and> u_enc u = u_running u \<and> u_bound u = u_running u
     \<and> u_fs_enabled u = u_running u \<and> u_enc_started u = u_running u \<and> u_thread u = u_running u"

lemma stop_unit_state [simp]:
  "m_state (stop_unit_locked i m) = m_state m" "m_jpeg (stop_unit_locked i m) = m_jpeg m"
  by (simp_all add: stop_unit_locked_def)

lemma stop_unit_other [simp]: "k \<noteq> i \<Longrightarrow> m_units (stop_unit_locked i m) k = m_units m k"
  by (simp add: stop_unit_locked_def)

lemma stop_unit_this [simp]:
  "\<not> u_running (m_units (stop_unit_locked i m) i)" "unit_ok (m_units (stop_unit_locked i m) i)"
  by (simp_all add: stop_unit_locked_def unit_ok_def)

lemma stop_unit_keeps [simp]: "keeps m (stop_unit_locked i m)"
  by (simp add: keeps_def stop_unit_locked_def)

lemma stop_unit_grace [simp]:
  "u_grace_armed (m_units (stop_unit_locked i m) k) = u_grace_armed (m_units m k)"
  by (simp add: stop_unit_locked_def)

lemma stop_jpeg_simps [simp]:
  "m_units (stop_jpeg_locked m) = m_units m" "m_state (stop_jpeg_locked m) = m_state m"
  "\<not> j_enc (m_jpeg (stop_jpeg_locked m))"
  by (simp_all add: stop_jpeg_locked_def)

lemma stop_jpeg_keeps [simp]: "keeps m (stop_jpeg_locked m)"
  by (simp add: keeps_def stop_jpeg_locked_def)

lemma stop_base_simps [simp]:
  "m_state (stop_base_locked m) = m_state m"
  "\<not> u_running (m_units (stop_base_locked m) UNIT_MAIN)"
  "\<not> u_running (m_units (stop_base_locked m) UNIT_SUB)"
  "unit_ok (m_units (stop_base_locked m) UNIT_MAIN)"
  "unit_ok (m_units (stop_base_locked m) UNIT_SUB)"
  "\<not> j_enc (m_jpeg (stop_base_locked m))"
  by (simp_all add: stop_base_locked_def Let_def)

lemma stop_base_keeps [simp]: "keeps m (stop_base_locked m)"
  by (simp add: stop_base_locked_def Let_def)
    (meson keeps_trans stop_unit_keeps stop_jpeg_keeps)

lemma keeps_stop_base [intro]: "keeps m m' \<Longrightarrow> keeps m (stop_base_locked m')"
  using keeps_trans stop_base_keeps by blast

lemma unit_fail_spec:
  "unit_fail i stage code m = (ok, m') \<Longrightarrow>
   \<not> ok \<and> m_state m' = m_state m \<and> m_jpeg m' = m_jpeg m \<and> keeps m m' \<and>
   (\<forall>k. k \<noteq> i \<longrightarrow> m_units m' k = m_units m k) \<and>
   unit_ok (m_units m' i) \<and> \<not> u_running (m_units m' i) \<and>
   u_grace_armed (m_units m' i) = u_grace_armed (m_units m i)"
  by (auto simp: unit_fail_def keeps_def stop_unit_locked_def unit_ok_def split: if_splits)

text \<open>Starting a unit: it either runs with everything it needs or owns nothing at all.\<close>

definition start_post :: "int \<Rightarrow> manager \<Rightarrow> bool \<Rightarrow> manager \<Rightarrow> bool" where
  "start_post i m ok m' \<longleftrightarrow>
     m_state m' = m_state m \<and> m_jpeg m' = m_jpeg m \<and> keeps m m' \<and>
     (\<forall>k. k \<noteq> i \<longrightarrow> m_units m' k = m_units m k) \<and>
     unit_ok (m_units m' i) \<and> u_running (m_units m' i) = ok \<and>
     u_grace_armed (m_units m' i) = u_grace_armed (m_units m i)"

lemma unit_fail_post:
  assumes "unit_fail i stage code m' = (ok, m'')"
    and "m_state m' = m_state m" and "m_jpeg m' = m_jpeg m" and "keeps m m'"
    and "\<forall>k. k \<noteq> i \<longrightarrow> m_units m' k = m_units m k"
    and "u_grace_armed (m_units m' i) = u_grace_armed (m_units m i)"
  shows "start_post i m ok m''"
  using unit_fail_spec [OF assms(1)] assms(2-) keeps_trans by (auto simp: start_post_def)

lemma start_unit_post:
  assumes "start_unit_locked i env m = (ok, m')" and "unit_ok (m_units m i)"
  shows "start_post i m ok m'"
  using assms
  by (auto simp: start_unit_locked_def Let_def split: if_splits elim!: unit_fail_post)
    (auto simp: start_post_def unit_ok_def keeps_def)

lemma start_jpeg_spec:
  "start_jpeg_locked c m = (ok, m') \<Longrightarrow>
   m_state m' = m_state m \<and> m_units m' = m_units m \<and> keeps m m' \<and> j_enc (m_jpeg m') = ok"
  by (auto simp: start_jpeg_locked_def Let_def keeps_def split: if_splits)

definition units_ok :: "manager \<Rightarrow> bool" where
  "units_ok m \<longleftrightarrow> unit_ok (m_units m UNIT_MAIN) \<and> unit_ok (m_units m UNIT_SUB)"

definition all_stopped :: "manager \<Rightarrow> bool" where
  "all_stopped m \<longleftrightarrow> \<not> u_running (m_units m UNIT_MAIN) \<and> \<not> u_running (m_units m UNIT_SUB)
     \<and> \<not> j_enc (m_jpeg m)"

lemma stop_base_stopped [simp]: "all_stopped (stop_base_locked m)" "units_ok (stop_base_locked m)"
  by (simp_all add: all_stopped_def units_ok_def)

definition base_post :: "manager \<Rightarrow> bool \<Rightarrow> manager \<Rightarrow> bool" where
  "base_post m ok m' \<longleftrightarrow> m_state m' = m_state m \<and> keeps m m' \<and> units_ok m' \<and> (\<not> ok \<longrightarrow> all_stopped m')"

lemma base_post_stop: "keeps m m' \<Longrightarrow> m_state m' = m_state m \<Longrightarrow> base_post m False (stop_base_locked m')"
  by (auto simp: base_post_def)

lemma base_post_record [simp]:
  "base_post m ok (m'\<lparr>m_failed_count := n\<rparr>) \<longleftrightarrow> base_post m ok m'"
  "base_post m ok (m'\<lparr>m_generation := n\<rparr>) \<longleftrightarrow> base_post m ok m'"
  "base_post m ok (mlog as m') \<longleftrightarrow> base_post m ok m'"
  by (simp_all add: base_post_def units_ok_def all_stopped_def)

lemma start_wanted_post:
  "start_wanted is first env m = (ok, m') \<Longrightarrow> set is \<subseteq> {UNIT_MAIN, UNIT_SUB} \<Longrightarrow> units_ok m \<Longrightarrow>
   base_post m ok m'"
proof (induction "is" first env m rule: start_wanted.induct)
  case (1 first env m)
  then show ?case by (auto simp: base_post_def)
next
  case (2 i "is" first env m)
  let ?wanted = "i = first \<or> u_configured (m_units m i) \<and> 0 < u_total (m_units m i)"
  show ?case
  proof (cases "\<not> ?wanted \<or> u_running (m_units m i)")
    case True
    with "2.prems" "2.IH"(1) [OF refl refl True] show ?thesis by (auto simp: Let_def)
  next
    case False
    obtain ok1 m1 where s: "start_unit_locked i (pe_unit env i) m = (ok1, m1)"
      by (cases "start_unit_locked i (pe_unit env i) m")
    from "2.prems"(2,3) have "unit_ok (m_units m i)" by (auto simp: units_ok_def)
    from start_unit_post [OF s this] have p: "start_post i m ok1 m1" .
    then have u1: "units_ok m1"
      using "2.prems"(2,3) by (auto simp: start_post_def units_ok_def)
    show ?thesis
    proof (cases ok1)
      case True
      with False s "2.prems" have "start_wanted is first env m1 = (ok, m')"
        by (auto simp: Let_def split: if_splits)
      with "2.IH"(2) [OF refl refl False s [symmetric]] True u1 "2.prems"(2)
      have "base_post m1 ok m'" by simp
      with p show ?thesis by (auto simp: base_post_def start_post_def intro: keeps_trans)
    next
      case failed: False
      with False s "2.prems"(1) have "\<not> ok"
        and m': "m' = (let m2 = stop_base_locked m1 in m2\<lparr>m_failed_count := m_failed_count m2 + 1\<rparr>)"
        by (auto simp: Let_def split: if_splits)
      with p show ?thesis by (auto simp: Let_def start_post_def intro: base_post_stop)
    qed
  qed
qed

lemma start_base_post:
  assumes "start_base_locked first env m = (ok, m')" and "units_ok m"
  shows "base_post m ok m'"
proof -
  let ?m1 = "mlog [BringUp (is_ok (pe_bring_up env))] (m\<lparr>m_start_count := m_start_count m + 1, m_last_error := []\<rparr>)"
  have k1: "keeps m ?m1" "m_state ?m1 = m_state m" "units_ok ?m1"
    using assms(2) by (simp_all add: keeps_def units_ok_def)
  show ?thesis
  proof (cases "is_ok (pe_bring_up env)")
    case False
    with assms(1) k1 show ?thesis
      by (auto simp: start_base_locked_def Let_def intro!: base_post_stop)
  next
    case True
    obtain ok2 m2 where w: "start_wanted [UNIT_MAIN, UNIT_SUB] first env ?m1 = (ok2, m2)"
      by (cases "start_wanted [UNIT_MAIN, UNIT_SUB] first env ?m1")
    from start_wanted_post [OF w _ k1(3)] have "base_post ?m1 ok2 m2" by simp
    then have "base_post m ok2 m2"
      using keeps_trans [OF k1(1), of m2] k1(2) by (auto simp: base_post_def)
    with True w assms(1) show ?thesis
      by (auto simp: start_base_locked_def Let_def split: bool.splits if_splits)
  qed
qed

section \<open>The invariant of the manager\<close>

definition demand_nonneg :: "manager \<Rightarrow> bool" where
  "demand_nonneg m \<longleftrightarrow> 0 \<le> u_total (m_units m UNIT_MAIN) \<and> 0 \<le> u_total (m_units m UNIT_SUB)
     \<and> 0 \<le> j_demand (m_jpeg m) \<and> 0 \<le> m_ai_demand m"

definition lc_inv :: "manager \<Rightarrow> bool" where
  "lc_inv m \<longleftrightarrow> units_ok m \<and> m_state m \<noteq> Starting \<and> m_state m \<noteq> Stopping
     \<and> (m_state m = ColdIdle \<or> m_state m = Failed \<longrightarrow> all_stopped m)
     \<and> (m_shutdown m \<longrightarrow> m_state m = ColdIdle \<or> m_state m = Failed)
     \<and> (\<not> m_shutdown m \<longrightarrow>
          (m_state m = Active \<longrightarrow> 0 < total_all m)
          \<and> (m_state m = ColdIdle \<or> m_state m = GraceIdle \<longrightarrow> total_all m = 0))"

text \<open>The base is up for a request, whose demand is not yet counted.\<close>

definition ready :: "manager \<Rightarrow> bool" where
  "ready m \<longleftrightarrow> units_ok m \<and> m_state m = Active \<and> \<not> m_shutdown m"

lemma ready_lc_inv: "ready m \<Longrightarrow> 0 < total_all m \<Longrightarrow> lc_inv m"
  by (simp add: ready_def lc_inv_def)

lemma lc_inv_new: "lc_inv (manager_new s g p)"
  by (simp add: lc_inv_def manager_new_def units_ok_def all_stopped_def unit_ok_def unit_rec0_def
      jpeg_unit0_def total_all_def)

lemma keeps_nonneg: "keeps m m' \<Longrightarrow> demand_nonneg m' = demand_nonneg m"
  by (simp add: keeps_def demand_nonneg_def)

lemma total_all_nonneg: "demand_nonneg m \<Longrightarrow> 0 \<le> total_all m"
  by (simp add: demand_nonneg_def total_all_def)

lemma ensure_base_post:
  assumes "ensure_base_locked i env m = (ok, m')" and "lc_inv m" and "\<not> m_shutdown m"
  shows "keeps m m' \<and> (ok \<longrightarrow> ready m') \<and> (\<not> ok \<longrightarrow> lc_inv m' \<and> m_state m' = Failed)"
proof (cases "m_state m")
  case ColdIdle
  obtain ok1 m1 where b: "start_base_locked i env (transition Starting m) = (ok1, m1)"
    by (cases "start_base_locked i env (transition Starting m)")
  have "units_ok (transition Starting m)" using assms(2) by (simp add: lc_inv_def units_ok_def)
  from start_base_post [OF b this] have "base_post (transition Starting m) ok1 m1" .
  then have k: "keeps m m1" "units_ok m1" "\<not> ok1 \<Longrightarrow> all_stopped m1"
    by (auto simp: base_post_def keeps_def)
  from assms(1) ColdIdle b have ok: "ok = ok1" "m' = transition (if ok1 then Active else Failed) m1"
    by (auto simp: ensure_base_locked_def split: bool.splits)
  with k assms(3) keeps_totals(6) [OF k(1)] show ?thesis
    by (auto simp: ready_def lc_inv_def units_ok_def all_stopped_def)
qed (use assms in \<open>auto simp: ensure_base_locked_def lc_inv_def ready_def units_ok_def all_stopped_def\<close>)

lemma disarm_unit_simps [simp]:
  "m_state (disarm_unit i m) = m_state m" "m_jpeg (disarm_unit i m) = m_jpeg m"
  "keeps m (disarm_unit i m)" "u_running (m_units (disarm_unit i m) k) = u_running (m_units m k)"
  "unit_ok (m_units (disarm_unit i m) k) = unit_ok (m_units m k)"
  "m_shutdown (disarm_unit i m) = m_shutdown m" "m_idle_grace_ms (disarm_unit i m) = m_idle_grace_ms m"
  by (auto simp: disarm_unit_def keeps_def unit_ok_def)

lemma disarm_jpeg_simps [simp]:
  "m_state (disarm_jpeg m) = m_state m" "m_units (disarm_jpeg m) = m_units m"
  "keeps m (disarm_jpeg m)" "j_enc (m_jpeg (disarm_jpeg m)) = j_enc (m_jpeg m)"
  "m_shutdown (disarm_jpeg m) = m_shutdown m"
  by (auto simp: disarm_jpeg_def keeps_def)

lemma disarm_unit_ok [simp]:
  "units_ok (disarm_unit i m) = units_ok m" "ready (disarm_unit i m) = ready m"
  "all_stopped (disarm_unit i m) = all_stopped m"
  "total_all (disarm_unit i m) = total_all m" "demand_nonneg (disarm_unit i m) = demand_nonneg m"
  by (auto simp: units_ok_def ready_def all_stopped_def
      keeps_total_all [OF disarm_unit_simps(3)] keeps_nonneg [OF disarm_unit_simps(3)])

lemma disarm_jpeg_ok [simp]:
  "units_ok (disarm_jpeg m) = units_ok m" "ready (disarm_jpeg m) = ready m"
  "all_stopped (disarm_jpeg m) = all_stopped m"
  "total_all (disarm_jpeg m) = total_all m" "demand_nonneg (disarm_jpeg m) = demand_nonneg m"
  by (auto simp: units_ok_def ready_def all_stopped_def
      keeps_total_all [OF disarm_jpeg_simps(3)] keeps_nonneg [OF disarm_jpeg_simps(3)])

lemma enter_grace_inv:
  assumes "units_ok m" and "\<not> m_shutdown m" and "total_all m = 0"
  shows "lc_inv (enter_grace m)" and "keeps m (enter_grace m)" and "m_state (enter_grace m) = GraceIdle"
proof -
  let ?m = "disarm_unit 1 (disarm_unit 0 m)"
  have k: "keeps m ?m" using keeps_trans disarm_unit_simps(3) by blast
  then show "keeps m (enter_grace m)" by (simp add: enter_grace_def Let_def)
  show "m_state (enter_grace m) = GraceIdle" by (simp add: enter_grace_def Let_def)
  have "units_ok (enter_grace m)" "m_shutdown (enter_grace m) = m_shutdown m"
    using assms(1) disarm_unit_ok by (simp_all add: enter_grace_def Let_def units_ok_def)
  moreover have "total_all (enter_grace m) = 0"
    using keeps_total_all [OF \<open>keeps m (enter_grace m)\<close>] assms(3) by simp
  ultimately show "lc_inv (enter_grace m)"
    using assms(2) \<open>m_state (enter_grace m) = GraceIdle\<close> by (simp add: lc_inv_def)
qed

lemma fail_unused_base_inv:
  assumes "ready m" and "demand_nonneg m"
  shows "lc_inv (fail_unused_base m)" and "keeps m (fail_unused_base m)"
proof -
  have k: "keeps m (stop_base_locked (transition Stopping m))"
    using stop_base_keeps [of "transition Stopping m"] by (simp add: keeps_def)
  then show "keeps m (fail_unused_base m)" by (simp add: fail_unused_base_def)
  show "lc_inv (fail_unused_base m)"
  proof (cases "total_all m = 0")
    case True
    with assms keeps_totals(6) [OF k] show ?thesis
      by (simp add: fail_unused_base_def ready_def lc_inv_def units_ok_def all_stopped_def)
  next
    case False
    with total_all_nonneg [OF assms(2)] assms(1) show ?thesis
      by (simp add: fail_unused_base_def ready_lc_inv)
  qed
qed

lemma stop_unit_inv:
  assumes "lc_inv m" and "i = UNIT_MAIN \<or> i = UNIT_SUB"
  shows "lc_inv (stop_unit_locked i m)"
proof -
  have t: "total_all (stop_unit_locked i m) = total_all m" by (rule keeps_total_all) simp
  have d: "m_shutdown (stop_unit_locked i m) = m_shutdown m" by (rule keeps_totals) simp
  have "units_ok (stop_unit_locked i m)"
    using assms by (auto simp: units_ok_def lc_inv_def)
  moreover have "all_stopped m \<Longrightarrow> all_stopped (stop_unit_locked i m)"
    using assms(2) by (auto simp: all_stopped_def)
  ultimately show ?thesis using assms(1) by (auto simp: lc_inv_def t d)
qed

lemma stop_jpeg_inv:
  assumes "lc_inv m"
  shows "lc_inv (stop_jpeg_locked m)"
proof -
  have "total_all (stop_jpeg_locked m) = total_all m" by (rule keeps_total_all) simp
  moreover have "m_shutdown (stop_jpeg_locked m) = m_shutdown m" by (rule keeps_totals) simp
  ultimately show ?thesis using assms by (simp add: lc_inv_def units_ok_def all_stopped_def)
qed

text \<open>An update that touches neither the resources nor the demand keeps the invariant.\<close>

lemma lc_inv_cong:
  assumes "lc_inv m" and "m_state m' = m_state m" and "keeps m m'"
    and "\<And>i. unit_ok (m_units m' i) = unit_ok (m_units m i)"
    and "\<And>i. u_running (m_units m' i) = u_running (m_units m i)"
    and "j_enc (m_jpeg m') = j_enc (m_jpeg m)"
  shows "lc_inv m'"
  using assms keeps_total_all [OF assms(3)] keeps_totals(6) [OF assms(3)]
  by (simp add: lc_inv_def units_ok_def all_stopped_def)

subsection \<open>Every method keeps it\<close>

text \<open>The part of \<open>acquire_unit\<close> after the base is up.\<close>

lemma acquire_start_ready:
  assumes "ready m" and "i = UNIT_MAIN \<or> i = UNIT_SUB"
    and "(if u_running (m_units m i) then (True, m) else start_unit_locked i env m) = (ok, m')"
  shows "ready m' \<and> keeps m m' \<and> (ok \<longrightarrow> u_running (m_units m' i))"
proof (cases "u_running (m_units m i)")
  case True
  with assms show ?thesis by auto
next
  case False
  with assms(3) have s: "start_unit_locked i env m = (ok, m')" by simp
  from assms(1,2) have u: "unit_ok (m_units m i)" by (auto simp: ready_def units_ok_def)
  from start_unit_post [OF s u] assms(1,2) show ?thesis
    by (auto simp: start_post_def ready_def units_ok_def dest: keeps_totals(6))
qed

lemma acquire_unit_cases:
  assumes "acquire_unit i ty env m = (r, h, m')" and "lc_inv m" and "demand_nonneg m"
  obtains (refused) "m' = m" "h = no_handle" "\<not> is_ok r"
  | (failed) "keeps m m'" "lc_inv m'" "h = no_handle" "\<not> is_ok r"
  | (granted) m1 where "keeps m m1" "ready m1" "u_running (m_units m1 i)" "i = UNIT_MAIN \<or> i = UNIT_SUB"
      "r = result_ok" "h = \<lparr>h_active = True, h_type = ty, h_unit = i\<rparr>" "\<not> m_shutdown m"
      "m' = upd_unit i (\<lambda>u. u\<lparr>u_demand := (u_demand u)(ty := u_demand u ty + 1), u_total := u_total u + 1\<rparr>) m1"
proof (cases "m_shutdown m \<or> i < 0 \<or> UNIT_SUB < i \<or> \<not> u_configured (m_units m i)")
  case True
  with assms(1) show ?thesis by (intro refused) (auto simp: acquire_unit_def split: if_splits)
next
  case False
  then have i: "i = UNIT_MAIN \<or> i = UNIT_SUB" and sd: "\<not> m_shutdown m" by auto
  obtain ok1 m1 where e: "ensure_base_locked i env m = (ok1, m1)"
    by (cases "ensure_base_locked i env m")
  note p = ensure_base_post [OF e assms(2) sd]
  show ?thesis
  proof (cases ok1)
    case failed: False
    with False assms(1) e p show ?thesis
      by (intro that(2)) (auto simp: acquire_unit_def)
  next
    case True
    let ?m2 = "disarm_unit i m1"
    obtain ok m3 where s: "(if u_running (m_units ?m2 i) then (True, ?m2)
        else start_unit_locked i (pe_unit env i) ?m2) = (ok, m3)"
      by (metis surj_pair)
    have r2: "ready ?m2" and k2: "keeps m ?m2"
      using p True keeps_trans [OF _ disarm_unit_simps(3)] by auto
    from acquire_start_ready [OF r2 i s] have r3: "ready m3" "ok \<Longrightarrow> u_running (m_units m3 i)"
      and "keeps ?m2 m3" by auto
    with k2 have k3: "keeps m m3" by (blast intro: keeps_trans)
    show ?thesis
    proof (cases ok)
      case True
      with False assms(1) e \<open>ok1\<close> s r3 k3 i sd show ?thesis
        by (intro that(3) [of m3]) (auto simp: acquire_unit_def Let_def split: if_splits)
    next
      case nok: False
      with False assms(1) e \<open>ok1\<close> s
      have "m' = fail_unused_base m3" "h = no_handle" "r = result_error (-1)"
        by (auto simp: acquire_unit_def Let_def split: if_splits)
      moreover have "demand_nonneg m3" using keeps_nonneg [OF k3] assms(3) by simp
      ultimately show ?thesis
        using fail_unused_base_inv [OF r3(1)] keeps_trans [OF k3] by (intro that(2)) auto
    qed
  qed
qed

lemma total_all_inc:
  "i = UNIT_MAIN \<or> i = UNIT_SUB \<Longrightarrow>
   total_all (upd_unit i (\<lambda>u. u\<lparr>u_demand := d u, u_total := u_total u + 1\<rparr>) m) = total_all m + 1"
  by (auto simp: total_all_def)

lemma acquire_unit_inv [step_intros]:
  assumes "acquire_unit i ty env m = (r, h, m')" and "lc_inv m" and "demand_nonneg m"
  shows "lc_inv m'"
  using assms
proof (cases rule: acquire_unit_cases)
  case (granted m1)
  have "0 \<le> total_all m1"
    using keeps_nonneg [OF granted(1)] assms(3) by (auto intro: total_all_nonneg)
  then have "0 < total_all m'" using granted(4,8) by (simp add: total_all_inc)
  moreover have "ready m'" using granted by (auto simp: ready_def units_ok_def unit_ok_def)
  ultimately show ?thesis by (rule ready_lc_inv [rotated])
qed (use assms in auto)

lemma acquire_base_cases:
  assumes "acquire_base ty env m = (r, h, m')" and "lc_inv m"
  obtains (refused) "m' = m" "h = no_handle" "\<not> is_ok r"
  | (failed) "keeps m m'" "lc_inv m'" "h = no_handle" "\<not> is_ok r"
  | (granted) m1 where "keeps m m1" "ready m1" "r = result_ok"
      "h = \<lparr>h_active = True, h_type = ty, h_unit = UNIT_AI\<rparr>" "m' = m1\<lparr>m_ai_demand := m_ai_demand m1 + 1\<rparr>"
proof (cases "m_shutdown m")
  case True
  with assms(1) show ?thesis by (intro refused) (auto simp: acquire_base_def)
next
  case False
  obtain ok1 m1 where e: "ensure_base_locked (-1) env m = (ok1, m1)"
    by (cases "ensure_base_locked (-1) env m")
  note p = ensure_base_post [OF e assms(2) False]
  from False assms(1) e p that show ?thesis
    by (cases ok1) (auto simp: acquire_base_def)
qed

lemma acquire_base_inv [step_intros]:
  assumes "acquire_base ty env m = (r, h, m')" and "lc_inv m" and "demand_nonneg m"
  shows "lc_inv m'"
  using assms(1,2)
proof (cases rule: acquire_base_cases)
  case (granted m1)
  have "0 \<le> total_all m1"
    using keeps_nonneg [OF granted(1)] assms(3) by (auto intro: total_all_nonneg)
  then have "0 < total_all m'" using granted(5) by (simp add: total_all_def)
  moreover have "ready m'" using granted by (auto simp: ready_def units_ok_def)
  ultimately show ?thesis by (rule ready_lc_inv [rotated])
qed (use assms in auto)

text \<open>Losing demand: the common last step of \<open>release\<close> and \<open>snapshot_end\<close>.\<close>

lemma lose_demand_inv:
  assumes "lc_inv m" and "m_state m1 = m_state m" and "m_shutdown m1 = m_shutdown m"
    and "units_ok m1" and "all_stopped m \<Longrightarrow> all_stopped m1"
    and "0 \<le> total_all m1" and "total_all m1 \<le> total_all m"
    and "m_shutdown m1 \<or> \<not> (total_all m1 = 0 \<and> m_state m1 = Active)"
  shows "lc_inv m1"
  using assms by (auto simp: lc_inv_def)

lemma drop_demand_simps [simp]:
  "m_state (drop_ai_demand m) = m_state m" "m_shutdown (drop_ai_demand m) = m_shutdown m"
  "m_state (drop_unit_demand ty i m) = m_state m" "m_shutdown (drop_unit_demand ty i m) = m_shutdown m"
  "m_state (drop_jpeg_demand m) = m_state m" "m_shutdown (drop_jpeg_demand m) = m_shutdown m"
  "units_ok (drop_ai_demand m) = units_ok m" "all_stopped (drop_ai_demand m) = all_stopped m"
  "units_ok (drop_jpeg_demand m) = units_ok m" "all_stopped (drop_jpeg_demand m) = all_stopped m"
  "units_ok (drop_unit_demand ty i m) = units_ok m" "all_stopped (drop_unit_demand ty i m) = all_stopped m"
  by (auto simp: drop_ai_demand_def drop_unit_demand_def drop_jpeg_demand_def units_ok_def all_stopped_def
      unit_ok_def)

lemma drop_demand_totals:
  assumes "demand_nonneg m"
  shows "0 \<le> total_all (drop_ai_demand m)" "total_all (drop_ai_demand m) \<le> total_all m"
    "0 \<le> total_all (drop_unit_demand ty i m)" "total_all (drop_unit_demand ty i m) \<le> total_all m"
    "0 \<le> total_all (drop_jpeg_demand m)" "total_all (drop_jpeg_demand m) \<le> total_all m"
  using assms by (auto simp: drop_ai_demand_def drop_unit_demand_def drop_jpeg_demand_def demand_nonneg_def
      total_all_def)

lemma wind_down_unit_inv:
  assumes "lc_inv m" and "i = UNIT_MAIN \<or> i = UNIT_SUB"
  shows "lc_inv (wind_down_unit i m)"
proof -
  have "lc_inv (upd_unit i (\<lambda>u. u\<lparr>u_grace_armed := True\<rparr>) (mlog as m))" for as
    by (rule lc_inv_cong [OF assms(1)]) (auto simp: keeps_def unit_ok_def)
  with assms stop_unit_inv [OF assms] show ?thesis by (simp add: wind_down_unit_def)
qed

lemma wind_down_jpeg_inv:
  assumes "lc_inv m"
  shows "lc_inv (wind_down_jpeg m)"
proof -
  have "lc_inv (upd_jpeg (\<lambda>j. j\<lparr>j_grace_armed := True\<rparr>) (mlog as m))" for as
    by (rule lc_inv_cong [OF assms(1)]) (auto simp: keeps_def)
  with assms stop_jpeg_inv [OF assms] show ?thesis by (simp add: wind_down_jpeg_def)
qed

lemma wind_down_keeps [simp]: "keeps m (wind_down_unit i m)" "keeps m (wind_down_jpeg m)"
  by (auto simp: wind_down_unit_def wind_down_jpeg_def keeps_def stop_unit_locked_def stop_jpeg_locked_def)

lemma lose_demand_finish:
  assumes "lc_inv m" and "m_state m1 = m_state m" and "m_shutdown m1 = m_shutdown m"
    and "units_ok m1" and "all_stopped m1 = all_stopped m"
    and "0 \<le> total_all m1" and "total_all m1 \<le> total_all m"
    and "lc_inv m1 \<Longrightarrow> lc_inv (wind m1)"
  shows "lc_inv (if m_shutdown m1 then m1 else if total_all m1 = 0 \<and> m_state m1 = Active
     then enter_grace m1 else wind m1)"
proof (cases "\<not> m_shutdown m1 \<and> total_all m1 = 0 \<and> m_state m1 = Active")
  case True
  with assms(4) show ?thesis by (simp add: enter_grace_inv)
next
  case False
  have "lc_inv m1" by (rule lose_demand_inv [OF assms(1)]) (use assms False in auto)
  with False assms(8) show ?thesis by auto
qed

lemma release_inv [step_intros]:
  assumes "lc_inv m" and "demand_nonneg m" and "i = UNIT_MAIN \<or> i = UNIT_SUB \<or> i = UNIT_AI"
  shows "lc_inv (release ty i m)"
proof (cases "i = UNIT_AI")
  case True
  then have "release ty i m = (let m1 = drop_ai_demand m in if m_shutdown m1 then m1
      else if total_all m1 = 0 \<and> m_state m1 = Active then enter_grace m1 else id m1)"
    by (simp add: release_def Let_def)
  with lose_demand_finish [OF assms(1), of "drop_ai_demand m" id] drop_demand_totals [OF assms(2)] assms(1)
  show ?thesis by (simp add: Let_def lc_inv_def)
next
  case False
  with assms(3) have i: "i = UNIT_MAIN \<or> i = UNIT_SUB" by simp
  with False lose_demand_finish [OF assms(1), of "drop_unit_demand ty i m" "wind_down_unit i"]
    drop_demand_totals [OF assms(2)] assms(1) wind_down_unit_inv [OF _ i]
  show ?thesis unfolding release_def Let_def by (simp add: lc_inv_def)
qed

text \<open>Methods that change no demand counter.\<close>

definition same_demand :: "manager \<Rightarrow> manager \<Rightarrow> bool" where
  "same_demand m m' \<longleftrightarrow>
     (\<forall>i. u_total (m_units m' i) = u_total (m_units m i) \<and> u_demand (m_units m' i) = u_demand (m_units m i))
     \<and> j_demand (m_jpeg m') = j_demand (m_jpeg m) \<and> m_ai_demand m' = m_ai_demand m"

lemma keeps_same_demand: "keeps m m' \<Longrightarrow> same_demand m m'"
  by (simp add: keeps_def same_demand_def)

lemma same_demand_trans: "same_demand a b \<Longrightarrow> same_demand b c \<Longrightarrow> same_demand a c"
  by (simp add: same_demand_def)

lemma same_demand_total_all: "same_demand m m' \<Longrightarrow> total_all m' = total_all m"
  by (simp add: same_demand_def total_all_def)

text \<open>\<open>quiet m m'\<close>: the step keeps the invariant and the demand.\<close>

definition quiet :: "manager \<Rightarrow> manager \<Rightarrow> bool" where
  "quiet m m' \<longleftrightarrow> lc_inv m' \<and> same_demand m m'"

lemma quietI_cong:
  assumes "lc_inv m" and "m_state m' = m_state m" and "same_demand m m'" and "m_shutdown m' = m_shutdown m"
    and "\<And>i. unit_ok (m_units m' i) = unit_ok (m_units m i)"
    and "\<And>i. u_running (m_units m' i) = u_running (m_units m i)"
    and "j_enc (m_jpeg m') = j_enc (m_jpeg m)"
  shows "quiet m m'"
  using assms same_demand_total_all [OF assms(3)]
  by (simp add: quiet_def lc_inv_def units_ok_def all_stopped_def)

lemma quiet_refl: "lc_inv m \<Longrightarrow> quiet m m"
  by (simp add: quiet_def same_demand_def)

lemma quiet_trans: "quiet a b \<Longrightarrow> (lc_inv b \<Longrightarrow> quiet b c) \<Longrightarrow> quiet a c"
  by (auto simp: quiet_def intro: same_demand_trans)

lemma quiet_stop_unit: "lc_inv m \<Longrightarrow> i = UNIT_MAIN \<or> i = UNIT_SUB \<Longrightarrow> quiet m (stop_unit_locked i m)"
  by (auto simp: quiet_def stop_unit_inv keeps_same_demand)

lemma quiet_stop_jpeg: "lc_inv m \<Longrightarrow> quiet m (stop_jpeg_locked m)"
  by (auto simp: quiet_def stop_jpeg_inv keeps_same_demand)

text \<open>Taking the base down and ending in a state without resources.\<close>

lemma quiet_stop_base:
  assumes "to = Failed \<or> (to = ColdIdle \<and> (m_shutdown m \<or> total_all m = 0))"
    and "same_demand m0 m"
  shows "quiet m0 (transition to (stop_base_locked (transition Stopping m)))"
proof -
  let ?m = "stop_base_locked (transition Stopping m)"
  have k: "keeps m ?m" using stop_base_keeps [of "transition Stopping m"] by (simp add: keeps_def)
  have t: "total_all (transition to ?m) = total_all m" and d: "m_shutdown ?m = m_shutdown m"
    using keeps_total_all [OF k] keeps_totals(6) [OF k] by (simp_all add: total_all_def)
  have "lc_inv (transition to ?m)"
    using assms(1) by (auto simp: lc_inv_def units_ok_def all_stopped_def t d)
  moreover have "same_demand m0 (transition to ?m)"
    using same_demand_trans [OF assms(2) keeps_same_demand [OF k]] by (simp add: same_demand_def)
  ultimately show ?thesis by (simp add: quiet_def)
qed

lemma on_grace_timeout_quiet [step_intros]:
  assumes "lc_inv m" and "demand_nonneg m"
  shows "quiet m (on_grace_timeout m)"
proof (cases "m_state m \<noteq> GraceIdle \<or> 0 < total_all m")
  case True
  with assms show ?thesis by (auto simp: on_grace_timeout_def intro: quiet_refl)
next
  case False
  then have "total_all m = 0" using total_all_nonneg [OF assms(2)] by simp
  with False show ?thesis
    by (auto simp: on_grace_timeout_def same_demand_def intro!: quiet_stop_base)
qed

lemma on_unit_grace_quiet [step_intros]:
  assumes "lc_inv m"
  shows "quiet m (on_unit_grace i m)"
proof (cases "i < 0 \<or> UNIT_SUB < i")
  case True
  with assms show ?thesis by (auto simp: on_unit_grace_def intro: quiet_refl)
next
  case False
  then have i: "i = UNIT_MAIN \<or> i = UNIT_SUB" by auto
  have q: "quiet m (upd_unit i (\<lambda>u. u\<lparr>u_grace_armed := False\<rparr>) m)"
    by (rule quietI_cong [OF assms]) (auto simp: same_demand_def unit_ok_def)
  with quiet_trans [OF q quiet_stop_unit [OF _ i]] False show ?thesis
    by (auto simp: on_unit_grace_def Let_def)
qed

lemma on_jpeg_grace_quiet [step_intros]:
  assumes "lc_inv m"
  shows "quiet m (on_jpeg_grace m)"
proof -
  have q: "quiet m (upd_jpeg (\<lambda>j. j\<lparr>j_grace_armed := False\<rparr>) m)"
    by (rule quietI_cong [OF assms]) (auto simp: same_demand_def)
  with quiet_trans [OF q quiet_stop_jpeg] show ?thesis by (auto simp: on_jpeg_grace_def Let_def)
qed

lemma quiet_disarm_jpeg: "lc_inv m \<Longrightarrow> quiet m (disarm_jpeg m)"
  by (rule quietI_cong) (auto intro: keeps_same_demand)

lemma set_jpeg_enabled_quiet [step_intros]:
  assumes "lc_inv m"
  shows "quiet m (set_jpeg_enabled on m)"
proof -
  let ?m = "upd_jpeg (\<lambda>j. j\<lparr>j_enabled := on\<rparr>) m"
  have q: "quiet m ?m" by (rule quietI_cong [OF assms]) (auto simp: same_demand_def)
  have "quiet m (stop_jpeg_locked (disarm_jpeg ?m))"
    by (rule quiet_trans [OF q]) (blast intro: quiet_trans [OF quiet_disarm_jpeg quiet_stop_jpeg])
  with q assms show ?thesis by (auto simp: set_jpeg_enabled_def Let_def intro: quiet_refl)
qed

lemma shutdown_quiet [step_intros]:
  assumes "lc_inv m"
  shows "quiet m (shutdown m)" and "m_shutdown (shutdown m)"
proof -
  let ?m = "disarm_jpeg (disarm_unit 1 (disarm_unit 0 (mlog [DisarmTimer BaseTimer] (m\<lparr>m_shutdown := True\<rparr>))))"
  have k: "keeps (m\<lparr>m_shutdown := True\<rparr>) ?m"
    by (meson keeps_trans disarm_unit_simps(3) disarm_jpeg_simps(3) keeps_mlog keeps_refl)
  have d: "same_demand m ?m" using keeps_same_demand [OF k] by (simp add: same_demand_def)
  have u: "units_ok ?m = units_ok m" "all_stopped ?m = all_stopped m" "m_state ?m = m_state m" "m_shutdown ?m"
    using keeps_totals(6) [OF k] by (simp_all add: units_ok_def all_stopped_def)
  have sd: "shutdown m = (if m_state ?m = Active \<or> m_state ?m = GraceIdle
      then transition ColdIdle (stop_base_locked (transition Stopping ?m)) else ?m)"
    by (simp add: shutdown_def Let_def)
  have "quiet m (transition ColdIdle (stop_base_locked (transition Stopping ?m)))"
    by (rule quiet_stop_base) (use u d in auto)
  moreover have "quiet m ?m" if "\<not> (m_state ?m = Active \<or> m_state ?m = GraceIdle)"
    using that assms u d by (cases "m_state m") (auto simp: quiet_def lc_inv_def)
  ultimately show "quiet m (shutdown m)" unfolding sd by auto
  have "m_shutdown (stop_base_locked (transition Stopping ?m)) = m_shutdown (transition Stopping ?m)"
    by (rule keeps_totals(6)) simp
  with u(4) show "m_shutdown (shutdown m)" unfolding sd by auto
qed

lemma configure_quiet [step_intros]:
  "lc_inv m \<Longrightarrow> quiet m (configure_sub s t m)"
  "lc_inv m \<Longrightarrow> quiet m (configure_jpeg p c g t m)"
  "lc_inv m \<Longrightarrow> quiet m (set_unit_grace_timer i t m)"
  "lc_inv m \<Longrightarrow> quiet m (set_sensor_fps_target f m)"
  "lc_inv m \<Longrightarrow> quiet m (request_idr i m)"
  "lc_inv m \<Longrightarrow> quiet m (m\<lparr>m_listener := b\<rparr>)"
  "lc_inv m \<Longrightarrow> quiet m (m\<lparr>m_post_start := b\<rparr>)"
  by (rule quietI_cong; auto simp: configure_sub_def configure_jpeg_def set_unit_grace_timer_def
      set_sensor_fps_target_def request_idr_def same_demand_def unit_ok_def)+

lemma live_quiet [step_intros]:
  "lc_inv m \<Longrightarrow> live_bitrate k call m = (r, e, m') \<Longrightarrow> quiet m m'"
  "lc_inv m \<Longrightarrow> live_gop k call m = (r, e, m') \<Longrightarrow> quiet m m'"
  by (rule quietI_cong; auto simp: live_bitrate_def live_gop_def same_demand_def unit_ok_def
      split: if_splits prod.splits)+

lemma update_stream_quiet [step_intros]:
  assumes "update_stream st rs env m = (r, m')" and "lc_inv m"
  shows "quiet m m'"
proof -
  let ?m1 = "upd_unit UNIT_MAIN (\<lambda>u. u\<lparr>u_stream := st\<rparr>) m"
  have q1: "quiet m ?m1" by (rule quietI_cong [OF assms(2)]) (auto simp: same_demand_def unit_ok_def)
  show ?thesis
  proof (cases "\<not> pipeline_running ?m1 \<or> \<not> rs")
    case True
    with assms(1) q1 show ?thesis by (auto simp: update_stream_def Let_def)
  next
    case False
    then have up: "m_state m = Active \<or> m_state m = GraceIdle" by (auto simp: pipeline_running_def)
    with assms(2) have nsd: "\<not> m_shutdown m" by (auto simp: lc_inv_def)
    let ?m2 = "stop_base_locked (transition Stopping ?m1)"
    let ?m3 = "transition Starting (?m2\<lparr>m_restart_count := m_restart_count ?m2 + 1\<rparr>)"
    obtain ok m4 where s: "start_base_locked UNIT_MAIN env ?m3 = (ok, m4)"
      by (cases "start_base_locked UNIT_MAIN env ?m3")
    have k3: "keeps m ?m3"
      using stop_base_keeps [of "transition Stopping ?m1"] by (simp add: keeps_def)
    have "units_ok ?m3" by (simp add: units_ok_def)
    from start_base_post [OF s this] have p: "keeps ?m3 m4" "units_ok m4" "\<not> ok \<Longrightarrow> all_stopped m4"
      by (auto simp: base_post_def)
    have k4: "keeps m m4" by (rule keeps_trans [OF k3 p(1)])
    have t4: "total_all m4 = total_all m" "m_shutdown m4 = m_shutdown m"
      using keeps_total_all [OF k4] keeps_totals(6) [OF k4] by simp_all
    have "units_ok m' \<and> total_all m' = total_all m4 \<and> m_shutdown m' = m_shutdown m4 \<and> keeps m m' \<and>
      m_state m' = (if ok then m_state m else Failed) \<and> (\<not> ok \<longrightarrow> all_stopped m')"
      using False assms(1) s p k4
      by (cases ok) (auto simp: update_stream_def Let_def units_ok_def total_all_def all_stopped_def
          split: if_splits)
    with assms(2) up nsd t4 show ?thesis
      by (auto simp: quiet_def lc_inv_def keeps_same_demand split: if_splits)
  qed
qed

lemma update_sub_stream_quiet [step_intros]:
  assumes "update_sub_stream st en env m = (r, m')" and "lc_inv m"
  shows "quiet m m'"
proof -
  let ?u = "m_units m UNIT_SUB"
  let ?m1 = "upd_unit UNIT_SUB (\<lambda>u. u\<lparr>u_stream := st\<rparr>) m"
  have q1: "quiet m ?m1" by (rule quietI_cong [OF assms(2)]) (auto simp: same_demand_def unit_ok_def)
  have off: "quiet a (upd_unit UNIT_SUB (\<lambda>u. u\<lparr>u_configured := False\<rparr>) a)" if "lc_inv a" for a
    by (rule quietI_cong [OF that]) (auto simp: same_demand_def unit_ok_def)
  consider (dis) "\<not> en" | (unconf) "en" "\<not> u_configured ?u" | (cold) "en" "u_configured ?u" "\<not> u_running ?u"
    | (restart) "en" "u_configured ?u" "u_running ?u" by blast
  then show ?thesis
  proof cases
    case dis
    have "quiet m (stop_unit_locked UNIT_SUB m)" by (rule quiet_stop_unit [OF assms(2)]) simp
    from quiet_trans [OF this off] off [OF assms(2)] dis assms(1) show ?thesis
      by (auto simp: update_sub_stream_def Let_def)
  next
    case unconf
    with assms show ?thesis by (auto simp: update_sub_stream_def Let_def intro: quiet_refl)
  next
    case cold
    with assms(1) q1 show ?thesis by (auto simp: update_sub_stream_def Let_def)
  next
    case restart
    let ?m2 = "stop_unit_locked UNIT_SUB ?m1"
    let ?m3 = "?m2\<lparr>m_sub_restart_count := m_sub_restart_count ?m2 + 1\<rparr>"
    obtain ok m4 where s: "start_unit_locked UNIT_SUB (pe_unit env UNIT_SUB) ?m3 = (ok, m4)"
      by (cases "start_unit_locked UNIT_SUB (pe_unit env UNIT_SUB) ?m3")
    with restart assms(1) have m': "m' = m4"
      by (auto simp: update_sub_stream_def Let_def split: bool.splits)
    have "quiet ?m1 ?m2" using q1 by (auto simp: quiet_def stop_unit_inv keeps_same_demand)
    with q1 have q2: "quiet m ?m2" by (auto intro: quiet_trans)
    have q3: "quiet m ?m3"
      by (rule quiet_trans [OF q2], rule quietI_cong) (auto simp: same_demand_def)
    have "unit_ok (m_units ?m3 UNIT_SUB)" by simp
    from start_unit_post [OF s this] have p: "start_post UNIT_SUB ?m3 ok m4" .
    have "m_state m \<noteq> ColdIdle" "m_state m \<noteq> Failed"
      using restart assms(2) by (auto simp: lc_inv_def all_stopped_def)
    moreover have "m_state ?m3 = m_state m" by simp
    ultimately have "lc_inv m4"
      using q3 p keeps_total_all [of ?m3 m4] keeps_totals(6) [of ?m3 m4]
      by (auto simp: quiet_def lc_inv_def start_post_def units_ok_def)
    moreover have "same_demand m m4"
      using q3 p by (auto simp: quiet_def start_post_def intro: same_demand_trans keeps_same_demand)
    ultimately show ?thesis by (simp add: m' quiet_def)
  qed
qed

lemma snapshot_begin_cases:
  assumes "snapshot_begin env m = (res, m')" and "lc_inv m" and "demand_nonneg m"
  obtains (refused) r err where "res = Some (r, err)" "quiet m m'" "\<not> is_ok r"
  | (granted) m1 where "res = None" "keeps m m1" "ready m1" "j_enc (m_jpeg m1)"
      "m' = upd_jpeg (\<lambda>j. j\<lparr>j_demand := j_demand j + 1\<rparr>) m1"
proof (cases "m_shutdown m \<or> \<not> j_configured (m_jpeg m) \<or> \<not> j_enabled (m_jpeg m)")
  case True
  with assms(1,2) refused show ?thesis by (auto simp: snapshot_begin_def quiet_refl split: if_splits)
next
  case False
  obtain ok1 m1 where e: "ensure_base_locked UNIT_JPEG env m = (ok1, m1)"
    by (cases "ensure_base_locked UNIT_JPEG env m")
  note p = ensure_base_post [OF e assms(2)]
  show ?thesis
  proof (cases ok1)
    case f: False
    with False assms(1) e p refused show ?thesis
      by (auto simp: snapshot_begin_def quiet_def keeps_same_demand)
  next
    case True
    let ?m2 = "disarm_jpeg m1"
    obtain ok m3 where s: "(if j_enc (m_jpeg ?m2) then (True, ?m2)
        else start_jpeg_locked (pe_create_jpeg env) ?m2) = (ok, m3)" by (metis surj_pair)
    have r2: "ready ?m2" and k2: "keeps m ?m2"
      using p True False keeps_trans [OF _ disarm_jpeg_simps(3)] by auto
    have r3: "ready m3" "keeps ?m2 m3" "ok \<Longrightarrow> j_enc (m_jpeg m3)"
      using s r2 start_jpeg_spec [of "pe_create_jpeg env" ?m2 ok m3]
      by (auto simp: ready_def units_ok_def dest: keeps_totals(6) split: if_splits)
    have k3: "keeps m m3" by (rule keeps_trans [OF k2 r3(2)])
    show ?thesis
    proof (cases ok)
      case ok: True
      with False assms(1) e True s r3 k3 granted show ?thesis
        by (auto simp: snapshot_begin_def Let_def split: if_splits)
    next
      case nok: False
      with False assms(1) e True s have "res = Some (result_error (-1), m_last_error m3)" "m' = fail_unused_base m3"
        by (auto simp: snapshot_begin_def Let_def split: if_splits)
      moreover have "demand_nonneg m3" using keeps_nonneg [OF k3] assms(3) by simp
      ultimately show ?thesis
        using fail_unused_base_inv [OF r3(1)] keeps_trans [OF k3] refused
        by (auto simp: quiet_def intro!: keeps_same_demand)
    qed
  qed
qed

lemma snapshot_begin_inv [step_intros]:
  assumes "snapshot_begin env m = (res, m')" and "lc_inv m" and "demand_nonneg m"
  shows "lc_inv m'"
  using assms
proof (cases rule: snapshot_begin_cases)
  case (granted m1)
  have "0 \<le> total_all m1"
    using keeps_nonneg [OF granted(2)] assms(3) by (auto intro: total_all_nonneg)
  then have "0 < total_all m'" using granted(5) by (simp add: total_all_def)
  moreover have "ready m'" using granted by (auto simp: ready_def units_ok_def)
  ultimately show ?thesis by (rule ready_lc_inv [rotated])
qed (simp add: quiet_def)

lemma snapshot_capture_quiet [step_intros]:
  "snapshot_capture a now t0 t1 t2 call m = (r, out, err, m') \<Longrightarrow> lc_inv m \<Longrightarrow> quiet m m'"
  by (rule quietI_cong) (auto simp: snapshot_capture_def Let_def same_demand_def split: if_splits prod.splits)

lemma snapshot_end_inv [step_intros]:
  assumes "lc_inv m" and "demand_nonneg m"
  shows "lc_inv (snapshot_end m)"
  using lose_demand_finish [OF assms(1), of "drop_jpeg_demand m" wind_down_jpeg]
    drop_demand_totals [OF assms(2)] assms(1) wind_down_jpeg_inv
  unfolding snapshot_end_def Let_def by (simp add: lc_inv_def)

section \<open>The manager with its consumers\<close>

text \<open>The manager, the demand handles ever handed out (an inactive one has been released) and the number of
  snapshot calls between their first and last critical section.\<close>

record system =
  sys_m :: manager
  sys_handles :: "demand_handle list"
  sys_snaps :: nat

definition add_handle :: "demand_handle \<Rightarrow> demand_handle list \<Rightarrow> demand_handle list" where
  "add_handle h hs = (if h_active h then h # hs else hs)"

inductive sys_step :: "system \<Rightarrow> system \<Rightarrow> bool" where
  acquire_unit: "acquire_unit i ty env (sys_m s) = (r, h, m') \<Longrightarrow>
     sys_step s (s\<lparr>sys_m := m', sys_handles := add_handle h (sys_handles s)\<rparr>)"
| acquire_base: "acquire_base ty env (sys_m s) = (r, h, m') \<Longrightarrow>
     sys_step s (s\<lparr>sys_m := m', sys_handles := add_handle h (sys_handles s)\<rparr>)"
| release: "k < length (sys_handles s) \<Longrightarrow> handle_release (sys_handles s ! k) (sys_m s) = (h', m') \<Longrightarrow>
     sys_step s (s\<lparr>sys_m := m', sys_handles := (sys_handles s)[k := h']\<rparr>)"
| grace_timeout: "sys_step s (s\<lparr>sys_m := on_grace_timeout (sys_m s)\<rparr>)"
| unit_grace: "sys_step s (s\<lparr>sys_m := on_unit_grace i (sys_m s)\<rparr>)"
| jpeg_grace: "sys_step s (s\<lparr>sys_m := on_jpeg_grace (sys_m s)\<rparr>)"
| jpeg_enabled: "sys_step s (s\<lparr>sys_m := set_jpeg_enabled on (sys_m s)\<rparr>)"
| config_sub: "sys_step s (s\<lparr>sys_m := configure_sub st t (sys_m s)\<rparr>)"
| config_jpeg: "sys_step s (s\<lparr>sys_m := configure_jpeg p c g t (sys_m s)\<rparr>)"
| unit_timer: "sys_step s (s\<lparr>sys_m := set_unit_grace_timer i t (sys_m s)\<rparr>)"
| sensor_target: "sys_step s (s\<lparr>sys_m := set_sensor_fps_target f (sys_m s)\<rparr>)"
| idr: "sys_step s (s\<lparr>sys_m := request_idr i (sys_m s)\<rparr>)"
| listener: "sys_step s (s\<lparr>sys_m := (sys_m s)\<lparr>m_listener := b\<rparr>\<rparr>)"
| post_start: "sys_step s (s\<lparr>sys_m := (sys_m s)\<lparr>m_post_start := b\<rparr>\<rparr>)"
| stream: "update_stream st rs env (sys_m s) = (r, m') \<Longrightarrow> sys_step s (s\<lparr>sys_m := m'\<rparr>)"
| sub_stream: "update_sub_stream st en env (sys_m s) = (r, m') \<Longrightarrow> sys_step s (s\<lparr>sys_m := m'\<rparr>)"
| bitrate: "live_bitrate k call (sys_m s) = (r, e, m') \<Longrightarrow> sys_step s (s\<lparr>sys_m := m'\<rparr>)"
| gop: "live_gop k call (sys_m s) = (r, e, m') \<Longrightarrow> sys_step s (s\<lparr>sys_m := m'\<rparr>)"
| snap_begin: "snapshot_begin env (sys_m s) = (None, m') \<Longrightarrow>
     sys_step s (s\<lparr>sys_m := m', sys_snaps := Suc (sys_snaps s)\<rparr>)"
| snap_refused: "snapshot_begin env (sys_m s) = (Some re, m') \<Longrightarrow> sys_step s (s\<lparr>sys_m := m'\<rparr>)"
| snap_capture: "0 < sys_snaps s \<Longrightarrow> snapshot_capture a now t0 t1 t2 call (sys_m s) = (r, out, err, m') \<Longrightarrow>
     sys_step s (s\<lparr>sys_m := m'\<rparr>)"
| snap_end: "0 < sys_snaps s \<Longrightarrow>
     sys_step s (s\<lparr>sys_m := snapshot_end (sys_m s), sys_snaps := sys_snaps s - 1\<rparr>)"
| capture: "cs_unit c = m_units (sys_m s) i \<Longrightarrow>
     sys_step s (s\<lparr>sys_m := upd_unit i (\<lambda>_. cs_unit (capture_pass e c)) (sys_m s)\<rparr>)"
| shutdown: "sys_step s (s\<lparr>sys_m := shutdown (sys_m s)\<rparr>)"

definition system_new :: "effective_stream \<Rightarrow> int \<Rightarrow> int \<Rightarrow> system" where
  "system_new st g p = \<lparr>sys_m = manager_new st g p, sys_handles = [], sys_snaps = 0\<rparr>"

inductive reachable :: "system \<Rightarrow> bool" where
  start: "reachable (system_new st g p)"
| step: "reachable s \<Longrightarrow> sys_step s t \<Longrightarrow> reachable t"

subsection \<open>Counters are live handles\<close>

definition live :: "(demand_handle \<Rightarrow> bool) \<Rightarrow> demand_handle list \<Rightarrow> int" where
  "live P hs = int (length (filter (\<lambda>h. h_active h \<and> P h) hs))"

definition acct :: "system \<Rightarrow> bool" where
  "acct s \<longleftrightarrow>
     (\<forall>i \<in> {UNIT_MAIN, UNIT_SUB}.
        u_total (m_units (sys_m s) i) = live (\<lambda>h. h_unit h = i) (sys_handles s) \<and>
        (\<forall>ty. u_demand (m_units (sys_m s) i) ty = live (\<lambda>h. h_unit h = i \<and> h_type h = ty) (sys_handles s)))
     \<and> m_ai_demand (sys_m s) = live (\<lambda>h. h_unit h = UNIT_AI) (sys_handles s)
     \<and> j_demand (m_jpeg (sys_m s)) = int (sys_snaps s)
     \<and> (\<forall>h \<in> set (sys_handles s). h_active h \<longrightarrow> h_unit h = UNIT_MAIN \<or> h_unit h = UNIT_SUB \<or> h_unit h = UNIT_AI)"

lemma live_nonneg [simp]: "0 \<le> live P hs"
  by (simp add: live_def)

lemma live_Cons [simp]: "live P (h # hs) = (if h_active h \<and> P h then 1 else 0) + live P hs"
  by (simp add: live_def)

lemma live_release:
  "k < length hs \<Longrightarrow> \<not> h_active h' \<Longrightarrow>
   live P (hs[k := h']) = live P hs - (if h_active (hs ! k) \<and> P (hs ! k) then 1 else 0)"
proof (induction hs arbitrary: k)
  case (Cons a hs)
  then show ?case by (cases k) auto
qed simp

lemma live_pos: "h \<in> set hs \<Longrightarrow> h_active h \<Longrightarrow> P h \<Longrightarrow> 0 < live P hs"
  by (auto simp: live_def filter_empty_conv)

lemma acct_nonneg: "acct s \<Longrightarrow> demand_nonneg (sys_m s)"
  by (simp add: acct_def demand_nonneg_def)

lemma acct_same_demand: "acct s \<Longrightarrow> same_demand (sys_m s) m' \<Longrightarrow> acct (s\<lparr>sys_m := m'\<rparr>)"
  by (simp add: acct_def same_demand_def)

lemma acct_new: "acct (system_new st g p)"
  by (simp add: acct_def system_new_def manager_new_def unit_rec0_def jpeg_unit0_def live_def)

lemma enter_grace_keeps [simp]: "keeps m (enter_grace m)"
  by (simp add: enter_grace_def Let_def) (meson keeps_trans disarm_unit_simps(3))

lemma same_demand_keeps: "same_demand a b \<Longrightarrow> keeps b c \<Longrightarrow> same_demand a c"
  by (blast intro: same_demand_trans keeps_same_demand)

lemma release_demand:
  "i \<noteq> UNIT_AI \<Longrightarrow> same_demand (drop_unit_demand ty i m) (release ty i m)"
  "same_demand (drop_ai_demand m) (release ty UNIT_AI m)"
  by (auto simp: release_def Let_def intro: keeps_same_demand)

lemma snapshot_end_demand: "same_demand (drop_jpeg_demand m) (snapshot_end m)"
  by (auto simp: snapshot_end_def Let_def intro: keeps_same_demand)

subsection \<open>Every reachable state satisfies both\<close>

definition sys_inv :: "system \<Rightarrow> bool" where
  "sys_inv s \<longleftrightarrow> lc_inv (sys_m s) \<and> acct s"

lemma sys_inv_quiet: "sys_inv s \<Longrightarrow> quiet (sys_m s) m' \<Longrightarrow> sys_inv (s\<lparr>sys_m := m'\<rparr>)"
  by (simp add: sys_inv_def quiet_def acct_same_demand)

lemma no_handle_inactive [simp]: "\<not> h_active no_handle" "add_handle no_handle hs = hs"
  by (simp_all add: no_handle_def add_handle_def)

lemma acct_keeps: "acct s \<Longrightarrow> keeps (sys_m s) m' \<Longrightarrow> acct (s\<lparr>sys_m := m'\<rparr>)"
  by (simp add: acct_same_demand keeps_same_demand)

lemma sys_inv_acquire_unit:
  assumes "sys_inv s" and "acquire_unit i ty env (sys_m s) = (r, h, m')"
  shows "sys_inv (s\<lparr>sys_m := m', sys_handles := add_handle h (sys_handles s)\<rparr>)"
proof -
  from assms(1) have inv: "lc_inv (sys_m s)" and a: "acct s" by (simp_all add: sys_inv_def)
  note nn = acct_nonneg [OF a]
  from acquire_unit_inv [OF assms(2) inv nn] have "lc_inv m'" .
  moreover from assms(2) inv nn have "acct (s\<lparr>sys_m := m', sys_handles := add_handle h (sys_handles s)\<rparr>)"
  proof (cases rule: acquire_unit_cases)
    case refused
    with a show ?thesis by simp
  next
    case failed
    with acct_keeps [OF a] show ?thesis by simp
  next
    case (granted m1)
    from acct_keeps [OF a granted(1)] have "acct (s\<lparr>sys_m := m1\<rparr>)" .
    with granted(4,6,8) show ?thesis by (auto simp: acct_def add_handle_def)
  qed
  ultimately show ?thesis by (simp add: sys_inv_def)
qed

lemma sys_inv_acquire_base:
  assumes "sys_inv s" and "acquire_base ty env (sys_m s) = (r, h, m')"
  shows "sys_inv (s\<lparr>sys_m := m', sys_handles := add_handle h (sys_handles s)\<rparr>)"
proof -
  from assms(1) have inv: "lc_inv (sys_m s)" and a: "acct s" by (simp_all add: sys_inv_def)
  from acquire_base_inv [OF assms(2) inv acct_nonneg [OF a]] have "lc_inv m'" .
  moreover from assms(2) inv have "acct (s\<lparr>sys_m := m', sys_handles := add_handle h (sys_handles s)\<rparr>)"
  proof (cases rule: acquire_base_cases)
    case refused
    with a show ?thesis by simp
  next
    case failed
    with acct_keeps [OF a] show ?thesis by simp
  next
    case (granted m1)
    from acct_keeps [OF a granted(1)] have "acct (s\<lparr>sys_m := m1\<rparr>)" .
    with granted(4,5) show ?thesis by (auto simp: acct_def add_handle_def)
  qed
  ultimately show ?thesis by (simp add: sys_inv_def)
qed

lemma sys_inv_release:
  assumes "sys_inv s" and k: "k < length (sys_handles s)"
    and r: "handle_release (sys_handles s ! k) (sys_m s) = (h', m')"
  shows "sys_inv (s\<lparr>sys_m := m', sys_handles := (sys_handles s)[k := h']\<rparr>)"
proof (cases "h_active (sys_handles s ! k)")
  case False
  with r have "h' = sys_handles s ! k" "m' = sys_m s" by (auto simp: handle_release_def)
  with assms(1) show ?thesis by simp
next
  case True
  let ?h = "sys_handles s ! k" and ?hs = "sys_handles s"
  from assms(1) have inv: "lc_inv (sys_m s)" and a: "acct s" by (simp_all add: sys_inv_def)
  from True r have h': "h' = ?h\<lparr>h_active := False\<rparr>" and m': "m' = release (h_type ?h) (h_unit ?h) (sys_m s)"
    by (auto simp: handle_release_def)
  have mem: "?h \<in> set ?hs" using k by simp
  with a True have u: "h_unit ?h = UNIT_MAIN \<or> h_unit ?h = UNIT_SUB \<or> h_unit ?h = UNIT_AI"
    by (auto simp: acct_def)
  have pos: "0 < live P ?hs" if "P ?h" for P using mem True that by (rule live_pos)
  have lv: "live P (?hs[k := h']) = live P ?hs - (if P ?h then 1 else 0)" for P
    using live_release [OF k, of h' P] True h' by simp
  have hs: "\<forall>h \<in> set (?hs[k := h']). h_active h \<longrightarrow> h_unit h = UNIT_MAIN \<or> h_unit h = UNIT_SUB \<or> h_unit h = UNIT_AI"
    using a h' set_update_subset_insert [of ?hs k h'] by (auto simp: acct_def)
  have "acct (s\<lparr>sys_m := (if h_unit ?h = UNIT_AI then drop_ai_demand (sys_m s)
      else drop_unit_demand (h_type ?h) (h_unit ?h) (sys_m s)), sys_handles := ?hs[k := h']\<rparr>)"
    using a u hs pos [of "\<lambda>h. h_unit h = h_unit ?h"] pos [of "\<lambda>h. h_unit h = h_unit ?h \<and> h_type h = h_type ?h"]
    by (auto simp: acct_def lv drop_ai_demand_def drop_unit_demand_def)
  moreover have "same_demand (if h_unit ?h = UNIT_AI then drop_ai_demand (sys_m s)
      else drop_unit_demand (h_type ?h) (h_unit ?h) (sys_m s)) m'"
    using release_demand m' by auto
  ultimately have "acct (s\<lparr>sys_m := m', sys_handles := ?hs[k := h']\<rparr>)"
    by (auto simp: acct_def same_demand_def)
  with release_inv [OF inv acct_nonneg [OF a] u] m' show ?thesis by (simp add: sys_inv_def)
qed

lemma sys_inv_snap_begin:
  assumes "sys_inv s" and "snapshot_begin env (sys_m s) = (None, m')"
  shows "sys_inv (s\<lparr>sys_m := m', sys_snaps := Suc (sys_snaps s)\<rparr>)"
proof -
  from assms(1) have inv: "lc_inv (sys_m s)" and a: "acct s" by (simp_all add: sys_inv_def)
  note nn = acct_nonneg [OF a]
  from assms(2) inv nn have "acct (s\<lparr>sys_m := m', sys_snaps := Suc (sys_snaps s)\<rparr>)"
  proof (cases rule: snapshot_begin_cases)
    case (granted m1)
    from acct_keeps [OF a granted(2)] granted(5) show ?thesis by (simp add: acct_def)
  qed simp
  with snapshot_begin_inv [OF assms(2) inv nn] show ?thesis by (simp add: sys_inv_def)
qed

lemma sys_inv_snap_refused:
  assumes "sys_inv s" and "snapshot_begin env (sys_m s) = (Some re, m')"
  shows "sys_inv (s\<lparr>sys_m := m'\<rparr>)"
proof -
  from assms(1) have inv: "lc_inv (sys_m s)" and a: "acct s" by (simp_all add: sys_inv_def)
  from assms(2) inv acct_nonneg [OF a] have "quiet (sys_m s) m'"
    by (cases rule: snapshot_begin_cases) auto
  with assms(1) show ?thesis by (rule sys_inv_quiet)
qed

lemma sys_inv_snap_end:
  assumes "sys_inv s" and "0 < sys_snaps s"
  shows "sys_inv (s\<lparr>sys_m := snapshot_end (sys_m s), sys_snaps := sys_snaps s - 1\<rparr>)"
proof -
  from assms(1) have inv: "lc_inv (sys_m s)" and a: "acct s" by (simp_all add: sys_inv_def)
  have "acct (s\<lparr>sys_m := drop_jpeg_demand (sys_m s), sys_snaps := sys_snaps s - 1\<rparr>)"
    using a assms(2) by (simp add: acct_def drop_jpeg_demand_def of_nat_diff)
  with snapshot_end_demand [of "sys_m s"] have
    "acct (s\<lparr>sys_m := snapshot_end (sys_m s), sys_snaps := sys_snaps s - 1\<rparr>)"
    by (simp add: acct_def same_demand_def)
  with snapshot_end_inv [OF inv acct_nonneg [OF a]] show ?thesis by (simp add: sys_inv_def)
qed

lemma window_frame_frame [frame_simps]:
  "u_total (window_frame au u) = u_total u" "u_demand (window_frame au u) = u_demand u"
  "u_running (window_frame au u) = u_running u" "unit_ok (window_frame au u) = unit_ok u"
  by (simp_all add: window_frame_def Let_def unit_ok_def)

lemma unit_ok_counters [frame_simps]:
  "unit_ok (u\<lparr>u_dropped := d\<rparr>) = unit_ok u" "unit_ok (u\<lparr>u_seq := n\<rparr>) = unit_ok u"
  "unit_ok (u\<lparr>u_frames := f\<rparr>) = unit_ok u"
  by (simp_all add: unit_ok_def)

lemma capture_pass_frame [frame_simps]:
  "u_total (cs_unit (capture_pass e c)) = u_total (cs_unit c)"
  "u_demand (cs_unit (capture_pass e c)) = u_demand (cs_unit c)"
  "u_running (cs_unit (capture_pass e c)) = u_running (cs_unit c)"
  "unit_ok (cs_unit (capture_pass e c)) = unit_ok (cs_unit c)"
  by (simp_all add: capture_pass_def Let_def frame_simps split: prod.split option.split)

lemma capture_quiet [step_intros]:
  assumes "lc_inv m" and "cs_unit c = m_units m i"
  shows "quiet m (upd_unit i (\<lambda>_. cs_unit (capture_pass e c)) m)"
  by (rule quietI_cong [OF assms(1)]) (auto simp: same_demand_def capture_pass_frame assms(2))

lemma sys_inv_nonneg: "sys_inv s \<Longrightarrow> lc_inv (sys_m s) \<and> demand_nonneg (sys_m s)"
  by (simp add: sys_inv_def acct_nonneg)

lemmas sys_inv_moves = sys_inv_acquire_unit sys_inv_acquire_base sys_inv_release sys_inv_snap_begin
  sys_inv_snap_refused

lemmas quiet_steps = on_grace_timeout_quiet on_unit_grace_quiet on_jpeg_grace_quiet set_jpeg_enabled_quiet
  shutdown_quiet(1) configure_quiet live_quiet update_stream_quiet update_sub_stream_quiet
  snapshot_capture_quiet capture_quiet

lemma sys_step_inv: "sys_step s t \<Longrightarrow> sys_inv s \<Longrightarrow> sys_inv t"
proof (induction rule: sys_step.induct)
  case (snap_end s)
  then show ?case by (intro sys_inv_snap_end)
next
  case (snap_refused env s re m')
  then show ?case by (intro sys_inv_snap_refused)
qed (auto intro: sys_inv_moves intro!: sys_inv_quiet intro: quiet_steps dest: sys_inv_nonneg)

lemma reachable_sys_inv: "reachable s \<Longrightarrow> sys_inv s"
proof (induction rule: reachable.induct)
  case (start st g p)
  show ?case by (simp add: sys_inv_def acct_new) (simp add: system_new_def lc_inv_new)
next
  case (step s t)
  then show ?case by (blast intro: sys_step_inv)
qed

end
