(* ===== verification/Lifecycle_Protocol.thy ===== *)
theory Lifecycle_Protocol
  imports Lifecycle_Inv
begin

text \<open>
  What the manager promises the hardware. The calls it makes on the platform (\<^verbatim>\<open>ports/iplatform.hpp\<close>) have a
  protocol: a unit's frame source exists before its encoder, the two are bound before either is
  enabled, everything is released in the reverse order, and the base is brought up first and torn
  down last. The protocol is an executable automaton on the log of calls; every reachable state of
  the manager has a log the automaton accepts, and the automaton's state is the manager's own view
  of what it owns (a refinement).
\<close>

section \<open>The protocol\<close>

datatype base_state = Down | Up | Broken

record stage =
  sg_fs :: bool
  sg_enc :: bool
  sg_bound :: bool
  sg_enabled :: bool
  sg_started :: bool

record hw =
  hw_base :: base_state
  hw_unit :: "int \<Rightarrow> stage"
  hw_jpeg :: bool

definition stage0 :: stage where
  "stage0 = \<lparr>sg_fs = False, sg_enc = False, sg_bound = False, sg_enabled = False, sg_started = False\<rparr>"

definition hw0 :: hw where
  "hw0 = \<lparr>hw_base = Down, hw_unit = (\<lambda>_. stage0), hw_jpeg = False\<rparr>"

definition nothing_held :: "hw \<Rightarrow> bool" where
  "nothing_held h \<longleftrightarrow> hw_unit h UNIT_MAIN = stage0 \<and> hw_unit h UNIT_SUB = stage0 \<and> \<not> hw_jpeg h"

definition hw_upd :: "int \<Rightarrow> (stage \<Rightarrow> stage) \<Rightarrow> hw \<Rightarrow> hw" where
  "hw_upd i f h = h\<lparr>hw_unit := (hw_unit h)(i := f (hw_unit h i))\<rparr>"

definition guard :: "bool \<Rightarrow> 'a \<Rightarrow> 'a option" where
  "guard c x = (if c then Some x else None)"

fun proto_step :: "action \<Rightarrow> hw \<Rightarrow> hw option" where
  "proto_step (BringUp ok) h =
     guard (hw_base h = Down \<and> nothing_held h) (h\<lparr>hw_base := (if ok then Up else Broken)\<rparr>)"
| "proto_step TearDown h = guard (hw_base h \<noteq> Down \<and> nothing_held h) (h\<lparr>hw_base := Down\<rparr>)"
| "proto_step (CreateFs i s ok) h =
     guard (hw_base h = Up \<and> hw_unit h i = stage0) (hw_upd i (\<lambda>g. g\<lparr>sg_fs := ok\<rparr>) h)"
| "proto_step (CreateEnc i s ok) h =
     guard (hw_base h = Up \<and> sg_fs (hw_unit h i) \<and> \<not> sg_enc (hw_unit h i)) (hw_upd i (\<lambda>g. g\<lparr>sg_enc := ok\<rparr>) h)"
| "proto_step (Bind i ok) h =
     guard (sg_enc (hw_unit h i) \<and> \<not> sg_bound (hw_unit h i)) (hw_upd i (\<lambda>g. g\<lparr>sg_bound := ok\<rparr>) h)"
| "proto_step (FsEnable i ok) h =
     guard (sg_bound (hw_unit h i) \<and> \<not> sg_enabled (hw_unit h i)) (hw_upd i (\<lambda>g. g\<lparr>sg_enabled := ok\<rparr>) h)"
| "proto_step (EncStart i ok) h =
     guard (sg_enabled (hw_unit h i) \<and> \<not> sg_started (hw_unit h i)) (hw_upd i (\<lambda>g. g\<lparr>sg_started := ok\<rparr>) h)"
| "proto_step (EncStop i) h = guard (sg_started (hw_unit h i)) (hw_upd i (\<lambda>g. g\<lparr>sg_started := False\<rparr>) h)"
| "proto_step (FsDisable i) h =
     guard (sg_enabled (hw_unit h i) \<and> \<not> sg_started (hw_unit h i)) (hw_upd i (\<lambda>g. g\<lparr>sg_enabled := False\<rparr>) h)"
| "proto_step (Unbind i) h =
     guard (sg_bound (hw_unit h i) \<and> \<not> sg_enabled (hw_unit h i)) (hw_upd i (\<lambda>g. g\<lparr>sg_bound := False\<rparr>) h)"
| "proto_step (DestroyEnc i) h =
     guard (sg_enc (hw_unit h i) \<and> \<not> sg_bound (hw_unit h i)) (hw_upd i (\<lambda>g. g\<lparr>sg_enc := False\<rparr>) h)"
| "proto_step (DestroyFs i) h =
     guard (sg_fs (hw_unit h i) \<and> \<not> sg_enc (hw_unit h i)) (hw_upd i (\<lambda>g. g\<lparr>sg_fs := False\<rparr>) h)"
| "proto_step (SetSensorFps f) h = guard (hw_base h = Up) h"
| "proto_step PostStart h = guard (hw_base h = Up) h"
| "proto_step (CreateJpeg p ok) h = guard (hw_base h = Up \<and> \<not> hw_jpeg h) (h\<lparr>hw_jpeg := ok\<rparr>)"
| "proto_step DestroyJpeg h = guard (hw_jpeg h) (h\<lparr>hw_jpeg := False\<rparr>)"
| "proto_step (RequestIdr i) h = guard (hw_base h = Up \<and> sg_enc (hw_unit h i)) h"
| "proto_step (ArmTimer t ms) h = Some h"
| "proto_step (DisarmTimer t) h = Some h"
| "proto_step (Notify a b) h = Some h"

fun proto_run :: "action list \<Rightarrow> hw \<Rightarrow> hw option" where
  "proto_run [] h = Some h"
| "proto_run (a # as) h = Option.bind (proto_step a h) (proto_run as)"

section \<open>The manager refines it\<close>

definition stage_of :: "unit_rec \<Rightarrow> stage" where
  "stage_of u = \<lparr>sg_fs = u_fs u, sg_enc = u_enc u, sg_bound = u_bound u, sg_enabled = u_fs_enabled u,
     sg_started = u_enc_started u\<rparr>"

definition hw_of :: "base_state \<Rightarrow> manager \<Rightarrow> hw" where
  "hw_of b m = \<lparr>hw_base = b, hw_unit = (\<lambda>i. stage_of (m_units m i)), hw_jpeg = j_enc (m_jpeg m)\<rparr>"

definition conforms :: "base_state \<Rightarrow> manager \<Rightarrow> bool" where
  "conforms b m \<longleftrightarrow> proto_run (m_log m) hw0 = Some (hw_of b m)"

fun base_of :: "state \<Rightarrow> base_state" where
  "base_of Active = Up"
| "base_of GraceIdle = Up"
| "base_of _ = Down"

lemma proto_run_append [simp]: "proto_run (as @ bs) h = Option.bind (proto_run as h) (proto_run bs)"
  by (induction as arbitrary: h) (simp_all split: bind_split)

lemma guard_simps [simp]: "c \<Longrightarrow> guard c x = Some x"
  by (simp add: guard_def)

lemma hw_of_simps [simp]:
  "hw_base (hw_of b m) = b" "hw_unit (hw_of b m) i = stage_of (m_units m i)" "hw_jpeg (hw_of b m) = j_enc (m_jpeg m)"
  by (simp_all add: hw_of_def)

lemma stage_of_simps [simp]:
  "sg_fs (stage_of u) = u_fs u" "sg_enc (stage_of u) = u_enc u" "sg_bound (stage_of u) = u_bound u"
  "sg_enabled (stage_of u) = u_fs_enabled u" "sg_started (stage_of u) = u_enc_started u"
  by (simp_all add: stage_of_def)

lemma hw_of_upd [simp]:
  "hw_upd i f (hw_of b m) = hw_of b (upd_unit i g m) \<longleftrightarrow> f (stage_of (m_units m i)) = stage_of (g (m_units m i))"
  by (auto simp: hw_upd_def hw_of_def fun_eq_iff)

lemma hw_of_cong:
  "m_units m' = m_units m \<Longrightarrow> j_enc (m_jpeg m') = j_enc (m_jpeg m) \<Longrightarrow> hw_of b m' = hw_of b m"
  by (simp add: hw_of_def)

lemma hw_of_log [simp]: "hw_of b (mlog as m) = hw_of b m" "hw_of b (transition to m) = hw_of b m"
  by (rule hw_of_cong; simp)+

lemma stage_of_idle [simp]: "unit_ok u \<Longrightarrow> \<not> u_running u \<Longrightarrow> stage_of u = stage0"
  by (simp add: stage_of_def stage0_def unit_ok_def)

text \<open>How a call extends an accepted log.\<close>

lemma conforms_ext:
  assumes "conforms b m" and "m_log m' = m_log m @ as" and "proto_run as (hw_of b m) = Some (hw_of b' m')"
  shows "conforms b' m'"
  using assms by (simp add: conforms_def)

lemma conforms_cong:
  assumes "m_log m' = m_log m" and "\<And>i. stage_of (m_units m' i) = stage_of (m_units m i)"
    and "j_enc (m_jpeg m') = j_enc (m_jpeg m)"
  shows "conforms b m' = conforms b m"
  using assms by (simp add: conforms_def hw_of_def)

fun neutral :: "action \<Rightarrow> bool" where
  "neutral (ArmTimer t ms) = True"
| "neutral (DisarmTimer t) = True"
| "neutral (Notify a b) = True"
| "neutral _ = False"

lemma neutral_run: "list_all neutral as \<Longrightarrow> proto_run as h = Some h"
proof (induction as)
  case (Cons a as)
  then show ?case by (cases a) simp_all
qed simp

lemma conforms_neutral: "list_all neutral as \<Longrightarrow> conforms b m \<Longrightarrow> conforms b (mlog as m)"
  by (simp add: conforms_def neutral_run)

lemma conforms_transition: "conforms b m \<Longrightarrow> conforms b (transition to m)"
  by (rule conforms_ext [where as = "if m_listener m then [Notify (m_state m) to] else []"])
    (auto simp: transition_def mlog_def hw_of_def)

lemma conforms_upd:
  assumes "conforms b m" and "proto_step a (hw_of b m) = Some (hw_upd i f (hw_of b m))"
    and "f (stage_of (m_units m i)) = stage_of (g (m_units m i))"
  shows "conforms b (upd_unit i g (mlog [a] m))"
  using assms by (simp add: conforms_def hw_upd_def hw_of_def fun_upd_def fun_eq_iff)

lemma conforms_mlog1:
  "conforms b m \<Longrightarrow> proto_step a (hw_of b m) = Some (hw_of b' m') \<Longrightarrow> m_log m' = m_log m @ [a] \<Longrightarrow> conforms b' m'"
  by (rule conforms_ext) auto

subsection \<open>The media chain\<close>

text \<open>The resources of a unit always nest, also half way through a start.\<close>

definition nested :: "unit_rec \<Rightarrow> bool" where
  "nested u \<longleftrightarrow> (u_enc u \<longrightarrow> u_fs u) \<and> (u_bound u \<longrightarrow> u_enc u) \<and> (u_fs_enabled u \<longrightarrow> u_bound u)
     \<and> (u_enc_started u \<longrightarrow> u_fs_enabled u)"

lemma unit_ok_nested: "unit_ok u \<Longrightarrow> nested u"
  by (simp add: unit_ok_def nested_def)

lemma stop_run:
  assumes "nested (m_units m i)"
  shows "proto_run (stop_actions i (m_units m i)) (hw_of b m) = Some (hw_of b (stop_unit_locked i m))"
  using assms
  by (cases "u_enc_started (m_units m i)"; cases "u_fs_enabled (m_units m i)"; cases "u_bound (m_units m i)";
      cases "u_enc (m_units m i)"; cases "u_fs (m_units m i)")
    (simp_all add: nested_def stop_actions_def stop_unit_locked_def hw_upd_def hw_of_def fun_eq_iff stage_of_def)

lemma stop_unit_log [simp]: "m_log (stop_unit_locked i m) = m_log m @ stop_actions i (m_units m i)"
  by (simp add: stop_unit_locked_def)

lemma stop_unit_conforms: "conforms b m \<Longrightarrow> nested (m_units m i) \<Longrightarrow> conforms b (stop_unit_locked i m)"
  by (rule conforms_ext [OF _ stop_unit_log stop_run])

lemma stop_unit_nested: "nested (m_units m k) \<Longrightarrow> nested (m_units (stop_unit_locked i m) k)"
  by (cases "k = i") (simp_all add: unit_ok_nested)

lemma stop_jpeg_conforms: "conforms b m \<Longrightarrow> conforms b (stop_jpeg_locked m)"
  by (rule conforms_ext [where as = "if j_enc (m_jpeg m) then [DestroyJpeg] else []"])
    (auto simp: stop_jpeg_locked_def hw_of_def)

definition nested2 :: "manager \<Rightarrow> bool" where
  "nested2 m \<longleftrightarrow> nested (m_units m UNIT_MAIN) \<and> nested (m_units m UNIT_SUB)"

lemma stop_base_conforms:
  assumes "conforms b m" and "nested2 m" and "b \<noteq> Down"
  shows "conforms Down (stop_base_locked m)"
proof -
  let ?m = "stop_jpeg_locked (stop_unit_locked UNIT_MAIN (stop_unit_locked UNIT_SUB m))"
  have "conforms b ?m"
    using assms(1,2) by (intro stop_jpeg_conforms stop_unit_conforms) (simp_all add: nested2_def)
  moreover have "nothing_held (hw_of b ?m)" by (simp add: nothing_held_def)
  ultimately show ?thesis
    unfolding stop_base_locked_def Let_def using assms(3)
    by (elim conforms_mlog1 [where a = TearDown]) (simp_all add: hw_of_def)
qed

lemma unit_fail_conforms:
  assumes "unit_fail i st c m = (ok, m')" and "conforms b m" and "nested (m_units m i)"
  shows "conforms b m'"
proof -
  let ?e = "unit_name i @ '' '' @ st @ '' failed ('' @ int_dec c @ '')''"
  have "conforms b (m\<lparr>m_last_error := ?e\<rparr>)" using assms(2) by (simp add: conforms_def hw_of_def)
  from stop_unit_conforms [OF this, of i] assms show ?thesis by (simp add: unit_fail_def)
qed

lemma start_unit_conforms:
  assumes "start_unit_locked i env m = (ok, m')" and "unit_ok (m_units m i)" and "conforms Up m"
  shows "conforms Up m'"
proof (cases "u_running (m_units m i)")
  case True
  with assms show ?thesis by (simp add: start_unit_locked_def Let_def)
next
  case False
  let ?s = "u_stream (m_units m i)"
  let ?m1 = "upd_unit i (\<lambda>u. u\<lparr>u_fs := ue_fs env\<rparr>) (mlog [CreateFs i ?s (ue_fs env)] m)"
  let ?m2 = "upd_unit i (\<lambda>u. u\<lparr>u_enc := ue_enc env\<rparr>) (mlog [CreateEnc i ?s (ue_enc env)] ?m1)"
  let ?m3 = "mlog [Bind i (is_ok (ue_bind env))] ?m2"
  let ?b3 = "upd_unit i (\<lambda>u. u\<lparr>u_bound := is_ok (ue_bind env)\<rparr>) ?m3"
  let ?m4 = "mlog [FsEnable i (is_ok (ue_enable env))] ?b3"
  let ?b4 = "upd_unit i (\<lambda>u. u\<lparr>u_fs_enabled := is_ok (ue_enable env)\<rparr>) ?m4"
  let ?m5 = "mlog [EncStart i (is_ok (ue_start env))] ?b4"
  let ?b5 = "upd_unit i (\<lambda>u. u\<lparr>u_enc_started := is_ok (ue_start env)\<rparr>) ?m5"
  from False assms(2) have off: "\<not> u_fs (m_units m i)" "\<not> u_enc (m_units m i)" "\<not> u_bound (m_units m i)"
    "\<not> u_fs_enabled (m_units m i)" "\<not> u_enc_started (m_units m i)" by (auto simp: unit_ok_def)
  have c1: "conforms Up ?m1"
    by (rule conforms_upd [OF assms(3), where f = "\<lambda>g. g\<lparr>sg_fs := ue_fs env\<rparr>"])
      (use False assms(2) in simp, simp add: stage_of_def)
  have c2: "ue_fs env \<Longrightarrow> conforms Up ?m2"
    by (rule conforms_upd [OF c1, where f = "\<lambda>g. g\<lparr>sg_enc := ue_enc env\<rparr>"]) (simp_all add: stage_of_def off)
  have b3: "ue_fs env \<Longrightarrow> ue_enc env \<Longrightarrow> conforms Up ?b3"
    by (rule conforms_upd [OF c2, where f = "\<lambda>g. g\<lparr>sg_bound := is_ok (ue_bind env)\<rparr>"]) (simp_all add: stage_of_def off)
  have b4: "ue_fs env \<Longrightarrow> ue_enc env \<Longrightarrow> is_ok (ue_bind env) \<Longrightarrow> conforms Up ?b4"
    by (rule conforms_upd [OF b3, where f = "\<lambda>g. g\<lparr>sg_enabled := is_ok (ue_enable env)\<rparr>"]) (simp_all add: stage_of_def off)
  have b5: "ue_fs env \<Longrightarrow> ue_enc env \<Longrightarrow> is_ok (ue_bind env) \<Longrightarrow> is_ok (ue_enable env) \<Longrightarrow> conforms Up ?b5"
    by (rule conforms_upd [OF b4, where f = "\<lambda>g. g\<lparr>sg_started := is_ok (ue_start env)\<rparr>"]) (simp_all add: stage_of_def off)
  have same: "conforms Up (mlog as k)" if "conforms Up (upd_unit i g (mlog as k))"
    and "stage_of (g (m_units k i)) = stage_of (m_units k i)" for as g k
    using that by (subst conforms_cong [symmetric]) auto
  note sd = start_unit_locked_def Let_def
  from False off consider "\<not> ue_fs env" | "ue_fs env" "\<not> ue_enc env"
    | "ue_fs env" "ue_enc env" "\<not> is_ok (ue_bind env)"
    | "ue_fs env" "ue_enc env" "is_ok (ue_bind env)" "\<not> is_ok (ue_enable env)"
    | "ue_fs env" "ue_enc env" "is_ok (ue_bind env)" "is_ok (ue_enable env)" "\<not> is_ok (ue_start env)"
    | "ue_fs env" "ue_enc env" "is_ok (ue_bind env)" "is_ok (ue_enable env)" "is_ok (ue_start env)"
    by blast
  then show ?thesis
  proof cases
    case 1
    with assms(1) False off have "unit_fail i ''framesource create'' (-1) ?m1 = (ok, m')" by (simp add: sd)
    from unit_fail_conforms [OF this c1] show ?thesis by (simp add: nested_def off)
  next
    case 2
    with assms(1) False off have "unit_fail i ''encoder create'' (-1) ?m2 = (ok, m')" by (simp add: sd)
    from unit_fail_conforms [OF this c2] 2 show ?thesis by (simp add: nested_def off)
  next
    case 3
    with assms(1) False off have "unit_fail i ''bind'' (r_code (ue_bind env)) ?m3 = (ok, m')" by (simp add: sd)
    from unit_fail_conforms [OF this same [OF b3]] 3 show ?thesis by (simp add: nested_def off stage_of_def)
  next
    case 4
    with assms(1) False off have "unit_fail i ''framesource enable'' (r_code (ue_enable env)) ?m4 = (ok, m')"
      by (simp add: sd)
    from unit_fail_conforms [OF this same [OF b4]] 4 show ?thesis by (simp add: nested_def off stage_of_def)
  next
    case 5
    with assms(1) False off have "unit_fail i ''encoder start'' (r_code (ue_start env)) ?m5 = (ok, m')"
      by (simp add: sd)
    from unit_fail_conforms [OF this same [OF b5]] 5 show ?thesis by (simp add: nested_def off stage_of_def)
  next
    case 6
    with assms(1) False off have m': "m_log m' = m_log ?b5" "m_jpeg m' = m_jpeg ?b5"
      "\<And>k. stage_of (m_units m' k) = stage_of (m_units ?b5 k)"
      by (auto simp: sd stage_of_def)
    with b5 [OF 6(1-4)] conforms_cong [of m' ?b5 Up] show ?thesis by simp
  qed
qed

lemma units_ok_nested: "units_ok m \<Longrightarrow> nested2 m"
  by (simp add: units_ok_def nested2_def unit_ok_nested)

lemma conforms_record [simp]:
  "conforms b (m\<lparr>m_failed_count := n\<rparr>) = conforms b m" "conforms b (m\<lparr>m_generation := n\<rparr>) = conforms b m"
  "conforms b (m\<lparr>m_last_error := e\<rparr>) = conforms b m" "conforms b (m\<lparr>m_start_count := n\<rparr>) = conforms b m"
  "conforms b (m\<lparr>m_restart_count := n\<rparr>) = conforms b m" "conforms b (m\<lparr>m_sub_restart_count := n\<rparr>) = conforms b m"
  "conforms b (m\<lparr>m_failed_refused := r\<rparr>) = conforms b m" "conforms b (m\<lparr>m_shutdown := r\<rparr>) = conforms b m"
  "conforms b (m\<lparr>m_ai_demand := d\<rparr>) = conforms b m" "conforms b (m\<lparr>m_listener := r\<rparr>) = conforms b m"
  "conforms b (m\<lparr>m_post_start := r\<rparr>) = conforms b m" "conforms b (m\<lparr>m_sensor_fps_target := f\<rparr>) = conforms b m"
  by (simp_all add: conforms_def hw_of_def)

lemma start_wanted_conforms:
  "start_wanted is first env m = (ok, m') \<Longrightarrow> set is \<subseteq> {UNIT_MAIN, UNIT_SUB} \<Longrightarrow> units_ok m \<Longrightarrow>
   conforms Up m \<Longrightarrow> conforms (if ok then Up else Down) m'"
proof (induction "is" first env m rule: start_wanted.induct)
  case (2 i "is" first env m)
  let ?wanted = "i = first \<or> u_configured (m_units m i) \<and> 0 < u_total (m_units m i)"
  show ?case
  proof (cases "\<not> ?wanted \<or> u_running (m_units m i)")
    case True
    with "2.prems" "2.IH"(1) [OF refl refl True] show ?thesis by (auto simp: Let_def)
  next
    case False
    obtain ok1 m1 where s: "start_unit_locked i (pe_unit env i) m = (ok1, m1)"
      by (cases "start_unit_locked i (pe_unit env i) m")
    from "2.prems"(2,3) have u: "unit_ok (m_units m i)" by (auto simp: units_ok_def)
    from start_unit_post [OF s u] have u1: "units_ok m1"
      using "2.prems"(2,3) by (auto simp: start_post_def units_ok_def)
    from start_unit_conforms [OF s u "2.prems"(4)] have c1: "conforms Up m1" .
    show ?thesis
    proof (cases ok1)
      case True
      with False s "2.prems" have "start_wanted is first env m1 = (ok, m')"
        by (auto simp: Let_def split: if_splits)
      with "2.IH"(2) [OF refl refl False s [symmetric]] True u1 c1 "2.prems"(2) show ?thesis by simp
    next
      case failed: False
      with False s "2.prems"(1) stop_base_conforms [OF c1 units_ok_nested [OF u1]] show ?thesis
        by (auto simp: Let_def split: if_splits)
    qed
  qed
qed simp

lemma bring_up_conforms:
  "conforms Down m \<Longrightarrow> units_ok m \<Longrightarrow> all_stopped m \<Longrightarrow>
   conforms (if ok then Up else Broken) (mlog [BringUp ok] m)"
  by (erule conforms_mlog1 [where a = "BringUp ok"])
    (simp_all add: nothing_held_def units_ok_def all_stopped_def, simp_all add: hw_of_def)

lemma base_up_conforms: "a = PostStart \<or> a = SetSensorFps f \<Longrightarrow> conforms Up m \<Longrightarrow> conforms Up (mlog [a] m)"
  by (erule conforms_mlog1 [where a = a]) (elim disjE; simp)+

lemma start_base_conforms:
  assumes "start_base_locked first env m = (ok, m')" and "units_ok m" and "all_stopped m" and "conforms Down m"
  shows "conforms (if ok then Up else Down) m'"
proof -
  let ?m0 = "m\<lparr>m_start_count := m_start_count m + 1, m_last_error := []\<rparr>"
  let ?m1 = "mlog [BringUp (is_ok (pe_bring_up env))] ?m0"
  have u1: "units_ok ?m1" using assms(2) by (simp add: units_ok_def)
  have c1: "conforms (if is_ok (pe_bring_up env) then Up else Broken) ?m1"
    by (rule bring_up_conforms) (use assms in \<open>simp_all add: units_ok_def all_stopped_def\<close>)
  show ?thesis
  proof (cases "is_ok (pe_bring_up env)")
    case False
    let ?e = "''platform bring-up failed ('' @ int_dec (r_code (pe_bring_up env)) @ '')''"
    from c1 False have "conforms Broken (?m1\<lparr>m_last_error := ?e\<rparr>)" by (simp only: conforms_record if_False)
    from stop_base_conforms [OF this] u1 False assms(1) show ?thesis
      by (auto simp: start_base_locked_def Let_def nested2_def units_ok_def unit_ok_nested)
  next
    case True
    obtain ok2 m2 where w: "start_wanted [UNIT_MAIN, UNIT_SUB] first env ?m1 = (ok2, m2)"
      by (cases "start_wanted [UNIT_MAIN, UNIT_SUB] first env ?m1")
    from start_wanted_conforms [OF w _ u1] c1 True have "conforms (if ok2 then Up else Down) m2" by simp
    with True w assms(1) show ?thesis
      by (auto simp: start_base_locked_def Let_def split: bool.splits if_splits intro!: base_up_conforms)
  qed
qed

text \<open>A rested manager: the log is accepted, and the base is up exactly in \<open>Active\<close> and \<open>GraceIdle\<close>.\<close>

definition rested :: "manager \<Rightarrow> bool" where
  "rested m \<longleftrightarrow> conforms (base_of (m_state m)) m"

lemma stop_and_rest:
  assumes "conforms Up m" and "units_ok m" and "base_of to = Down"
  shows "rested (transition to (stop_base_locked (transition Stopping m)))"
proof -
  have "conforms Down (stop_base_locked (transition Stopping m))"
    by (rule stop_base_conforms [OF conforms_transition [OF assms(1)]])
      (use units_ok_nested [OF assms(2)] in \<open>simp_all add: nested2_def\<close>)
  with assms(3) show ?thesis by (simp add: rested_def conforms_transition)
qed

lemma ensure_base_conforms:
  assumes "ensure_base_locked i env m = (ok, m')" and "lc_inv m" and "rested m"
  shows "rested m'"
proof (cases "m_state m")
  case ColdIdle
  obtain ok1 m1 where b: "start_base_locked i env (transition Starting m) = (ok1, m1)"
    by (cases "start_base_locked i env (transition Starting m)")
  have "conforms (if ok1 then Up else Down) m1"
    by (rule start_base_conforms [OF b])
      (use assms(2,3) ColdIdle in \<open>simp_all add: lc_inv_def units_ok_def all_stopped_def rested_def conforms_transition\<close>)
  with assms(1) ColdIdle b show ?thesis
    by (auto simp: ensure_base_locked_def rested_def conforms_transition split: bool.splits)
qed (use assms in \<open>auto simp: ensure_base_locked_def rested_def intro!: conforms_transition conforms_neutral\<close>)

subsection \<open>Every method\<close>

lemma conforms_talk:
  assumes "conforms b m" and "m_log m' = m_log m @ as" and "list_all neutral as"
    and "\<And>i. stage_of (m_units m' i) = stage_of (m_units m i)" and "j_enc (m_jpeg m') = j_enc (m_jpeg m)"
  shows "conforms b m'"
  by (rule conforms_ext [OF assms(1,2)]) (use assms(3-) in \<open>simp add: neutral_run hw_of_def\<close>)

lemma rested_talk:
  assumes "rested m" and "m_log m' = m_log m @ as" and "list_all neutral as"
    and "\<And>i. stage_of (m_units m' i) = stage_of (m_units m i)" and "j_enc (m_jpeg m') = j_enc (m_jpeg m)"
    and "base_of (m_state m') = base_of (m_state m)"
  shows "rested m'"
  using conforms_talk [OF _ assms(2-5)] assms(1,6) by (simp add: rested_def)

lemmas rested_silent = rested_talk [where as = "[]", simplified]

lemma rested_disarm: "rested m \<Longrightarrow> rested (disarm_unit i m)" "rested m \<Longrightarrow> rested (disarm_jpeg m)"
  by (erule rested_talk [where as = "if u_grace_armed (m_units m i) \<and> u_timer (m_units m i)
        then [DisarmTimer (UnitTimer i)] else []"]; auto simp: disarm_unit_def stage_of_def)
    (erule rested_talk [where as = "if j_grace_armed (m_jpeg m) \<and> j_timer (m_jpeg m)
        then [DisarmTimer JpegTimer] else []"]; auto simp: disarm_jpeg_def)

lemma rested_mlog: "rested m \<Longrightarrow> list_all neutral as \<Longrightarrow> rested (mlog as m)"
  by (simp add: rested_def conforms_neutral)

lemma rested_to: "rested m \<Longrightarrow> base_of to = base_of (m_state m) \<Longrightarrow> rested (transition to m)"
  by (simp add: rested_def conforms_transition)

lemma rested_enter_grace: "rested m \<Longrightarrow> m_state m = Active \<Longrightarrow> rested (enter_grace m)"
  unfolding enter_grace_def Let_def by (intro rested_mlog rested_to rested_disarm) simp_all

lemma rested_stop_unit:
  "rested m \<Longrightarrow> units_ok m \<Longrightarrow> i = UNIT_MAIN \<or> i = UNIT_SUB \<Longrightarrow> rested (stop_unit_locked i m)"
  by (auto simp: rested_def units_ok_def unit_ok_nested intro!: stop_unit_conforms)

lemma rested_stop_jpeg: "rested m \<Longrightarrow> rested (stop_jpeg_locked m)"
  by (simp add: rested_def stop_jpeg_conforms)

lemma rested_fail_unused: "rested m \<Longrightarrow> units_ok m \<Longrightarrow> rested (fail_unused_base m)"
  unfolding fail_unused_base_def using stop_and_rest [of m Failed] by (auto simp: rested_def)

lemma rested_upd_unit:
  "rested m \<Longrightarrow> stage_of (f (m_units m i)) = stage_of (m_units m i) \<Longrightarrow> rested (upd_unit i f m)"
  by (erule rested_silent) auto

lemma rested_upd_jpeg: "rested m \<Longrightarrow> j_enc (f (m_jpeg m)) = j_enc (m_jpeg m) \<Longrightarrow> rested (upd_jpeg f m)"
  by (erule rested_silent) auto

lemma rested_start_unit:
  assumes "rested m" and "ready m" and "i = UNIT_MAIN \<or> i = UNIT_SUB"
    and "(if u_running (m_units m i) then (True, m) else start_unit_locked i env m) = (ok, m')"
  shows "rested m'"
proof (cases "u_running (m_units m i)")
  case False
  with assms(4) have s: "start_unit_locked i env m = (ok, m')" by simp
  from assms(2,3) have u: "unit_ok (m_units m i)" by (auto simp: ready_def units_ok_def)
  have "m_state m' = Active" using start_unit_post [OF s u] assms(2) by (simp add: start_post_def ready_def)
  with start_unit_conforms [OF s u] assms(1,2) show ?thesis by (simp add: rested_def ready_def)
qed (use assms in auto)

lemma rested_start_jpeg:
  assumes "rested m" and "m_state m = Active"
    and "(if j_enc (m_jpeg m) then (True, m) else start_jpeg_locked c m) = (ok, m')"
  shows "rested m'"
proof (cases "j_enc (m_jpeg m)")
  case False
  let ?P = "\<lambda>p. conforms Up (upd_jpeg (\<lambda>j. j\<lparr>j_enc := c\<rparr>) (mlog [CreateJpeg p c] m))"
  from assms(1,2) have "conforms Up m" by (simp add: rested_def)
  then have "?P p" for p
    by (rule conforms_mlog1 [where a = "CreateJpeg p c"]) (use False in \<open>simp_all add: hw_of_def\<close>)
  with assms(2,3) False show ?thesis
    by (auto simp: start_jpeg_locked_def Let_def rested_def split: if_splits)
qed (use assms in auto)

lemma rested_acquire_unit:
  assumes "acquire_unit i ty env m = (r, h, m')" and "lc_inv m" and "rested m"
  shows "rested m'"
proof (cases "m_shutdown m \<or> i < 0 \<or> UNIT_SUB < i \<or> \<not> u_configured (m_units m i)")
  case True
  with assms(1,3) show ?thesis by (auto simp: acquire_unit_def split: if_splits)
next
  case False
  then have i: "i = UNIT_MAIN \<or> i = UNIT_SUB" and sd: "\<not> m_shutdown m" by auto
  obtain ok1 m1 where e: "ensure_base_locked i env m = (ok1, m1)" by (cases "ensure_base_locked i env m")
  note p = ensure_base_post [OF e assms(2) sd] and c = ensure_base_conforms [OF e assms(2,3)]
  let ?m2 = "disarm_unit i m1"
  obtain ok m3 where s: "(if u_running (m_units ?m2 i) then (True, ?m2)
      else start_unit_locked i (pe_unit env i) ?m2) = (ok, m3)" by (metis surj_pair)
  show ?thesis
  proof (cases ok1)
    case True
    with p have r2: "ready ?m2" by simp
    have c3: "rested m3" by (rule rested_start_unit [OF rested_disarm(1) [OF c] r2 i s])
    have u3: "units_ok m3" using acquire_start_ready [OF r2 i s] by (simp add: ready_def)
    have "rested (upd_unit i (\<lambda>u. u\<lparr>u_demand := (u_demand u)(ty := u_demand u ty + 1), u_total := u_total u + 1\<rparr>) m3)"
      by (rule rested_upd_unit [OF c3]) (simp add: stage_of_def)
    with rested_fail_unused [OF c3 u3] False assms(1) e True s show ?thesis
      by (auto simp: acquire_unit_def Let_def split: if_splits)
  qed (use False assms(1) e c in \<open>auto simp: acquire_unit_def\<close>)
qed

lemma rested_acquire_base:
  assumes "acquire_base ty env m = (r, h, m')" and "lc_inv m" and "rested m"
  shows "rested m'"
proof -
  obtain ok1 m1 where e: "ensure_base_locked (-1) env m = (ok1, m1)" by (cases "ensure_base_locked (-1) env m")
  have "rested m1" by (rule ensure_base_conforms [OF e assms(2,3)])
  moreover have "rested (m1\<lparr>m_ai_demand := m_ai_demand m1 + 1\<rparr>)" using calculation by (simp add: rested_def)
  ultimately show ?thesis
    using assms(1,3) e by (auto simp: acquire_base_def split: if_splits bool.splits)
qed

lemma rested_drop:
  "rested m \<Longrightarrow> rested (drop_ai_demand m)" "rested m \<Longrightarrow> rested (drop_unit_demand ty i m)"
  "rested m \<Longrightarrow> rested (drop_jpeg_demand m)"
  by (erule rested_silent; auto simp: drop_ai_demand_def drop_unit_demand_def drop_jpeg_demand_def stage_of_def)+

lemma rested_wind_down:
  assumes "rested m"
  shows "units_ok m \<Longrightarrow> i = UNIT_MAIN \<or> i = UNIT_SUB \<Longrightarrow> rested (wind_down_unit i m)"
    and "rested (wind_down_jpeg m)"
  unfolding wind_down_unit_def wind_down_jpeg_def using assms
  by (auto intro!: rested_upd_unit rested_upd_jpeg rested_mlog rested_stop_unit rested_stop_jpeg simp: stage_of_def)

lemma rested_release:
  assumes "rested m" and "units_ok m" and "i = UNIT_MAIN \<or> i = UNIT_SUB \<or> i = UNIT_AI"
  shows "rested (release ty i m)"
  using assms by (auto simp: release_def Let_def intro!: rested_enter_grace rested_drop rested_wind_down)

lemma rested_snapshot_begin:
  assumes "snapshot_begin env m = (re, m')" and "lc_inv m" and "rested m"
  shows "rested m'"
proof (cases "m_shutdown m \<or> \<not> j_configured (m_jpeg m) \<or> \<not> j_enabled (m_jpeg m)")
  case True
  with assms(1,3) show ?thesis by (auto simp: snapshot_begin_def split: if_splits)
next
  case False
  obtain ok1 m1 where e: "ensure_base_locked UNIT_JPEG env m = (ok1, m1)" by (cases "ensure_base_locked UNIT_JPEG env m")
  note p = ensure_base_post [OF e assms(2)] and c = ensure_base_conforms [OF e assms(2,3)]
  let ?m2 = "disarm_jpeg m1"
  obtain ok m3 where s: "(if j_enc (m_jpeg ?m2) then (True, ?m2)
      else start_jpeg_locked (pe_create_jpeg env) ?m2) = (ok, m3)" by (metis surj_pair)
  show ?thesis
  proof (cases ok1)
    case True
    with p False have r2: "ready ?m2" by simp
    then have a: "m_state ?m2 = Active" by (simp add: ready_def)
    have c3: "rested m3" by (rule rested_start_jpeg [OF rested_disarm(2) [OF c] a s])
    have "m_units m3 = m_units ?m2" using s by (auto split: if_splits dest: start_jpeg_spec)
    then have u3: "units_ok m3" using r2 by (simp add: ready_def units_ok_def)
    have "rested (upd_jpeg (\<lambda>j. j\<lparr>j_demand := j_demand j + 1\<rparr>) m3)" by (rule rested_upd_jpeg [OF c3]) simp
    with rested_fail_unused [OF c3 u3] False assms(1) e True s show ?thesis
      by (auto simp: snapshot_begin_def Let_def split: if_splits)
  qed (use False assms(1) e c in \<open>auto simp: snapshot_begin_def split: if_splits\<close>)
qed

lemma rested_snapshot_end: "rested m \<Longrightarrow> rested (snapshot_end m)"
  by (auto simp: snapshot_end_def Let_def intro!: rested_enter_grace rested_drop rested_wind_down)

lemma rested_grace:
  assumes "rested m" and "units_ok m"
  shows "rested (on_grace_timeout m)" and "rested (on_unit_grace i m)" and "rested (on_jpeg_grace m)"
    and "rested (set_jpeg_enabled on m)"
proof -
  show "rested (on_grace_timeout m)"
    using assms stop_and_rest [of m ColdIdle] by (auto simp: on_grace_timeout_def rested_def)
  have "rested (upd_unit i (\<lambda>u. u\<lparr>u_grace_armed := False\<rparr>) m)"
    by (rule rested_upd_unit [OF assms(1)]) (simp add: stage_of_def)
  moreover have "units_ok (upd_unit i (\<lambda>u. u\<lparr>u_grace_armed := False\<rparr>) m)"
    using assms(2) by (auto simp: units_ok_def unit_ok_def)
  ultimately show "rested (on_unit_grace i m)"
    using assms(1) by (auto simp: on_unit_grace_def Let_def intro!: rested_stop_unit)
  show "rested (on_jpeg_grace m)" "rested (set_jpeg_enabled on m)"
    using assms(1) by (auto simp: on_jpeg_grace_def set_jpeg_enabled_def Let_def
        intro!: rested_stop_jpeg rested_disarm rested_upd_jpeg)
qed

lemma rested_shutdown:
  assumes "rested m" and "units_ok m"
  shows "rested (shutdown m)"
proof -
  let ?m = "disarm_jpeg (disarm_unit UNIT_SUB (disarm_unit UNIT_MAIN
      (mlog [DisarmTimer BaseTimer] (m\<lparr>m_shutdown := True\<rparr>))))"
  have "rested (m\<lparr>m_shutdown := True\<rparr>)" using assms(1) by (simp add: rested_def)
  then have r: "rested ?m" by (intro rested_disarm rested_mlog) simp_all
  moreover have "units_ok ?m" using assms(2) by (simp add: units_ok_def)
  ultimately have "rested (transition ColdIdle (stop_base_locked (transition Stopping ?m)))"
    if "m_state m = Active \<or> m_state m = GraceIdle"
    using that by (intro stop_and_rest) (auto simp: rested_def)
  with r show ?thesis by (simp add: shutdown_def Let_def)
qed

lemma rested_update_stream:
  assumes "update_stream st rs env m = (r, m')" and "lc_inv m" and "rested m"
  shows "rested m'"
proof -
  let ?m1 = "upd_unit UNIT_MAIN (\<lambda>u. u\<lparr>u_stream := st\<rparr>) m"
  have r1: "rested ?m1" by (rule rested_upd_unit [OF assms(3)]) (simp add: stage_of_def)
  show ?thesis
  proof (cases "\<not> pipeline_running ?m1 \<or> \<not> rs")
    case True
    with assms(1) r1 show ?thesis by (auto simp: update_stream_def Let_def)
  next
    case False
    then have up: "base_of (m_state m) = Up" by (auto simp: pipeline_running_def)
    let ?m2 = "stop_base_locked (transition Stopping ?m1)"
    let ?m3 = "transition Starting (?m2\<lparr>m_restart_count := m_restart_count ?m2 + 1\<rparr>)"
    obtain ok m4 where s: "start_base_locked UNIT_MAIN env ?m3 = (ok, m4)"
      by (cases "start_base_locked UNIT_MAIN env ?m3")
    have n: "nested2 (transition Stopping ?m1)"
      using assms(2) by (auto simp: lc_inv_def units_ok_def nested2_def nested_def unit_ok_def)
    have "conforms Up (transition Stopping ?m1)" using r1 up by (intro conforms_transition) (simp add: rested_def)
    from stop_base_conforms [OF this n] have "conforms Down ?m3" by (intro conforms_transition) simp
    from start_base_conforms [OF s _ _ this] have "conforms (if ok then Up else Down) m4"
      by (simp add: units_ok_def all_stopped_def)
    with False assms(1) s up show ?thesis
      by (cases ok) (auto simp: update_stream_def Let_def rested_def
          intro!: conforms_transition conforms_neutral)
  qed
qed

lemma rested_update_sub_stream:
  assumes "update_sub_stream st en env m = (r, m')" and "lc_inv m" and "rested m"
  shows "rested m'"
proof -
  let ?u = "m_units m UNIT_SUB"
  let ?m1 = "upd_unit UNIT_SUB (\<lambda>u. u\<lparr>u_stream := st\<rparr>) m"
  let ?m2 = "stop_unit_locked UNIT_SUB ?m1"
  let ?m3 = "?m2\<lparr>m_sub_restart_count := m_sub_restart_count ?m2 + 1\<rparr>"
  obtain ok m4 where s: "start_unit_locked UNIT_SUB (pe_unit env UNIT_SUB) ?m3 = (ok, m4)"
    by (cases "start_unit_locked UNIT_SUB (pe_unit env UNIT_SUB) ?m3")
  have u: "units_ok m" using assms(2) by (simp add: lc_inv_def)
  have r1: "rested ?m1" by (rule rested_upd_unit [OF assms(3)]) (simp add: stage_of_def)
  have u1: "units_ok ?m1" using u by (auto simp: units_ok_def unit_ok_def)
  have "rested (stop_unit_locked UNIT_SUB m)" by (rule rested_stop_unit [OF assms(3) u]) simp
  then have off: "rested (upd_unit UNIT_SUB (\<lambda>u. u\<lparr>u_configured := False\<rparr>)
      (if u_running ?u then stop_unit_locked UNIT_SUB m else m))"
    using assms(3) by (intro rested_upd_unit) (simp_all add: stage_of_def)
  have "rested m4" if "u_running ?u"
  proof -
    have nc: "\<not> (m_state m = ColdIdle \<or> m_state m = Failed \<or> m_state m = Starting \<or> m_state m = Stopping)"
      using that assms(2) by (auto simp: lc_inv_def all_stopped_def)
    then have b: "base_of (m_state m) = Up" by (cases "m_state m") auto
    have "rested ?m2" by (rule rested_stop_unit [OF r1 u1]) simp
    then have c: "conforms Up ?m3" using b by (simp add: rested_def)
    have ok3: "unit_ok (m_units ?m3 UNIT_SUB)" by simp
    have "m_state m4 = m_state m" using start_unit_post [OF s ok3] by (simp add: start_post_def)
    with start_unit_conforms [OF s ok3 c] b show ?thesis by (simp add: rested_def)
  qed
  with off r1 assms(1,3) s show ?thesis
    by (auto simp: update_sub_stream_def Let_def split: if_splits bool.splits)
qed

lemma rested_controls:
  assumes "rested m"
  shows "rested (configure_sub st t m)" "rested (configure_jpeg p c g t m)" "rested (set_unit_grace_timer i t m)"
    "rested (set_sensor_fps_target f m)" "rested (m\<lparr>m_listener := b\<rparr>)" "rested (m\<lparr>m_post_start := b\<rparr>)"
    "live_bitrate k call m = (r, e, m') \<Longrightarrow> rested m'" "live_gop k call m = (r, e, m') \<Longrightarrow> rested m'"
    "snapshot_capture a now t0 t1 t2 jcall m = (r, out, err, m') \<Longrightarrow> rested m'"
  by (rule rested_silent [OF assms]; auto simp: configure_sub_def configure_jpeg_def set_unit_grace_timer_def
      set_sensor_fps_target_def live_bitrate_def live_gop_def snapshot_capture_def Let_def stage_of_def
      split: if_splits prod.splits)+

lemma rested_request_idr:
  assumes "rested m"
  shows "rested (request_idr i m)"
proof -
  have "conforms Up (mlog [RequestIdr i] m)" if "conforms Up m" "u_enc (m_units m i)"
    using that(1) by (rule conforms_mlog1 [where a = "RequestIdr i"]) (use that in simp_all)
  with assms show ?thesis by (auto simp: request_idr_def pipeline_running_def rested_def)
qed

lemma window_frame_stage [frame_simps]: "stage_of (window_frame au u) = stage_of u"
  by (simp add: window_frame_def Let_def stage_of_def)

lemma stage_counters [frame_simps]:
  "stage_of (u\<lparr>u_dropped := d\<rparr>) = stage_of u" "stage_of (u\<lparr>u_seq := n\<rparr>) = stage_of u"
  "stage_of (u\<lparr>u_frames := f\<rparr>) = stage_of u"
  by (simp_all add: stage_of_def)

lemma capture_pass_stage [frame_simps]: "stage_of (cs_unit (capture_pass e c)) = stage_of (cs_unit c)"
  by (simp add: capture_pass_def Let_def frame_simps split: prod.split option.split)

lemma rested_capture:
  "rested m \<Longrightarrow> cs_unit c = m_units m i \<Longrightarrow> rested (upd_unit i (\<lambda>_. cs_unit (capture_pass e c)) m)"
  by (rule rested_upd_unit) (simp_all add: frame_simps)

lemma rested_handle_release:
  assumes "sys_inv s" and "rested (sys_m s)" and "k < length (sys_handles s)"
    and "handle_release (sys_handles s ! k) (sys_m s) = (h', m')"
  shows "rested m'"
proof (cases "h_active (sys_handles s ! k)")
  case True
  then have "h_unit (sys_handles s ! k) \<in> {UNIT_MAIN, UNIT_SUB, UNIT_AI}"
    using assms(1,3) by (auto simp: sys_inv_def acct_def)
  with True assms show ?thesis
    by (auto simp: handle_release_def sys_inv_def lc_inv_def intro!: rested_release)
qed (use assms in \<open>auto simp: handle_release_def\<close>)

lemmas rested_steps = rested_acquire_unit rested_acquire_base rested_handle_release rested_grace rested_shutdown
  rested_update_stream rested_update_sub_stream rested_controls rested_request_idr rested_snapshot_begin
  rested_snapshot_end rested_capture

lemma sys_inv_units: "sys_inv s \<Longrightarrow> lc_inv (sys_m s) \<and> units_ok (sys_m s)"
  by (simp add: sys_inv_def lc_inv_def)

lemma sys_step_rested: "sys_step s t \<Longrightarrow> sys_inv s \<Longrightarrow> rested (sys_m s) \<Longrightarrow> rested (sys_m t)"
  by (induction rule: sys_step.induct) (auto dest: sys_inv_units intro: rested_steps)

lemma reachable_rested: "reachable s \<Longrightarrow> rested (sys_m s)"
proof (induction rule: reachable.induct)
  case (start st g p)
  show ?case
    by (simp add: system_new_def rested_def conforms_def manager_new_def hw0_def hw_of_def stage0_def
        stage_of_def unit_rec0_def jpeg_unit0_def fun_eq_iff)
next
  case (step s t)
  then show ?case using sys_step_rested reachable_sys_inv by blast
qed

end
