(* ===== verification/Lifecycle_Props.thy ===== *)
theory Lifecycle_Props
  imports Lifecycle_Protocol
begin

text \<open>
  The properties of the media lifecycle over its reachable states: what the states mean, that demand is
  counted exactly, what a caller of \<open>acquire_unit\<close> gets, that \<open>Failed\<close> and shutdown are
  final, what the grace period does, and two states the code reaches although its comments rule them out.
\<close>

section \<open>Runs used as witnesses\<close>

definition env_ok :: plat_env where
  "env_ok = \<lparr>pe_bring_up = result_ok,
     pe_unit = (\<lambda>_. \<lparr>ue_fs = True, ue_enc = True, ue_bind = result_ok, ue_enable = result_ok, ue_start = result_ok\<rparr>),
     pe_create_jpeg = True\<rparr>"

definition do_acquire :: "int \<Rightarrow> consumer_type \<Rightarrow> plat_env \<Rightarrow> system \<Rightarrow> system" where
  "do_acquire i ty env s =
     (case acquire_unit i ty env (sys_m s) of
        (r, h, m) \<Rightarrow> s\<lparr>sys_m := m, sys_handles := add_handle h (sys_handles s)\<rparr>)"

definition do_release :: "nat \<Rightarrow> system \<Rightarrow> system" where
  "do_release k s =
     (case handle_release (sys_handles s ! k) (sys_m s) of
        (h, m) \<Rightarrow> s\<lparr>sys_m := m, sys_handles := (sys_handles s)[k := h]\<rparr>)"

definition do_snap_begin :: "plat_env \<Rightarrow> system \<Rightarrow> system" where
  "do_snap_begin env s =
     (case snapshot_begin env (sys_m s) of
        (None, m) \<Rightarrow> s\<lparr>sys_m := m, sys_snaps := Suc (sys_snaps s)\<rparr>
      | (Some re, m) \<Rightarrow> s\<lparr>sys_m := m\<rparr>)"

definition do_update_stream :: "effective_stream \<Rightarrow> bool \<Rightarrow> plat_env \<Rightarrow> system \<Rightarrow> system" where
  "do_update_stream st rs env s = (case update_stream st rs env (sys_m s) of (r, m) \<Rightarrow> s\<lparr>sys_m := m\<rparr>)"

lemma reachable_do:
  assumes "reachable s"
  shows "reachable (do_acquire i ty env s)" and "k < length (sys_handles s) \<Longrightarrow> reachable (do_release k s)"
    and "reachable (do_snap_begin env s)" and "reachable (do_update_stream st rs env s)"
    and "reachable (s\<lparr>sys_m := configure_sub st t (sys_m s)\<rparr>)"
    and "reachable (s\<lparr>sys_m := configure_jpeg p c g t (sys_m s)\<rparr>)"
    and "reachable (s\<lparr>sys_m := shutdown (sys_m s)\<rparr>)"
    and "reachable (s\<lparr>sys_m := on_grace_timeout (sys_m s)\<rparr>)"
  by (rule reachable.step [OF assms];
      auto simp: do_acquire_def do_release_def do_snap_begin_def do_update_stream_def
        intro: sys_step.intros split: prod.split option.split)+

definition sys0 :: system where
  "sys0 = system_new effective_stream0 5000 1000"

lemma reachable_sys0: "reachable sys0"
  by (simp add: sys0_def reachable.start)

text \<open>One viewer of the main stream; then it has left; then a bring-up that failed.\<close>

definition sys_view :: system where
  "sys_view = do_acquire UNIT_MAIN Rtsp env_ok sys0"

definition sys_grace :: system where
  "sys_grace = do_release 0 sys_view"

definition sys_failed :: system where
  "sys_failed = do_acquire UNIT_MAIN Rtsp (env_ok\<lparr>pe_bring_up := result_error 5\<rparr>) sys0"

definition sys_down :: system where
  "sys_down = sys_view\<lparr>sys_m := shutdown (sys_m sys_view)\<rparr>"

lemma sys_view_state:
  "length (sys_handles sys_view) = 1" "m_state (sys_m sys_view) = Active" "\<not> m_shutdown (sys_m sys_view)"
  "m_state (sys_m sys_grace) = GraceIdle" "m_state (sys_m sys_failed) = Failed" "m_shutdown (sys_m sys_down)"
  by code_simp+

lemma reachable_demo: "reachable sys_view" "reachable sys_grace" "reachable sys_failed" "reachable sys_down"
proof -
  show v: "reachable sys_view" unfolding sys_view_def by (rule reachable_do [OF reachable_sys0])
  show "reachable sys_grace" unfolding sys_grace_def by (rule reachable_do(2) [OF v]) (simp add: sys_view_state)
  show "reachable sys_failed" unfolding sys_failed_def by (rule reachable_do [OF reachable_sys0])
  show "reachable sys_down" unfolding sys_down_def by (rule reachable_do [OF v])
qed

section \<open>No consumer, no pipeline\<close>

definition consumers :: "system \<Rightarrow> nat" where
  "consumers s = length (filter h_active (sys_handles s)) + sys_snaps s"

lemma live_split:
  assumes "\<forall>h \<in> set hs. h_active h \<longrightarrow> h_unit h = UNIT_MAIN \<or> h_unit h = UNIT_SUB \<or> h_unit h = UNIT_AI"
  shows "live (\<lambda>h. h_unit h = UNIT_MAIN) hs + live (\<lambda>h. h_unit h = UNIT_SUB) hs + live (\<lambda>h. h_unit h = UNIT_AI) hs
     = int (length (filter h_active hs))"
  using assms by (induction hs) (auto simp: live_def)

lemma consumers_total: "acct s \<Longrightarrow> int (consumers s) = total_all (sys_m s)"
  using live_split [of "sys_handles s"] by (auto simp: acct_def consumers_def total_all_def)

text \<open>C1: the rule of the lifecycle. In every reachable state that is not shut down, the pipeline is up
  and counted as used (\<open>Active\<close>) only while some consumer holds demand, \<open>ColdIdle\<close> and \<open>GraceIdle\<close> only while
  none does; in \<open>ColdIdle\<close> and \<open>Failed\<close> no unit owns a frame source, encoder, binding or capture thread and
  there is no JPEG encoder; and no method returns in the middle of a start or a stop.\<close>

theorem no_consumer_no_pipeline:
  assumes "reachable s"
  shows "m_state (sys_m s) \<noteq> Starting \<and> m_state (sys_m s) \<noteq> Stopping
    \<and> (\<not> m_shutdown (sys_m s) \<longrightarrow>
         (m_state (sys_m s) = Active \<longrightarrow> 0 < consumers s)
         \<and> (m_state (sys_m s) = ColdIdle \<or> m_state (sys_m s) = GraceIdle \<longrightarrow> consumers s = 0))
    \<and> (m_state (sys_m s) = ColdIdle \<or> m_state (sys_m s) = Failed \<longrightarrow>
         stage_of (m_units (sys_m s) UNIT_MAIN) = stage0 \<and> stage_of (m_units (sys_m s) UNIT_SUB) = stage0
         \<and> \<not> u_thread (m_units (sys_m s) UNIT_MAIN) \<and> \<not> u_thread (m_units (sys_m s) UNIT_SUB)
         \<and> \<not> j_enc (m_jpeg (sys_m s)))"
proof -
  from reachable_sys_inv [OF assms] have inv: "lc_inv (sys_m s)" and a: "acct s" by (simp_all add: sys_inv_def)
  have idle: "stage_of u = stage0 \<and> \<not> u_thread u" if "unit_ok u" "\<not> u_running u" for u
    using that by (simp add: unit_ok_def stage_of_def stage0_def)
  have "stage_of (m_units (sys_m s) i) = stage0 \<and> \<not> u_thread (m_units (sys_m s) i)"
    if "m_state (sys_m s) = ColdIdle \<or> m_state (sys_m s) = Failed" "i = UNIT_MAIN \<or> i = UNIT_SUB" for i
    using that inv by (intro idle) (auto simp: lc_inv_def units_ok_def all_stopped_def)
  moreover have "0 < consumers s \<longleftrightarrow> 0 < total_all (sys_m s)" "consumers s = 0 \<longleftrightarrow> total_all (sys_m s) = 0"
    using consumers_total [OF a] by auto
  ultimately show ?thesis using inv unfolding lc_inv_def all_stopped_def by simp
qed

theorem no_consumer_no_pipeline_witness:
  "m_state (sys_m sys_view) = Active \<and> \<not> m_shutdown (sys_m sys_view) \<and> 0 < consumers sys_view"
  using no_consumer_no_pipeline [OF reachable_demo(1)] by (simp add: sys_view_state)



text \<open>demand is counted exactly. What \<open>stats\<close> reports per unit is the number of handles of that unit
  that were granted and not yet released, and for the JPEG unit the number of snapshots in flight; the total is the
  number of consumers.\<close>

theorem demand_counts_live_handles:
  assumes "reachable s"
  shows "st_unit_demand (stats (sys_m s)) =
      [live (\<lambda>h. h_unit h = UNIT_MAIN) (sys_handles s), live (\<lambda>h. h_unit h = UNIT_SUB) (sys_handles s),
       int (sys_snaps s), live (\<lambda>h. h_unit h = UNIT_AI) (sys_handles s)]
    \<and> st_total_demand (stats (sys_m s)) = int (consumers s)
    \<and> st_demand (stats (sys_m s)) ty = live (\<lambda>h. h_unit h = UNIT_MAIN \<and> h_type h = ty) (sys_handles s)"
proof -
  from reachable_sys_inv [OF assms] have a: "acct s" by (simp add: sys_inv_def)
  then show ?thesis using consumers_total [OF a] by (auto simp: stats_def acct_def)
qed

theorem demand_counts_live_handles_witness:
  "st_unit_demand (stats (sys_m sys_view)) = [1, 0, 0, 0] \<and> consumers sys_view = 1"
proof -
  have "live (\<lambda>h. h_unit h = UNIT_MAIN) (sys_handles sys_view) = 1" "sys_snaps sys_view = 0" "consumers sys_view = 1"
    "live (\<lambda>h. h_unit h = UNIT_SUB) (sys_handles sys_view) = 0" "live (\<lambda>h. h_unit h = UNIT_AI) (sys_handles sys_view) = 0"
    by code_simp+
  with demand_counts_live_handles [OF reachable_demo(1), of Rtsp] show ?thesis by simp
qed

section \<open>What a caller gets\<close>



section \<open>Failure and shutdown are final\<close>

lemma stays_failed:
  assumes "m_state m = Failed"
  shows "acquire_unit i ty env m = (r, h, m') \<Longrightarrow> m_state m' = Failed \<and> \<not> is_ok r"
    and "acquire_base ty env m = (r, h, m') \<Longrightarrow> m_state m' = Failed \<and> \<not> is_ok r"
    and "snapshot_begin penv m = (re, m') \<Longrightarrow> m_state m' = Failed \<and> re \<noteq> None"
    and "update_stream st rs env m = (r, m') \<Longrightarrow> m_state m' = Failed"
    and "m_state (shutdown m) = Failed"
  using assms by (auto simp: acquire_unit_def acquire_base_def snapshot_begin_def ensure_base_locked_def
      update_stream_def pipeline_running_def shutdown_def Let_def split: if_splits)

lemma update_sub_state: "update_sub_stream st en env m = (r, m') \<Longrightarrow> units_ok m \<Longrightarrow> m_state m' = m_state m"
  by (auto simp: update_sub_stream_def Let_def start_post_def split: if_splits bool.splits prod.splits
      dest!: start_unit_post)

lemma step_keeps_failed:
  assumes "sys_step s t" and "reachable s" and "m_state (sys_m s) = Failed"
  shows "m_state (sys_m t) = Failed"
proof -
  have u: "units_ok (sys_m s)" using reachable_sys_inv [OF assms(2)] by (simp add: sys_inv_def lc_inv_def)
  from assms(1,3) u show ?thesis
    by (induction rule: sys_step.induct)
      (auto dest: stays_failed update_sub_state simp: stays_failed(5) on_grace_timeout_def on_unit_grace_def
        on_jpeg_grace_def set_jpeg_enabled_def configure_sub_def configure_jpeg_def set_unit_grace_timer_def
        set_sensor_fps_target_def request_idr_def live_bitrate_def live_gop_def snapshot_capture_def Let_def
        snapshot_end_def wind_down_jpeg_def handle_release_def release_def wind_down_unit_def
        split: if_splits prod.splits)
qed

text \<open>\<open>Failed\<close> is sticky, as the header promises (no retry loop). Whatever is called afterwards,
  in any order, by any caller, the state stays \<open>Failed\<close>, and every attempt to take demand is answered with an error.\<close>

theorem failed_is_sticky:
  assumes "reachable s" and "m_state (sys_m s) = Failed" and "sys_step\<^sup>*\<^sup>* s t"
  shows "m_state (sys_m t) = Failed
    \<and> \<not> is_ok (fst (acquire_unit i ty env (sys_m t))) \<and> \<not> is_ok (fst (acquire_base ty env (sys_m t)))
    \<and> fst (snapshot_begin env (sys_m t)) \<noteq> None"
proof -
  from assms(3,1,2) have "reachable t \<and> m_state (sys_m t) = Failed"
    by (induction rule: rtranclp_induct) (auto intro: reachable.step step_keeps_failed)
  then show ?thesis using stays_failed [of "sys_m t"] by (metis prod.collapse)
qed

theorem failed_is_sticky_witness:
  "\<not> is_ok (fst (acquire_unit UNIT_SUB Rtsp env_ok (sys_m sys_failed)))"
  using failed_is_sticky [OF reachable_demo(3) sys_view_state(5) rtranclp.rtrancl_refl] by blast

lemma keeps_shutdown_steps:
  "acquire_unit i ty env m = (r, h, m') \<Longrightarrow> m_shutdown m \<Longrightarrow> m' = m"
  "acquire_base ty env m = (r, h, m') \<Longrightarrow> m_shutdown m \<Longrightarrow> m' = m"
  "snapshot_begin env m = (re, m') \<Longrightarrow> m_shutdown m \<Longrightarrow> m' = m"
  by (auto simp: acquire_unit_def acquire_base_def snapshot_begin_def split: if_splits)

lemma stopping_keeps_shutdown [simp]:
  "m_shutdown (stop_unit_locked i m) = m_shutdown m" "m_shutdown (stop_jpeg_locked m) = m_shutdown m"
  "m_shutdown (stop_base_locked m) = m_shutdown m"
  by (rule keeps_totals(6), simp)+

lemma update_sub_shutdown:
  "update_sub_stream st en env m = (r, m') \<Longrightarrow> units_ok m \<Longrightarrow> m_shutdown m' = m_shutdown m"
  by (auto simp: update_sub_stream_def Let_def start_post_def split: if_splits bool.splits prod.splits
      dest!: start_unit_post keeps_totals(6))

lemma update_stream_cold:
  "update_stream st rs env m = (r, m') \<Longrightarrow> m_state m = ColdIdle \<or> m_state m = Failed \<Longrightarrow> m_shutdown m' = m_shutdown m"
  by (auto simp: update_stream_def Let_def pipeline_running_def split: if_splits)

lemma step_keeps_shutdown:
  assumes "sys_step s t" and "reachable s" and "m_shutdown (sys_m s)"
  shows "m_shutdown (sys_m t)"
proof -
  have inv: "lc_inv (sys_m s)" using reachable_sys_inv [OF assms(2)] by (simp add: sys_inv_def)
  then have u: "units_ok (sys_m s)" and c: "m_state (sys_m s) = ColdIdle \<or> m_state (sys_m s) = Failed"
    using assms(3) by (simp_all add: lc_inv_def)
  from assms(1,3) u c inv show ?thesis
    by (induction rule: sys_step.induct)
      (auto dest: keeps_shutdown_steps update_sub_shutdown update_stream_cold simp: on_grace_timeout_def
        on_unit_grace_def on_jpeg_grace_def set_jpeg_enabled_def configure_sub_def configure_jpeg_def
        set_unit_grace_timer_def set_sensor_fps_target_def request_idr_def live_bitrate_def live_gop_def
        snapshot_capture_def Let_def snapshot_end_def wind_down_jpeg_def handle_release_def release_def
        wind_down_unit_def drop_ai_demand_def shutdown_quiet(2) split: if_splits prod.splits)
qed

text \<open>C12: shutdown is final and complete. From the moment \<open>shutdown\<close> ran, whatever calls race with it
  afterwards (releases, timers, snapshots in flight, settings), the hardware stays released (the protocol's state
  is the powered-down one) and every request for demand is answered \<open>Busy\<close> without touching the manager.\<close>

theorem shutdown_releases_everything:
  assumes "reachable s" and "m_shutdown (sys_m s)" and "sys_step\<^sup>*\<^sup>* s t"
  shows "(\<exists>h. proto_run (m_log (sys_m t)) hw0 = Some h \<and> hw_base h = Down \<and> nothing_held h)
    \<and> acquire_unit i ty env (sys_m t) = (result_busy, no_handle, sys_m t)
    \<and> acquire_base ty env (sys_m t) = (result_busy, no_handle, sys_m t)
    \<and> snapshot_begin env (sys_m t) = (Some (result_busy, ''shutting down''), sys_m t)"
proof -
  from assms(3,1,2) have t: "reachable t" "m_shutdown (sys_m t)"
    by (induction rule: rtranclp_induct) (auto intro: reachable.step step_keeps_shutdown)
  from reachable_sys_inv [OF t(1)] have inv: "lc_inv (sys_m t)" by (simp add: sys_inv_def)
  with t(2) have b: "base_of (m_state (sys_m t)) = Down" "all_stopped (sys_m t)" "units_ok (sys_m t)"
    by (auto simp: lc_inv_def)
  then have "nothing_held (hw_of Down (sys_m t))"
    by (simp add: nothing_held_def all_stopped_def units_ok_def)
  with reachable_rested [OF t(1)] b(1) t(2) show ?thesis
    by (simp add: rested_def conforms_def acquire_unit_def acquire_base_def snapshot_begin_def)
qed

theorem shutdown_releases_everything_witness:
  "acquire_base Ai env_ok (sys_m sys_down) = (result_busy, no_handle, sys_m sys_down)"
  using shutdown_releases_everything [OF reachable_demo(4) sys_view_state(6) rtranclp.rtrancl_refl] by blast

section \<open>The grace period\<close>

lemma transition_log: "m_log (transition to m) = m_log m @ (if m_listener m then [Notify (m_state m) to] else [])"
  by (simp add: transition_def)



section \<open>Restarting\<close>

lemma start_wanted_runs:
  "start_wanted is first env m = (True, m') \<Longrightarrow> set is \<subseteq> {UNIT_MAIN, UNIT_SUB} \<Longrightarrow> units_ok m \<Longrightarrow>
   (\<forall>k. u_running (m_units m k) \<longrightarrow> u_running (m_units m' k)) \<and>
   (\<forall>k \<in> set is. k = first \<or> u_configured (m_units m k) \<and> 0 < u_total (m_units m k) \<longrightarrow> u_running (m_units m' k))"
proof (induction "is" first env m rule: start_wanted.induct)
  case (2 i "is" first env m)
  let ?wanted = "i = first \<or> u_configured (m_units m i) \<and> 0 < u_total (m_units m i)"
  show ?case
  proof (cases "\<not> ?wanted \<or> u_running (m_units m i)")
    case True
    with "2.prems" "2.IH"(1) [OF refl refl True] show ?thesis by (auto simp: Let_def)
  next
    case False
    obtain ok1 m1 where s: "start_unit_locked i (pe_unit env i) m = (ok1, m1)"
      by (cases "start_unit_locked i (pe_unit env i) m")
    from "2.prems"(2,3) have u: "unit_ok (m_units m i)" by (auto simp: units_ok_def)
    note p = start_unit_post [OF s u]
    from False s "2.prems"(1) have ok1: "ok1" and n: "start_wanted is first env m1 = (True, m')"
      by (auto simp: Let_def split: if_splits bool.splits)
    have u1: "units_ok m1" using p "2.prems"(2,3) by (auto simp: start_post_def units_ok_def)
    have mono: "u_running (m_units m k) \<longrightarrow> u_running (m_units m1 k)" for k
      using p ok1 by (cases "k = i") (auto simp: start_post_def)
    have conf: "u_configured (m_units m1 k) = u_configured (m_units m k)" "u_total (m_units m1 k) = u_total (m_units m k)" for k
      using p keeps_totals(1,3) by (auto simp: start_post_def)
    from "2.IH"(2) [OF refl refl False s [symmetric]] ok1 n u1 "2.prems"(2)
    have "(\<forall>k. u_running (m_units m1 k) \<longrightarrow> u_running (m_units m' k)) \<and> (\<forall>k \<in> set is. k = first \<or>
        u_configured (m_units m1 k) \<and> 0 < u_total (m_units m1 k) \<longrightarrow> u_running (m_units m' k))" by simp
    with mono conf p ok1 show ?thesis by (auto simp: start_post_def)
  qed
qed simp

lemma start_base_runs:
  assumes "start_base_locked first env m = (True, m')" and "units_ok m"
  shows "\<forall>k \<in> {UNIT_MAIN, UNIT_SUB}. k = first \<or> u_configured (m_units m k) \<and> 0 < u_total (m_units m k) \<longrightarrow> u_running (m_units m' k)"
proof -
  let ?m1 = "mlog [BringUp (is_ok (pe_bring_up env))] (m\<lparr>m_start_count := m_start_count m + 1, m_last_error := []\<rparr>)"
  obtain ok2 m2 where w: "start_wanted [UNIT_MAIN, UNIT_SUB] first env ?m1 = (ok2, m2)"
    by (cases "start_wanted [UNIT_MAIN, UNIT_SUB] first env ?m1")
  with assms(1) have "ok2" "m_units m' = m_units m2"
    by (auto simp: start_base_locked_def Let_def split: if_splits bool.splits)
  with start_wanted_runs [of "[UNIT_MAIN, UNIT_SUB]" first env ?m1 m2] w assms(2) show ?thesis
    by (simp add: units_ok_def)
qed

text \<open>a controlled restart is invisible to the consumers or clean. \<open>update_stream\<close> with
  \<open>restart_if_running\<close> on a running pipeline keeps every demand counter; on success the state is the one before,
  the new settings are in force and every configured unit with demand runs again; on failure the state is
  \<open>Failed\<close> and nothing is left running.\<close>

theorem restart_keeps_demand:
  assumes "reachable s" and "pipeline_running (sys_m s)" and "update_stream st True env (sys_m s) = (r, m')"
  shows "same_demand (sys_m s) m' \<and>
    (if is_ok r then m_state m' = m_state (sys_m s)
        \<and> (\<forall>i. i = UNIT_MAIN \<or> (i = UNIT_SUB \<and> u_configured (m_units (sys_m s) i) \<and> 0 < u_total (m_units (sys_m s) i))
             \<longrightarrow> u_running (m_units m' i))
     else m_state m' = Failed \<and> all_stopped m')"
proof -
  let ?m = "sys_m s"
  from reachable_sys_inv [OF assms(1)] have inv: "lc_inv ?m" by (simp add: sys_inv_def)
  let ?m1 = "upd_unit UNIT_MAIN (\<lambda>u. u\<lparr>u_stream := st\<rparr>) ?m"
  let ?m2 = "stop_base_locked (transition Stopping ?m1)"
  let ?m3 = "transition Starting (?m2\<lparr>m_restart_count := m_restart_count ?m2 + 1\<rparr>)"
  obtain ok m4 where b: "start_base_locked UNIT_MAIN env ?m3 = (ok, m4)"
    by (cases "start_base_locked UNIT_MAIN env ?m3")
  have u3: "units_ok ?m3" by (simp add: units_ok_def)
  have k3: "keeps ?m ?m3" using stop_base_keeps [of "transition Stopping ?m1"] by (simp add: keeps_def)
  from assms(2,3) b have m': "r = (if ok then result_ok else result_error (-1))"
    "m_units m' = m_units m4" "m_state m' = (if ok then m_state ?m else Failed)" "m_jpeg m' = m_jpeg m4"
    by (auto simp: update_stream_def Let_def pipeline_running_def split: bool.splits)
  have "all_stopped m'" if "\<not> ok"
    using start_base_post [OF b u3] that m' by (auto simp: base_post_def all_stopped_def)
  moreover have "u_running (m_units m' i)"
    if "ok" "i = UNIT_MAIN \<or> (i = UNIT_SUB \<and> u_configured (m_units ?m i) \<and> 0 < u_total (m_units ?m i))" for i
    using start_base_runs [of UNIT_MAIN env ?m3 m4] b u3 that m' keeps_totals(1,3) [OF k3, of i] by auto
  moreover have "same_demand ?m m'"
    using update_stream_quiet [OF assms(3) inv] by (simp add: quiet_def)
  ultimately show ?thesis using m' by auto
qed

theorem restart_keeps_demand_witness:
  "\<exists>r m'. update_stream (effective_stream0\<lparr>es_fps := 25\<rparr>) True env_ok (sys_m sys_view) = (r, m') \<and> same_demand (sys_m sys_view) m'"
proof -
  obtain r m' where e: "update_stream (effective_stream0\<lparr>es_fps := 25\<rparr>) True env_ok (sys_m sys_view) = (r, m')"
    by (metis surj_pair)
  moreover have "pipeline_running (sys_m sys_view)" by (simp add: pipeline_running_def sys_view_state)
  ultimately show ?thesis using restart_keeps_demand [OF reachable_demo(1) _ e] by blast
qed

section \<open>Two states the comments rule out\<close>

text \<open>a unit can run without demand and without a timer to stop it. The header says that a unit runs only while
  it has demand and that a per-unit grace timer stops it when its demand ends while the base stays up. A
  viewer of main that leaves alone puts the base into \<open>GraceIdle\<close>; a viewer of sub that arrives during that grace makes the
  pipeline \<open>Active\<close> again with main still running, no demand on it and no timer armed for it, so main encodes for nobody
  for as long as sub is watched.\<close>

theorem main_outlives_its_demand:
  "\<exists>s. reachable s \<and> m_state (sys_m s) = Active \<and> u_timer (m_units (sys_m s) UNIT_MAIN)
     \<and> u_running (m_units (sys_m s) UNIT_MAIN) \<and> u_total (m_units (sys_m s) UNIT_MAIN) = 0
     \<and> \<not> u_grace_armed (m_units (sys_m s) UNIT_MAIN)"
proof -
  let ?s0 = "sys0\<lparr>sys_m := configure_sub effective_stream0 True (sys_m sys0)\<rparr>"
  let ?s1 = "?s0\<lparr>sys_m := set_unit_grace_timer UNIT_MAIN True (sys_m ?s0)\<rparr>"
  let ?s2 = "do_release 0 (do_acquire UNIT_MAIN Rtsp env_ok ?s1)"
  let ?s3 = "do_acquire UNIT_SUB Rtsp env_ok ?s2"
  have "reachable ?s1"
    by (rule reachable.step [OF reachable_do(5) [OF reachable_sys0]]) (rule sys_step.unit_timer)
  moreover have "0 < length (sys_handles (do_acquire UNIT_MAIN Rtsp env_ok ?s1))" by code_simp
  ultimately have "reachable ?s3" by (blast intro: reachable_do)
  moreover have "m_state (sys_m ?s3) = Active \<and> u_timer (m_units (sys_m ?s3) UNIT_MAIN)
     \<and> u_running (m_units (sys_m ?s3) UNIT_MAIN) \<and> u_total (m_units (sys_m ?s3) UNIT_MAIN) = 0
     \<and> \<not> u_grace_armed (m_units (sys_m ?s3) UNIT_MAIN)" by code_simp
  ultimately show ?thesis by blast
qed

text \<open>a snapshot in flight does not keep its encoder alive. \<open>snapshot\<close> uses the JPEG encoder outside
  the manager lock and its comment says the encoder stays alive because demand is positive; a restart of the
  pipeline (\<open>update_stream\<close>, and \<open>shutdown\<close> too) destroys the JPEG encoder regardless of its demand.\<close>

theorem snapshot_encoder_not_pinned:
  "\<exists>s. reachable s \<and> 0 < sys_snaps s \<and> 0 < j_demand (m_jpeg (sys_m s)) \<and> j_enc (m_jpeg (sys_m s))
     \<and> (let t = do_update_stream effective_stream0 True env_ok s
        in sys_step s t \<and> 0 < sys_snaps t \<and> m_state (sys_m t) = Active \<and> DestroyJpeg \<in> set (m_log (sys_m t))
           \<and> \<not> j_enc (m_jpeg (sys_m t)))"
proof -
  let ?s0 = "sys0\<lparr>sys_m := configure_jpeg jpeg_params0 300 2000 True (sys_m sys0)\<rparr>"
  let ?s = "do_snap_begin env_ok ?s0"
  let ?t = "do_update_stream effective_stream0 True env_ok ?s"
  have "reachable ?s" by (blast intro: reachable_do reachable_sys0)
  moreover have "sys_step ?s ?t"
    by (auto simp: do_update_stream_def intro: sys_step.intros split: prod.split)
  moreover have "0 < sys_snaps ?s" "0 < j_demand (m_jpeg (sys_m ?s))" "j_enc (m_jpeg (sys_m ?s))"
    "0 < sys_snaps ?t" "m_state (sys_m ?t) = Active" "\<not> j_enc (m_jpeg (sys_m ?t))"
    "list_ex (\<lambda>a. a = DestroyJpeg) (m_log (sys_m ?t))"
    by code_simp+
  ultimately show ?thesis unfolding Let_def list_ex_iff by blast
qed

section \<open>Raw frames\<close>

text \<open>the retry loop of \<open>snap_nv12\<close> ends. As soon as one attempt comes back with the clock at or
  past the deadline (or succeeds, or is unsupported), the call has returned; it never reports success without a frame the source
  handed out, and never fails without saying why.\<close>

theorem snap_loop_returns:
  assumes "\<exists>a \<in> set as. until \<le> snd (snd a)"
  shows "\<exists>r out err. snap_loop i until as m = Some (r, out, err)
     \<and> (is_ok r \<longrightarrow> (\<exists>t. (r, out, t) \<in> set as) \<and> u_running (m_units m i) \<and> err = [])
     \<and> (\<not> is_ok r \<longrightarrow> err \<noteq> [])"
  using assms
proof (induction as)
  case (Cons a as)
  obtain r out t where a: "a = (r, out, t)" by (metis surj_pair)
  show ?case
  proof (cases "u_fs (m_units m i) \<and> u_running (m_units m i) \<and> \<not> is_ok r \<and> r_status r \<noteq> Unsupported \<and> t < until")
    case True
    with Cons.prems a have "\<exists>a \<in> set as. until \<le> snd (snd a)" by auto
    from Cons.IH [OF this] True a show ?thesis by auto
  qed (auto simp: a)
qed simp

theorem snap_loop_returns_witness:
  "\<exists>r out err. snap_loop UNIT_MAIN 1000 [(result_timeout, [], 400), (result_timeout, [], 1200)] (sys_m sys_view)
     = Some (r, out, err)"
  using snap_loop_returns [of "[(result_timeout, [], 400), (result_timeout, [], 1200)]" 1000 UNIT_MAIN "sys_m sys_view"] by auto

end
