(* ===== verification/Staged_Change.thy ===== *)
theory Staged_Change
  imports Core_Result
begin

text \<open>
  \<open>StagedChange\<close> (\<^verbatim>\<open>core/net/connectivity.hpp\<close> and \<^verbatim>\<open>connectivity.cpp\<close>): a change that undoes itself unless it is
  confirmed in time. The change and its undo act on a world \<open>'w\<close>, which stands for the platform they
  talk to. \<open>begin\<close> takes the lock twice and runs the change in between, so it is three steps
  here as well as one composed operation; \<open>confirm\<close> and \<open>tick\<close> are one step each.
\<close>

section \<open>State and steps\<close>

type_synonym 'w fwd = "'w \<Rightarrow> result \<times> 'w"

record 'w staged =
  sc_pending :: bool
  sc_token :: u64
  sc_next_token :: u64
  sc_deadline_ms :: u32
  sc_rollback :: "('w \<Rightarrow> 'w) option"

definition staged_new :: "'w staged" where
  "staged_new = \<lparr>sc_pending = False, sc_token = 0, sc_next_token = 1, sc_deadline_ms = 0, sc_rollback = None\<rparr>"

text \<open>The first critical section of \<open>begin\<close>: claim the slot. \<open>Inl\<close> carries the error message.\<close>

definition begin_claim :: "u32 \<Rightarrow> u32 \<Rightarrow> 'w staged \<Rightarrow> (string + u64) \<times> 'w staged" where
  "begin_claim now_ms window_ms sc =
     (if sc_pending sc then (Inl ''another change is still waiting for confirmation'', sc)
      else (Inr (sc_next_token sc),
            sc\<lparr>sc_pending := True, sc_token := sc_next_token sc, sc_next_token := sc_next_token sc + 1,
               sc_deadline_ms := now_ms + window_ms, sc_rollback := None\<rparr>))"

text \<open>What \<open>begin\<close> does after the change failed, and after it succeeded; the flag says that the window
  expired meanwhile.\<close>

definition begin_failed :: "'w staged \<Rightarrow> 'w staged" where
  "begin_failed sc = sc\<lparr>sc_pending := False\<rparr>"

definition begin_guard :: "u64 \<Rightarrow> ('w \<Rightarrow> 'w) \<Rightarrow> 'w staged \<Rightarrow> bool \<times> 'w staged" where
  "begin_guard tok rollback sc =
     (if \<not> sc_pending sc \<or> sc_token sc \<noteq> tok then (True, sc) else (False, sc\<lparr>sc_rollback := Some rollback\<rparr>))"

definition staged_begin ::
    "'w fwd option \<Rightarrow> ('w \<Rightarrow> 'w) option \<Rightarrow> u32 \<Rightarrow> u32 \<Rightarrow> 'w staged \<times> 'w \<Rightarrow> (string + u64) \<times> 'w staged \<times> 'w" where
  "staged_begin forward rollback now_ms window_ms st =
     (case (forward, rollback) of
        (Some fwd, Some rb) \<Rightarrow>
          if window_ms = 0 then (Inl ''a confirmation window of zero would roll back instantly'', st)
          else
          (case begin_claim now_ms window_ms (fst st) of
             (Inl err, sc) \<Rightarrow> (Inl err, sc, snd st)
           | (Inr tok, sc) \<Rightarrow>
               let (rc, w) = fwd (snd st)
               in if \<not> is_ok rc then (Inl ''the change could not be applied'', begin_failed sc, w)
                  else let (expired, sc) = begin_guard tok rb sc
                       in if expired
                          then (Inl ''the confirmation window expired while the change was being applied'', sc, rb w)
                          else (Inr tok, sc, w))
      | _ \<Rightarrow> (Inl ''a staged change needs both an action and its undo'', st))"

definition staged_confirm :: "u64 \<Rightarrow> 'w staged \<Rightarrow> string option \<times> 'w staged" where
  "staged_confirm token sc =
     (if \<not> sc_pending sc then (Some ''nothing is waiting for confirmation'', sc)
      else if token \<noteq> sc_token sc then (Some ''that confirmation belongs to a different change'', sc)
      else (None, sc\<lparr>sc_pending := False, sc_rollback := None\<rparr>))"

definition staged_tick :: "u32 \<Rightarrow> 'w staged \<times> 'w \<Rightarrow> bool \<times> 'w staged \<times> 'w" where
  "staged_tick now_ms st =
     (let sc = fst st in
      if \<not> sc_pending sc then (False, st)
      else if s32 (now_ms - sc_deadline_ms sc) < 0 then (False, st)
      else (True, sc\<lparr>sc_rollback := None, sc_pending := False\<rparr>,
            case sc_rollback sc of Some undo \<Rightarrow> undo (snd st) | None \<Rightarrow> snd st))"

definition staged_remaining_ms :: "u32 \<Rightarrow> 'w staged \<Rightarrow> u32" where
  "staged_remaining_ms now_ms sc =
     (if \<not> sc_pending sc then 0
      else let d = sc_deadline_ms sc - now_ms in if 0 < s32 d then d else 0)"

section \<open>Properties\<close>

lemma begin_ok_cases:
  assumes "staged_begin (Some fwd) (Some rb) now window (sc, w) = (Inr tok, sc', w')"
  shows "\<not> sc_pending sc \<and> window \<noteq> 0 \<and> tok = sc_next_token sc \<and> snd (fwd w) = w' \<and> is_ok (fst (fwd w))
    \<and> sc' = \<lparr>sc_pending = True, sc_token = tok, sc_next_token = sc_next_token sc + 1,
             sc_deadline_ms = now + window, sc_rollback = Some rb\<rparr>"
  using assms by (auto simp: staged_begin_def begin_claim_def begin_guard_def split: if_splits prod.splits)

text \<open>a staged change undoes itself exactly when its window is over. After a successful \<open>begin\<close> at clock
  reading \<open>now\<close>, a \<open>tick\<close> \<open>e\<close> milliseconds later does nothing while \<open>e\<close> is below the window and otherwise runs the undo
  once and forgets the change; the remaining time shown to the user agrees; and once the right token confirmed it, no tick at any
  time undoes it. This holds wherever the 32-bit clock stands, also across its wrap.\<close>

theorem staged_change_undone_unless_confirmed:
  fixes e window now :: u32
  assumes "staged_begin (Some fwd) (Some rb) now window (sc, w) = (Inr tok, sc', w')"
    and "uint window < 2 ^ 31" and "uint e < 2 ^ 31"
  shows "staged_tick (now + e) (sc', w') =
      (if e < window then (False, sc', w') else (True, sc'\<lparr>sc_rollback := None, sc_pending := False\<rparr>, rb w'))
    \<and> staged_remaining_ms (now + e) sc' = (if e < window then window - e else 0)
    \<and> (\<exists>sc''. staged_confirm tok sc' = (None, sc'') \<and> (\<forall>t. staged_tick t (sc'', w') = (False, sc'', w')))"
proof -
  note b = begin_ok_cases [OF assms(1)]
  have d: "sint (e - window) = uint e - uint window" by (rule sint_diff_small [OF assms(3,2)])
  have d': "sint (window - e) = uint window - uint e" by (rule sint_diff_small [OF assms(2,3)])
  show ?thesis
    using b by (simp add: staged_tick_def staged_remaining_ms_def staged_confirm_def Let_def d d' word_less_def)
qed

definition set_to :: "int \<Rightarrow> int fwd" where
  "set_to v w = (result_ok, v)"

theorem staged_change_undone_unless_confirmed_witness:
  "\<exists>sc'. staged_begin (Some (set_to 7)) (Some (\<lambda>_. 3)) (- 10) 100 (staged_new, 3) = (Inr 1, sc', 7)
     \<and> staged_tick 100 (sc', 7) = (True, sc'\<lparr>sc_rollback := None, sc_pending := False\<rparr>, 3)"
proof -
  let ?sc = "\<lparr>sc_pending = True, sc_token = 1, sc_next_token = 2, sc_deadline_ms = 90, sc_rollback = Some (\<lambda>_. 3)\<rparr>"
  have b: "staged_begin (Some (set_to 7)) (Some (\<lambda>_. 3)) (- 10) 100 (staged_new, 3) = (Inr 1, ?sc, 7)"
    by (simp add: staged_begin_def begin_claim_def begin_guard_def staged_new_def set_to_def)
  from staged_change_undone_unless_confirmed [OF b, of 110] b show ?thesis by auto
qed

text \<open>a refused change changed nothing. If \<open>begin\<close> reports an error and a failing change leaves the world as it
  was, then the world is unchanged, a change that was already waiting is still waiting with the same token,
  deadline and undo, and if none was waiting none is.\<close>

theorem staged_refusal_changes_nothing:
  assumes "staged_begin forward rollback now window (sc, w) = (Inl err, sc', w')"
    and "\<And>fwd. forward = Some fwd \<Longrightarrow> \<not> is_ok (fst (fwd w)) \<Longrightarrow> snd (fwd w) = w"
  shows "w' = w \<and> sc_pending sc' = sc_pending sc \<and> (sc_pending sc \<longrightarrow> sc' = sc)"
  using assms by (auto simp: staged_begin_def begin_claim_def begin_guard_def begin_failed_def
      split: if_splits prod.splits option.splits)

theorem staged_refusal_changes_nothing_witness:
  "\<exists>err sc'. staged_begin (Some (\<lambda>w. (result_busy, w))) (Some id) 5 100 (staged_new, 3 :: int) = (Inl err, sc', 3)"
proof -
  obtain err sc' w' where e: "staged_begin (Some (\<lambda>w. (result_busy, w))) (Some id) 5 100 (staged_new, 3 :: int) = (Inl err, sc', w')"
    by (simp add: staged_begin_def begin_claim_def staged_new_def)
  from staged_refusal_changes_nothing [OF e] have "w' = 3" by simp
  with e show ?thesis by blast
qed

text \<open>two overlapping calls of \<open>begin\<close> can lose the guard. Call A claims the slot and its change runs longer than
  its window, so a tick frees the slot; call B then succeeds and holds a token; now A's change fails, and A clears
  the pending flag without checking that the slot is still its own. B's change is in force, nobody can
  confirm it, and no tick at any time will undo it.\<close>

theorem staged_overlap_loses_guard:
  fixes w :: 'w
  assumes "is_ok (fst (fwd w))"
  shows "let (rA, s1) = begin_claim 0 10 staged_new;
             (fired, s2, w2) = staged_tick 10 (s1, w);
             (rB, s3, w3) = staged_begin (Some fwd) (Some rb) 11 1000 (s2, w2);
             s4 = begin_failed s3
         in rA = Inr 1 \<and> rB = Inr 2 \<and> w3 = snd (fwd w) \<and> (\<forall>t. staged_tick t (s4, w3) = (False, s4, w3))
            \<and> staged_confirm 2 s4 = (Some ''nothing is waiting for confirmation'', s4)"
  using assms
  by (simp add: begin_claim_def staged_new_def staged_tick_def staged_begin_def begin_guard_def begin_failed_def
      staged_confirm_def Let_def split: prod.split) (metis fst_conv)

theorem staged_overlap_loses_guard_witness:
  "let (rA, s1) = begin_claim 0 10 staged_new; (fired, s2, w2) = staged_tick 10 (s1, 3 :: int);
       (rB, s3, w3) = staged_begin (Some (set_to 7)) (Some (\<lambda>_. 3)) 11 1000 (s2, w2); s4 = begin_failed s3
   in w3 = 7 \<and> (\<forall>t. staged_tick t (s4, w3) = (False, s4, w3))"
  using staged_overlap_loses_guard [of "set_to 7" 3 "\<lambda>_. 3"] by (auto simp: set_to_def Let_def split: prod.splits)

end
