(* ===== verification/Connectivity.thy ===== *)
theory Connectivity
  imports Core_Result
begin

text \<open>
  Uplink selection (\<^verbatim>\<open>ports/inetwork.hpp\<close>, \<^verbatim>\<open>core/net/connectivity.hpp\<close> and \<^verbatim>\<open>connectivity.cpp\<close>). An uplink is a
  borrowed object of the port \<open>INetworkUplink\<close>; here it is an identity (a pointer, as a number), and what its methods
  answer at one evaluation is the parameter \<open>view\<close>. The manager keeps identities, compares them as the code compares
  pointers, and the subscribers it notifies are named by their tokens.
\<close>

section \<open>Names\<close>

datatype uplink_type = Ethernet | Wifi | Cellular

datatype link_state = Absent | LinkDown | Connecting | Connected | LinkFailed

fun uplink_type_name :: "uplink_type \<Rightarrow> string" where
  "uplink_type_name Ethernet = ''ethernet''"
| "uplink_type_name Wifi = ''wifi''"
| "uplink_type_name Cellular = ''cellular''"

fun link_state_name :: "link_state \<Rightarrow> string" where
  "link_state_name Absent = ''absent''"
| "link_state_name LinkDown = ''down''"
| "link_state_name Connecting = ''connecting''"
| "link_state_name Connected = ''connected''"
| "link_state_name LinkFailed = ''failed''"

datatype wifi_mode = Station | AccessPoint

datatype wifi_security = Open | Wpa | Wpa2 | Wpa3 | Wpa2Wpa3 | Wep

definition wifi_mode_name :: "wifi_mode \<Rightarrow> string" where
  "wifi_mode_name m = (if m = AccessPoint then ''access-point'' else ''station'')"

definition wifi_mode_parse :: "string \<Rightarrow> wifi_mode option" where
  "wifi_mode_parse s = (if s = ''station'' then Some Station
     else if s = ''access-point'' then Some AccessPoint else None)"

fun wifi_security_name :: "wifi_security \<Rightarrow> string" where
  "wifi_security_name Open = ''open''"
| "wifi_security_name Wpa = ''wpa''"
| "wifi_security_name Wpa2 = ''wpa2''"
| "wifi_security_name Wpa3 = ''wpa3''"
| "wifi_security_name Wpa2Wpa3 = ''wpa2-wpa3''"
| "wifi_security_name Wep = ''wep''"

definition wifi_security_parse :: "string \<Rightarrow> wifi_security option" where
  "wifi_security_parse s =
     (if s = ''open'' then Some Open
      else if s = ''wpa'' then Some Wpa
      else if s = ''wpa2'' then Some Wpa2
      else if s = ''wpa3'' then Some Wpa3
      else if s = ''wpa2-wpa3'' then Some Wpa2Wpa3
      else if s = ''wep'' then Some Wep
      else None)"

text \<open>What the radio can do, and the two questions the UI asks about access-point mode.\<close>

record wifi_capabilities =
  wc_present :: bool
  wc_driver_station :: bool
  wc_driver_scan :: bool
  wc_driver_concurrent_sta_ap :: bool
  wc_driver_ap_known :: bool
  wc_driver_ap :: bool
  wc_wpa_supplicant_available :: bool
  wc_hostapd_available :: bool
  wc_dhcp_server_available :: bool

definition station_usable :: "wifi_capabilities \<Rightarrow> bool" where
  "station_usable c \<longleftrightarrow> wc_present c \<and> wc_driver_station c \<and> wc_wpa_supplicant_available c"

definition scan_usable :: "wifi_capabilities \<Rightarrow> bool" where
  "scan_usable c \<longleftrightarrow> wc_present c \<and> wc_driver_scan c"

definition ap_verified :: "wifi_capabilities \<Rightarrow> bool" where
  "ap_verified c \<longleftrightarrow> wc_present c \<and> wc_driver_ap_known c \<and> wc_driver_ap c \<and> wc_hostapd_available c"

definition ap_attemptable :: "wifi_capabilities \<Rightarrow> bool" where
  "ap_attemptable c \<longleftrightarrow> wc_present c \<and> wc_hostapd_available c \<and> wc_dhcp_server_available c
     \<and> (\<not> wc_driver_ap_known c \<or> wc_driver_ap c)"

section \<open>Uplinks and policy\<close>

record network_info =
  ni_ifname :: string
  ni_ipv4 :: string
  ni_netmask :: string
  ni_gateway :: string
  ni_dns :: string
  ni_dhcp :: bool
  ni_dns_is_own :: bool

record uplink_metrics =
  um_carrier :: bool
  um_rssi_dbm :: int
  um_link_mbit :: int
  um_rx_bytes :: u64
  um_tx_bytes :: u64

record uplink_view =
  v_id :: string
  v_type :: uplink_type
  v_state :: link_state
  v_info :: network_info
  v_metrics :: uplink_metrics
  v_has_internet :: bool

type_synonym view = "nat \<Rightarrow> uplink_view"

record uplink_policy =
  p_order :: "string list"
  p_auto_failover :: bool
  p_return_to_preferred :: bool
  p_failover_debounce_ms :: u32
  p_return_debounce_ms :: u32
  p_pinned :: bool
  p_pinned_uplink :: string

definition uplink_policy0 :: uplink_policy where
  "uplink_policy0 = \<lparr>p_order = [''ethernet'', ''wifi'', ''cellular''], p_auto_failover = True,
     p_return_to_preferred = True, p_failover_debounce_ms = 3000, p_return_debounce_ms = 15000,
     p_pinned = False, p_pinned_uplink = []\<rparr>"

record uplink_status =
  us_id :: string
  us_type :: uplink_type
  us_state :: link_state
  us_internet :: bool
  us_active :: bool
  us_info :: network_info
  us_metrics :: uplink_metrics

section \<open>The manager\<close>

record conn =
  c_uplinks :: "nat list"
  c_policy :: uplink_policy
  c_subscribers :: "u64 list"
  c_next_sub :: u64
  c_active :: "nat option"
  c_clock :: bool
  c_pending :: "nat option"
  c_pending_since_ms :: u32

definition conn_new :: conn where
  "conn_new = \<lparr>c_uplinks = [], c_policy = uplink_policy0, c_subscribers = [], c_next_sub = 1,
     c_active = None, c_clock = False, c_pending = None, c_pending_since_ms = 0\<rparr>"

definition conn_add :: "nat option \<Rightarrow> conn \<Rightarrow> conn" where
  "conn_add u c = (case u of None \<Rightarrow> c | Some u \<Rightarrow> c\<lparr>c_uplinks := c_uplinks c @ [u]\<rparr>)"

definition set_policy :: "uplink_policy \<Rightarrow> conn \<Rightarrow> conn" where
  "set_policy p c = c\<lparr>c_policy := p\<rparr>"

definition set_clock :: "bool \<Rightarrow> conn \<Rightarrow> conn" where
  "set_clock b c = c\<lparr>c_clock := b\<rparr>"

definition usable :: "view \<Rightarrow> nat \<Rightarrow> bool" where
  "usable v u \<longleftrightarrow> v_state (v u) = Connected \<and> v_has_internet (v u)"

text \<open>A selector is an uplink id or a type name; ids win.\<close>

definition match :: "view \<Rightarrow> nat list \<Rightarrow> string \<Rightarrow> bool \<Rightarrow> nat option" where
  "match v us sel want_usable =
     (case find (\<lambda>u. v_id (v u) = sel \<and> (\<not> want_usable \<or> usable v u)) us of
        Some u \<Rightarrow> Some u
      | None \<Rightarrow> find (\<lambda>u. uplink_type_name (v_type (v u)) = sel \<and> (\<not> want_usable \<or> usable v u)) us)"

fun best_of :: "view \<Rightarrow> nat list \<Rightarrow> string list \<Rightarrow> nat option" where
  "best_of v us [] = None"
| "best_of v us (sel # sels) = (case match v us sel True of Some u \<Rightarrow> Some u | None \<Rightarrow> best_of v us sels)"

definition select :: "view \<Rightarrow> nat list \<Rightarrow> uplink_policy \<Rightarrow> nat option \<Rightarrow> nat option" where
  "select v us p current =
     (if p_pinned p then match v us (p_pinned_uplink p) False
      else
      let best = best_of v us (p_order p) in
      case current of
        None \<Rightarrow> best
      | Some cur \<Rightarrow>
          if usable v cur
          then if \<not> p_return_to_preferred p then current
               else (case best of Some b \<Rightarrow> Some b | None \<Rightarrow> current)
          else if \<not> p_auto_failover p then current
          else best)"

definition window_of :: "view \<Rightarrow> uplink_policy \<Rightarrow> nat \<Rightarrow> u32" where
  "window_of v p cur = (if usable v cur then p_return_debounce_ms p else p_failover_debounce_ms p)"

definition id_of :: "view \<Rightarrow> nat option \<Rightarrow> string" where
  "id_of v u = (case u of None \<Rightarrow> [] | Some u \<Rightarrow> v_id (v u))"

text \<open>The damping: whether the candidate has waited long enough, and the manager with its waiting
  period updated.\<close>

definition damp :: "view \<Rightarrow> u32 \<Rightarrow> nat option \<Rightarrow> conn \<Rightarrow> bool \<times> conn" where
  "damp v now chosen c =
     (case c_active c of
        Some cur \<Rightarrow>
          if c_clock c \<and> \<not> p_pinned (c_policy c) \<and> chosen \<noteq> Some cur
          then let window = window_of v (c_policy c) cur;
                   c = (if c_pending c \<noteq> chosen then c\<lparr>c_pending := chosen, c_pending_since_ms := now\<rparr> else c)
               in (window = 0 \<or> s32 window \<le> s32 (now - c_pending_since_ms c), c)
          else (True, c)
      | None \<Rightarrow> (True, c))"

text \<open>\<open>evaluate\<close>: whether the active uplink changed, the notifications sent (subscriber, from, to) and the
  manager afterwards. \<open>now\<close> is what the clock answers if there is one.\<close>

definition evaluate :: "view \<Rightarrow> u32 \<Rightarrow> conn \<Rightarrow> bool \<times> (u64 \<times> string \<times> string) list \<times> conn" where
  "evaluate v now c =
     (let chosen = select v (c_uplinks c) (c_policy c) (c_active c);
          (ready, c) = damp v now chosen c
      in if \<not> ready then (False, [], c)
         else if chosen = c_active c then (False, [], c\<lparr>c_pending := None\<rparr>)
         else (True, map (\<lambda>s. (s, id_of v (c_active c), id_of v chosen)) (c_subscribers c),
               c\<lparr>c_active := chosen, c_pending := None\<rparr>))"

definition subscribe_path_change :: "bool \<Rightarrow> conn \<Rightarrow> u64 \<times> conn" where
  "subscribe_path_change fn c =
     (if \<not> fn then (0, c)
      else (c_next_sub c, c\<lparr>c_subscribers := c_subscribers c @ [c_next_sub c], c_next_sub := c_next_sub c + 1\<rparr>))"

definition unsubscribe_path_change :: "u64 \<Rightarrow> conn \<Rightarrow> conn" where
  "unsubscribe_path_change token c = c\<lparr>c_subscribers := remove1 token (c_subscribers c)\<rparr>"

definition active_id :: "view \<Rightarrow> conn \<Rightarrow> string" where
  "active_id v c = id_of v (c_active c)"

definition active_type :: "view \<Rightarrow> conn \<Rightarrow> uplink_type option" where
  "active_type v c = map_option (\<lambda>u. v_type (v u)) (c_active c)"

definition conn_status :: "view \<Rightarrow> conn \<Rightarrow> uplink_status list" where
  "conn_status v c = map (\<lambda>u. \<lparr>us_id = v_id (v u), us_type = v_type (v u), us_state = v_state (v u),
     us_internet = v_has_internet (v u), us_active = (c_active c = Some u), us_info = v_info (v u),
     us_metrics = v_metrics (v u)\<rparr>) (c_uplinks c)"

section \<open>Selection\<close>

definition matches :: "view \<Rightarrow> string \<Rightarrow> nat \<Rightarrow> bool" where
  "matches v sel u \<longleftrightarrow> v_id (v u) = sel \<or> uplink_type_name (v_type (v u)) = sel"

lemma match_Some:
  "match v us sel wu = Some u \<Longrightarrow> u \<in> set us \<and> matches v sel u \<and> (wu \<longrightarrow> usable v u)"
  by (auto simp: match_def matches_def split: option.splits dest: find_SomeD)

lemma match_None: "match v us sel wu = None \<longleftrightarrow> (\<forall>u \<in> set us. matches v sel u \<longrightarrow> wu \<and> \<not> usable v u)"
  by (auto simp: match_def matches_def find_None_conv split: option.splits dest: find_SomeD)

lemma best_of_Some:
  "best_of v us order = Some u \<Longrightarrow> u \<in> set us \<and> usable v u \<and>
   (\<exists>pre sel post. order = pre @ sel # post \<and> matches v sel u \<and>
      (\<forall>s \<in> set pre. \<forall>w \<in> set us. matches v s w \<longrightarrow> \<not> usable v w))"
proof (induction order)
  case (Cons a order)
  show ?case
  proof (cases "match v us a True")
    case None
    with Cons.prems have "best_of v us order = Some u" by simp
    from Cons.IH [OF this] obtain pre sel post where
      "u \<in> set us" "usable v u" "order = pre @ sel # post" "matches v sel u"
      "\<forall>s \<in> set pre. \<forall>w \<in> set us. matches v s w \<longrightarrow> \<not> usable v w" by blast
    moreover from this have "a # order = (a # pre) @ sel # post" by simp
    ultimately show ?thesis using None unfolding match_None by (metis set_ConsD)
  next
    case (Some w)
    with Cons.prems match_Some [OF Some] have "u \<in> set us" "usable v u" "matches v a u" by auto
    moreover have "a # order = [] @ a # order" by simp
    ultimately show ?thesis by (metis empty_iff empty_set)
  qed
qed simp

lemma best_of_None:
  "best_of v us order = None \<longleftrightarrow> (\<forall>s \<in> set order. \<forall>w \<in> set us. matches v s w \<longrightarrow> \<not> usable v w)"
  by (induction order) (auto simp: match_None split: option.splits dest: match_Some)


definition info0 :: network_info where
  "info0 = \<lparr>ni_ifname = [], ni_ipv4 = [], ni_netmask = [], ni_gateway = [], ni_dns = [], ni_dhcp = True, ni_dns_is_own = False\<rparr>"

definition metrics0 :: uplink_metrics where
  "metrics0 = \<lparr>um_carrier = False, um_rssi_dbm = 0, um_link_mbit = 0, um_rx_bytes = 0, um_tx_bytes = 0\<rparr>"

text \<open>Two uplinks: Ethernet \<open>eth0\<close> (0), which works or not, and a working modem \<open>lte1\<close> (1).\<close>

definition demo_view :: "bool \<Rightarrow> view" where
  "demo_view eth u = (if u = 0
     then \<lparr>v_id = ''eth0'', v_type = Ethernet, v_state = (if eth then Connected else LinkDown), v_info = info0,
           v_metrics = metrics0, v_has_internet = eth\<rparr>
     else \<lparr>v_id = ''lte1'', v_type = Cellular, v_state = Connected, v_info = info0, v_metrics = metrics0, v_has_internet = True\<rparr>)"


section \<open>Damping over time\<close>

text \<open>A run of evaluations, each with what the uplinks and the clock answered. The trace keeps for every evaluation
  the clock and the policy's answer.\<close>

fun eval_run :: "(view \<times> u32) list \<Rightarrow> conn \<Rightarrow> (u32 \<times> nat option) list \<times> conn" where
  "eval_run [] c = ([], c)"
| "eval_run ((v, now) # es) c =
     (let chosen = select v (c_uplinks c) (c_policy c) (c_active c);
          (tr, c') = eval_run es (snd (snd (evaluate v now c)))
      in ((now, chosen) # tr, c'))"

lemma eval_run_snoc:
  "eval_run (es @ [(v, now)]) c =
     (let (tr, c1) = eval_run es c
      in (tr @ [(now, select v (c_uplinks c1) (c_policy c1) (c_active c1))], snd (snd (evaluate v now c1))))"
  by (induction es arbitrary: c) (auto simp: Let_def split: prod.splits)

text \<open>A candidate that serves its waiting period has been the answer at every evaluation since it began.\<close>

definition waiting_ok :: "(u32 \<times> nat option) list \<Rightarrow> conn \<Rightarrow> bool" where
  "waiting_ok tr c \<longleftrightarrow>
     (\<forall>x. c_pending c = Some x \<longrightarrow>
        (\<exists>pre post. tr = pre @ (c_pending_since_ms c, Some x) # post \<and> (\<forall>e \<in> set post. snd e = Some x)))"

lemma waiting_extend:
  assumes "waiting_ok tr c"
  shows "waiting_ok (tr @ [(now, chosen)])
     (if c_pending c \<noteq> chosen then c\<lparr>c_pending := chosen, c_pending_since_ms := now\<rparr> else c)"
proof (cases "c_pending c = chosen")
  case True
  show ?thesis
  proof (cases chosen)
    case (Some x)
    with True assms obtain pre post where
      "tr = pre @ (c_pending_since_ms c, Some x) # post" "\<forall>e \<in> set post. snd e = Some x"
      by (auto simp: waiting_ok_def)
    then have "tr @ [(now, chosen)] = pre @ (c_pending_since_ms c, Some x) # (post @ [(now, chosen)])"
      "\<forall>e \<in> set (post @ [(now, chosen)]). snd e = Some x" using Some by auto
    then show ?thesis using True Some unfolding waiting_ok_def by (simp only: option.inject simp_thms if_False) blast
  qed (use True in \<open>simp add: waiting_ok_def\<close>)
next
  case False
  then show ?thesis by (auto simp: waiting_ok_def) (rule exI [of _ tr], simp)
qed

lemma damp_waiting:
  assumes "waiting_ok tr c" and "damp v now chosen c = (ready, c')"
  shows "waiting_ok (tr @ [(now, chosen)]) c' \<or> (c' = c \<and> ready \<and> (\<forall>cur. c_active c = Some cur \<longrightarrow>
      \<not> c_clock c \<or> p_pinned (c_policy c) \<or> chosen = Some cur))"
  using waiting_extend [OF assms(1), of now chosen] assms(2)
  by (auto simp: damp_def Let_def split: option.splits if_splits)

lemma evaluate_waiting:
  assumes "waiting_ok tr c"
  shows "waiting_ok (tr @ [(now, select v (c_uplinks c) (c_policy c) (c_active c))]) (snd (snd (evaluate v now c)))"
proof -
  let ?ch = "select v (c_uplinks c) (c_policy c) (c_active c)"
  obtain ready c' where d: "damp v now ?ch c = (ready, c')" by (cases "damp v now ?ch c")
  have fin: "waiting_ok t (c'\<lparr>c_pending := None\<rparr>)" "waiting_ok t (c'\<lparr>c_active := a, c_pending := None\<rparr>)" for t a
    by (simp_all add: waiting_ok_def)
  from damp_waiting [OF assms d] d fin show ?thesis by (auto simp: evaluate_def Let_def)
qed

lemma eval_run_waiting:
  "c_pending c = None \<Longrightarrow> eval_run es c = (tr, c') \<Longrightarrow> waiting_ok tr c'"
proof (induction es arbitrary: tr c' rule: rev_induct)
  case Nil
  then show ?case by (simp add: waiting_ok_def)
next
  case (snoc e es)
  obtain v now where e: "e = (v, now)" by (cases e)
  obtain tr1 c1 where r: "eval_run es c = (tr1, c1)" by (cases "eval_run es c")
  from snoc.IH [OF snoc.prems(1) r] have "waiting_ok tr1 c1" .
  from evaluate_waiting [OF this] snoc.prems(2) show ?case
    by (auto simp: e r eval_run_snoc)
qed

text \<open>C9: no flapping between uplinks. Whenever a run of evaluations with a clock leaves one uplink for
  another (no pin), the new uplink had been the policy's answer at every evaluation from some moment on, without
  interruption, and that moment lies at least the waiting period back: the failover window when the old uplink is dead, the longer return
  window when it still works.\<close>

theorem switch_only_after_window:
  assumes "c_pending c0 = None" and "eval_run es c0 = (tr, c)"
    and "evaluate v now c = (True, notes, c')"
    and "c_active c = Some cur" and "c_active c' = Some x" and "c_clock c" and "\<not> p_pinned (c_policy c)"
  shows "\<exists>pre t0 post. tr @ [(now, Some x)] = pre @ (t0, Some x) # post \<and> (\<forall>e \<in> set post. snd e = Some x)
    \<and> (let w = (if usable v cur then p_return_debounce_ms (c_policy c) else p_failover_debounce_ms (c_policy c))
       in w = 0 \<or> s32 w \<le> s32 (now - t0))"
proof -
  let ?ch = "select v (c_uplinks c) (c_policy c) (c_active c)"
  obtain ready c1 where d: "damp v now ?ch c = (ready, c1)" by (cases "damp v now ?ch c")
  from assms(3) d have r: "ready" "?ch \<noteq> c_active c1" "c' = c1\<lparr>c_active := ?ch, c_pending := None\<rparr>"
    by (auto simp: evaluate_def Let_def split: if_splits)
  with assms(5) have ch: "?ch = Some x" by simp
  have act: "c_active c1 = c_active c" using d by (auto simp: damp_def Let_def split: option.splits if_splits)
  let ?c = "if c_pending c \<noteq> ?ch then c\<lparr>c_pending := ?ch, c_pending_since_ms := now\<rparr> else c"
  from d r act assms(4,6,7) have c1: "c1 = ?c"
    and w: "window_of v (c_policy c) cur = 0 \<or> s32 (window_of v (c_policy c) cur) \<le> s32 (now - c_pending_since_ms c1)"
    by (auto simp: damp_def Let_def split: if_splits)
  have "waiting_ok (tr @ [(now, ?ch)]) c1"
    unfolding c1 by (rule waiting_extend [OF eval_run_waiting [OF assms(1,2)]])
  moreover have "c_pending c1 = Some x" using c1 ch by auto
  ultimately obtain pre post where
    "tr @ [(now, Some x)] = pre @ (c_pending_since_ms c1, Some x) # post" "\<forall>e \<in> set post. snd e = Some x"
    unfolding waiting_ok_def ch by blast
  with w show ?thesis unfolding window_of_def Let_def by blast
qed

definition demo_conn :: conn where
  "demo_conn = conn_new\<lparr>c_uplinks := [0, 1], c_active := Some 0, c_clock := True\<rparr>"

theorem switch_only_after_window_witness:
  "\<exists>notes c'. evaluate (demo_view False) 4500 (snd (eval_run [(demo_view True, 1000), (demo_view False, 1500)] demo_conn))
       = (True, notes, c') \<and> c_active c' = Some 1"
proof -
  let ?r = "eval_run [(demo_view True, 1000), (demo_view False, 1500)] demo_conn"
  let ?e = "evaluate (demo_view False) 4500 (snd ?r)"
  have r: "c_pending demo_conn = None" "c_active (snd ?r) = Some 0" "c_clock (snd ?r)" "\<not> p_pinned (c_policy (snd ?r))"
    "fst ?e" "c_active (snd (snd ?e)) = Some 1"
    by code_simp+
  have eq: "?r = (fst ?r, snd ?r)" "?e = (True, fst (snd ?e), snd (snd ?e))" using r(5) by (simp_all add: prod_eq_iff)
  from switch_only_after_window [OF r(1) eq(1) eq(2) r(2,6,3,4)] eq(2) r(6) show ?thesis by blast
qed

text \<open>giving up the last uplink is not damped. The waiting period is started only when the candidate differs
  from the pending one, and "no uplink" is represented like "nothing pending". When the only working uplink drops out, the
  candidate is "none", the period is not started, and the comparison uses the time of some earlier wait (initially 0): one failed
  probe clears the active uplink at once and tells every transport, although the failover window is 3 seconds. The
  comment says that the window exists so that one dropped ping does not do that.\<close>

theorem loss_of_last_uplink_is_not_damped:
  assumes "c_active c = Some cur" and "\<not> usable v cur" and "\<forall>u \<in> set (c_uplinks c). \<not> usable v u"
    and "c_policy c = uplink_policy0" and "c_pending c = None" and "c_pending_since_ms c = 0" and "3000 \<le> s32 now"
  shows "evaluate v now c = (True, map (\<lambda>s. (s, v_id (v cur), [])) (c_subscribers c), c\<lparr>c_active := None, c_pending := None\<rparr>)"
proof -
  have "best_of v (c_uplinks c) (p_order (c_policy c)) = None"
    using assms(3) by (simp add: best_of_None)
  then have ch: "select v (c_uplinks c) (c_policy c) (c_active c) = None"
    using assms(1,2,4) by (simp add: select_def uplink_policy0_def)
  have "window_of v (c_policy c) cur = 3000" using assms(2,4) by (simp add: window_of_def uplink_policy0_def)
  then have "fst (damp v now None c)" "snd (damp v now None c) = c"
    using assms(1,4,5,6,7) by (auto simp: damp_def Let_def uplink_policy0_def)
  then have "damp v now None c = (True, c)" by (simp add: prod_eq_iff)
  with ch assms(1) show ?thesis by (simp add: evaluate_def Let_def id_of_def)
qed

theorem loss_of_last_uplink_is_not_damped_witness:
  "fst (evaluate (demo_view False) 60000 (demo_conn\<lparr>c_uplinks := [0]\<rparr>))"
proof -
  have "c_active (demo_conn\<lparr>c_uplinks := [0]\<rparr>) = Some 0" "\<not> usable (demo_view False) 0"
    "\<forall>u \<in> set (c_uplinks (demo_conn\<lparr>c_uplinks := [0]\<rparr>)). \<not> usable (demo_view False) u"
    "c_policy (demo_conn\<lparr>c_uplinks := [0]\<rparr>) = uplink_policy0" "c_pending (demo_conn\<lparr>c_uplinks := [0]\<rparr>) = None"
    "c_pending_since_ms (demo_conn\<lparr>c_uplinks := [0]\<rparr>) = 0" "3000 \<le> s32 (60000 :: u32)"
    by (simp_all add: demo_conn_def conn_new_def usable_def demo_view_def)
  from loss_of_last_uplink_is_not_damped [OF this] show ?thesis by simp
qed

end
