(* ===== verification/Route_Plan.thy ===== *)
theory Route_Plan
  imports Connectivity "HOL-Library.Char_ord" "HOL-Library.List_Lexorder" "HOL-Library.Product_Lexorder"
begin

text \<open>
  The intended routing table (\<^verbatim>\<open>core/net/route_plan.hpp\<close> and \<^verbatim>\<open>route_plan.cpp\<close>): a pure function from the uplinks' status, the
  policy and the active uplink to the default routes with their metrics, the interfaces that may be touched, and the
  DNS servers to publish. \<^verbatim>\<open>std::sort\<close> is the sort by (metric, uplink id), the comparison the code
  gives it; strings compare as unsigned bytes.
\<close>

section \<open>Definitions\<close>

fun dq_scan :: "string \<Rightarrow> nat \<Rightarrow> nat \<Rightarrow> nat \<Rightarrow> bool" where
  "dq_scan [] octets digits val = (octets = 4)"
| "dq_scan (c # cs) octets digits val =
     (if is_digit c
      then let digits = digits + 1; val = val * 10 + digit_val c
           in if 3 < digits then False else if 255 < val then False else dq_scan cs octets digits val
      else if c = CHR ''.''
      then if digits = 0 then False else dq_scan cs (octets + 1) 0 0
      else False)"

definition is_dotted_quad :: "string \<Rightarrow> bool" where
  "is_dotted_quad s = dq_scan (s @ ''.'') 0 0 0"

definition dns_sep :: "char \<Rightarrow> bool" where
  "dns_sep c \<longleftrightarrow> c = CHR '' '' \<or> c = CHR 0x09 \<or> c = CHR '',''"

fun dns_scan :: "string \<Rightarrow> string \<Rightarrow> string list \<Rightarrow> string list" where
  "dns_scan [] cur out = out"
| "dns_scan (c # cs) cur out =
     (if dns_sep c
      then if cur \<noteq> []
           then dns_scan cs [] (if is_dotted_quad cur \<and> cur \<notin> set out then out @ [cur] else out)
           else dns_scan cs cur out
      else dns_scan cs (cur @ [c]) out)"

definition split_dns :: "string \<Rightarrow> string list" where
  "split_dns field = dns_scan (field @ '' '') [] []"

definition kActiveRouteMetric :: int where "kActiveRouteMetric = 10"
definition kRouteMetricStep :: int where "kRouteMetricStep = 100"
definition kUnrankedRouteMetric :: int where "kUnrankedRouteMetric = 1000"

record route_intent =
  ri_uplink_id :: string
  ri_ifname :: string
  ri_gateway :: string
  ri_metric :: int
  ri_active :: bool
  ri_onlink :: bool

record route_plan =
  rp_routes :: "route_intent list"
  rp_managed_ifnames :: "string list"
  rp_dns :: "string list"
  rp_dns_owner :: string

definition plan_find :: "string \<Rightarrow> route_plan \<Rightarrow> route_intent option" where
  "plan_find ifname plan = find (\<lambda>r. ri_ifname r = ifname) (rp_routes plan)"

fun index_from :: "int \<Rightarrow> string list \<Rightarrow> string \<Rightarrow> int" where
  "index_from i [] s = -1"
| "index_from i (x # xs) s = (if x = s then i else index_from (i + 1) xs s)"

definition policy_rank :: "uplink_status \<Rightarrow> uplink_policy \<Rightarrow> int" where
  "policy_rank u p =
     (let i = index_from 0 (p_order p) (us_id u)
      in if 0 \<le> i then i else index_from 0 (p_order p) (uplink_type_name (us_type u)))"

text \<open>The body of the loop: the route of one uplink, and whether it gets one.\<close>

definition gets_route :: "uplink_status \<Rightarrow> bool" where
  "gets_route u \<longleftrightarrow> us_state u = Connected \<and> ni_ipv4 (us_info u) \<noteq> []
     \<and> (ni_gateway (us_info u) \<noteq> [] \<or> us_type u = Cellular)"

definition intent_of :: "uplink_policy \<Rightarrow> string \<Rightarrow> uplink_status \<Rightarrow> route_intent" where
  "intent_of p active u =
     (let act = (active \<noteq> [] \<and> us_id u = active);
          rank = policy_rank u p
      in \<lparr>ri_uplink_id = us_id u, ri_ifname = ni_ifname (us_info u), ri_gateway = ni_gateway (us_info u),
          ri_metric = (if act then kActiveRouteMetric
                       else if rank < 0 then kUnrankedRouteMetric else (rank + 1) * kRouteMetricStep),
          ri_active = act,
          ri_onlink = (us_type u = Cellular \<and> ni_gateway (us_info u) \<noteq> [])\<rparr>)"

fun plan_loop :: "uplink_status list \<Rightarrow> uplink_policy \<Rightarrow> string \<Rightarrow> route_plan \<Rightarrow> route_plan" where
  "plan_loop [] p active plan = plan"
| "plan_loop (u # us) p active plan =
     (if ni_ifname (us_info u) = [] then plan_loop us p active plan
      else
      let ifn = ni_ifname (us_info u);
          plan = (if ifn \<in> set (rp_managed_ifnames plan) then plan
                  else plan\<lparr>rp_managed_ifnames := rp_managed_ifnames plan @ [ifn]\<rparr>)
      in if \<not> gets_route u then plan_loop us p active plan
         else plan_loop us p active (plan\<lparr>rp_routes := rp_routes plan @ [intent_of p active u]\<rparr>))"

fun plan_dns :: "uplink_status list \<Rightarrow> string \<Rightarrow> route_plan \<Rightarrow> route_plan" where
  "plan_dns [] active plan = plan"
| "plan_dns (u # us) active plan =
     (if active = [] \<or> us_id u \<noteq> active then plan_dns us active plan
      else if \<not> ni_dns_is_own (us_info u) then plan
      else let servers = split_dns (ni_dns (us_info u))
           in if servers \<noteq> [] then plan\<lparr>rp_dns := servers, rp_dns_owner := us_id u\<rparr> else plan)"

definition plan_routes :: "uplink_status list \<Rightarrow> uplink_policy \<Rightarrow> string \<Rightarrow> route_plan" where
  "plan_routes us p active =
     (let plan = plan_loop us p active \<lparr>rp_routes = [], rp_managed_ifnames = [], rp_dns = [], rp_dns_owner = []\<rparr>;
          plan = plan\<lparr>rp_routes := sort_key (\<lambda>r. (ri_metric r, ri_uplink_id r)) (rp_routes plan)\<rparr>
      in plan_dns us active plan)"

section \<open>Dotted quads\<close>

definition octet :: "string \<Rightarrow> bool" where
  "octet x \<longleftrightarrow> x \<noteq> [] \<and> length x \<le> 3 \<and> list_all is_digit x \<and> dec_nat x \<le> 255"

abbreviation dotted :: "string list \<Rightarrow> string" where
  "dotted os \<equiv> concat (map (\<lambda>x. x @ ''.'') os)"

lemma dot_not_digit [simp]: "\<not> is_digit (CHR ''.'')"
  by (simp add: is_digit_def)

lemma dec_nat_snoc [simp]: "dec_nat (p @ [c]) = dec_nat p * 10 + digit_val c"
  by (simp add: dec_nat_def)

lemma takeWhile_dot: "list_all is_digit x \<Longrightarrow> takeWhile is_digit (x @ CHR ''.'' # r) = x"
  by (induction x) auto

lemma dotted_Cons_takeWhile:
  "\<forall>x \<in> set os. octet x \<Longrightarrow> p @ t = dotted os \<Longrightarrow> p @ t \<noteq> [] \<Longrightarrow>
   \<exists>x xs. os = x # xs \<and> octet x \<and> takeWhile is_digit (p @ t) = x"
  by (cases os) (auto simp: octet_def takeWhile_dot)

lemma dec_nat_mono: "dec_nat p \<le> dec_nat (p @ q)"
proof (induction q rule: rev_induct)
  case (snoc c q)
  have "dec_nat (p @ q) \<le> dec_nat ((p @ q) @ [c])" by (simp only: dec_nat_snoc)
  with snoc show ?case by simp
qed simp

lemma dq_scan_iff:
  assumes "list_all is_digit p" and "length p \<le> 3" and "dec_nat p \<le> 255"
    and "t = [] \<longrightarrow> p = []" and "t \<noteq> [] \<longrightarrow> last t = CHR ''.''"
  shows "dq_scan t n (length p) (dec_nat p) \<longleftrightarrow>
     (\<exists>os. n + length os = 4 \<and> (\<forall>x \<in> set os. octet x) \<and> p @ t = dotted os)"
  using assms
proof (induction t arbitrary: p n)
  case Nil
  then have "p = []" by simp
  moreover have "dotted os = [] \<longleftrightarrow> os = []" for os :: "string list" by (cases os) auto
  ultimately show ?case by auto
next
  case (Cons c t)
  show ?case
  proof (cases "is_digit c")
    case True
    have tne: "t \<noteq> []" using Cons.prems(5) True by (auto split: if_splits)
    then have lt: "t \<noteq> [] \<longrightarrow> last t = CHR ''.''" using Cons.prems(5) by simp
    have pc: "list_all is_digit (p @ [c])" using Cons.prems(1) True by simp
    show ?thesis
    proof (cases "length (p @ [c]) \<le> 3 \<and> dec_nat (p @ [c]) \<le> 255")
      case ok: True
      then have "dq_scan (c # t) n (length p) (dec_nat p) = dq_scan t n (length (p @ [c])) (dec_nat (p @ [c]))"
        using True by (auto simp: Let_def)
      also have "\<dots> \<longleftrightarrow> (\<exists>os. n + length os = 4 \<and> (\<forall>x \<in> set os. octet x) \<and> (p @ [c]) @ t = dotted os)"
        by (rule Cons.IH) (use pc ok tne lt in auto)
      finally show ?thesis by simp
    next
      case bad: False
      then have "\<not> dq_scan (c # t) n (length p) (dec_nat p)" using True by (auto simp: Let_def)
      moreover have "\<not> (\<exists>os. (\<forall>x \<in> set os. octet x) \<and> p @ c # t = dotted os)"
      proof
        assume "\<exists>os. (\<forall>x \<in> set os. octet x) \<and> p @ c # t = dotted os"
        then obtain os where "\<forall>x \<in> set os. octet x" "p @ (c # t) = dotted os" by blast
        from dotted_Cons_takeWhile [OF this] obtain x where x: "octet x" "takeWhile is_digit (p @ c # t) = x" by auto
        have "takeWhile is_digit (p @ c # t) = (p @ [c]) @ takeWhile is_digit t"
          using pc by (simp add: list_all_iff)
        with x bad show False using dec_nat_mono [of "p @ [c]" "takeWhile is_digit t"] by (auto simp: octet_def)
      qed
      ultimately show ?thesis by auto
    qed
  next
    case nd: False
    have tw: "takeWhile is_digit (p @ c # t) = p" using Cons.prems(1) nd by (simp add: list_all_iff)
    show ?thesis
    proof (cases "c = CHR ''.'' \<and> p \<noteq> []")
      case True
      have op: "octet p" using True Cons.prems(1-3) by (auto simp: octet_def)
      have "dq_scan (c # t) n (length p) (dec_nat p) = dq_scan t (Suc n) (length ([] :: string)) (dec_nat [])"
        using True by (auto simp: dec_nat_def)
      also have "\<dots> \<longleftrightarrow> (\<exists>os. Suc n + length os = 4 \<and> (\<forall>x \<in> set os. octet x) \<and> [] @ t = dotted os)"
        by (rule Cons.IH) (use Cons.prems(5) in \<open>auto simp: dec_nat_def split: if_splits\<close>)
      also have "\<dots> \<longleftrightarrow> (\<exists>os. n + length os = 4 \<and> (\<forall>x \<in> set os. octet x) \<and> p @ c # t = dotted os)" (is "?L \<longleftrightarrow> ?R")
      proof
        assume ?L
        then obtain os where "Suc n + length os = 4" "\<forall>x \<in> set os. octet x" "t = dotted os" by auto
        then have "n + length (p # os) = 4" "\<forall>x \<in> set (p # os). octet x" "p @ c # t = dotted (p # os)"
          using op True by auto
        then show ?R by blast
      next
        assume ?R
        then obtain os where os: "n + length os = 4" "\<forall>x \<in> set os. octet x" "p @ c # t = dotted os" by auto
        from dotted_Cons_takeWhile [OF os(2,3)] tw obtain xs where "os = p # xs" by auto
        with os True show ?L by auto
      qed
      finally show ?thesis .
    next
      case False
      then have "\<not> dq_scan (c # t) n (length p) (dec_nat p)" using nd by auto
      moreover have "\<not> (\<exists>os. (\<forall>x \<in> set os. octet x) \<and> p @ c # t = dotted os)"
      proof
        assume "\<exists>os. (\<forall>x \<in> set os. octet x) \<and> p @ c # t = dotted os"
        then obtain os where os: "\<forall>x \<in> set os. octet x" "p @ (c # t) = dotted os" by blast
        from dotted_Cons_takeWhile [OF os] tw obtain xs where "os = p # xs" "octet p" by auto
        with os False show False by (auto simp: octet_def)
      qed
      ultimately show ?thesis by auto
    qed
  qed
qed

lemma ex_length4: "(\<exists>xs. length xs = 4 \<and> P xs) \<longleftrightarrow> (\<exists>a b c d. P [a, b, c, d])"
proof
  assume "\<exists>xs. length xs = 4 \<and> P xs"
  then obtain xs where "length xs = 4" "P xs" by blast
  then show "\<exists>a b c d. P [a, b, c, d]" by (auto simp: length_Suc_conv numeral_eq_Suc)
next
  assume "\<exists>a b c d. P [a, b, c, d]"
  then obtain a b c d where "P [a, b, c, d]" by blast
  moreover have "length [a, b, c, d] = 4" by simp
  ultimately show "\<exists>xs. length xs = 4 \<and> P xs" by blast
qed

lemma dotted4: "s @ ''.'' = dotted [a, b, c, d] \<longleftrightarrow> s = a @ ''.'' @ b @ ''.'' @ c @ ''.'' @ d"
  by simp

text \<open>the validity test for IPv4 addresses is exact. \<open>is_dotted_quad\<close> accepts a string if and only if it is four
  groups of one to three digits, each at most 255, separated by single dots.\<close>

theorem is_dotted_quad_exact:
  "is_dotted_quad s \<longleftrightarrow>
     (\<exists>a b c d. s = a @ ''.'' @ b @ ''.'' @ c @ ''.'' @ d \<and> octet a \<and> octet b \<and> octet c \<and> octet d)"
proof -
  have "is_dotted_quad s \<longleftrightarrow> (\<exists>os. length os = 4 \<and> (\<forall>x \<in> set os. octet x) \<and> s @ ''.'' = dotted os)"
    using dq_scan_iff [of "[]" "s @ ''.''" 0] by (simp add: is_dotted_quad_def dec_nat_def)
  also have "\<dots> \<longleftrightarrow> (\<exists>a b c d. (\<forall>x \<in> set [a, b, c, d]. octet x) \<and> s @ ''.'' = dotted [a, b, c, d])"
    by (rule ex_length4)
  also have "\<dots> \<longleftrightarrow> (\<exists>a b c d. (octet a \<and> octet b \<and> octet c \<and> octet d)
      \<and> s = a @ ''.'' @ b @ ''.'' @ c @ ''.'' @ d)" unfolding dotted4 by simp
  finally show ?thesis by blast
qed

section \<open>DNS fields\<close>

lemma dns_scan_inv:
  "list_all is_dotted_quad out \<Longrightarrow> distinct out \<Longrightarrow>
   list_all is_dotted_quad (dns_scan cs cur out) \<and> distinct (dns_scan cs cur out)"
  by (induction cs cur out rule: dns_scan.induct) auto

lemma split_dns_ok: "list_all is_dotted_quad (split_dns f)" "distinct (split_dns f)"
  using dns_scan_inv [of "[]" "f @ '' ''" "[]"] by (simp_all add: split_dns_def)

section \<open>The plan\<close>

lemma plan_loop_routes:
  "rp_routes (plan_loop us p active plan) =
     rp_routes plan @ map (intent_of p active) (filter (\<lambda>u. ni_ifname (us_info u) \<noteq> [] \<and> gets_route u) us)"
  by (induction us p active plan rule: plan_loop.induct) (auto simp: Let_def)

lemma plan_loop_managed:
  "set (rp_managed_ifnames (plan_loop us p active plan)) =
     set (rp_managed_ifnames plan) \<union> {ni_ifname (us_info u) | u. u \<in> set us \<and> ni_ifname (us_info u) \<noteq> []}"
  by (induction us p active plan rule: plan_loop.induct) (auto simp: Let_def split: if_splits)

lemma plan_loop_dns:
  "rp_dns (plan_loop us p active plan) = rp_dns plan" "rp_dns_owner (plan_loop us p active plan) = rp_dns_owner plan"
  by (induction us p active plan rule: plan_loop.induct) (auto simp: Let_def)

lemma plan_dns_frame [simp]:
  "rp_routes (plan_dns us active plan) = rp_routes plan"
  "rp_managed_ifnames (plan_dns us active plan) = rp_managed_ifnames plan"
  by (induction us active plan rule: plan_dns.induct) (auto simp: Let_def)

lemma plan_dns_spec:
  "rp_dns plan = [] \<Longrightarrow> rp_dns_owner plan = [] \<Longrightarrow> plan' = plan_dns us active plan \<Longrightarrow>
   (rp_dns_owner plan' = [] \<and> rp_dns plan' = []) \<or>
   (rp_dns_owner plan' = active \<and> active \<noteq> [] \<and> rp_dns plan' \<noteq> [] \<and>
    (\<exists>u \<in> set us. us_id u = active \<and> ni_dns_is_own (us_info u) \<and> rp_dns plan' = split_dns (ni_dns (us_info u))))"
proof (induction us active plan rule: plan_dns.induct)
  case (2 u us active plan)
  show ?case
  proof (cases "active = [] \<or> us_id u \<noteq> active")
    case True
    with "2.prems" "2.IH" [OF True] show ?thesis by auto
  next
    case False
    with "2.prems" show ?thesis by (auto simp: Let_def)
  qed
qed simp

lemma plan_routes_list:
  "rp_routes (plan_routes us p active) = sort_key (\<lambda>r. (ri_metric r, ri_uplink_id r))
     (map (intent_of p active) (filter (\<lambda>u. ni_ifname (us_info u) \<noteq> [] \<and> gets_route u) us))"
  by (simp add: plan_routes_def Let_def plan_loop_routes)

lemma plan_routes_managed:
  "set (rp_managed_ifnames (plan_routes us p active)) = {ni_ifname (us_info u) | u. u \<in> set us \<and> ni_ifname (us_info u) \<noteq> []}"
  by (simp add: plan_routes_def Let_def plan_loop_managed)

lemma index_from_bound: "index_from i xs s = -1 \<or> i \<le> index_from i xs s"
proof (induction i xs s rule: index_from.induct)
  case (2 i x xs s)
  then show ?case by (cases "x = s") auto
qed simp

lemma policy_rank_bound: "-1 \<le> policy_rank u p"
  using index_from_bound [of 0 "p_order p" "us_id u"] index_from_bound [of 0 "p_order p" "uplink_type_name (us_type u)"]
  by (auto simp: policy_rank_def Let_def)

lemma intent_metric:
  "ri_active (intent_of p active u) \<Longrightarrow> ri_metric (intent_of p active u) = 10"
  "\<not> ri_active (intent_of p active u) \<Longrightarrow> 100 \<le> ri_metric (intent_of p active u)"
  using policy_rank_bound [of u p]
  by (auto simp: intent_of_def Let_def kActiveRouteMetric_def kUnrankedRouteMetric_def kRouteMetricStep_def)

lemma plan_routes_members:
  "set (rp_routes (plan_routes us p active)) =
     intent_of p active ` {u \<in> set us. ni_ifname (us_info u) \<noteq> [] \<and> gets_route u}"
  by (simp add: plan_routes_list)

lemma plan_routes_on_managed:
  "ri_ifname ` set (rp_routes (plan_routes us p active)) \<subseteq> set (rp_managed_ifnames (plan_routes us p active))"
  unfolding plan_routes_members plan_routes_managed by (auto simp: intent_of_def Let_def)

text \<open>the planned table. The routes are exactly those of the uplinks that have an interface, are connected and
  addressed, and have a gateway unless they are cellular; each goes through an interface listed as managed;
  they are sorted by metric; and every route of the active uplink has metric 10 and all others at least 100, so the kernel's choice is
  the manager's choice.\<close>

theorem plan_routes_table:
  "set (rp_routes (plan_routes us p active)) =
      intent_of p active ` {u \<in> set us. ni_ifname (us_info u) \<noteq> [] \<and> gets_route u}
   \<and> ri_ifname ` set (rp_routes (plan_routes us p active)) \<subseteq> set (rp_managed_ifnames (plan_routes us p active))
   \<and> sorted (map ri_metric (rp_routes (plan_routes us p active)))
   \<and> (\<forall>r \<in> set (rp_routes (plan_routes us p active)).
        if ri_active r then active \<noteq> [] \<and> ri_uplink_id r = active \<and> ri_metric r = 10 else 100 \<le> ri_metric r)"
proof -
  let ?rs = "rp_routes (plan_routes us p active)"
  have "sorted (map (\<lambda>r. (ri_metric r, ri_uplink_id r)) ?rs)" by (simp add: plan_routes_list)
  then have "sorted (map fst (map (\<lambda>r. (ri_metric r, ri_uplink_id r)) ?rs))"
    by (induction ?rs) (auto simp: less_eq_prod_def sorted_wrt_map sorted_map elim!: sorted_wrt_mono_rel [rotated])
  then have s: "sorted (map ri_metric ?rs)" by (simp add: comp_def)
  note st = plan_routes_members [of us p active]
  moreover note plan_routes_on_managed [of us p active]
  moreover have "if ri_active r then active \<noteq> [] \<and> ri_uplink_id r = active \<and> ri_metric r = 10 else 100 \<le> ri_metric r"
    if "r \<in> set ?rs" for r
  proof -
    from that st obtain u where "r = intent_of p active u" by auto
    moreover have "ri_active (intent_of p active u) \<Longrightarrow> active \<noteq> [] \<and> ri_uplink_id (intent_of p active u) = active"
      by (auto simp: intent_of_def Let_def)
    ultimately show ?thesis using intent_metric [of p active u] by auto
  qed
  ultimately show ?thesis using s by blast
qed

definition wired :: uplink_status where
  "wired = \<lparr>us_id = ''eth0'', us_type = Ethernet, us_state = Connected, us_internet = True, us_active = True,
     us_info = info0\<lparr>ni_ifname := ''eth0'', ni_ipv4 := ''10.0.0.2'', ni_gateway := ''10.0.0.1''\<rparr>, us_metrics = metrics0\<rparr>"

theorem plan_routes_table_witness:
  "map ri_metric (rp_routes (plan_routes [wired] uplink_policy0 ''eth0'')) = [10]
   \<and> set (rp_routes (plan_routes [wired] uplink_policy0 ''eth0'')) = {intent_of uplink_policy0 ''eth0'' wired}
   \<and> sorted (map ri_metric (rp_routes (plan_routes [wired] uplink_policy0 ''eth0'')))"
proof -
  have m: "map ri_metric (rp_routes (plan_routes [wired] uplink_policy0 ''eth0'')) = [10]" by code_simp
  have "{u \<in> set [wired]. ni_ifname (us_info u) \<noteq> [] \<and> gets_route u} = {wired}"
    by (auto simp: wired_def gets_route_def)
  with plan_routes_table [of "[wired]" uplink_policy0 "''eth0''"] m show ?thesis by simp
qed

text \<open>whose name servers are published. The plan names DNS servers only on behalf of the active uplink, only
  if that uplink knows its servers itself, and then the list is non-empty, free of duplicates and consists of valid IPv4
  addresses; otherwise the plan has no owner and no servers, which means that the file is left alone.\<close>

theorem plan_dns_from_active_only:
  "(rp_dns_owner (plan_routes us p active) = [] \<and> rp_dns (plan_routes us p active) = []) \<or>
   (rp_dns_owner (plan_routes us p active) = active \<and> active \<noteq> [] \<and> rp_dns (plan_routes us p active) \<noteq> []
    \<and> distinct (rp_dns (plan_routes us p active)) \<and> list_all is_dotted_quad (rp_dns (plan_routes us p active))
    \<and> (\<exists>u \<in> set us. us_id u = active \<and> ni_dns_is_own (us_info u)
        \<and> rp_dns (plan_routes us p active) = split_dns (ni_dns (us_info u))))"
proof -
  define plan where "plan = (let plan = plan_loop us p active
      \<lparr>rp_routes = [], rp_managed_ifnames = [], rp_dns = [], rp_dns_owner = []\<rparr>
    in plan\<lparr>rp_routes := sort_key (\<lambda>r. (ri_metric r, ri_uplink_id r)) (rp_routes plan)\<rparr>)"
  have "rp_dns plan = []" "rp_dns_owner plan = []" by (simp_all add: plan_def Let_def plan_loop_dns)
  moreover have "plan_routes us p active = plan_dns us active plan" by (simp add: plan_routes_def plan_def Let_def)
  ultimately show ?thesis
    using plan_dns_spec [of plan "plan_routes us p active" us active] split_dns_ok by fastforce
qed

text \<open>an uplink the policy does not mention can beat one it does. Metrics grow by 100 per rank while unranked
  uplinks get the constant 1000, which is called "never preferred". With eleven or more entries in the order, a
  listed uplink at rank 10 or later gets a larger metric than an unlisted one.\<close>

theorem unranked_beats_late_ranks:
  assumes "10 \<le> policy_rank u p" and "policy_rank w p = -1" and "us_id u \<noteq> active" and "us_id w \<noteq> active"
  shows "ri_metric (intent_of p active w) < ri_metric (intent_of p active u)"
  using assms by (auto simp: intent_of_def Let_def kUnrankedRouteMetric_def kRouteMetricStep_def)

definition demo_status :: "string \<Rightarrow> uplink_status" where
  "demo_status i = \<lparr>us_id = i, us_type = Ethernet, us_state = Connected, us_internet = True, us_active = False,
     us_info = info0, us_metrics = metrics0\<rparr>"

definition demo_policy :: uplink_policy where
  "demo_policy = uplink_policy0\<lparr>p_order := replicate 10 ''lte'' @ [''eth7'']\<rparr>"

theorem unranked_beats_late_ranks_witness:
  "ri_metric (intent_of demo_policy [] (demo_status ''eth9'')) < ri_metric (intent_of demo_policy [] (demo_status ''eth7''))"
proof -
  have "10 \<le> policy_rank (demo_status ''eth7'') demo_policy" "policy_rank (demo_status ''eth9'') demo_policy = -1"
    "us_id (demo_status ''eth7'') \<noteq> []" "us_id (demo_status ''eth9'') \<noteq> []"
    by code_simp+
  then show ?thesis by (rule unranked_beats_late_ranks)
qed

end
