(* ===== verification/Proc_Net.thy ===== *)
theory Proc_Net
  imports Core_Result
begin

unbundle bit_operations_syntax

text \<open>
  Parsing of the kernel's network files (\<^verbatim>\<open>core/net/proc_net.cpp\<close>) and the resolver file the Linux backend writes
  (\<^verbatim>\<open>adapters/linux/linux_route_backend.cpp\<close>). \<open>lb\<close> is the number of bits of a C \<^verbatim>\<open>long\<close>: 32 on the camera, 64 on the
  hosts that run the tests. \<open>ovf\<close> stands for what \<^verbatim>\<open>sscanf\<close> stores for a number that does not fit, which C leaves open.
\<close>

section \<open>Text\<close>

fun split_nl :: "string \<Rightarrow> string list" where
  "split_nl [] = [[]]"
| "split_nl (c # cs) =
     (if c = CHR 0x0A then [] # split_nl cs
      else (case split_nl cs of [] \<Rightarrow> [[c]] | l # ls \<Rightarrow> (c # l) # ls))"

definition strip_cr :: "string \<Rightarrow> string" where
  "strip_cr line = rev (dropWhile (\<lambda>c. c = CHR 0x0D) (rev line))"

definition split_lines :: "string \<Rightarrow> string list" where
  "split_lines text = map strip_cr (split_nl text)"

definition is_ws :: "char \<Rightarrow> bool" where
  "is_ws c \<longleftrightarrow> c = CHR '' '' \<or> c = CHR 0x09"

function ws_fields :: "string \<Rightarrow> string list" where
  "ws_fields line =
     (let rest = dropWhile is_ws line
      in if rest = [] then []
         else takeWhile (\<lambda>c. \<not> is_ws c) rest # ws_fields (dropWhile (\<lambda>c. \<not> is_ws c) rest))"
  by auto

lemma length_drop_token:
  assumes "dropWhile is_ws line \<noteq> []"
  shows "length (dropWhile (\<lambda>c. \<not> is_ws c) (dropWhile is_ws line)) < length line"
proof -
  from assms obtain c cs where r: "dropWhile is_ws line = c # cs" by (cases "dropWhile is_ws line") auto
  then have "\<not> is_ws c" using hd_dropWhile [OF assms] by simp
  then have "length (dropWhile (\<lambda>c. \<not> is_ws c) (c # cs)) \<le> length cs" by (simp add: length_dropWhile_le)
  moreover have "Suc (length cs) \<le> length line" using length_dropWhile_le [of is_ws line] r by simp
  ultimately show ?thesis by (simp add: r)
qed

termination ws_fields
  by (relation "measure length") (auto simp: length_drop_token)

declare ws_fields.simps [simp del]

definition hex_digit :: "char \<Rightarrow> nat option" where
  "hex_digit c =
     (let n = of_char c :: nat
      in if 48 \<le> n \<and> n \<le> 57 then Some (n - 48)
         else if 97 \<le> n \<and> n \<le> 102 then Some (n - 97 + 10)
         else if 65 \<le> n \<and> n \<le> 70 then Some (n - 65 + 10)
         else None)"

fun hex_loop :: "string \<Rightarrow> u32 \<Rightarrow> u32 option" where
  "hex_loop [] v = Some v"
| "hex_loop (c # cs) v = (case hex_digit c of None \<Rightarrow> None | Some d \<Rightarrow> hex_loop cs (push_bit 4 v OR of_nat d))"

definition hex32 :: "string \<Rightarrow> u32 option" where
  "hex32 s = (if s = [] \<or> 8 < length s then None else hex_loop s 0)"

text \<open>\<^verbatim>\<open>strtol\<close> on a string that is an optional minus and digits: saturating.\<close>

definition clamp_long :: "nat \<Rightarrow> int \<Rightarrow> int" where
  "clamp_long lb v = max (- (2 ^ (lb - 1))) (min (2 ^ (lb - 1) - 1) v)"

definition dec_int :: "nat \<Rightarrow> string \<Rightarrow> int option" where
  "dec_int lb s =
     (if s = [] then None
      else let neg = (hd s = CHR ''-''); ds = (if neg then tl s else s)
           in if ds = [] then None
              else if \<not> list_all is_digit ds then None
              else Some (clamp_long lb (if neg then - int (dec_nat ds) else int (dec_nat ds))))"

definition le_hex_to_dotted :: "u32 \<Rightarrow> string" where
  "le_hex_to_dotted v =
     nat_dec (unat (v AND 0xff)) @ ''.'' @ nat_dec (unat (drop_bit 8 v AND 0xff)) @ ''.''
     @ nat_dec (unat (drop_bit 16 v AND 0xff)) @ ''.'' @ nat_dec (unat (drop_bit 24 v AND 0xff))"

section \<open>The kernel's files\<close>

record default_route =
  dr_ifname :: string
  dr_gateway :: string
  dr_metric :: int

definition to_int32 :: "int \<Rightarrow> int" where
  "to_int32 i = sint (word_of_int i :: u32)"

definition parse_route_line :: "nat \<Rightarrow> string \<Rightarrow> default_route option" where
  "parse_route_line lb line =
     (let f = ws_fields line
      in if length f < 8 then None
         else if f ! 0 = ''Iface'' then None
         else case (hex32 (f ! 1), hex32 (f ! 2), hex32 (f ! 7)) of
           (Some dest, Some gw, Some msk) \<Rightarrow>
             if dest \<noteq> 0 \<or> msk \<noteq> 0 then None
             else (case dec_int lb (f ! 6) of
                     None \<Rightarrow> None
                   | Some metric \<Rightarrow> Some \<lparr>dr_ifname = f ! 0,
                       dr_gateway = (if gw = 0 then [] else le_hex_to_dotted gw), dr_metric = to_int32 metric\<rparr>)
         | _ \<Rightarrow> None)"

definition parse_proc_net_route :: "nat \<Rightarrow> string \<Rightarrow> default_route list" where
  "parse_proc_net_route lb text = somes (map (parse_route_line lb) (split_lines text))"

fun best_route :: "default_route \<Rightarrow> default_route list \<Rightarrow> default_route" where
  "best_route b [] = b"
| "best_route b (r # rs) = best_route (if dr_metric r < dr_metric b then r else b) rs"

definition best_default_route :: "nat \<Rightarrow> string \<Rightarrow> default_route option" where
  "best_default_route lb text =
     (case parse_proc_net_route lb text of [] \<Rightarrow> None | r # rs \<Rightarrow> Some (best_route r rs))"

definition nameserver_of :: "string \<Rightarrow> string option" where
  "nameserver_of line =
     (let f = ws_fields line
      in if length f < 2 then None
         else if f ! 0 = [] \<or> hd (f ! 0) = CHR ''#'' \<or> hd (f ! 0) = CHR '';'' then None
         else if f ! 0 \<noteq> ''nameserver'' then None
         else Some (f ! 1))"

definition parse_resolv_conf :: "string \<Rightarrow> string list" where
  "parse_resolv_conf text = somes (map nameserver_of (split_lines text))"

text \<open>\<^verbatim>\<open>strtoull\<close> in base 10 on a field without leading white space: sign, digits, the rest ignored; saturating.\<close>

definition strtoull :: "string \<Rightarrow> u64" where
  "strtoull s =
     (let neg = (s \<noteq> [] \<and> hd s = CHR ''-'');
          ds = takeWhile is_digit (if s \<noteq> [] \<and> (hd s = CHR ''-'' \<or> hd s = CHR ''+'') then tl s else s);
          n = dec_nat ds
      in if ds = [] then 0 else if 2 ^ 64 \<le> n then - 1 else if neg then - of_nat n else of_nat n)"

definition trim_ws :: "string \<Rightarrow> string" where
  "trim_ws s = rev (dropWhile is_ws (rev (dropWhile is_ws s)))"

fun net_dev_lines :: "string list \<Rightarrow> string \<Rightarrow> (u64 \<times> u64) option" where
  "net_dev_lines [] ifname = None"
| "net_dev_lines (line # ls) ifname =
     (if CHR '':'' \<notin> set line then net_dev_lines ls ifname
      else let name = trim_ws (takeWhile (\<lambda>c. c \<noteq> CHR '':'') line);
               f = ws_fields (tl (dropWhile (\<lambda>c. c \<noteq> CHR '':'') line))
           in if name \<noteq> ifname then net_dev_lines ls ifname
              else if length f < 16 then None
              else Some (strtoull (f ! 0), strtoull (f ! 8)))"

definition parse_proc_net_dev :: "string \<Rightarrow> string \<Rightarrow> (u64 \<times> u64) option" where
  "parse_proc_net_dev text ifname = net_dev_lines (split_lines text) ifname"

section \<open>Netmasks\<close>

text \<open>\<^verbatim>\<open>%u\<close> of \<^verbatim>\<open>sscanf\<close>: white space, an optional sign, at least one digit. The result is the value and the rest.\<close>

definition is_space :: "char \<Rightarrow> bool" where
  "is_space c \<longleftrightarrow> (let n = of_char c :: nat in n = 32 \<or> (9 \<le> n \<and> n \<le> 13))"

text \<open>\<^verbatim>\<open>atoi\<close>. A value outside \<^verbatim>\<open>int\<close> is undefined in C and answered by the environment.\<close>

definition c_atoi :: "(string \<Rightarrow> int) \<Rightarrow> string \<Rightarrow> int" where
  "c_atoi ovf s =
     (let t = dropWhile is_space s;
          neg = (t \<noteq> [] \<and> hd t = CHR ''-'');
          ds = takeWhile is_digit (if t \<noteq> [] \<and> (hd t = CHR ''-'' \<or> hd t = CHR ''+'') then tl t else t);
          v = (if neg then - int (dec_nat ds) else int (dec_nat ds))
      in if - (2 ^ 31) \<le> v \<and> v < 2 ^ 31 then v else ovf s)"

definition scan_u :: "(string \<Rightarrow> u32) \<Rightarrow> string \<Rightarrow> (u32 \<times> string) option" where
  "scan_u ovf s =
     (let s = dropWhile is_space s;
          neg = (s \<noteq> [] \<and> hd s = CHR ''-'');
          s' = (if s \<noteq> [] \<and> (hd s = CHR ''-'' \<or> hd s = CHR ''+'') then tl s else s);
          ds = takeWhile is_digit s'; rest = dropWhile is_digit s'
      in if ds = [] then None
         else if 2 ^ 32 \<le> dec_nat ds then Some (ovf ds, rest)
         else Some (if neg then - of_nat (dec_nat ds) else of_nat (dec_nat ds), rest))"

definition scan_dot :: "string \<Rightarrow> string option" where
  "scan_dot s = (if s \<noteq> [] \<and> hd s = CHR ''.'' then Some (tl s) else None)"

definition scan_quad :: "(string \<Rightarrow> u32) \<Rightarrow> string \<Rightarrow> (u32 \<times> u32 \<times> u32 \<times> u32 \<times> string) option" where
  "scan_quad ovf s =
     Option.bind (scan_u ovf s) (\<lambda>(a, s). Option.bind (scan_dot s) (\<lambda>s.
     Option.bind (scan_u ovf s) (\<lambda>(b, s). Option.bind (scan_dot s) (\<lambda>s.
     Option.bind (scan_u ovf s) (\<lambda>(c, s). Option.bind (scan_dot s) (\<lambda>s.
     Option.bind (scan_u ovf s) (\<lambda>(d, s). Some (a, b, c, d, s))))))))"

fun count_ones :: "nat \<Rightarrow> u32 \<Rightarrow> u32 \<Rightarrow> nat" where
  "count_ones 0 v b = 0"
| "count_ones (Suc n) v b = (if v AND b \<noteq> 0 then Suc (count_ones n v (drop_bit 1 b)) else 0)"

definition prefix_of_mask :: "u32 \<Rightarrow> int" where
  "prefix_of_mask v =
     (let prefix = count_ones 32 v 0x80000000
      in if list_ex (\<lambda>i. v AND drop_bit i 0x80000000 \<noteq> 0) [prefix..<32] then -1 else int prefix)"

definition netmask_to_prefix :: "nat \<Rightarrow> (string \<Rightarrow> u32) \<Rightarrow> string \<Rightarrow> int" where
  "netmask_to_prefix lb ovf m =
     (if m = [] then -1
      else if CHR ''.'' \<notin> set m
      then (case dec_int lb m of None \<Rightarrow> -1 | Some v \<Rightarrow> if v < 0 \<or> 32 < v then -1 else to_int32 v)
      else case scan_quad ovf m of
             None \<Rightarrow> -1
           | Some (a, b, c, d, rest) \<Rightarrow>
               if rest \<noteq> [] then -1
               else if 255 < a \<or> 255 < b \<or> 255 < c \<or> 255 < d then -1
               else prefix_of_mask (push_bit 24 a OR push_bit 16 b OR push_bit 8 c OR d))"

definition mask_word :: "nat \<Rightarrow> u32" where
  "mask_word prefix = (if prefix = 0 then 0 else push_bit (32 - prefix) 0xffffffff)"

definition be_dotted :: "u32 \<Rightarrow> string" where
  "be_dotted v =
     nat_dec (unat (drop_bit 24 v AND 0xff)) @ ''.'' @ nat_dec (unat (drop_bit 16 v AND 0xff)) @ ''.''
     @ nat_dec (unat (drop_bit 8 v AND 0xff)) @ ''.'' @ nat_dec (unat (v AND 0xff))"

definition prefix_to_netmask :: "int \<Rightarrow> string" where
  "prefix_to_netmask prefix = (if prefix < 0 \<or> 32 < prefix then [] else be_dotted (mask_word (nat prefix)))"

section \<open>The resolver file\<close>

text \<open>The text \<open>LinuxRouteBackend::set_dns\<close> and \<open>set_dns_baseline\<close> write.\<close>

definition nameserver_lines :: "string list \<Rightarrow> string" where
  "nameserver_lines servers = concat (map (\<lambda>s. ''nameserver '' @ s @ [CHR 0x0A]) servers)"

text \<open>A string printed with \<^verbatim>\<open>%s\<close> from \<^verbatim>\<open>c_str()\<close> ends at its first NUL.\<close>

definition cstr :: "string \<Rightarrow> string" where
  "cstr s = takeWhile (\<lambda>c. c \<noteq> CHR 0x00) s"

definition resolv_text :: "string list \<Rightarrow> string" where
  "resolv_text servers =
     ''# written by machino - the active uplink owns this file'' @ [CHR 0x0A] @ nameserver_lines (map cstr servers)"

definition baseline_text :: "string list \<Rightarrow> string" where
  "baseline_text servers =
     ''# machino: what /etc/resolv.conf held before the active uplink took it over'' @ [CHR 0x0A] @ nameserver_lines servers"

section \<open>Properties\<close>

subsection \<open>Masks\<close>

lemma top_bit: "j < 32 \<Longrightarrow> drop_bit j (0x80000000 :: u32) = 2 ^ (31 - j)"
proof -
  assume j: "j < 32"
  have "(0x80000000 :: u32) = 2 ^ 31" by simp
  moreover have "drop_bit j ((2 :: u32) ^ 31) = of_bool (j \<le> 31 \<and> possible_bit TYPE(u32) 31) * 2 ^ (31 - j)"
    by (rule drop_bit_exp_eq)
  moreover have "possible_bit TYPE(u32) 31" by simp
  ultimately show ?thesis using j by simp
qed

lemma and_top_bit: "j < 32 \<Longrightarrow> (v :: u32) AND drop_bit j 0x80000000 \<noteq> 0 \<longleftrightarrow> bit v (31 - j)"
  by (simp add: top_bit and_exp_eq_0_iff_not_bit)

lemma mask_word_alt: "mask_word k = (if k = 0 then 0 else push_bit (32 - k) (- 1))"
proof -
  have e: "(0xffffffff :: u32) = - 1" by simp
  show ?thesis by (simp only: mask_word_def e)
qed

lemma bit_mask_word: "k \<le> 32 \<Longrightarrow> bit (mask_word k) i \<longleftrightarrow> i < 32 \<and> 32 - k \<le> i"
  by (cases "k = 0") (auto simp: mask_word_alt bit_simps)

lemma count_ones_mask:
  "k \<le> 32 \<Longrightarrow> j \<le> 32 \<Longrightarrow> count_ones (32 - j) (mask_word k) (drop_bit j 0x80000000) = k - j"
proof (induction "32 - j" arbitrary: j)
  case 0
  then have "j = 32" by simp
  with 0 show ?case by simp
next
  case (Suc n)
  then have j: "j < 32" "32 - j = Suc n" "n = 32 - Suc j" by auto
  have d: "drop_bit 1 (drop_bit j (0x80000000 :: u32)) = drop_bit (Suc j) 0x80000000"
    by (simp add: drop_bit_drop_bit)
  have b: "bit (mask_word k) (31 - j) \<longleftrightarrow> j < k"
    using bit_mask_word [OF Suc.prems(1), of "31 - j"] j(1) Suc.prems(1) by auto
  have ih: "count_ones (32 - Suc j) (mask_word k) (drop_bit (Suc j) 0x80000000) = k - Suc j"
    by (rule Suc.hyps(1)) (use j Suc.prems in auto)
  have "count_ones (Suc n) (mask_word k) (drop_bit j 0x80000000) =
      (if j < k then Suc (count_ones n (mask_word k) (drop_bit (Suc j) 0x80000000)) else 0)"
    using and_top_bit [OF j(1), of "mask_word k"] b d by (simp only: count_ones.simps simp_thms)
  then show ?case using ih j by (simp only: j(2)) auto
qed

lemma prefix_of_mask_word: "k \<le> 32 \<Longrightarrow> prefix_of_mask (mask_word k) = int k"
proof -
  assume k: "k \<le> 32"
  have c: "count_ones 32 (mask_word k) 0x80000000 = k" using count_ones_mask [OF k, of 0] by simp
  have "\<not> list_ex (\<lambda>i. mask_word k AND drop_bit i 0x80000000 \<noteq> 0) [k..<32]"
    using and_top_bit bit_mask_word [OF k] by (auto simp: list_ex_iff)
  with c show ?thesis by (simp add: prefix_of_mask_def Let_def)
qed

lemma and_ff: "(v :: u32) AND 0xff = take_bit 8 v"
proof -
  have "(0xff :: u32) = mask 8" by (simp add: mask_eq_exp_minus_1)
  then show ?thesis by (simp only: take_bit_eq_mask)
qed

lemma quad_word:
  "push_bit 24 (drop_bit 24 v AND 0xff) OR push_bit 16 (drop_bit 16 v AND 0xff)
   OR push_bit 8 (drop_bit 8 v AND 0xff) OR (v AND 0xff) = (v :: u32)"
  unfolding and_ff
proof (rule bit_word_eqI)
  fix n
  assume "n < LENGTH(32)"
  then show "bit (push_bit 24 (take_bit 8 (drop_bit 24 v)) OR push_bit 16 (take_bit 8 (drop_bit 16 v))
      OR push_bit 8 (take_bit 8 (drop_bit 8 v)) OR take_bit 8 v) n = bit v n"
    by (cases "n < 8"; cases "n < 16"; cases "n < 24") (auto simp: bit_simps)
qed

subsection \<open>Printing and scanning\<close>

lemma digit_not_space: "is_digit c \<Longrightarrow> \<not> is_space c" "is_digit c \<Longrightarrow> c \<noteq> CHR ''-''" "is_digit c \<Longrightarrow> c \<noteq> CHR ''+''"
  "is_digit c \<Longrightarrow> c \<noteq> CHR ''.''"
  by (auto simp: is_digit_def is_space_def Let_def)

lemma takeWhile_digits: "list_all is_digit ds \<Longrightarrow> rest = [] \<or> \<not> is_digit (hd rest) \<Longrightarrow>
    takeWhile is_digit (ds @ rest) = ds \<and> dropWhile is_digit (ds @ rest) = rest"
  by (induction ds) (cases rest; auto)+

lemma scan_u_nat_dec:
  assumes "n < 2 ^ 32" and "rest = [] \<or> \<not> is_digit (hd rest)"
  shows "scan_u ovf (nat_dec n @ rest) = Some (of_nat n, rest)"
proof -
  obtain c cs where ne: "nat_dec n = c # cs" using nat_dec_not_Nil by (cases "nat_dec n") auto
  have c: "is_digit c" using nat_dec_digits [of c n] ne by simp
  then have "dropWhile is_space (nat_dec n @ rest) = nat_dec n @ rest" "hd (nat_dec n @ rest) \<noteq> CHR ''-''"
    "hd (nat_dec n @ rest) \<noteq> CHR ''+''" using ne digit_not_space by auto
  then show ?thesis
    using takeWhile_digits [OF list_all_nat_dec assms(2), of n] assms(1)
    by (simp add: scan_u_def Let_def)
qed

lemma scan_quad_be_dotted:
  "scan_quad ovf (be_dotted v) =
     Some (drop_bit 24 v AND 0xff, drop_bit 16 v AND 0xff, drop_bit 8 v AND 0xff, v AND 0xff, [])"
proof -
  have dot: "\<not> is_digit (CHR ''.'')" by (simp add: is_digit_def)
  have small: "unat (w AND 0xff) < 2 ^ 32" for w :: u32 using unsigned_less [of "w AND 0xff"] by simp
  have step: "scan_u ovf (nat_dec (unat (w AND 0xff)) @ CHR ''.'' # r) = Some (w AND 0xff, CHR ''.'' # r)" for w r
    using scan_u_nat_dec [OF small, of "CHR ''.'' # r"] dot by simp
  have last: "scan_u ovf (nat_dec (unat (w AND 0xff))) = Some (w AND 0xff, [])" for w
    using scan_u_nat_dec [OF small, of "[]"] by simp
  show ?thesis by (simp add: scan_quad_def be_dotted_def step last scan_dot_def)
qed

lemma byte_le_255: "\<not> 255 < (w AND 0xff :: u32)"
  using word_and_le1 [of w "0xff"] by (simp add: not_less)

lemma be_dotted_has_dot: "CHR ''.'' \<in> set (be_dotted v)" "be_dotted v \<noteq> []"
  by (simp_all add: be_dotted_def)

text \<open>netmasks round-trip. Every prefix length printed as a dotted mask is read back as itself, whatever the
  width of \<^verbatim>\<open>long\<close> and the platform's \<^verbatim>\<open>sscanf\<close>; out of range there is no mask, and the empty text is no netmask.\<close>

theorem netmask_roundtrip:
  "netmask_to_prefix lb ovf (prefix_to_netmask n) = (if 0 \<le> n \<and> n \<le> 32 then n else -1)"
proof (cases "0 \<le> n \<and> n \<le> 32")
  case True
  let ?v = "mask_word (nat n)"
  have "netmask_to_prefix lb ovf (be_dotted ?v) = prefix_of_mask ?v"
    by (simp only: netmask_to_prefix_def be_dotted_has_dot scan_quad_be_dotted quad_word byte_le_255
        option.case prod.case if_False if_True simp_thms)
  also have "\<dots> = n" using True prefix_of_mask_word [of "nat n"] by (simp add: nat_le_iff)
  finally show ?thesis using True by (simp add: prefix_to_netmask_def)
qed (auto simp: prefix_to_netmask_def netmask_to_prefix_def)

subsection \<open>Routes\<close>

lemma best_route_min:
  "best_route b rs \<in> set (b # rs) \<and> (\<forall>r \<in> set (b # rs). dr_metric (best_route b rs) \<le> dr_metric r)"
proof (induction rs arbitrary: b)
  case (Cons r rs)
  from Cons.IH [of "if dr_metric r < dr_metric b then r else b"] show ?case by (auto split: if_splits)
qed simp

text \<open>the route the kernel prefers. \<open>best_default_route\<close> answers exactly when the table has a default route, with one
  of the routes parsed from it whose metric no other undercuts.\<close>

theorem best_default_route_minimal:
  "case best_default_route lb text of
     None \<Rightarrow> parse_proc_net_route lb text = []
   | Some r \<Rightarrow> r \<in> set (parse_proc_net_route lb text)
       \<and> (\<forall>r' \<in> set (parse_proc_net_route lb text). dr_metric r \<le> dr_metric r')"
proof (cases "parse_proc_net_route lb text")
  case (Cons r rs)
  with best_route_min [of r rs] show ?thesis by (simp add: best_default_route_def)
qed (simp add: best_default_route_def)

definition demo_proc_route :: string where
  "demo_proc_route =
     ''Iface Destination Gateway Flags RefCnt Use Metric Mask MTU Window IRTT'' @ [CHR 0x0A]
     @ ''usb0 00000000 FF755525 0003 0 0 300 00000000 0 0 0'' @ [CHR 0x0A]
     @ ''eth0 00000000 0102A8C0 0003 0 0 10 00000000 0 0 0'' @ [CHR 0x0A]"

theorem best_default_route_minimal_witness:
  "best_default_route 32 demo_proc_route = Some \<lparr>dr_ifname = ''eth0'', dr_gateway = ''192.168.2.1'', dr_metric = 10\<rparr>
   \<and> length (parse_proc_net_route 32 demo_proc_route) = 2"
proof -
  have "best_default_route 32 demo_proc_route = Some \<lparr>dr_ifname = ''eth0'', dr_gateway = ''192.168.2.1'', dr_metric = 10\<rparr>"
    "length (parse_proc_net_route 32 demo_proc_route) = 2" by code_simp+
  with best_default_route_minimal [of 32 demo_proc_route] show ?thesis by simp
qed

subsection \<open>The resolver file is read back as written\<close>

definition clean :: "string \<Rightarrow> bool" where
  "clean s \<longleftrightarrow> s \<noteq> [] \<and> list_all (\<lambda>c. \<not> is_ws c \<and> c \<noteq> CHR 0x0A \<and> c \<noteq> CHR 0x0D \<and> c \<noteq> CHR 0x00) s"

lemma split_nl_line: "CHR 0x0A \<notin> set a \<Longrightarrow> split_nl (a @ CHR 0x0A # b) = a # split_nl b"
  by (induction a) auto

lemma strip_cr_id: "s = [] \<or> last s \<noteq> CHR 0x0D \<Longrightarrow> strip_cr s = s"
  by (cases s rule: rev_cases) (auto simp: strip_cr_def)

lemma ws_fields_two:
  assumes "a \<noteq> []" "b \<noteq> []" "list_all (\<lambda>c. \<not> is_ws c) a" "list_all (\<lambda>c. \<not> is_ws c) b"
  shows "ws_fields (a @ CHR '' '' # b) = [a, b]"
proof -
  have ws: "is_ws (CHR '' '')" by (simp add: is_ws_def)
  have tw: "takeWhile (\<lambda>c. \<not> is_ws c) (x @ r) = x @ takeWhile (\<lambda>c. \<not> is_ws c) r"
    "dropWhile (\<lambda>c. \<not> is_ws c) (x @ r) = dropWhile (\<lambda>c. \<not> is_ws c) r" if "list_all (\<lambda>c. \<not> is_ws c) x" for x r
    using that by (auto simp: list_all_iff)
  have dw: "dropWhile is_ws (x @ r) = x @ r" if "list_all (\<lambda>c. \<not> is_ws c) x" "x \<noteq> []" for x r
    using that by (cases x) auto
  have e: "ws_fields [] = []" by (simp add: ws_fields.simps)
  have b: "takeWhile (\<lambda>c. \<not> is_ws c) b = b" "dropWhile (\<lambda>c. \<not> is_ws c) b = []" "dropWhile is_ws b = b"
    using tw [OF assms(4), of "[]"] dw [OF assms(4,2), of "[]"] by simp_all
  have "ws_fields (dropWhile (\<lambda>c. \<not> is_ws c) b) = []" by (simp only: b(2) e)
  then have "ws_fields (CHR '' '' # b) = [b]"
    using assms(2) ws b(1,3) by (simp add: ws_fields.simps [of "_ # b"])
  then show ?thesis
    using dw [OF assms(3,1)] tw [OF assms(3)] assms(1) ws by (simp add: ws_fields.simps [of "a @ _"])
qed

lemma nameserver_line:
  assumes "clean s"
  shows "nameserver_of (strip_cr (''nameserver '' @ s)) = Some s"
proof -
  have l: "last (''nameserver '' @ s) \<noteq> CHR 0x0D" using assms by (auto simp: clean_def list_all_iff)
  have "ws_fields (''nameserver'' @ CHR '' '' # s) = [''nameserver'', s]"
    by (rule ws_fields_two) (use assms in \<open>auto simp: clean_def list_all_iff is_ws_def\<close>)
  with l show ?thesis by (simp add: strip_cr_id nameserver_of_def Let_def)
qed

lemma parse_nameserver_lines:
  "list_all clean servers \<Longrightarrow> somes (map nameserver_of (split_lines (nameserver_lines servers))) = servers"
proof (induction servers)
  case Nil
  have "ws_fields [] = []" by (simp add: ws_fields.simps)
  then show ?case by (simp add: nameserver_lines_def split_lines_def strip_cr_def nameserver_of_def)
next
  case (Cons s ss)
  then have "clean s" by simp
  then have "CHR 0x0A \<notin> set (''nameserver '' @ s)" by (auto simp: clean_def list_all_iff)
  from split_nl_line [OF this, of "nameserver_lines ss"] nameserver_line [OF \<open>clean s\<close>] Cons show ?case
    by (simp add: nameserver_lines_def split_lines_def)
qed

lemma parse_after_comment:
  assumes "CHR 0x0A \<notin> set h" and "nameserver_of (strip_cr h) = None" and "list_all clean servers"
  shows "parse_resolv_conf (h @ [CHR 0x0A] @ nameserver_lines servers) = servers"
  using split_nl_line [OF assms(1), of "nameserver_lines servers"] parse_nameserver_lines [OF assms(3)] assms(2)
  by (simp add: parse_resolv_conf_def split_lines_def)

lemma cstr_clean: "clean s \<Longrightarrow> cstr s = s"
  by (auto simp: clean_def cstr_def list_all_iff intro: takeWhile_eq_all_conv [THEN iffD2])

text \<open>the resolver file and its baseline are read back as written. For servers that are non-empty and free
  of white space and control characters (every dotted quad is), parsing what \<open>set_dns\<close> wrote to \<^verbatim>\<open>resolv.conf\<close> or
  \<open>set_dns_baseline\<close> wrote to its file gives the same servers in the same order.\<close>

theorem resolv_conf_roundtrip:
  assumes "list_all clean servers"
  shows "parse_resolv_conf (resolv_text servers) = servers \<and> parse_resolv_conf (baseline_text servers) = servers"
proof -
  have m: "map cstr servers = servers" using assms by (induction servers) (auto simp: cstr_clean)
  have "nameserver_of (strip_cr ''# written by machino - the active uplink owns this file'') = None"
    "nameserver_of (strip_cr ''# machino: what /etc/resolv.conf held before the active uplink took it over'') = None"
    by code_simp+
  then show ?thesis
    unfolding resolv_text_def baseline_text_def m
    by (intro conjI parse_after_comment assms) (assumption | simp)+
qed

theorem resolv_conf_roundtrip_witness:
  "parse_resolv_conf (resolv_text [''1.1.1.1'', ''8.8.8.8'']) = [''1.1.1.1'', ''8.8.8.8'']"
proof -
  have "list_all clean [''1.1.1.1'', ''8.8.8.8'']" by code_simp
  from resolv_conf_roundtrip [OF this] show ?thesis by simp
qed

end
