(* ===== verification/Route_Manager.thy ===== *)
theory Route_Manager
  imports Route_Plan Proc_Net
begin

text \<open>
  Reconciliation (\<^verbatim>\<open>core/net/route_manager.hpp\<close> and \<^verbatim>\<open>route_manager.cpp\<close>): making the kernel's default routes and the resolver file look like the
  plan, and nothing more. The backend (\<^verbatim>\<open>ports/iroute_backend.hpp\<close>) is a port. What its queries answer is the environment; the
  calls that change something are written to a log in the order they are made, and the \<open>n\<close>-th of them is answered
  \<open>re_answer n\<close>. What the calls do to the table, by the port's contract, is \<open>table_after\<close>.
\<close>

section \<open>Definitions\<close>

datatype call =
    AddDefault string string int bool
  | DelDefault string string int
  | SetDns "string list"
  | SetBaseline "string list"
  | ClearBaseline

record recon_env =
  re_routes :: "default_route list option"
  re_dns :: "string list option"
  re_baseline :: "string list option"
  re_answer :: "nat \<Rightarrow> result"

record reconcile_report =
  rr_added :: int
  rr_removed :: int
  rr_dns_written :: bool
  rr_dns_restored :: bool
  rr_read_failed :: bool
  rr_error :: string

definition report0 :: reconcile_report where
  "report0 = \<lparr>rr_added = 0, rr_removed = 0, rr_dns_written = False, rr_dns_restored = False,
     rr_read_failed = False, rr_error = []\<rparr>"

definition report_changed :: "reconcile_report \<Rightarrow> bool" where
  "report_changed r \<longleftrightarrow> 0 < rr_added r \<or> 0 < rr_removed r \<or> rr_dns_written r \<or> rr_dns_restored r"

definition same_route :: "default_route \<Rightarrow> route_intent \<Rightarrow> bool" where
  "same_route a b \<longleftrightarrow> dr_ifname a = ri_ifname b \<and> dr_gateway a = ri_gateway b \<and> dr_metric a = ri_metric b"

definition managed :: "route_plan \<Rightarrow> string \<Rightarrow> bool" where
  "managed plan ifname \<longleftrightarrow> ifname \<in> set (rp_managed_ifnames plan)"

text \<open>\<open>if (rep.error.empty()) rep.error = e\<close>.\<close>

definition first_error :: "string \<Rightarrow> reconcile_report \<Rightarrow> reconcile_report" where
  "first_error e rep = (if rr_error rep = [] then rep\<lparr>rr_error := e\<rparr> else rep)"

fun add_missing ::
    "recon_env \<Rightarrow> default_route list \<Rightarrow> route_intent list \<Rightarrow> reconcile_report \<times> call list \<times> string list
     \<Rightarrow> reconcile_report \<times> call list \<times> string list" where
  "add_missing env actual [] st = st"
| "add_missing env actual (want # ws) (rep, log, installed) =
     (if list_ex (\<lambda>have. same_route have want) actual
      then add_missing env actual ws (rep, log, installed @ [ri_ifname want])
      else
      let rc = re_answer env (length log);
          log = log @ [AddDefault (ri_ifname want) (ri_gateway want) (ri_metric want) (ri_onlink want)]
      in if is_ok rc
         then add_missing env actual ws (rep\<lparr>rr_added := rr_added rep + 1\<rparr>, log, installed @ [ri_ifname want])
         else add_missing env actual ws
                (first_error (''the default route through '' @ ri_ifname want @ '' could not be installed'') rep, log, installed))"

definition keep_route :: "route_plan \<Rightarrow> string list \<Rightarrow> default_route \<Rightarrow> bool" where
  "keep_route plan installed r \<longleftrightarrow>
     \<not> managed plan (dr_ifname r)
     \<or> list_ex (\<lambda>want. same_route r want) (rp_routes plan)
     \<or> (plan_find (dr_ifname r) plan \<noteq> None \<and> dr_ifname r \<notin> set installed)"

fun remove_stale ::
    "recon_env \<Rightarrow> route_plan \<Rightarrow> string list \<Rightarrow> default_route list \<Rightarrow> reconcile_report \<times> call list
     \<Rightarrow> reconcile_report \<times> call list" where
  "remove_stale env plan installed [] st = st"
| "remove_stale env plan installed (r # rs) (rep, log) =
     (if keep_route plan installed r then remove_stale env plan installed rs (rep, log)
      else
      let rc = re_answer env (length log);
          log = log @ [DelDefault (dr_ifname r) (dr_gateway r) (dr_metric r)]
      in if is_ok rc then remove_stale env plan installed rs (rep\<lparr>rr_removed := rr_removed rep + 1\<rparr>, log)
         else remove_stale env plan installed rs
                (first_error (''a stale default route through '' @ dr_ifname r @ '' could not be removed'') rep, log))"

definition reconcile_dns :: "recon_env \<Rightarrow> route_plan \<Rightarrow> reconcile_report \<times> call list \<Rightarrow> reconcile_report \<times> call list" where
  "reconcile_dns env plan st =
     (let (rep, log) = st in
      if rp_dns_owner plan \<noteq> [] \<and> rp_dns plan \<noteq> []
      then
        let (rep, log) =
              (if re_baseline env = None
               then (if is_ok (re_answer env (length log)) then rep
                     else first_error (''the previous resolvers could not be recorded - ''
                            @ ''they will not be restored automatically'') rep,
                     log @ [SetBaseline (case re_dns env of Some cur \<Rightarrow> cur | None \<Rightarrow> [])])
               else (rep, log))
        in if re_dns env \<noteq> Some (rp_dns plan)
           then (if is_ok (re_answer env (length log)) then rep\<lparr>rr_dns_written := True\<rparr>
                 else first_error ''the resolver configuration could not be written'' rep,
                 log @ [SetDns (rp_dns plan)])
           else (rep, log)
      else
      (case re_baseline env of
         None \<Rightarrow> (rep, log)
       | Some baseline \<Rightarrow>
           if baseline = []
           then (rep\<lparr>rr_error := ''the previous resolvers are unknown - the file keeps the ''
                       @ ''ones the last uplink supplied until a lease renews''\<rparr>, log @ [ClearBaseline])
           else if is_ok (re_answer env (length log))
                then (rep\<lparr>rr_dns_restored := True\<rparr>, log @ [SetDns baseline, ClearBaseline])
                else (first_error ''the previous resolver configuration could not be restored'' rep, log @ [SetDns baseline])))"

definition reconcile :: "recon_env \<Rightarrow> route_plan \<Rightarrow> reconcile_report \<times> call list" where
  "reconcile env plan =
     (case re_routes env of
        None \<Rightarrow> (report0\<lparr>rr_read_failed := True,
                  rr_error := ''the routing table could not be read - nothing was changed''\<rparr>, [])
      | Some actual \<Rightarrow>
          let (rep, log, installed) = add_missing env actual (rp_routes plan) (report0, [], [])
          in reconcile_dns env plan (remove_stale env plan installed actual (rep, log)))"

text \<open>The contract of the port: a call that succeeds adds or removes one route, identified by interface, gateway and
  metric; one that fails changes nothing.\<close>

fun call_effect :: "call \<Rightarrow> default_route set \<Rightarrow> default_route set" where
  "call_effect (AddDefault i g m on) T = insert \<lparr>dr_ifname = i, dr_gateway = g, dr_metric = m\<rparr> T"
| "call_effect (DelDefault i g m) T = T - {\<lparr>dr_ifname = i, dr_gateway = g, dr_metric = m\<rparr>}"
| "call_effect _ T = T"

fun table_after :: "(nat \<Rightarrow> result) \<Rightarrow> nat \<Rightarrow> call list \<Rightarrow> default_route set \<Rightarrow> default_route set" where
  "table_after ans n [] T = T"
| "table_after ans n (c # cs) T = table_after ans (Suc n) cs (if is_ok (ans n) then call_effect c T else T)"

section \<open>The two passes over the table\<close>

definition dr_of :: "route_intent \<Rightarrow> default_route" where
  "dr_of w = \<lparr>dr_ifname = ri_ifname w, dr_gateway = ri_gateway w, dr_metric = ri_metric w\<rparr>"

definition add_call :: "route_intent \<Rightarrow> call" where
  "add_call w = AddDefault (ri_ifname w) (ri_gateway w) (ri_metric w) (ri_onlink w)"

definition del_call :: "default_route \<Rightarrow> call" where
  "del_call r = DelDefault (dr_ifname r) (dr_gateway r) (dr_metric r)"

fun is_dns_call :: "call \<Rightarrow> bool" where
  "is_dns_call (SetDns s) = True"
| "is_dns_call (SetBaseline s) = True"
| "is_dns_call ClearBaseline = True"
| "is_dns_call _ = False"

lemma same_route_iff: "same_route r w \<longleftrightarrow> r = dr_of w"
  by (auto simp: same_route_def dr_of_def)

lemma dr_of_ifname [simp]: "dr_ifname (dr_of w) = ri_ifname w"
  by (simp add: dr_of_def)

lemma table_after_append:
  "table_after ans n (xs @ ys) T = table_after ans (n + length xs) ys (table_after ans n xs T)"
  by (induction xs arbitrary: n T) auto

lemma call_effects [simp]:
  "call_effect (add_call w) T = insert (dr_of w) T" "call_effect (del_call r) T = T - {r}"
  "is_dns_call c \<Longrightarrow> call_effect c T = T"
proof -
  show "call_effect (add_call w) T = insert (dr_of w) T" by (simp add: add_call_def dr_of_def)
  show "call_effect (del_call r) T = T - {r}" by (cases r) (simp add: del_call_def)
  show "is_dns_call c \<Longrightarrow> call_effect c T = T" by (cases c) simp_all
qed

lemma table_mono: "T \<subseteq> T' \<Longrightarrow> table_after ans n cs T \<subseteq> table_after ans n cs T'"
proof (induction cs arbitrary: n T T')
  case (Cons c cs)
  have "call_effect c T \<subseteq> call_effect c T'" using Cons.prems by (cases c) auto
  with Cons show ?case by simp
qed simp

lemma table_adds: "list_all (\<lambda>c. \<exists>w. c = add_call w) cs \<Longrightarrow> T \<subseteq> table_after ans n cs T"
proof (induction cs arbitrary: n T)
  case (Cons c cs)
  then obtain w where c: "c = add_call w" by auto
  let ?T = "if is_ok (ans n) then insert (dr_of w) T else T"
  from Cons have "?T \<subseteq> table_after ans (Suc n) cs ?T" by (simp del: if_split)
  moreover have "T \<subseteq> ?T" by auto
  ultimately have "T \<subseteq> table_after ans (Suc n) cs ?T" by blast
  then show ?case by (simp only: c table_after.simps call_effects)
qed simp

lemma table_dels:
  "list_all (\<lambda>c. \<exists>r \<in> D. c = del_call r) cs \<Longrightarrow> T - D \<subseteq> table_after ans n cs T \<and> table_after ans n cs T \<subseteq> T"
proof (induction cs arbitrary: n T)
  case (Cons c cs)
  then obtain r where c: "c = del_call r" "r \<in> D" by auto
  let ?T = "if is_ok (ans n) then T - {r} else T"
  from Cons have "?T - D \<subseteq> table_after ans (Suc n) cs ?T" "table_after ans (Suc n) cs ?T \<subseteq> ?T" by (simp_all del: if_split)
  moreover have "T - D \<subseteq> ?T - D" "?T \<subseteq> T" using c(2) by auto
  ultimately have "T - D \<subseteq> table_after ans (Suc n) cs ?T \<and> table_after ans (Suc n) cs ?T \<subseteq> T" by blast
  then show ?case by (simp only: c(1) table_after.simps call_effects)
qed simp

lemma table_dns [simp]: "list_all is_dns_call cs \<Longrightarrow> table_after ans n cs T = T"
  by (induction cs arbitrary: n) auto

text \<open>The first pass: what is called, and that an interface counts as installed only when a planned route through it
  is in the table afterwards.\<close>

definition installs :: "recon_env \<Rightarrow> default_route set \<Rightarrow> nat \<Rightarrow> route_intent list \<Rightarrow> call list \<Rightarrow> string list \<Rightarrow> bool" where
  "installs env T n ws cs inst \<longleftrightarrow>
     list_all (\<lambda>c. \<exists>w \<in> set ws. c = add_call w \<and> dr_of w \<notin> T) cs \<and>
     (\<forall>i \<in> set inst. \<exists>w \<in> set ws. ri_ifname w = i \<and> dr_of w \<in> table_after (re_answer env) n cs T)"

lemma add_missing_spec:
  assumes "add_missing env actual ws (rep, log, inst) = (rep', log', inst')"
  shows "\<exists>cs inst1. log' = log @ cs \<and> inst' = inst @ inst1 \<and> installs env (set actual) (length log) ws cs inst1"
  using assms
proof (induction ws arbitrary: rep log inst)
  case Nil
  then show ?case by (simp add: installs_def)
next
  case (Cons w ws)
  let ?T = "set actual" and ?ans = "re_answer env"
  have pres: "list_ex (\<lambda>r. same_route r w) actual \<longleftrightarrow> dr_of w \<in> ?T" by (auto simp: list_ex_iff same_route_iff)
  show ?case
  proof (cases "dr_of w \<in> ?T")
    case True
    with Cons.prems pres have "add_missing env actual ws (rep, log, inst @ [ri_ifname w]) = (rep', log', inst')" by simp
    from Cons.IH [OF this] obtain cs inst1 where r: "log' = log @ cs" "inst' = (inst @ [ri_ifname w]) @ inst1"
      "installs env ?T (length log) ws cs inst1" by blast
    have "?T \<subseteq> table_after ?ans (length log) cs ?T"
      by (rule table_adds) (use r(3) in \<open>auto simp: installs_def list_all_iff\<close>)
    with r True have "installs env ?T (length log) (w # ws) cs (ri_ifname w # inst1)"
      by (auto simp: installs_def list_all_iff)
    with r show ?thesis by auto
  next
    case False
    let ?log = "log @ [add_call w]"
    obtain rep1 where st: "add_missing env actual ws
        (rep1, ?log, inst @ (if is_ok (?ans (length log)) then [ri_ifname w] else [])) = (rep', log', inst')"
      using Cons.prems pres False by (auto simp: Let_def add_call_def split: if_splits)
    from Cons.IH [OF this] obtain cs inst1 where r: "log' = ?log @ cs"
      "inst' = (inst @ (if is_ok (?ans (length log)) then [ri_ifname w] else [])) @ inst1"
      "installs env ?T (length ?log) ws cs inst1" by blast
    let ?T1 = "if is_ok (?ans (length log)) then insert (dr_of w) ?T else ?T"
    have step: "table_after ?ans (length log) (add_call w # cs) ?T = table_after ?ans (length ?log) cs ?T1" by simp
    have m: "?T1 \<subseteq> table_after ?ans (length ?log) cs ?T1"
      by (rule table_adds) (use r(3) in \<open>auto simp: installs_def list_all_iff\<close>)
    have m2: "table_after ?ans (length ?log) cs ?T \<subseteq> table_after ?ans (length ?log) cs ?T1" by (rule table_mono) auto
    have i1: "\<forall>i \<in> set inst1. \<exists>w \<in> set ws. ri_ifname w = i \<and> dr_of w \<in> table_after ?ans (length ?log) cs ?T1"
      using r(3) m2 unfolding installs_def by blast
    have "installs env ?T (length log) (w # ws) (add_call w # cs)
        ((if is_ok (?ans (length log)) then [ri_ifname w] else []) @ inst1)"
      unfolding installs_def step using i1 m False r(3) by (auto simp: installs_def list_all_iff simp del: if_split split: if_split_asm)
    with r show ?thesis by (intro exI [of _ "add_call w # cs"]) auto
  qed
qed

lemma remove_stale_spec:
  assumes "remove_stale env plan inst rs (rep, log) = (rep', log')"
  shows "\<exists>cs. log' = log @ cs \<and> list_all (\<lambda>c. \<exists>r \<in> {r \<in> set rs. \<not> keep_route plan inst r}. c = del_call r) cs
    \<and> ((\<forall>n. is_ok (re_answer env n)) \<longrightarrow> cs = map del_call (filter (\<lambda>r. \<not> keep_route plan inst r) rs))"
  using assms
proof (induction rs arbitrary: rep log)
  case (Cons r rs)
  show ?case
  proof (cases "keep_route plan inst r")
    case True
    with Cons.prems have "remove_stale env plan inst rs (rep, log) = (rep', log')" by simp
    from Cons.IH [OF this] True show ?thesis by (fastforce simp: list_all_iff)
  next
    case False
    obtain rep1 where "remove_stale env plan inst rs (rep1, log @ [del_call r]) = (rep', log')"
      using Cons.prems False by (auto simp: Let_def del_call_def split: if_splits)
    from Cons.IH [OF this] obtain cs where "log' = (log @ [del_call r]) @ cs"
      "list_all (\<lambda>c. \<exists>r \<in> {r \<in> set rs. \<not> keep_route plan inst r}. c = del_call r) cs"
      "(\<forall>n. is_ok (re_answer env n)) \<longrightarrow> cs = map del_call (filter (\<lambda>r. \<not> keep_route plan inst r) rs)" by blast
    with False show ?thesis by (intro exI [of _ "del_call r # cs"]) (auto simp: list_all_iff)
  qed
qed simp

lemma reconcile_dns_spec:
  assumes "reconcile_dns env plan (rep, log) = (rep', log')"
  shows "\<exists>cs. log' = log @ cs \<and> list_all is_dns_call cs"
  using assms by (auto simp: reconcile_dns_def Let_def split: if_splits option.splits prod.splits)

text \<open>The log of a whole reconciliation.\<close>

lemma reconcile_log:
  assumes "re_routes env = Some actual" and "reconcile env plan = (rep, log)"
  obtains adds dels dns inst where "log = adds @ dels @ dns" "installs env (set actual) 0 (rp_routes plan) adds inst"
    "list_all (\<lambda>c. \<exists>r \<in> {r \<in> set actual. \<not> keep_route plan inst r}. c = del_call r) dels"
    "(\<forall>n. is_ok (re_answer env n)) \<longrightarrow> dels = map del_call (filter (\<lambda>r. \<not> keep_route plan inst r) actual)"
    "list_all is_dns_call dns"
proof -
  obtain r1 l1 inst where a: "add_missing env actual (rp_routes plan) (report0, [], []) = (r1, l1, inst)"
    by (metis surj_pair)
  obtain r2 l2 where b: "remove_stale env plan inst actual (r1, l1) = (r2, l2)" by (metis surj_pair)
  have c: "reconcile_dns env plan (r2, l2) = (rep, log)" using assms a b by (simp add: reconcile_def)
  from add_missing_spec [OF a] have i: "installs env (set actual) 0 (rp_routes plan) l1 inst" by auto
  from remove_stale_spec [OF b] obtain dels where d: "l2 = l1 @ dels"
    "list_all (\<lambda>c. \<exists>r \<in> {r \<in> set actual. \<not> keep_route plan inst r}. c = del_call r) dels"
    "(\<forall>n. is_ok (re_answer env n)) \<longrightarrow> dels = map del_call (filter (\<lambda>r. \<not> keep_route plan inst r) actual)" by blast
  from reconcile_dns_spec [OF c] obtain dns where "log = l2 @ dns" "list_all is_dns_call dns" by blast
  with i d show ?thesis by (intro that [of l1 dels dns inst]) simp_all
qed

section \<open>Properties\<close>

text \<open>reconciliation is restrained. If the table cannot be read, nothing is called. Otherwise the calls are, in this order, additions of
  planned routes that are missing, removals of routes that are in the table, belong to a managed interface and are not planned, and
  resolver calls: a route through an interface no uplink owns is never touched, and nothing is removed before everything was added.\<close>

theorem reconcile_restrained:
  assumes "reconcile env plan = (rep, log)"
  shows "case re_routes env of
      None \<Rightarrow> log = [] \<and> rr_read_failed rep
    | Some actual \<Rightarrow> \<exists>adds dels dns. log = adds @ dels @ dns
        \<and> list_all (\<lambda>c. \<exists>w \<in> set (rp_routes plan). c = add_call w \<and> dr_of w \<notin> set actual) adds
        \<and> list_all (\<lambda>c. \<exists>r \<in> set actual. c = del_call r \<and> managed plan (dr_ifname r) \<and> r \<notin> dr_of ` set (rp_routes plan)) dels
        \<and> list_all is_dns_call dns"
proof (cases "re_routes env")
  case None
  with assms show ?thesis by (auto simp: reconcile_def)
next
  case (Some actual)
  from reconcile_log [OF Some assms] obtain adds dels dns inst where l: "log = adds @ dels @ dns"
    "installs env (set actual) 0 (rp_routes plan) adds inst"
    "list_all (\<lambda>c. \<exists>r \<in> {r \<in> set actual. \<not> keep_route plan inst r}. c = del_call r) dels" "list_all is_dns_call dns" .
  have "list_all (\<lambda>c. \<exists>r \<in> set actual. c = del_call r \<and> managed plan (dr_ifname r) \<and> r \<notin> dr_of ` set (rp_routes plan)) dels"
    using l(3) by (fastforce simp: list_all_iff keep_route_def list_ex_iff same_route_iff)
  with l Some show ?thesis by (auto simp: installs_def)
qed

definition env_of :: "default_route list \<Rightarrow> (nat \<Rightarrow> result) \<Rightarrow> recon_env" where
  "env_of actual ans = \<lparr>re_routes = Some actual, re_dns = None, re_baseline = None, re_answer = ans\<rparr>"

definition demo_plan :: route_plan where
  "demo_plan = \<lparr>rp_routes = [\<lparr>ri_uplink_id = ''eth0'', ri_ifname = ''eth0'', ri_gateway = ''10.0.0.1'', ri_metric = 10,
     ri_active = True, ri_onlink = False\<rparr>], rp_managed_ifnames = [''eth0'', ''usb0''], rp_dns = [], rp_dns_owner = []\<rparr>"

definition boot_route :: "string \<Rightarrow> default_route" where
  "boot_route i = \<lparr>dr_ifname = i, dr_gateway = ''10.0.0.1'', dr_metric = 0\<rparr>"

theorem reconcile_restrained_witness:
  "snd (reconcile (env_of [boot_route ''eth0'', boot_route ''tun0''] (\<lambda>_. result_ok)) demo_plan) =
     [AddDefault ''eth0'' ''10.0.0.1'' 10 False, DelDefault ''eth0'' ''10.0.0.1'' 0]"
proof -
  obtain rep log where e: "reconcile (env_of [boot_route ''eth0'', boot_route ''tun0''] (\<lambda>_. result_ok)) demo_plan = (rep, log)"
    by (metis surj_pair)
  have "snd (reconcile (env_of [boot_route ''eth0'', boot_route ''tun0''] (\<lambda>_. result_ok)) demo_plan) =
     [AddDefault ''eth0'' ''10.0.0.1'' 10 False, DelDefault ''eth0'' ''10.0.0.1'' 0]" by code_simp
  with reconcile_restrained [OF e] show ?thesis by simp
qed

text \<open>C7: the way out is never closed. At every moment of a reconciliation, whatever calls fail: a route through an unmanaged
  interface is still in the table, and an interface for which the plan has a route and which had a default route before still has
  one.\<close>

theorem reconcile_keeps_way_out:
  assumes "re_routes env = Some actual" and "reconcile env plan = (rep, log)"
  shows "{r \<in> set actual. \<not> managed plan (dr_ifname r)} \<subseteq> table_after (re_answer env) 0 (take k log) (set actual)
    \<and> (\<forall>i. plan_find i plan \<noteq> None \<and> (\<exists>r \<in> set actual. dr_ifname r = i) \<longrightarrow>
         (\<exists>r \<in> table_after (re_answer env) 0 (take k log) (set actual). dr_ifname r = i))"
proof -
  from reconcile_log [OF assms] obtain adds dels dns inst where l: "log = adds @ dels @ dns"
    "installs env (set actual) 0 (rp_routes plan) adds inst"
    "list_all (\<lambda>c. \<exists>r \<in> {r \<in> set actual. \<not> keep_route plan inst r}. c = del_call r) dels" "list_all is_dns_call dns" .
  let ?ans = "re_answer env" and ?D = "{r \<in> set actual. \<not> keep_route plan inst r}"
  let ?A = "take k adds" and ?B = "take (k - length adds) dels" and ?C = "take (k - length adds - length dels) dns"
  let ?TA = "table_after ?ans 0 ?A (set actual)"
  let ?TB = "table_after ?ans (0 + length ?A) ?B ?TA"
  have tk: "take k log = ?A @ ?B @ ?C" by (simp add: l(1))
  have "list_all is_dns_call ?C" using l(4) by (auto simp: list_all_iff dest: in_set_takeD)
  then have fin: "table_after ?ans 0 (take k log) (set actual) = ?TB" unfolding tk table_after_append by simp
  have all_add: "list_all (\<lambda>c. \<exists>w. c = add_call w) adds" using l(2) by (auto simp: installs_def list_all_iff)
  then have mA: "set actual \<subseteq> ?TA" by (intro table_adds) (auto simp: list_all_iff dest: in_set_takeD)
  have "list_all (\<lambda>c. \<exists>r \<in> ?D. c = del_call r) ?B" using l(3) by (auto simp: list_all_iff dest: in_set_takeD)
  from table_dels [OF this] have mB: "?TA - ?D \<subseteq> ?TB" by blast
  have un: "{r \<in> set actual. \<not> managed plan (dr_ifname r)} \<subseteq> ?TB"
    using mA mB by (auto simp: keep_route_def)
  have "\<exists>r \<in> ?TB. dr_ifname r = i" if i: "plan_find i plan \<noteq> None" and r: "\<exists>r \<in> set actual. dr_ifname r = i" for i
  proof (cases "i \<in> set inst \<and> length adds \<le> k")
    case True
    then have A: "?A = adds" by simp
    from True l(2) obtain w where w: "w \<in> set (rp_routes plan)" "ri_ifname w = i" "dr_of w \<in> ?TA"
      unfolding installs_def A by blast
    then have "keep_route plan inst (dr_of w)" by (auto simp: keep_route_def list_ex_iff same_route_iff)
    with w mB show ?thesis by (intro bexI [of _ "dr_of w"]) auto
  next
    case False
    from r obtain q where q: "q \<in> set actual" "dr_ifname q = i" by blast
    show ?thesis
    proof (cases "i \<in> set inst")
      case True
      with False have "?TB = ?TA" by simp
      with q mA show ?thesis by (intro bexI [of _ q]) auto
    next
      case notin: False
      with q i have "keep_route plan inst q" by (auto simp: keep_route_def)
      with q mA mB show ?thesis by (intro bexI [of _ q]) auto
    qed
  qed
  with un fin show ?thesis by simp
qed

theorem reconcile_keeps_way_out_witness:
  "\<exists>r \<in> table_after (\<lambda>_. result_busy) 0 (take 1 (snd (reconcile (env_of [boot_route ''eth0''] (\<lambda>_. result_busy)) demo_plan)))
     {boot_route ''eth0''}. dr_ifname r = ''eth0''"
proof -
  let ?env = "env_of [boot_route ''eth0''] (\<lambda>_. result_busy)"
  obtain rep log where e: "reconcile ?env demo_plan = (rep, log)" by (metis surj_pair)
  have r: "re_routes ?env = Some [boot_route ''eth0'']" "re_answer ?env = (\<lambda>_. result_busy)" by (simp_all add: env_of_def)
  have p: "plan_find ''eth0'' demo_plan \<noteq> None" "dr_ifname (boot_route ''eth0'') = ''eth0''" by code_simp+
  from reconcile_keeps_way_out [OF r(1) e, of 1] p e show ?thesis by (simp add: r(2))
qed

lemma add_missing_all_ok:
  "(\<forall>n. is_ok (re_answer env n)) \<Longrightarrow> add_missing env actual ws (rep, log, inst) = (rep', log', inst') \<Longrightarrow>
   inst' = inst @ map ri_ifname ws \<and> log' = log @ map add_call (filter (\<lambda>w. dr_of w \<notin> set actual) ws)"
proof (induction ws arbitrary: rep log inst)
  case (Cons w ws)
  have pres: "list_ex (\<lambda>r. same_route r w) actual \<longleftrightarrow> dr_of w \<in> set actual" by (auto simp: list_ex_iff same_route_iff)
  obtain rep1 where "add_missing env actual ws (rep1,
      log @ (if dr_of w \<in> set actual then [] else [add_call w]), inst @ [ri_ifname w]) = (rep', log', inst')"
    using Cons.prems pres by (auto simp: Let_def add_call_def split: if_splits)
  from Cons.IH [OF Cons.prems(1) this] show ?case by auto
qed simp

lemma table_after_del_all:
  "(\<forall>n. is_ok (ans n)) \<Longrightarrow> table_after ans n (map del_call rs) T = T - set rs"
  by (induction rs arbitrary: n T) auto

lemma table_after_add_all:
  "(\<forall>n. is_ok (ans n)) \<Longrightarrow> table_after ans n (map add_call ws) T = T \<union> dr_of ` set ws"
  by (induction ws arbitrary: n T) auto

text \<open>The calls of a pass in which every call succeeds, and the table they leave.\<close>

lemma keep_route_iff:
  "keep_route plan (map ri_ifname (rp_routes plan)) r \<longleftrightarrow> \<not> managed plan (dr_ifname r) \<or> r \<in> dr_of ` set (rp_routes plan)"
  unfolding keep_route_def
  by (auto simp: list_ex_iff same_route_iff plan_find_def find_None_conv) (metis find_None_conv image_eqI)

lemma reconcile_table:
  assumes "re_routes env = Some actual" and "reconcile env plan = (rep, log)" and "\<And>n. is_ok (re_answer env n)"
  shows "table_after (re_answer env) 0 log (set actual) =
      dr_of ` set (rp_routes plan) \<union> {r \<in> set actual. \<not> managed plan (dr_ifname r)}"
proof -
  obtain r1 l1 inst where a: "add_missing env actual (rp_routes plan) (report0, [], []) = (r1, l1, inst)"
    by (metis surj_pair)
  obtain r2 l2 where b: "remove_stale env plan inst actual (r1, l1) = (r2, l2)" by (metis surj_pair)
  have c: "reconcile_dns env plan (r2, l2) = (rep, log)" using assms(1,2) a b by (simp add: reconcile_def)
  from add_missing_all_ok [OF _ a] assms(3) have A: "inst = map ri_ifname (rp_routes plan)"
    "l1 = map add_call (filter (\<lambda>w. dr_of w \<notin> set actual) (rp_routes plan))" by auto
  from remove_stale_spec [OF b] assms(3) have B: "l2 = l1 @ map del_call (filter (\<lambda>r. \<not> keep_route plan inst r) actual)" by auto
  from reconcile_dns_spec [OF c] obtain dns where C: "log = l2 @ dns" "list_all is_dns_call dns" by blast
  show ?thesis
    using assms(3) unfolding C(1) B table_after_append
    by (auto simp: C(2) A table_after_add_all table_after_del_all keep_route_iff)
qed

lemma add_missing_quiet:
  "dr_of ` set ws \<subseteq> set actual \<Longrightarrow> add_missing env actual ws (rep, log, ins) = (rep, log, ins @ map ri_ifname ws)"
  by (induction ws arbitrary: ins) (auto simp: list_ex_iff same_route_iff)

lemma remove_stale_quiet:
  "\<forall>r \<in> set rs. keep_route plan ins r \<Longrightarrow> remove_stale env plan ins rs (rep, log) = (rep, log)"
  by (induction rs) auto

text \<open>C17: reconciliation reaches the plan and then rests. If every call succeeds and every planned route is on a managed interface (which \<open>plan_routes\<close>
  guarantees), the table afterwards is exactly the planned routes and the routes of unmanaged interfaces; and once the table and the
  resolver are as planned, reconciling again makes no call at all and reports no change.\<close>

theorem reconcile_converges:
  assumes "re_routes env = Some actual" and "reconcile env plan = (rep, log)" and "\<And>n. is_ok (re_answer env n)"
    and "ri_ifname ` set (rp_routes plan) \<subseteq> set (rp_managed_ifnames plan)"
  shows "table_after (re_answer env) 0 log (set actual) =
      dr_of ` set (rp_routes plan) \<union> {r \<in> set actual. \<not> managed plan (dr_ifname r)}
    \<and> (\<forall>env' actual'. re_routes env' = Some actual' \<and> set actual' = table_after (re_answer env) 0 log (set actual)
        \<and> (if rp_dns_owner plan \<noteq> [] \<and> rp_dns plan \<noteq> [] then re_baseline env' \<noteq> None \<and> re_dns env' = Some (rp_dns plan)
           else re_baseline env' = None)
        \<longrightarrow> reconcile env' plan = (report0, []))"
proof -
  note T = reconcile_table [OF assms(1-3)]
  have "reconcile env' plan = (report0, [])"
    if e: "re_routes env' = Some actual'" and t: "set actual' = table_after (re_answer env) 0 log (set actual)"
      and d: "if rp_dns_owner plan \<noteq> [] \<and> rp_dns plan \<noteq> [] then re_baseline env' \<noteq> None \<and> re_dns env' = Some (rp_dns plan)
         else re_baseline env' = None" for env' actual'
  proof -
    have "\<forall>r \<in> set actual'. keep_route plan (map ri_ifname (rp_routes plan)) r"
      and "dr_of ` set (rp_routes plan) \<subseteq> set actual'"
      unfolding t T by (auto simp: keep_route_iff)
    then have "reconcile env' plan = reconcile_dns env' plan (report0, [])"
      by (simp add: reconcile_def e add_missing_quiet remove_stale_quiet)
    also have "\<dots> = (report0, [])" using d by (auto simp: reconcile_dns_def split: if_splits)
    finally show ?thesis .
  qed
  with T show ?thesis by blast
qed

theorem reconcile_converges_witness:
  "table_after (\<lambda>_. result_ok) 0 (snd (reconcile (env_of [boot_route ''eth0''] (\<lambda>_. result_ok)) demo_plan)) {boot_route ''eth0''}
     = dr_of ` set (rp_routes demo_plan)"
proof -
  let ?env = "env_of [boot_route ''eth0''] (\<lambda>_. result_ok)"
  obtain rep log where e: "reconcile ?env demo_plan = (rep, log)" by (metis surj_pair)
  have r: "re_routes ?env = Some [boot_route ''eth0'']" "re_answer ?env = (\<lambda>_. result_ok)" "\<And>n. is_ok (re_answer ?env n)"
    by (simp_all add: env_of_def)
  have m: "ri_ifname ` set (rp_routes demo_plan) \<subseteq> set (rp_managed_ifnames demo_plan)" by (simp add: demo_plan_def)
  have "managed demo_plan (dr_ifname (boot_route ''eth0''))" by code_simp
  then have "{r \<in> set [boot_route ''eth0'']. \<not> managed demo_plan (dr_ifname r)} = {}" by auto
  with reconcile_converges [OF r(1) e r(3) m, THEN conjunct1] e show ?thesis by (auto simp: r(2))
qed

text \<open>a failed recording of the previous resolvers is not repaired but made permanent. When the baseline could not be recorded the servers
  are written all the same; the next pass finds no baseline, records the current servers as what was there before, and these are the
  plan's own. When the plan later gives up the file, "restoring" writes the same servers again and reports them as restored. The
  comment says that the snapshot is taken only before the first overwrite because later it would record machino's own servers.\<close>

theorem baseline_records_own_servers:
  assumes "rp_dns_owner plan \<noteq> []" and "rp_dns plan \<noteq> []" and "rp_dns_owner plan' = []"
    and "\<not> is_ok (re_answer e1 0)" and "is_ok (re_answer e1 1)" and "is_ok (re_answer e2 0)" and "is_ok (re_answer e3 0)"
    and "re_baseline e1 = None" and "re_dns e1 = Some old" and "old \<noteq> rp_dns plan"
    and "re_baseline e2 = None" and "re_dns e2 = Some (rp_dns plan)" and "re_baseline e3 = Some (rp_dns plan)"
  shows "snd (reconcile_dns e1 plan (report0, [])) = [SetBaseline old, SetDns (rp_dns plan)]
    \<and> snd (reconcile_dns e2 plan (report0, [])) = [SetBaseline (rp_dns plan)]
    \<and> rr_error (fst (reconcile_dns e2 plan (report0, []))) = []
    \<and> reconcile_dns e3 plan' (report0, []) = (report0\<lparr>rr_dns_restored := True\<rparr>, [SetDns (rp_dns plan), ClearBaseline])"
  using assms by (simp add: reconcile_dns_def Let_def report0_def)

definition dns_env :: "string list option \<Rightarrow> string list option \<Rightarrow> (nat \<Rightarrow> result) \<Rightarrow> recon_env" where
  "dns_env cur base ans = \<lparr>re_routes = Some [], re_dns = cur, re_baseline = base, re_answer = ans\<rparr>"

theorem baseline_records_own_servers_witness:
  "snd (reconcile_dns (dns_env (Some [''9.9.9.9'']) None (\<lambda>_. result_ok))
     (demo_plan\<lparr>rp_dns := [''9.9.9.9''], rp_dns_owner := ''lte1''\<rparr>) (report0, [])) = [SetBaseline [''9.9.9.9'']]"
  using baseline_records_own_servers [of "demo_plan\<lparr>rp_dns := [''9.9.9.9''], rp_dns_owner := ''lte1''\<rparr>" demo_plan
      "dns_env (Some [''1.1.1.1'']) None (\<lambda>n. if n = 0 then result_busy else result_ok)"
      "dns_env (Some [''9.9.9.9'']) None (\<lambda>_. result_ok)"
      "dns_env (Some [''9.9.9.9'']) (Some [''9.9.9.9'']) (\<lambda>_. result_ok)" "[''1.1.1.1'']"]
  by (simp add: dns_env_def demo_plan_def)

text \<open>the report keeps the first failure, with one exception. The header says that \<open>error\<close> is the first failure; when the resolver
  is given back without a known baseline, its message replaces whatever failed before, so a route that could not be installed
  goes unreported.\<close>

theorem unknown_baseline_hides_first_error:
  assumes "rp_dns_owner plan = []" and "re_baseline env = Some []"
  shows "rr_error (fst (reconcile_dns env plan (rep, log))) =
      ''the previous resolvers are unknown - the file keeps the ones the last uplink supplied until a lease renews''"
  using assms by (simp add: reconcile_dns_def Let_def)

theorem unknown_baseline_hides_first_error_witness:
  "rr_error (fst (reconcile_dns (dns_env None (Some []) (\<lambda>_. result_ok)) demo_plan
     (report0\<lparr>rr_error := ''the default route through eth0 could not be installed''\<rparr>, []))) =
      ''the previous resolvers are unknown - the file keeps the ones the last uplink supplied until a lease renews''"
  by (rule unknown_baseline_hides_first_error) (simp_all add: dns_env_def demo_plan_def)

end
