(* ===== verification/State_Store.thy ===== *)
theory State_Store
  imports Core_Result
begin

text \<open>
  The durable key/value store (\<^verbatim>\<open>core/state_store.hpp\<close> and \<^verbatim>\<open>state_store.cpp\<close>, the POSIX branch). A client sees an interface of
  three operations, stated below as a locale; the file-backed store is modelled on a map from paths to
  contents, with what every system call of an operation answers given by a tape the store carries, and shown to provide that
  interface. The page cache is not modelled: a file's content is what a reader sees.
\<close>

section \<open>The interface\<close>

text \<open>The operations of \<open>IStateStore\<close> on a store \<open>'s\<close>.\<close>

record 's store_ops =
  so_load :: "string \<Rightarrow> 's \<Rightarrow> string option"
  so_save :: "string \<Rightarrow> string \<Rightarrow> 's \<Rightarrow> bool \<times> 's"
  so_clear :: "string \<Rightarrow> 's \<Rightarrow> 's"

text \<open>
  What the port promises: a write is all or nothing, a reported success is a write, and an operation on one key does not
  touch an independent key. A reported failure promises nothing about which of the two values is there, and
  a removal may fail silently.
\<close>

locale state_store =
  fixes ops :: "'s store_ops" and indep :: "string \<Rightarrow> string \<Rightarrow> bool"
  assumes save_atomic: "so_save ops k v s = (ok, s') \<Longrightarrow> so_load ops k s' = Some v \<or> (\<not> ok \<and> so_load ops k s' = so_load ops k s)"
    and save_other: "so_save ops k v s = (ok, s') \<Longrightarrow> indep k k' \<Longrightarrow> so_load ops k' s' = so_load ops k' s"
    and clear_cases: "so_load ops k (so_clear ops k s) = None \<or> so_load ops k (so_clear ops k s) = so_load ops k s"
    and clear_other: "indep k k' \<Longrightarrow> so_load ops k' (so_clear ops k s) = so_load ops k' s"
begin

lemma save_ok: "so_save ops k v s = (True, s') \<Longrightarrow> so_load ops k s' = Some v"
  using save_atomic by blast

lemma save_cases: "so_load ops k (snd (so_save ops k v s)) \<in> {Some v, so_load ops k s}"
  using save_atomic [of k v s] by (cases "so_save ops k v s") auto

text \<open>What was once present stays present until its own key is cleared.\<close>

lemma save_present: "so_load ops k s \<noteq> None \<Longrightarrow> so_load ops k (snd (so_save ops k v s)) \<noteq> None"
  using save_cases [of k v s] by auto

end

section \<open>The file-backed store\<close>

datatype errno = EACCES | EPERM | EINVAL | EINTR | EOTHER

datatype write_answer = Wrote nat | Interrupted | WriteError

record io_env =
  io_open :: bool
  io_writes :: "write_answer list"
  io_fsync :: bool
  io_close :: bool
  io_rename :: bool
  io_dir_open :: "errno option"
  io_dir_fsync :: "errno option list"
  io_remove :: bool

record file_store =
  fs_dir :: string
  fs_files :: "string \<Rightarrow> string option"
  fs_tape :: "nat \<Rightarrow> io_env"
  fs_calls :: nat

definition flatten_key :: "string \<Rightarrow> string" where
  "flatten_key key = map (\<lambda>c. if c = CHR ''/'' \<or> c = CHR 0x5C \<or> c = CHR ''.'' then CHR ''_'' else c) key"

definition path_for :: "string \<Rightarrow> file_store \<Rightarrow> string" where
  "path_for key st = fs_dir st @ ''/'' @ flatten_key key @ ''.state''"

definition fs_load :: "string \<Rightarrow> file_store \<Rightarrow> string option" where
  "fs_load key st = fs_files st (path_for key st)"

text \<open>The write loop: \<open>acc\<close> is what is in the file, the first argument what is left to write. An answer list
  that ends early stands for the error that ended the loop.\<close>

fun write_loop :: "string \<Rightarrow> write_answer list \<Rightarrow> string \<Rightarrow> bool \<times> string" where
  "write_loop [] as acc = (True, acc)"
| "write_loop (c # cs) [] acc = (False, acc)"
| "write_loop (c # cs) (Wrote n # as) acc = write_loop (drop n (c # cs)) as (acc @ take n (c # cs))"
| "write_loop (c # cs) (Interrupted # as) acc = write_loop (c # cs) as acc"
| "write_loop (c # cs) (WriteError # as) acc = (False, acc)"

definition write_durably :: "io_env \<Rightarrow> string \<Rightarrow> string \<Rightarrow> (string \<Rightarrow> string option) \<Rightarrow> bool \<times> (string \<Rightarrow> string option)" where
  "write_durably e path val files =
     (if \<not> io_open e then (False, files)
      else let (ok, content) = write_loop val (io_writes e) []; files = files(path \<mapsto> content)
           in if \<not> ok then (False, files)
              else if \<not> io_fsync e then (False, files)
              else (io_close e, files))"

fun dir_fsync_loop :: "errno option list \<Rightarrow> bool" where
  "dir_fsync_loop [] = False"
| "dir_fsync_loop (None # as) = True"
| "dir_fsync_loop (Some e # as) = (if e = EINTR then dir_fsync_loop as else e = EINVAL)"

definition fsync_directory :: "io_env \<Rightarrow> bool" where
  "fsync_directory e =
     (case io_dir_open e of
        Some err \<Rightarrow> err = EACCES \<or> err = EPERM \<or> err = EINVAL
      | None \<Rightarrow> dir_fsync_loop (io_dir_fsync e))"

definition fs_save :: "string \<Rightarrow> string \<Rightarrow> file_store \<Rightarrow> bool \<times> file_store" where
  "fs_save key val st =
     (let e = fs_tape st (fs_calls st);
          st = st\<lparr>fs_calls := fs_calls st + 1\<rparr>;
          final_path = path_for key st;
          tmp_path = final_path @ ''.tmp'';
          (ok, files) = write_durably e tmp_path val (fs_files st)
      in if \<not> ok then (False, st\<lparr>fs_files := files\<rparr>)
         else if \<not> io_rename e then (False, st\<lparr>fs_files := files(tmp_path := None)\<rparr>)
         else (fsync_directory e, st\<lparr>fs_files := files(final_path := files tmp_path, tmp_path := None)\<rparr>))"

definition fs_clear :: "string \<Rightarrow> file_store \<Rightarrow> file_store" where
  "fs_clear key st =
     (let e = fs_tape st (fs_calls st);
          st = st\<lparr>fs_calls := fs_calls st + 1\<rparr>
      in if io_remove e then st\<lparr>fs_files := (fs_files st)(path_for key st := None)\<rparr> else st)"

definition file_ops :: "file_store store_ops" where
  "file_ops = \<lparr>so_load = fs_load, so_save = fs_save, so_clear = fs_clear\<rparr>"

definition distinct_keys :: "string \<Rightarrow> string \<Rightarrow> bool" where
  "distinct_keys k k' \<longleftrightarrow> flatten_key k \<noteq> flatten_key k'"

section \<open>It provides the interface\<close>

lemma write_loop_complete: "write_loop v as acc = (True, out) \<Longrightarrow> out = acc @ v"
  by (induction v as acc rule: write_loop.induct) (auto simp del: drop_Cons' take_Cons' simp: append_take_drop_id)

lemma path_inj: "path_for k st = path_for k' st \<longleftrightarrow> flatten_key k = flatten_key k'"
  by (simp add: path_for_def)

lemma last_path: "last (path_for k st) = CHR ''e''" "last (path_for k st @ ''.tmp'') = CHR ''p''"
  by (simp_all add: path_for_def)

lemma path_not_tmp [simp]: "path_for k st \<noteq> path_for k' st @ ''.tmp''"
proof
  assume "path_for k st = path_for k' st @ ''.tmp''"
  then have "last (path_for k st) = last (path_for k' st @ ''.tmp'')" by (rule arg_cong)
  then show False unfolding last_path by simp
qed

lemma write_durably_files:
  "write_durably e p v files = (ok, files') \<Longrightarrow> (ok \<longrightarrow> files' p = Some v) \<and> (\<forall>q. q \<noteq> p \<longrightarrow> files' q = files q)"
  by (auto simp: write_durably_def Let_def split: if_splits prod.splits dest: write_loop_complete)

lemma path_for_calls [simp]: "path_for k (st\<lparr>fs_calls := n\<rparr>) = path_for k st" "path_for k (st\<lparr>fs_files := f\<rparr>) = path_for k st"
  by (simp_all add: path_for_def)

lemma fs_save_spec:
  assumes "fs_save k v st = (ok, st')"
  shows "(fs_load k st' = Some v \<or> (\<not> ok \<and> fs_load k st' = fs_load k st))
    \<and> (flatten_key k \<noteq> flatten_key k' \<longrightarrow> fs_load k' st' = fs_load k' st)"
proof -
  let ?e = "fs_tape st (fs_calls st)" and ?tmp = "path_for k st @ ''.tmp''"
  obtain wok files where w: "write_durably ?e ?tmp v (fs_files st) = (wok, files)"
    by (cases "write_durably ?e ?tmp v (fs_files st)")
  note wf = write_durably_files [OF w]
  have ne: "path_for q st \<noteq> ?tmp" for q by simp
  from assms w have "st' = st\<lparr>fs_calls := fs_calls st + 1, fs_files := (if \<not> wok then files
      else if \<not> io_rename ?e then files(?tmp := None) else files(path_for k st := files ?tmp, ?tmp := None))\<rparr>"
    "ok \<longrightarrow> wok \<and> io_rename ?e"
    by (auto simp: fs_save_def Let_def split: if_splits)
  with wf ne show ?thesis by (auto simp: fs_load_def path_inj)
qed

interpretation file_store: state_store file_ops distinct_keys
proof
  fix k v k' :: string and s s' :: file_store and ok
  show "so_save file_ops k v s = (ok, s') \<Longrightarrow>
      so_load file_ops k s' = Some v \<or> \<not> ok \<and> so_load file_ops k s' = so_load file_ops k s"
    using fs_save_spec [of k v s ok s' k] by (simp add: file_ops_def)
  show "so_save file_ops k v s = (ok, s') \<Longrightarrow> distinct_keys k k' \<Longrightarrow> so_load file_ops k' s' = so_load file_ops k' s"
    using fs_save_spec [of k v s ok s' k'] by (simp add: file_ops_def distinct_keys_def)
  show "so_load file_ops k (so_clear file_ops k s) = None \<or> so_load file_ops k (so_clear file_ops k s) = so_load file_ops k s"
    by (simp add: file_ops_def fs_clear_def fs_load_def Let_def)
  show "distinct_keys k k' \<Longrightarrow> so_load file_ops k' (so_clear file_ops k s) = so_load file_ops k' s"
    by (simp add: file_ops_def fs_clear_def fs_load_def Let_def distinct_keys_def path_inj)
qed

section \<open>Properties\<close>

text \<open>C8: writing is atomic, whatever fails. After \<open>save\<close> a reader of the key sees either the complete new value or exactly what was there
  before (absent included), never a fragment; if \<open>save\<close> reported success it is the new value; and no other key is affected. This holds for
  every combination of short writes, interrupted calls and failing system calls.\<close>

theorem fs_save_atomic:
  assumes "fs_save k v st = (ok, st')"
  shows "(fs_load k st' = Some v \<or> fs_load k st' = fs_load k st) \<and> (ok \<longrightarrow> fs_load k st' = Some v)
    \<and> (\<forall>k'. flatten_key k' \<noteq> flatten_key k \<longrightarrow> fs_load k' st' = fs_load k' st)"
  using fs_save_spec [OF assms] by metis

definition demo_io :: io_env where
  "demo_io = \<lparr>io_open = True, io_writes = [Wrote 1, Interrupted, Wrote 5], io_fsync = True, io_close = True, io_rename = True,
     io_dir_open = None, io_dir_fsync = [Some EINTR, None], io_remove = True\<rparr>"

definition demo_store :: file_store where
  "demo_store = \<lparr>fs_dir = ''/state'', fs_files = (\<lambda>_. None), fs_tape = (\<lambda>_. demo_io), fs_calls = 0\<rparr>"

theorem fs_save_atomic_witness: "\<exists>st'. fs_save ''a'' ''xyz'' demo_store = (True, st') \<and> fs_load ''a'' st' = Some ''xyz''"
proof -
  have t: "fst (fs_save ''a'' ''xyz'' demo_store)" by code_simp
  then obtain st' where e: "fs_save ''a'' ''xyz'' demo_store = (True, st')"
    by (cases "fs_save ''a'' ''xyz'' demo_store") auto
  with fs_save_atomic [OF e] show ?thesis by auto
qed

end
