(* ===== verification/Network_Txn.thy ===== *)
theory Network_Txn
  imports State_Store
begin

text \<open>
  A network change that survives a crash (\<^verbatim>\<open>core/net/network_txn.hpp\<close> and \<^verbatim>\<open>network_txn.cpp\<close>). The transaction keeps a little state in memory and two
  records in a state store; it applies configurations to a platform. Here the store is any implementation of the
  interface \<open>state_store\<close>, the platform a world \<open>'w\<close> with an optional apply function. Each operation returns, besides its outcome and the memory, the
  trace of the persistent states (store and platform) it went through, oldest first: a crash leaves one of them and loses
  the memory. \<open>lb\<close> is the width of \<^verbatim>\<open>size_t\<close> and \<^verbatim>\<open>unsigned long\<close>: 32 on the camera.
\<close>

section \<open>Records\<close>

definition append_blob :: "string \<Rightarrow> string \<Rightarrow> string" where
  "append_blob out s = out @ nat_dec (length s) @ [CHR 0x0A] @ s"

definition take_line :: "string \<Rightarrow> nat \<Rightarrow> (string \<times> nat) option" where
  "take_line s pos =
     (let r = drop pos s
      in if CHR 0x0A \<notin> set r then None
         else let l = takeWhile (\<lambda>c. c \<noteq> CHR 0x0A) r in Some (l, pos + length l + 1))"

definition strtoul :: "nat \<Rightarrow> string \<Rightarrow> nat" where
  "strtoul lb ds = min (dec_nat ds) (2 ^ lb - 1)"

definition take_blob :: "nat \<Rightarrow> string \<Rightarrow> nat \<Rightarrow> (string \<times> nat) option" where
  "take_blob lb s pos =
     (case take_line s pos of
        None \<Rightarrow> None
      | Some (len_line, pos) \<Rightarrow>
          if len_line = [] \<or> \<not> list_all is_digit len_line then None
          else let n = strtoul lb len_line
               in if length s < (pos + n) mod 2 ^ lb then None
                  else Some (take n (drop pos s), (pos + n) mod 2 ^ lb))"

definition encode_confirmed :: "string \<Rightarrow> string" where
  "encode_confirmed cfg = append_blob (''c1'' @ [CHR 0x0A]) cfg"

definition decode_confirmed :: "nat \<Rightarrow> string \<Rightarrow> string option" where
  "decode_confirmed lb text =
     (case take_line text 0 of
        None \<Rightarrow> None
      | Some (tag, pos) \<Rightarrow> if tag \<noteq> ''c1'' then None else map_option fst (take_blob lb text pos))"

record pending_record =
  pr_token :: u64
  pr_candidate :: string

definition encode_pending :: "pending_record \<Rightarrow> string" where
  "encode_pending r =
     append_blob (''v1'' @ [CHR 0x0A] @ nat_dec (unat (pr_token r)) @ [CHR 0x0A]) (pr_candidate r)"

definition decode_pending :: "nat \<Rightarrow> string \<Rightarrow> pending_record option" where
  "decode_pending lb text =
     (case take_line text 0 of
        None \<Rightarrow> None
      | Some (v, pos) \<Rightarrow>
          if v \<noteq> ''v1'' then None
          else (case take_line text pos of
                  None \<Rightarrow> None
                | Some (tok, pos) \<Rightarrow>
                    if tok = [] \<or> \<not> list_all is_digit tok then None
                    else (case take_blob lb text pos of
                            None \<Rightarrow> None
                          | Some (cand, _) \<Rightarrow>
                              Some \<lparr>pr_token = of_nat (min (dec_nat tok) (2 ^ 64 - 1)), pr_candidate = cand\<rparr>)))"

section \<open>The transaction\<close>

datatype seed_outcome = Seeded | AlreadyPresent | SeedFailed

datatype recover_outcome = Nothing | RolledBack | ConfirmedUnusable

type_synonym 'w apply_fn = "(string \<Rightarrow> 'w \<Rightarrow> result \<times> 'w) option"

record txn =
  tx_ck :: string
  tx_pk :: string
  tx_pending :: bool
  tx_token :: u64
  tx_next_token :: u64
  tx_deadline_ms :: u32
  tx_deadline_valid :: bool

definition txn_new :: "string \<Rightarrow> string \<Rightarrow> txn" where
  "txn_new ck pk = \<lparr>tx_ck = ck, tx_pk = pk, tx_pending = False, tx_token = 0, tx_next_token = 1,
     tx_deadline_ms = 0, tx_deadline_valid = False\<rparr>"

definition run_apply :: "'w apply_fn \<Rightarrow> string \<Rightarrow> 'w \<Rightarrow> result \<times> 'w" where
  "run_apply ap cfg w = (case ap of None \<Rightarrow> (result_ok, w) | Some f \<Rightarrow> f cfg w)"

definition load_confirmed :: "nat \<Rightarrow> 's store_ops \<Rightarrow> txn \<Rightarrow> 's \<Rightarrow> string option" where
  "load_confirmed lb ops tx s = Option.bind (so_load ops (tx_ck tx) s) (decode_confirmed lb)"

definition seed_confirmed :: "nat \<Rightarrow> 's store_ops \<Rightarrow> string \<Rightarrow> txn \<Rightarrow> 's \<Rightarrow> seed_outcome \<times> 's" where
  "seed_confirmed lb ops config tx s =
     (case load_confirmed lb ops tx s of
        Some _ \<Rightarrow> (AlreadyPresent, s)
      | None \<Rightarrow> (case so_save ops (tx_ck tx) (encode_confirmed config) s of
                   (False, s) \<Rightarrow> (SeedFailed, s)
                 | (True, s) \<Rightarrow> (Seeded, s)))"

definition txn_recover ::
    "nat \<Rightarrow> 's store_ops \<Rightarrow> 'w apply_fn \<Rightarrow> txn \<Rightarrow> 's \<times> 'w \<Rightarrow> (recover_outcome \<times> string) \<times> txn \<times> ('s \<times> 'w) list" where
  "txn_recover lb ops ap tx p =
     (case so_load ops (tx_pk tx) (fst p) of
        None \<Rightarrow> ((Nothing, []), tx, [p])
      | Some blob \<Rightarrow>
          let pr = decode_pending lb blob;
              tx = (case pr of
                      Some r \<Rightarrow> if tx_next_token tx \<le> pr_token r then tx\<lparr>tx_next_token := pr_token r + 1\<rparr> else tx
                    | None \<Rightarrow> tx)
          in case load_confirmed lb ops tx (fst p) of
               None \<Rightarrow> ((ConfirmedUnusable, ''an unconfirmed network change was found, but the last confirmed ''
                          @ ''configuration is missing or unreadable -- nothing was applied''), tx, [p])
             | Some good \<Rightarrow>
                 let tx = tx\<lparr>tx_pending := False, tx_deadline_valid := False\<rparr>;
                     s = so_clear ops (tx_pk tx) (fst p);
                     (rc, w) = run_apply ap good (snd p)
                 in ((RolledBack,
                      if \<not> is_ok rc then ''could not restore the last confirmed network configuration''
                      else if pr \<noteq> None then ''an unconfirmed network change was rolled back after restart''
                      else ''an unreadable pending change was found; the last confirmed configuration was restored''),
                     tx, [p, (s, snd p), (s, w)]))"

definition txn_begin ::
    "nat \<Rightarrow> 's store_ops \<Rightarrow> 'w apply_fn \<Rightarrow> string \<Rightarrow> u32 \<Rightarrow> u32 \<Rightarrow> txn \<Rightarrow> 's \<times> 'w
     \<Rightarrow> (string + u64) \<times> txn \<times> ('s \<times> 'w) list" where
  "txn_begin lb ops ap candidate now_ms window_ms tx p =
     (if window_ms = 0 then (Inl ''a confirmation window of zero would roll back instantly'', tx, [p])
      else if tx_pending tx then (Inl ''another change is still waiting for confirmation'', tx, [p])
      else
      case load_confirmed lb ops tx (fst p) of
        None \<Rightarrow> (Inl ''there is no confirmed configuration to fall back to'', tx, [p])
      | Some good \<Rightarrow>
          let tok = tx_next_token tx;
              tx = tx\<lparr>tx_next_token := tok + 1\<rparr>;
              (ok, s1) = so_save ops (tx_pk tx) (encode_pending \<lparr>pr_token = tok, pr_candidate = candidate\<rparr>) (fst p)
          in if \<not> ok then (Inl ''could not record the pending change; refusing to apply it'', tx, [p, (s1, snd p)])
             else
             let (rc, w1) = run_apply ap candidate (snd p)
             in if \<not> is_ok rc
                then let s2 = so_clear ops (tx_pk tx) s1;
                         w2 = snd (run_apply ap good w1)
                     in (Inl ''the change could not be applied'', tx, [p, (s1, snd p), (s1, w1), (s2, w1), (s2, w2)])
                else (Inr tok,
                      tx\<lparr>tx_pending := True, tx_token := tok, tx_deadline_ms := now_ms + window_ms, tx_deadline_valid := True\<rparr>,
                      [p, (s1, snd p), (s1, w1)]))"

definition txn_confirm ::
    "nat \<Rightarrow> 's store_ops \<Rightarrow> u64 \<Rightarrow> txn \<Rightarrow> 's \<Rightarrow> string option \<times> txn \<times> 's list" where
  "txn_confirm lb ops token tx s =
     (if \<not> tx_pending tx then (Some ''nothing is waiting for confirmation'', tx, [s])
      else if token \<noteq> tx_token tx then (Some ''that confirmation belongs to a different change'', tx, [s])
      else
      case Option.bind (so_load ops (tx_pk tx) s) (decode_pending lb) of
        None \<Rightarrow> (Some ''the pending change is no longer on record'', tx, [s])
      | Some pr \<Rightarrow>
          if pr_token pr \<noteq> token then (Some ''the pending change is no longer on record'', tx, [s])
          else
          case so_save ops (tx_ck tx) (encode_confirmed (pr_candidate pr)) s of
            (False, s1) \<Rightarrow> (Some ''could not record the confirmation'', tx, [s, s1])
          | (True, s1) \<Rightarrow> (None, tx\<lparr>tx_pending := False, tx_deadline_valid := False\<rparr>, [s, s1, so_clear ops (tx_pk tx) s1]))"

definition txn_rollback :: "nat \<Rightarrow> 's store_ops \<Rightarrow> 'w apply_fn \<Rightarrow> txn \<Rightarrow> 's \<times> 'w \<Rightarrow> string \<times> txn \<times> ('s \<times> 'w) list" where
  "txn_rollback lb ops ap tx p =
     (let have = load_confirmed lb ops tx (fst p);
          tx = tx\<lparr>tx_pending := False, tx_deadline_valid := False\<rparr>;
          s = so_clear ops (tx_pk tx) (fst p)
      in case have of
           None \<Rightarrow> (''no confirmed configuration to restore'', tx, [p, (s, snd p)])
         | Some good \<Rightarrow>
             let (rc, w) = run_apply ap good (snd p)
             in (if is_ok rc then [] else ''could not restore the last confirmed network configuration'',
                 tx, [p, (s, snd p), (s, w)]))"

definition txn_tick ::
    "nat \<Rightarrow> 's store_ops \<Rightarrow> 'w apply_fn \<Rightarrow> u32 \<Rightarrow> txn \<Rightarrow> 's \<times> 'w \<Rightarrow> bool \<times> txn \<times> ('s \<times> 'w) list" where
  "txn_tick lb ops ap now_ms tx p =
     (if \<not> tx_pending tx \<or> \<not> tx_deadline_valid tx then (False, tx, [p])
      else if s32 (now_ms - tx_deadline_ms tx) < 0 then (False, tx, [p])
      else (True, snd (txn_rollback lb ops ap tx p)))"

definition txn_remaining_ms :: "u32 \<Rightarrow> txn \<Rightarrow> u32" where
  "txn_remaining_ms now_ms tx =
     (if \<not> tx_pending tx \<or> \<not> tx_deadline_valid tx then 0
      else let d = tx_deadline_ms tx - now_ms in if 0 < s32 d then d else 0)"

section \<open>Round trips and truncation\<close>

lemma take_line_append:
  "CHR 0x0A \<notin> set l \<Longrightarrow> take_line (pre @ l @ CHR 0x0A # rest) (length pre) = Some (l, length (pre @ l @ [CHR 0x0A]))"
proof -
  assume "CHR 0x0A \<notin> set l"
  then have "takeWhile (\<lambda>c. c \<noteq> CHR 0x0A) (l @ CHR 0x0A # rest) = l" by (induction l) auto
  then show ?thesis by (simp add: take_line_def Let_def)
qed

lemma take_blob_append:
  assumes "length (pre @ nat_dec n @ CHR 0x0A # body) + n < 2 ^ lb" and "lb \<ge> 1"
  shows "take_blob lb (pre @ nat_dec n @ CHR 0x0A # body) (length pre) =
     (if length body < n then None
      else Some (take n body, length (pre @ nat_dec n @ [CHR 0x0A]) + n))"
proof -
  let ?s = "pre @ nat_dec n @ CHR 0x0A # body" and ?pos = "length (pre @ nat_dec n @ [CHR 0x0A])"
  have l: "take_line ?s (length pre) = Some (nat_dec n, ?pos)" by (rule take_line_append) simp
  have "strtoul lb (nat_dec n) = n" using assms(1) by (simp add: strtoul_def)
  moreover have "(?pos + n) mod 2 ^ lb = ?pos + n" by (rule mod_less) (use assms(1) in simp)
  moreover have "drop ?pos ?s = body" by simp
  ultimately show ?thesis
    unfolding take_blob_def l by (auto simp: Let_def)
qed

lemma decode_confirmed_body:
  assumes "length (''c1'' @ CHR 0x0A # nat_dec n @ CHR 0x0A # body) + n < 2 ^ lb" and "lb \<ge> 1"
  shows "decode_confirmed lb (''c1'' @ CHR 0x0A # nat_dec n @ CHR 0x0A # body) = (if length body < n then None else Some (take n body))"
proof -
  have l: "take_line ([] @ ''c1'' @ CHR 0x0A # nat_dec n @ CHR 0x0A # body) (length ([] :: string)) = Some (''c1'', Suc (Suc (Suc 0)))"
    by (subst take_line_append) simp_all
  have b: "take_blob lb ((''c1'' @ [CHR 0x0A]) @ nat_dec n @ CHR 0x0A # body) (length (''c1'' @ [CHR 0x0A])) =
     (if length body < n then None else Some (take n body, length ((''c1'' @ [CHR 0x0A]) @ nat_dec n @ [CHR 0x0A]) + n))"
    by (rule take_blob_append) (use assms in simp_all)
  from l b show ?thesis by (simp add: decode_confirmed_def)
qed

lemma encode_confirmed_text: "encode_confirmed cfg = ''c1'' @ CHR 0x0A # nat_dec (length cfg) @ CHR 0x0A # cfg"
  by (simp add: encode_confirmed_def append_blob_def)

lemma encode_pending_text:
  "encode_pending r = ''v1'' @ CHR 0x0A # nat_dec (unat (pr_token r)) @ CHR 0x0A # nat_dec (length (pr_candidate r))
     @ CHR 0x0A # pr_candidate r"
  by (simp add: encode_pending_def append_blob_def)

lemma decode_pending_body:
  assumes "length (''v1'' @ CHR 0x0A # nat_dec t @ CHR 0x0A # nat_dec n @ CHR 0x0A # body) + n < 2 ^ lb" and "lb \<ge> 1" and "t < 2 ^ 64"
  shows "decode_pending lb (''v1'' @ CHR 0x0A # nat_dec t @ CHR 0x0A # nat_dec n @ CHR 0x0A # body) =
     (if length body < n then None else Some \<lparr>pr_token = of_nat t, pr_candidate = take n body\<rparr>)"
proof -
  let ?s = "''v1'' @ CHR 0x0A # nat_dec t @ CHR 0x0A # nat_dec n @ CHR 0x0A # body"
  have l1: "take_line ?s 0 = Some (''v1'', Suc (Suc (Suc 0)))"
    using take_line_append [of "''v1''" "[]" "nat_dec t @ CHR 0x0A # nat_dec n @ CHR 0x0A # body"] by simp
  have l2: "take_line ?s (Suc (Suc (Suc 0))) = Some (nat_dec t, Suc (Suc (Suc (Suc (length (nat_dec t))))))"
    using take_line_append [of "nat_dec t" "''v1'' @ [CHR 0x0A]" "nat_dec n @ CHR 0x0A # body"] by simp
  have "take_blob lb ((''v1'' @ CHR 0x0A # nat_dec t @ [CHR 0x0A]) @ nat_dec n @ CHR 0x0A # body)
      (length (''v1'' @ CHR 0x0A # nat_dec t @ [CHR 0x0A])) =
     (if length body < n then None else Some (take n body,
        length ((''v1'' @ CHR 0x0A # nat_dec t @ [CHR 0x0A]) @ nat_dec n @ [CHR 0x0A]) + n))"
    by (rule take_blob_append) (use assms in simp_all)
  then have b: "take_blob lb ?s (Suc (Suc (Suc (Suc (length (nat_dec t)))))) = (if length body < n then None else Some (take n body,
        length ((''v1'' @ CHR 0x0A # nat_dec t @ [CHR 0x0A]) @ nat_dec n @ [CHR 0x0A]) + n))" by simp
  have m: "min t (2 ^ 64 - 1) = t" using assms(3) by simp
  have d: "decode_pending lb s = (if length body < n then None else Some \<lparr>pr_token = of_nat t, pr_candidate = take n body\<rparr>)"
    if "s = ?s" for s
    using l1 l2 b m unfolding that [symmetric] by (simp add: decode_pending_def)
  show ?thesis by (rule d [OF refl])
qed

lemma decode_confirmed_encode:
  "1 \<le> lb \<Longrightarrow> length (encode_confirmed cfg) + length cfg < 2 ^ lb \<Longrightarrow> decode_confirmed lb (encode_confirmed cfg) = Some cfg"
  using decode_confirmed_body [of "length cfg" cfg lb] unfolding encode_confirmed_text by simp

lemma decode_pending_encode:
  "1 \<le> lb \<Longrightarrow> length (encode_pending r) + length (pr_candidate r) < 2 ^ lb \<Longrightarrow> decode_pending lb (encode_pending r) = Some r"
proof -
  assume lb: "1 \<le> lb" and len: "length (encode_pending r) + length (pr_candidate r) < 2 ^ lb"
  have "unat (pr_token r) < 2 ^ 64" using unsigned_less [of "pr_token r"] by simp
  with lb len decode_pending_body [of "unat (pr_token r)" "length (pr_candidate r)" "pr_candidate r" lb]
  show ?thesis unfolding encode_pending_text by simp
qed

text \<open>C20: both records round-trip. A pending record and a confirmed configuration of any content, newlines and empty included, are decoded as
  what was encoded, on a 32-bit and on a 64-bit system, as long as twice the record fits the address space.\<close>

theorem txn_records_roundtrip:
  assumes "1 \<le> lb" and "length (encode_confirmed cfg) + length cfg < 2 ^ lb"
    and "length (encode_pending r) + length (pr_candidate r) < 2 ^ lb"
  shows "decode_confirmed lb (encode_confirmed cfg) = Some cfg \<and> decode_pending lb (encode_pending r) = Some r"
  using decode_confirmed_encode [OF assms(1,2)] decode_pending_encode [OF assms(1,3)] by simp

theorem txn_records_roundtrip_witness:
  "decode_confirmed 32 (encode_confirmed ''dhcp'') = Some ''dhcp''"
proof -
  have "length (encode_confirmed ''dhcp'') + length ''dhcp'' < 2 ^ 10"
    "length (encode_pending \<lparr>pr_token = 7, pr_candidate = ''x''\<rparr>) + length (pr_candidate \<lparr>pr_token = 7, pr_candidate = ''x''\<rparr>) < 2 ^ 10"
    by code_simp+
  moreover have "(2 :: nat) ^ 10 \<le> 2 ^ 32" by simp
  ultimately have "length (encode_confirmed ''dhcp'') + length ''dhcp'' < 2 ^ 32"
    "length (encode_pending \<lparr>pr_token = 7, pr_candidate = ''x''\<rparr>) + length (pr_candidate \<lparr>pr_token = 7, pr_candidate = ''x''\<rparr>) < 2 ^ 32"
    by (meson order_less_le_trans)+
  from txn_records_roundtrip [OF _ this] show ?thesis by simp
qed

text \<open>A cut inside the first two lines leaves no complete second line.\<close>

lemma take_line_None: "CHR 0x0A \<notin> set (drop pos s) \<Longrightarrow> take_line s pos = None"
  by (simp add: take_line_def)

lemma decode_confirmed_short: "decode_confirmed lb (take k (''c1'' @ CHR 0x0A # nat_dec n)) = None"
proof -
  define p where "p = take k (''c1'' @ CHR 0x0A # nat_dec n)"
  have c1: "CHR 0x0A \<notin> set (drop 3 p)"
    unfolding p_def by (auto simp: drop_take numeral_3_eq_3 dest: in_set_takeD)
  have "decode_confirmed lb p = None"
  proof (cases "take_line p 0")
    case (Some r)
    then obtain tag pos where r: "take_line p 0 = Some (tag, pos)" by (cases r) auto
    show ?thesis
    proof (cases "tag = ''c1''")
      case True
      then have "pos = 3" using r by (auto simp: take_line_def Let_def split: if_splits)
      with c1 r show ?thesis by (simp add: decode_confirmed_def take_blob_def take_line_None)
    qed (simp add: decode_confirmed_def r)
  qed (simp add: decode_confirmed_def)
  then show ?thesis by (simp add: p_def)
qed

text \<open>a torn write of the known-good record is detected. No proper prefix of an encoded configuration decodes to anything, so a
  half-written record is never read as a shorter configuration.\<close>

theorem truncated_confirmed_rejected:
  assumes "1 \<le> lb" and "length (encode_confirmed cfg) + length cfg < 2 ^ lb" and "k < length (encode_confirmed cfg)"
  shows "decode_confirmed lb (take k (encode_confirmed cfg)) = None"
proof (cases "k \<le> length (''c1'' @ CHR 0x0A # nat_dec (length cfg))")
  case True
  have "take k (encode_confirmed cfg) = take k ((''c1'' @ CHR 0x0A # nat_dec (length cfg)) @ CHR 0x0A # cfg)"
    by (simp add: encode_confirmed_text)
  also have "\<dots> = take k (''c1'' @ CHR 0x0A # nat_dec (length cfg))"
    using True by (simp only: take_append) simp
  finally show ?thesis by (simp only: decode_confirmed_short)
next
  case False
  let ?h = "''c1'' @ CHR 0x0A # nat_dec (length cfg) @ [CHR 0x0A]"
  define j where "j = k - length ?h"
  have k: "k = length ?h + j" using False by (simp add: j_def)
  have t: "take k (encode_confirmed cfg) = ''c1'' @ CHR 0x0A # nat_dec (length cfg) @ CHR 0x0A # take j cfg"
    unfolding encode_confirmed_text k by simp
  have j: "j < length cfg" using assms(3) unfolding encode_confirmed_text k by simp
  have "decode_confirmed lb (''c1'' @ CHR 0x0A # nat_dec (length cfg) @ CHR 0x0A # take j cfg) = None"
    by (subst decode_confirmed_body) (use assms j in \<open>auto simp: encode_confirmed_text\<close>)
  with t show ?thesis by simp
qed

theorem truncated_confirmed_rejected_witness:
  "decode_confirmed 64 (take 8 (encode_confirmed ''dhcp'')) = None"
proof -
  have "length (encode_confirmed ''dhcp'') + length ''dhcp'' < 2 ^ 10" "8 < length (encode_confirmed ''dhcp'')" by code_simp+
  moreover have "(2 :: nat) ^ 10 \<le> 2 ^ 64" by simp
  ultimately have "length (encode_confirmed ''dhcp'') + length ''dhcp'' < 2 ^ 64" "8 < length (encode_confirmed ''dhcp'')"
    by (meson order_less_le_trans)+
  from truncated_confirmed_rejected [OF _ this] show ?thesis by simp
qed

section \<open>Crashes\<close>

text \<open>What the platform promises: a configuration that was applied successfully is the current one, and a failed attempt leaves the
  current one in force.\<close>

definition applies :: "'w apply_fn \<Rightarrow> ('w \<Rightarrow> string) \<Rightarrow> bool" where
  "applies ap current \<longleftrightarrow> (\<forall>c w. current (snd (run_apply ap c w)) = (if is_ok (fst (run_apply ap c w)) then c else current w))"

lemma txn_new_simps [simp]: "tx_ck (txn_new ck pk) = ck" "tx_pk (txn_new ck pk) = pk"
  by (simp_all add: txn_new_def)

lemma load_confirmed_cong [simp]:
  "load_confirmed lb ops (tx\<lparr>tx_pending := a\<rparr>) s = load_confirmed lb ops tx s"
  "load_confirmed lb ops (tx\<lparr>tx_deadline_valid := b\<rparr>) s = load_confirmed lb ops tx s"
  "load_confirmed lb ops (tx\<lparr>tx_next_token := t\<rparr>) s = load_confirmed lb ops tx s"
  "load_confirmed lb ops (tx\<lparr>tx_token := t\<rparr>) s = load_confirmed lb ops tx s"
  "load_confirmed lb ops (tx\<lparr>tx_deadline_ms := d\<rparr>) s = load_confirmed lb ops tx s"
  by (simp_all add: load_confirmed_def)

text \<open>Starting up on a persistent state: with a pending record the known-good configuration is applied, without one nothing happens.\<close>

lemma recover_final:
  assumes "Option.bind (so_load ops ck (fst p)) (decode_confirmed lb) = Some good" and "applies ap current"
    and "\<And>w. is_ok (fst (run_apply ap good w))"
  shows "current (snd (last (snd (snd (txn_recover lb ops ap (txn_new ck pk) p))))) =
      (if so_load ops pk (fst p) = None then current (snd p) else good)"
proof (cases "so_load ops pk (fst p)")
  case (Some blob)
  have c: "current (snd (run_apply ap good (snd p))) = good" using assms(2,3) by (simp add: applies_def)
  have l: "load_confirmed lb ops (txn_new ck pk) (fst p) = Some good" using assms(1) by (simp add: load_confirmed_def)
  show ?thesis
    using Some l c by (auto simp: txn_recover_def Let_def split: option.splits prod.splits if_splits)
qed (simp add: txn_recover_def)

context state_store
begin

lemma begin_crash_points:
  assumes b: "txn_begin lb ops ap cand now window tx (s, w) = (out, tx', tr)"
    and ind: "indep (tx_pk tx) (tx_ck tx)" and good: "load_confirmed lb ops tx s = Some good"
    and q: "q \<in> set tr" and cur: "current w = good" and ap: "applies ap current"
    and gok: "\<And>w. is_ok (fst (run_apply ap good w))"
  shows "load_confirmed lb ops tx (fst q) = Some good \<and> (so_load ops (tx_pk tx) (fst q) = None \<longrightarrow> current (snd q) = good)"
proof -
  let ?pr = "encode_pending \<lparr>pr_token = tx_next_token tx, pr_candidate = cand\<rparr>"
  obtain ok s1 where sv: "so_save ops (tx_pk tx) ?pr s = (ok, s1)" by (cases "so_save ops (tx_pk tx) ?pr s")
  obtain rc w1 where a: "run_apply ap cand w = (rc, w1)" by (cases "run_apply ap cand w")
  let ?s2 = "so_clear ops (tx_pk tx) s1"
  have l1: "so_load ops (tx_ck tx) s1 = so_load ops (tx_ck tx) s" by (rule save_other [OF sv ind])
  have l2: "so_load ops (tx_ck tx) ?s2 = so_load ops (tx_ck tx) s1" by (rule clear_other [OF ind])
  have c1: "current w1 = (if is_ok rc then cand else good)" using ap a cur unfolding applies_def by (metis fst_conv snd_conv)
  have c2: "current (snd (run_apply ap good w1)) = good" using ap gok by (simp add: applies_def)
  have p1: "ok \<Longrightarrow> so_load ops (tx_pk tx) s1 \<noteq> None" using save_ok sv by auto
  from b sv a good have "q = (s, w) \<or> q = (s1, w) \<or> (ok \<and> q = (s1, w1))
      \<or> (ok \<and> \<not> is_ok rc \<and> (q = (?s2, w1) \<or> q = (?s2, snd (run_apply ap good w1))))"
    using q by (auto simp: txn_begin_def Let_def split: if_splits)
  then show ?thesis using l1 l2 c1 c2 p1 good cur by (auto simp: load_confirmed_def)
qed

lemma begin_ok_state:
  assumes b: "txn_begin lb ops ap cand now window tx (s, w) = (Inr tok, tx', tr)"
    and ind: "indep (tx_pk tx) (tx_ck tx)"
  obtains good s1 w1 where "load_confirmed lb ops tx s = Some good" "load_confirmed lb ops tx s1 = Some good"
    "so_load ops (tx_pk tx) s1 = Some (encode_pending \<lparr>pr_token = tok, pr_candidate = cand\<rparr>)"
    "is_ok (fst (run_apply ap cand w))" "w1 = snd (run_apply ap cand w)" "last tr = (s1, w1)" "window \<noteq> 0"
    "tx' = tx\<lparr>tx_next_token := tok + 1, tx_pending := True, tx_token := tok, tx_deadline_ms := now + window, tx_deadline_valid := True\<rparr>"
proof -
  let ?pr = "encode_pending \<lparr>pr_token = tx_next_token tx, pr_candidate = cand\<rparr>"
  obtain ok s1 where sv: "so_save ops (tx_pk tx) ?pr s = (ok, s1)" by (cases "so_save ops (tx_pk tx) ?pr s")
  obtain rc w1 where a: "run_apply ap cand w = (rc, w1)" by (cases "run_apply ap cand w")
  have l1: "so_load ops (tx_ck tx) s1 = so_load ops (tx_ck tx) s" by (rule save_other [OF sv ind])
  from b sv a obtain good where g: "load_confirmed lb ops tx s = Some good" and r: "ok" "is_ok rc" "tok = tx_next_token tx"
    "last tr = (s1, w1)" "window \<noteq> 0" "tx' = tx\<lparr>tx_next_token := tok + 1, tx_pending := True, tx_token := tok,
       tx_deadline_ms := now + window, tx_deadline_valid := True\<rparr>"
    by (auto simp: txn_begin_def Let_def split: if_splits option.splits)
  show thesis
    by (rule that [of good s1 w1]) (use g r a l1 save_ok sv in \<open>auto simp: load_confirmed_def\<close>)
qed

lemma tick_restores:
  assumes "tx_pending tx" and "tx_deadline_valid tx" and "load_confirmed lb ops tx s = Some good"
    and "applies ap current" and "\<And>w. is_ok (fst (run_apply ap good w))"
    and "\<not> s32 (now - tx_deadline_ms tx) < 0" and "txn_tick lb ops ap now tx (s, w) = (fired, tx', tr)"
  shows "fired \<and> \<not> tx_pending tx' \<and> current (snd (last tr)) = good"
proof -
  have "current (snd (run_apply ap good w)) = good" using assms(4,5) by (simp add: applies_def)
  with assms show ?thesis by (auto simp: txn_tick_def txn_rollback_def Let_def split: prod.splits)
qed

end

abbreviation "net_keys \<equiv> txn_new ''network-confirmed'' ''network-pending''"

lemma net_keys_distinct: "distinct_keys ''network-pending'' ''network-confirmed''"
  by code_simp


definition demo_apply :: "string apply_fn" where
  "demo_apply = Some (\<lambda>c w. if c = ''bad'' then (result_busy, w) else (result_ok, c))"

lemma demo_applies: "applies demo_apply id"
  by (auto simp: applies_def demo_apply_def run_apply_def)

definition seeded_store :: file_store where
  "seeded_store = snd (fs_save ''network-confirmed'' (encode_confirmed ''eth'')
     (demo_store\<lparr>fs_tape := (\<lambda>_. demo_io\<lparr>io_writes := [Wrote 500]\<rparr>)\<rparr>))"

lemma seeded_load: "load_confirmed 32 file_ops net_keys seeded_store = Some ''eth''"
proof -
  have "so_load file_ops ''network-confirmed'' seeded_store = Some (encode_confirmed ''eth'')" by code_simp
  moreover have "length (''c1'' @ CHR 0x0A # nat_dec 3 @ CHR 0x0A # ''eth'') = 8" by code_simp
  then have "decode_confirmed 32 (encode_confirmed ''eth'') = Some ''eth''"
    using decode_confirmed_body [of 3 "''eth''" 32] by (simp add: encode_confirmed_text numeral_3_eq_3)
  ultimately show ?thesis by (simp add: load_confirmed_def)
qed

lemma seeded_begin:
  "fst (txn_begin 32 file_ops demo_apply ''wifi'' now 1000 net_keys (seeded_store, ''eth'')) = Inr 1"
  "length (snd (snd (txn_begin 32 file_ops demo_apply ''wifi'' now 1000 net_keys (seeded_store, ''eth'')))) = 3"
proof -
  have e: "encode_pending \<lparr>pr_token = 1, pr_candidate = ''wifi''\<rparr> = ''v1'' @ [CHR 0x0A] @ ''1'' @ [CHR 0x0A] @ ''4'' @ [CHR 0x0A] @ ''wifi''"
    by code_simp
  have "fst (fs_save ''network-pending'' (''v1'' @ [CHR 0x0A] @ ''1'' @ [CHR 0x0A] @ ''4'' @ [CHR 0x0A] @ ''wifi'') seeded_store)"
    by code_simp
  then have "fst (so_save file_ops ''network-pending'' (encode_pending \<lparr>pr_token = 1, pr_candidate = ''wifi''\<rparr>) seeded_store)"
    unfolding e by (simp add: file_ops_def)
  then obtain s1 where "so_save file_ops ''network-pending'' (encode_pending \<lparr>pr_token = 1, pr_candidate = ''wifi''\<rparr>) seeded_store
      = (True, s1)"
    by (cases "so_save file_ops ''network-pending'' (encode_pending \<lparr>pr_token = 1, pr_candidate = ''wifi''\<rparr>) seeded_store") simp
  then show "fst (txn_begin 32 file_ops demo_apply ''wifi'' now 1000 net_keys (seeded_store, ''eth'')) = Inr 1"
    "length (snd (snd (txn_begin 32 file_ops demo_apply ''wifi'' now 1000 net_keys (seeded_store, ''eth'')))) = 3"
    using seeded_load by (simp_all add: txn_begin_def txn_new_def demo_apply_def run_apply_def Let_def)
qed




lemma confirm_ok_state:
  assumes "txn_confirm lb ops tok tx s = (None, tx', ss)"
  obtains pr s1 where "Option.bind (so_load ops (tx_pk tx) s) (decode_pending lb) = Some pr"
    "so_save ops (tx_ck tx) (encode_confirmed (pr_candidate pr)) s = (True, s1)"
    "ss = [s, s1, so_clear ops (tx_pk tx) s1]" "tx' = tx\<lparr>tx_pending := False, tx_deadline_valid := False\<rparr>"
  using assms by (auto simp: txn_confirm_def split: if_splits option.splits prod.splits bool.splits)

text \<open>a confirmed change is permanent. Once \<open>confirm\<close> succeeded with the token \<open>begin\<close> handed out, the candidate is the known-good configuration on
  record and no tick at any time undoes it; and from the moment it was recorded, a crash at any point of \<open>confirm\<close> followed by a start-up ends with the
  candidate in force.\<close>

theorem confirmed_change_is_permanent:
  assumes "txn_begin lb file_ops ap cand now window net_keys (s, w) = (Inr tok, tx, tr)"
    and "txn_confirm lb file_ops tok tx (fst (last tr)) = (None, tx', ss)"
    and "1 \<le> lb" and "length (encode_confirmed cand) + length cand < 2 ^ lb"
    and "length (encode_pending \<lparr>pr_token = tok, pr_candidate = cand\<rparr>) + length cand < 2 ^ lb"
    and "applies ap current" and "\<And>v. is_ok (fst (run_apply ap cand v))"
  shows "load_confirmed lb file_ops net_keys (last ss) = Some cand
    \<and> (\<forall>t p. txn_tick lb file_ops ap t tx' p = (False, tx', [p]))
    \<and> (\<forall>s' \<in> set (tl ss). current (snd (last (snd (snd (txn_recover lb file_ops ap net_keys (s', snd (last tr))))))) = cand)"
proof -
  from file_store.begin_ok_state [OF assms(1)] net_keys_distinct obtain good s1 w1 where
    b: "so_load file_ops ''network-pending'' s1 = Some (encode_pending \<lparr>pr_token = tok, pr_candidate = cand\<rparr>)"
      "is_ok (fst (run_apply ap cand w))" "w1 = snd (run_apply ap cand w)" "last tr = (s1, w1)"
    and tx: "tx = net_keys\<lparr>tx_next_token := tok + 1, tx_pending := True, tx_token := tok, tx_deadline_ms := now + window, tx_deadline_valid := True\<rparr>"
    by (metis txn_new_simps)
  have keys: "tx_pk tx = ''network-pending''" "tx_ck tx = ''network-confirmed''" by (simp_all add: tx)
  have c: "txn_confirm lb file_ops tok tx s1 = (None, tx', ss)" using assms(2) b(4) by simp
  from confirm_ok_state [OF c] obtain pr s2 where
    p: "Option.bind (so_load file_ops ''network-pending'' s1) (decode_pending lb) = Some pr"
    and sv: "so_save file_ops ''network-confirmed'' (encode_confirmed (pr_candidate pr)) s1 = (True, s2)"
    and ss: "ss = [s1, s2, so_clear file_ops ''network-pending'' s2]"
    and tx': "tx' = tx\<lparr>tx_pending := False, tx_deadline_valid := False\<rparr>" unfolding keys .
  have rt: "decode_pending lb (encode_pending \<lparr>pr_token = tok, pr_candidate = cand\<rparr>) = Some \<lparr>pr_token = tok, pr_candidate = cand\<rparr>"
    "decode_confirmed lb (encode_confirmed cand) = Some cand"
    using decode_pending_encode [OF assms(3), of "\<lparr>pr_token = tok, pr_candidate = cand\<rparr>"] decode_confirmed_encode [OF assms(3,4)] assms(5)
    by simp_all
  with p b(1) have pr: "pr_candidate pr = cand" by auto
  have l2: "so_load file_ops ''network-confirmed'' s2 = Some (encode_confirmed cand)"
    using file_store.save_ok [OF sv] pr by simp
  have l3: "so_load file_ops ''network-confirmed'' (so_clear file_ops ''network-pending'' s2) = Some (encode_confirmed cand)"
    using file_store.clear_other [OF net_keys_distinct] l2 by simp
  have cur: "current w1 = cand" using assms(6) b(2,3) by (simp add: applies_def)
  have "current (snd (last (snd (snd (txn_recover lb file_ops ap net_keys (s', w1)))))) = cand"
    if "so_load file_ops ''network-confirmed'' s' = Some (encode_confirmed cand)" for s'
    using recover_final [of file_ops "''network-confirmed''" "(s', w1)" lb cand ap current "''network-pending''"] that rt(2) assms(6,7) cur by simp
  moreover have "txn_tick lb file_ops ap t tx' p = (False, tx', [p])" for t p by (simp add: txn_tick_def tx')
  ultimately show ?thesis using l2 l3 rt(2) b(4) by (simp add: ss load_confirmed_def)
qed

theorem confirmed_change_is_permanent_witness:
  "\<exists>tx tr tx' ss. txn_begin 32 file_ops demo_apply ''wifi'' 5 1000 net_keys (seeded_store, ''eth'') = (Inr 1, tx, tr)
     \<and> txn_confirm 32 file_ops 1 tx (fst (last tr)) = (None, tx', ss) \<and> load_confirmed 32 file_ops net_keys (last ss) = Some ''wifi''"
proof -
  obtain out tx tr where "txn_begin 32 file_ops demo_apply ''wifi'' 5 1000 net_keys (seeded_store, ''eth'') = (out, tx, tr)"
    by (metis surj_pair)
  with seeded_begin(1) [of 5] have e: "txn_begin 32 file_ops demo_apply ''wifi'' 5 1000 net_keys (seeded_store, ''eth'') = (Inr 1, tx, tr)"
    by simp
  let ?p = "\<lparr>pr_token = 1, pr_candidate = ''wifi''\<rparr>"
  let ?s1 = "snd (so_save file_ops ''network-pending'' (encode_pending ?p) seeded_store)"
  have enc: "encode_pending ?p = ''v1'' @ [CHR 0x0A] @ ''1'' @ [CHR 0x0A] @ ''4'' @ [CHR 0x0A] @ ''wifi''"
    "encode_confirmed ''wifi'' = ''c1'' @ [CHR 0x0A] @ ''4'' @ [CHR 0x0A] @ ''wifi''" by code_simp+
  have len: "length (encode_confirmed ''wifi'') + length ''wifi'' = 13" "length (encode_pending ?p) + length ''wifi'' = 15"
    unfolding enc by simp_all
  from file_store.begin_ok_state [OF e] net_keys_distinct obtain s1 w1 where
    b: "so_load file_ops ''network-pending'' s1 = Some (encode_pending ?p)" "last tr = (s1, w1)"
    and tx: "tx = net_keys\<lparr>tx_next_token := 1 + 1, tx_pending := True, tx_token := 1, tx_deadline_ms := 5 + 1000, tx_deadline_valid := True\<rparr>"
    by (metis txn_new_simps)
  have s1: "s1 = ?s1"
    using e b(2) seeded_load by (auto simp: txn_begin_def txn_new_def Let_def split: if_splits prod.splits)
  have "fst (fs_save ''network-confirmed'' (''c1'' @ [CHR 0x0A] @ ''4'' @ [CHR 0x0A] @ ''wifi'')
      (snd (fs_save ''network-pending'' (''v1'' @ [CHR 0x0A] @ ''1'' @ [CHR 0x0A] @ ''4'' @ [CHR 0x0A] @ ''wifi'') seeded_store)))"
    by code_simp
  then have sv: "fst (so_save file_ops ''network-confirmed'' (encode_confirmed ''wifi'') s1)"
    unfolding s1 enc by (simp add: file_ops_def)
  have dp: "decode_pending 32 (encode_pending ?p) = Some ?p"
    using decode_pending_encode [of 32 ?p] len by simp
  obtain s2 where "so_save file_ops ''network-confirmed'' (encode_confirmed ''wifi'') s1 = (True, s2)"
    using sv by (cases "so_save file_ops ''network-confirmed'' (encode_confirmed ''wifi'') s1") simp
  then obtain tx' ss where c: "txn_confirm 32 file_ops 1 tx (fst (last tr)) = (None, tx', ss)"
    using b dp tx by (simp add: txn_confirm_def)
  have "load_confirmed 32 file_ops net_keys (last ss) = Some ''wifi''"
    using confirmed_change_is_permanent [OF e c _ _ _ demo_applies] len by (simp add: demo_apply_def run_apply_def)
  with e c show ?thesis by blast
qed

text \<open>rolling back has a window in which a crash strands the camera. The header says that a rollback applies the confirmed configuration and then removes the pending
  record; the code removes the record first. If the power fails in between, no record of the change is left, the next start-up finds nothing to do, and the
  configuration nobody confirmed stays in force.\<close>

theorem rollback_crash_strands_candidate:
  assumes "tx_pending tx" and "tx_deadline_valid tx" and "\<not> s32 (now - tx_deadline_ms tx) < 0"
    and "so_load ops (tx_pk tx) (so_clear ops (tx_pk tx) s) = None"
    and "txn_tick lb ops ap now tx (s, w) = (fired, tx', tr)"
  shows "tr ! 1 = (so_clear ops (tx_pk tx) s, w)
    \<and> txn_recover lb ops ap (txn_new (tx_ck tx) (tx_pk tx)) (tr ! 1) = ((Nothing, []), txn_new (tx_ck tx) (tx_pk tx), [tr ! 1])"
proof -
  have "tr ! 1 = (so_clear ops (tx_pk tx) s, w)"
    using assms(1,2,3,5) by (auto simp: txn_tick_def txn_rollback_def Let_def split: option.splits prod.splits)
  with assms(4) show ?thesis by (simp add: txn_recover_def)
qed

theorem rollback_crash_strands_candidate_witness:
  "fst (txn_recover 32 file_ops demo_apply (txn_new ''c'' ''p'')
     (snd (snd (txn_tick 32 file_ops demo_apply 2000
        ((txn_new ''c'' ''p'')\<lparr>tx_pending := True, tx_deadline_ms := 1000, tx_deadline_valid := True\<rparr>) (demo_store, ''wifi''))) ! 1)) = (Nothing, [])"
proof -
  let ?tx = "(txn_new ''c'' ''p'')\<lparr>tx_pending := True, tx_deadline_ms := 1000, tx_deadline_valid := True\<rparr>"
  obtain fired tx' tr where t: "txn_tick 32 file_ops demo_apply 2000 ?tx (demo_store, ''wifi'') = (fired, tx', tr)" by (metis surj_pair)
  have c: "so_load file_ops ''p'' (so_clear file_ops ''p'' demo_store) = None" by code_simp
  have d: "s32 (2000 - 1000 :: u32) = 1000" by simp
  from rollback_crash_strands_candidate [OF _ _ _ _ t, THEN conjunct2] c d t show ?thesis by simp
qed

text \<open>the length check of a record can wrap. On the 32-bit camera \<open>pos + n\<close> is computed modulo 2 to the 32, and \<^verbatim>\<open>strtoul\<close> saturates, so a record that claims
  4294967295 bytes passes the check against truncation and is read as whatever follows the header; on a 64-bit host the same text is rejected.\<close>

theorem length_check_wraps_on_32_bit:
  assumes "length body < 4294967295"
  shows "decode_confirmed 32 (''c1'' @ CHR 0x0A # ''4294967295'' @ CHR 0x0A # body) = Some body
    \<and> decode_confirmed 64 (''c1'' @ CHR 0x0A # ''4294967295'' @ CHR 0x0A # body) = None"
proof -
  let ?s = "''c1'' @ CHR 0x0A # ''4294967295'' @ CHR 0x0A # body"
  have l1: "take_line ?s 0 = Some (''c1'', Suc (Suc (Suc 0)))"
    using take_line_append [of "''c1''" "[]" "''4294967295'' @ CHR 0x0A # body"] by simp
  have l2: "take_line ?s (Suc (Suc (Suc 0))) = Some (''4294967295'', 14)"
    using take_line_append [of "''4294967295''" "''c1'' @ [CHR 0x0A]" body] by simp
  have n: "dec_nat ''4294967295'' = 4294967295" "list_all is_digit ''4294967295''"
    by (simp_all add: dec_nat_def digit_val_def is_digit_def)
  have u: "strtoul 32 ''4294967295'' = 4294967295" "strtoul 64 ''4294967295'' = 4294967295"
    unfolding strtoul_def n(1) by simp_all
  have len: "length ?s = 14 + length body" and d: "drop 14 ?s = body" by simp_all
  have b: "take_blob lb s (Suc (Suc (Suc 0))) = (if length s < (14 + strtoul lb ''4294967295'') mod 2 ^ lb then None
      else Some (take (strtoul lb ''4294967295'') body, (14 + strtoul lb ''4294967295'') mod 2 ^ lb))" if "s = ?s" for lb s
    using l2 n(2) d unfolding that [symmetric] by (simp add: take_blob_def Let_def)
  have dec: "decode_confirmed lb s = map_option fst (take_blob lb s (Suc (Suc (Suc 0))))" if "s = ?s" for lb s
    using l1 unfolding that [symmetric] by (simp add: decode_confirmed_def)
  have "decode_confirmed 32 ?s = Some body"
    unfolding dec [OF refl] b [OF refl] u len using assms by simp
  moreover have "decode_confirmed 64 ?s = None"
    unfolding dec [OF refl] b [OF refl] u len using assms by simp
  ultimately show ?thesis by blast
qed

theorem length_check_wraps_on_32_bit_witness:
  "decode_confirmed 32 (''c1'' @ CHR 0x0A # ''4294967295'' @ CHR 0x0A # ''abc'') = Some ''abc''"
  by (rule length_check_wraps_on_32_bit [THEN conjunct1]) simp

end
