(* ===== verification/At_Parse.thy ===== *)
theory At_Parse
  imports Proc_Net
begin

unbundle bit_operations_syntax

text \<open>
  The modem's text: framing of an answer (\<^verbatim>\<open>core/cellular/at_framing.cpp\<close>), the parsers of its reports
  (\<^verbatim>\<open>core/cellular/at_parse.cpp\<close>) and the LTE bands with their masks (\<^verbatim>\<open>core/cellular/band_plan.cpp\<close>). \<^verbatim>\<open>Maybe<T>\<close> is an option. \<open>lb\<close> is the
  number of bits of a C \<^verbatim>\<open>long\<close>, which decides what becomes of a number that does not fit.
\<close>

section \<open>Helpers\<close>

definition is_trim :: "char \<Rightarrow> bool" where
  "is_trim c \<longleftrightarrow> c = CHR '' '' \<or> c = CHR 0x09 \<or> c = CHR 0x0D \<or> c = CHR 0x0A"

definition trim :: "string \<Rightarrow> string" where
  "trim s = rev (dropWhile is_trim (rev (dropWhile is_trim s)))"

definition lines_of :: "string \<Rightarrow> string list" where
  "lines_of raw = map trim (split_nl raw)"

definition as_int :: "nat \<Rightarrow> string \<Rightarrow> int option" where
  "as_int lb field =
     (let s = trim field
      in if s = [] then None
         else let neg = (hd s = CHR ''-''); ds = (if neg \<or> hd s = CHR ''+'' then tl s else s)
              in if ds = [] then None
                 else if \<not> list_all is_digit ds then None
                 else Some (to_int32 (clamp_long lb (if neg then - int (dec_nat ds) else int (dec_nat ds)))))"

text \<open>The first run of digits of a field. A run too long for an \<^verbatim>\<open>int\<close> overflows in the code, which C leaves undefined; here it is
  the number it spells.\<close>

definition leading_number :: "string \<Rightarrow> int option" where
  "leading_number s =
     (let ds = takeWhile is_digit (dropWhile (\<lambda>c. \<not> is_digit c) s)
      in if ds = [] then None else Some (int (dec_nat ds)))"

text \<open>The text after the first occurrence of \<open>p\<close>.\<close>

fun after :: "string \<Rightarrow> string \<Rightarrow> string option" where
  "after p [] = (if p = [] then Some [] else None)"
| "after p (c # s) = (if take (length p) (c # s) = p then Some (drop (length p) (c # s)) else after p s)"

definition at_extract :: "string \<Rightarrow> string \<Rightarrow> string" where
  "at_extract raw prefix =
     (case after prefix raw of None \<Rightarrow> [] | Some rest \<Rightarrow> trim (takeWhile (\<lambda>c. c \<noteq> CHR 0x0A) rest))"

fun csv_loop :: "int \<Rightarrow> string \<Rightarrow> int \<Rightarrow> bool \<Rightarrow> string \<Rightarrow> string" where
  "csv_loop idx [] field quoted cur = (if field = idx then trim cur else [])"
| "csv_loop idx (c # cs) field quoted cur =
     (if c = CHR 0x22 then csv_loop idx cs field (\<not> quoted) cur
      else if c = CHR '','' \<and> \<not> quoted
      then (if field = idx then trim cur else csv_loop idx cs (field + 1) quoted [])
      else csv_loop idx cs field quoted (cur @ [c]))"

definition csv_field :: "string \<Rightarrow> int \<Rightarrow> string" where
  "csv_field line idx = csv_loop idx line 0 False []"

definition first_numeric_line :: "string \<Rightarrow> string" where
  "first_numeric_line raw =
     (case find (\<lambda>l. 6 \<le> length l \<and> list_all is_digit l) (lines_of raw) of None \<Rightarrow> [] | Some l \<Rightarrow> l)"

text \<open>\<open>s.find(p) != npos\<close>.\<close>

fun contains :: "string \<Rightarrow> string \<Rightarrow> bool" where
  "contains p [] \<longleftrightarrow> p = []"
| "contains p (c # s) \<longleftrightarrow> take (length p) (c # s) = p \<or> contains p s"

datatype sim_state = SimUnknown | SimReady | PinRequired | PukRequired | NotInserted | SimError

fun sim_state_name :: "sim_state \<Rightarrow> string" where
  "sim_state_name SimReady = ''ready''"
| "sim_state_name PinRequired = ''pin_required''"
| "sim_state_name PukRequired = ''puk_required''"
| "sim_state_name NotInserted = ''not_inserted''"
| "sim_state_name SimError = ''error''"
| "sim_state_name SimUnknown = ''unknown''"

definition parse_cpin :: "string \<Rightarrow> sim_state" where
  "parse_cpin raw =
     (if contains ''READY'' raw then SimReady
      else if contains ''SIM PUK2'' raw then SimUnknown
      else if contains ''SIM PIN2'' raw then SimUnknown
      else if contains ''SIM PUK'' raw then PukRequired
      else if contains ''SIM PIN'' raw then PinRequired
      else if contains ''CME ERROR'' raw then NotInserted
      else if raw = [] then SimUnknown
      else SimError)"

datatype reg_state = RegUnknown | NotRegistered | RegisteredHome | Searching | Denied | RegisteredRoaming

fun reg_state_name :: "reg_state \<Rightarrow> string" where
  "reg_state_name NotRegistered = ''not_registered''"
| "reg_state_name RegisteredHome = ''registered_home''"
| "reg_state_name Searching = ''searching''"
| "reg_state_name Denied = ''registration_denied''"
| "reg_state_name RegisteredRoaming = ''registered_roaming''"
| "reg_state_name RegUnknown = ''unknown''"

definition reg_is_registered :: "reg_state \<Rightarrow> bool" where
  "reg_is_registered s \<longleftrightarrow> s = RegisteredHome \<or> s = RegisteredRoaming"

section \<open>Framing\<close>

datatype at_result = AtPending | AtOk | AtError

definition starts_with :: "string \<Rightarrow> string \<Rightarrow> bool" where
  "starts_with s p \<longleftrightarrow> length p \<le> length s \<and> take (length p) s = p"

fun scan_lines :: "string list \<Rightarrow> at_result" where
  "scan_lines [] = AtPending"
| "scan_lines (l # ls) =
     (if l = [] then scan_lines ls
      else if l = ''OK'' then AtOk
      else if l = ''ERROR'' \<or> l = ''NO CARRIER'' \<or> l = ''NO ANSWER'' \<or> l = ''NO DIALTONE'' \<or> l = ''BUSY'' then AtError
      else if starts_with l ''+CME ERROR:'' \<or> starts_with l ''+CMS ERROR:'' then AtError
      else scan_lines ls)"

definition at_scan :: "string \<Rightarrow> at_result" where
  "at_scan buf = scan_lines (lines_of buf)"

fun payload_loop :: "string \<Rightarrow> string list \<Rightarrow> string \<Rightarrow> string" where
  "payload_loop cmd [] out = out"
| "payload_loop cmd (l # ls) out =
     (if l = [] then payload_loop cmd ls out
      else if cmd \<noteq> [] \<and> l = cmd then payload_loop cmd ls out
      else if l = ''OK'' \<or> l = ''ERROR'' then payload_loop cmd ls out
      else if starts_with l ''+CME ERROR:'' \<or> starts_with l ''+CMS ERROR:'' then payload_loop cmd ls out
      else payload_loop cmd ls ((if out \<noteq> [] then out @ [CHR 0x0A] else out) @ l))"

definition at_payload :: "string \<Rightarrow> string \<Rightarrow> string" where
  "at_payload buf command = payload_loop (trim command) (lines_of buf) []"

section \<open>Bands\<close>

record lte_band =
  lb_num :: int
  lb_mhz :: int
  lb_bit :: nat
  lb_tdd :: bool

definition lte_bands :: "lte_band list" where
  "lte_bands = map (\<lambda>(n, m, b, t). \<lparr>lb_num = n, lb_mhz = m, lb_bit = b, lb_tdd = t\<rparr>)
     [(1, 2100, 0, False), (3, 1800, 2, False), (5, 850, 4, False), (7, 2600, 6, False), (8, 900, 7, False), (20, 800, 19, False),
      (28, 700, 27, False), (38, 2600, 37, True), (40, 2300, 39, True), (41, 2500, 40, True)]"

definition lte_band_by_number :: "int \<Rightarrow> lte_band option" where
  "lte_band_by_number num = find (\<lambda>b. lb_num b = num) lte_bands"

definition lte_band_mhz :: "int \<Rightarrow> int" where
  "lte_band_mhz band = (case lte_band_by_number band of None \<Rightarrow> 0 | Some b \<Rightarrow> lb_mhz b)"

datatype net_mode = NetAuto | LteOnly | GsmOnly

fun net_mode_name :: "net_mode \<Rightarrow> string" where
  "net_mode_name LteOnly = ''lte''"
| "net_mode_name GsmOnly = ''gsm''"
| "net_mode_name NetAuto = ''auto''"

definition net_mode_parse :: "string \<Rightarrow> net_mode option" where
  "net_mode_parse s =
     (if s = ''auto'' then Some NetAuto else if s = ''lte'' then Some LteOnly else if s = ''gsm'' then Some GsmOnly else None)"

fun net_mode_nwscanmode :: "net_mode \<Rightarrow> int" where
  "net_mode_nwscanmode LteOnly = 3"
| "net_mode_nwscanmode GsmOnly = 1"
| "net_mode_nwscanmode NetAuto = 0"

definition net_mode_from_nwscanmode :: "int \<Rightarrow> net_mode option" where
  "net_mode_from_nwscanmode v =
     (if v = 0 then Some NetAuto else if v = 3 then Some LteOnly else if v = 1 then Some GsmOnly else None)"

datatype band_profile = BandAuto | BandMid | BandLow | BandCustom

fun band_profile_name :: "band_profile \<Rightarrow> string" where
  "band_profile_name BandMid = ''mid''"
| "band_profile_name BandLow = ''low''"
| "band_profile_name BandCustom = ''custom''"
| "band_profile_name BandAuto = ''auto''"

definition band_profile_parse :: "string \<Rightarrow> band_profile option" where
  "band_profile_parse s =
     (if s = ''auto'' then Some BandAuto else if s = ''mid'' then Some BandMid else if s = ''low'' then Some BandLow
      else if s = ''custom'' then Some BandCustom else None)"

definition bit_mask :: "nat \<Rightarrow> u64" where
  "bit_mask n = push_bit n 1"

definition all_supported_mask :: u64 where
  "all_supported_mask = foldl (\<lambda>m b. m OR bit_mask (lb_bit b)) 0 lte_bands"

fun profile_mask :: "band_profile \<Rightarrow> u64 \<Rightarrow> u64" where
  "profile_mask BandMid custom_mask = bit_mask 2"
| "profile_mask BandLow custom_mask = bit_mask 19 OR bit_mask 7 OR bit_mask 27 OR bit_mask 4"
| "profile_mask BandCustom custom_mask = custom_mask AND all_supported_mask"
| "profile_mask BandAuto custom_mask = all_supported_mask"

text \<open>\<open>Inl bad\<close> names the first unknown band.\<close>

fun mask_loop :: "int list \<Rightarrow> u64 \<Rightarrow> int + u64" where
  "mask_loop [] m = Inr m"
| "mask_loop (n # ns) m =
     (case lte_band_by_number n of None \<Rightarrow> Inl n | Some b \<Rightarrow> mask_loop ns (m OR bit_mask (lb_bit b)))"

definition mask_from_bands :: "int list \<Rightarrow> int + u64" where
  "mask_from_bands bands = mask_loop bands 0"

definition bands_from_mask :: "u64 \<Rightarrow> int list" where
  "bands_from_mask m = map lb_num (filter (\<lambda>b. m AND bit_mask (lb_bit b) \<noteq> 0) lte_bands)"

text \<open>\<^verbatim>\<open>%llx\<close>.\<close>

definition hex_char :: "nat \<Rightarrow> char" where
  "hex_char d = (if d < 10 then digit_char d else char_of (87 + d))"

fun nat_hex :: "nat \<Rightarrow> string" where
  "nat_hex n = (if n < 16 then [hex_char n] else nat_hex (n div 16) @ [hex_char (n mod 16)])"

declare nat_hex.simps [simp del]

definition mask_hex :: "u64 \<Rightarrow> string" where
  "mask_hex m = nat_hex (unat m)"

definition hex_nat :: "string \<Rightarrow> nat" where
  "hex_nat s = foldl (\<lambda>a c. a * 16 + (case hex_digit c of None \<Rightarrow> 0 | Some d \<Rightarrow> d)) 0 s"

definition drop_0x :: "string \<Rightarrow> string" where
  "drop_0x s = (if 2 < length s \<and> s ! 0 = CHR ''0'' \<and> (s ! 1 = CHR ''x'' \<or> s ! 1 = CHR ''X'') then drop 2 s else s)"

definition parse_mask_hex :: "string \<Rightarrow> u64 option" where
  "parse_mask_hex s =
     (let s = drop_0x (filter (\<lambda>c. c \<noteq> CHR '' '' \<and> c \<noteq> CHR 0x22 \<and> c \<noteq> CHR 0x09) s)
      in if s = [] \<or> 16 < length s then None
         else if list_ex (\<lambda>c. hex_digit c = None) s then None
         else Some (of_nat (hex_nat s)))"

record qcfg_band =
  qb_gsm :: "u64 option"
  qb_lte :: "u64 option"

definition parse_qcfg_band :: "string \<Rightarrow> qcfg_band" where
  "parse_qcfg_band raw =
     (let body = at_extract raw ''+QCFG:''
      in if body = [] \<or> csv_field body 0 \<noteq> ''band'' then \<lparr>qb_gsm = None, qb_lte = None\<rparr>
         else \<lparr>qb_gsm = parse_mask_hex (csv_field body 1), qb_lte = parse_mask_hex (csv_field body 2)\<rparr>)"

section \<open>Reports\<close>

record modem_identity =
  mi_manufacturer :: string
  mi_model :: string
  mi_firmware :: string

definition parse_ati :: "string \<Rightarrow> modem_identity" where
  "parse_ati raw =
     (let firmware = at_extract raw ''Revision:'';
          rest = dropWhile (\<lambda>l. \<not> contains ''Quectel'' l) (lines_of raw)
      in case rest of
           [] \<Rightarrow> \<lparr>mi_manufacturer = [], mi_model = [], mi_firmware = firmware\<rparr>
         | l # ls \<Rightarrow>
             \<lparr>mi_manufacturer = l,
              mi_model = (case dropWhile (\<lambda>k. k = []) ls of
                            [] \<Rightarrow> [] | k # ks \<Rightarrow> if take 9 k = ''Revision:'' then [] else k),
              mi_firmware = firmware\<rparr>)"

definition parse_cereg :: "nat \<Rightarrow> string \<Rightarrow> reg_state" where
  "parse_cereg lb raw =
     (let body = at_extract raw ''+CEREG:''
      in if body = [] then RegUnknown
         else case as_int lb (csv_field body 1) of
                None \<Rightarrow> RegUnknown
              | Some v \<Rightarrow> if v = 0 then NotRegistered else if v = 1 then RegisteredHome else if v = 2 then Searching
                          else if v = 3 then Denied else if v = 5 then RegisteredRoaming else RegUnknown)"

record signal_info =
  si_csq :: "int option"
  si_rssi_dbm :: "int option"

definition parse_csq :: "nat \<Rightarrow> string \<Rightarrow> signal_info" where
  "parse_csq lb raw =
     (let body = at_extract raw ''+CSQ:''; none = \<lparr>si_csq = None, si_rssi_dbm = None\<rparr>
      in if body = [] then none
         else case as_int lb (csv_field body 0) of
                None \<Rightarrow> none
              | Some v \<Rightarrow> if v = 99 \<or> v < 0 \<or> 31 < v then none
                          else \<lparr>si_csq = Some v, si_rssi_dbm = Some (- 113 + 2 * v)\<rparr>)"

record operator_info =
  oi_name :: string
  oi_act :: "int option"

definition parse_cops :: "nat \<Rightarrow> string \<Rightarrow> operator_info" where
  "parse_cops lb raw =
     (let body = at_extract raw ''+COPS:''
      in if body = [] then \<lparr>oi_name = [], oi_act = None\<rparr>
         else \<lparr>oi_name = csv_field body 2, oi_act = as_int lb (csv_field body 3)\<rparr>)"

record nw_info =
  ni_rat :: string
  ni_oper_code :: string
  ni_band :: string
  ni_channel :: "int option"

definition parse_qnwinfo :: "nat \<Rightarrow> string \<Rightarrow> nw_info" where
  "parse_qnwinfo lb raw =
     (let body = at_extract raw ''+QNWINFO:''
      in if body = [] then \<lparr>ni_rat = [], ni_oper_code = [], ni_band = [], ni_channel = None\<rparr>
         else \<lparr>ni_rat = csv_field body 0, ni_oper_code = csv_field body 1, ni_band = csv_field body 2,
               ni_channel = as_int lb (csv_field body 3)\<rparr>)"

record serving_cell =
  sc_state :: string
  sc_rat :: string
  sc_mcc :: string
  sc_mnc :: string
  sc_cell_id :: string
  sc_tac :: string
  sc_pci :: "int option"
  sc_earfcn :: "int option"
  sc_band :: "int option"
  sc_band_mhz :: "int option"
  sc_rsrp :: "int option"
  sc_rsrq :: "int option"
  sc_rssi :: "int option"
  sc_sinr :: "int option"

definition serving_cell0 :: serving_cell where
  "serving_cell0 = \<lparr>sc_state = [], sc_rat = [], sc_mcc = [], sc_mnc = [], sc_cell_id = [], sc_tac = [], sc_pci = None,
     sc_earfcn = None, sc_band = None, sc_band_mhz = None, sc_rsrp = None, sc_rsrq = None, sc_rssi = None, sc_sinr = None\<rparr>"

definition parse_qeng_servingcell :: "nat \<Rightarrow> string \<Rightarrow> serving_cell" where
  "parse_qeng_servingcell lb raw =
     (let body = at_extract raw ''+QENG:''
      in if body = [] then serving_cell0
         else if csv_field body 0 \<noteq> ''servingcell'' then serving_cell0
         else let band = leading_number (csv_field body 9)
              in \<lparr>sc_state = csv_field body 1, sc_rat = csv_field body 2, sc_mcc = csv_field body 4, sc_mnc = csv_field body 5,
                  sc_cell_id = csv_field body 6, sc_tac = csv_field body 12,
                  sc_pci = as_int lb (csv_field body 7), sc_earfcn = as_int lb (csv_field body 8), sc_band = band,
                  sc_band_mhz = (case band of None \<Rightarrow> None
                                 | Some b \<Rightarrow> if lte_band_mhz b \<noteq> 0 then Some (lte_band_mhz b) else None),
                  sc_rsrp = as_int lb (csv_field body 13), sc_rsrq = as_int lb (csv_field body 14),
                  sc_rssi = as_int lb (csv_field body 15), sc_sinr = as_int lb (csv_field body 16)\<rparr>)"

record pdp_address =
  pa_ipv4 :: string
  pa_ipv6 :: string

definition parse_cgpaddr :: "string \<Rightarrow> pdp_address" where
  "parse_cgpaddr raw =
     (let body = at_extract raw ''+CGPADDR:''; f1 = csv_field body 1; f2 = csv_field body 2
      in if body = [] then \<lparr>pa_ipv4 = [], pa_ipv6 = []\<rparr>
         else \<lparr>pa_ipv4 = (if f1 \<noteq> [] \<and> f1 \<noteq> ''0.0.0.0'' then f1 else []),
               pa_ipv6 = (if f2 \<noteq> [] \<and> f2 \<noteq> ''0.0.0.0'' then f2 else [])\<rparr>)"

text \<open>The parts between dots; an empty last part is not one.\<close>

fun dot_parts :: "string \<Rightarrow> string \<Rightarrow> string list" where
  "dot_parts [] cur = (if cur = [] then [] else [cur])"
| "dot_parts (c # cs) cur = (if c = CHR ''.'' then cur # dot_parts cs [] else dot_parts cs (cur @ [c]))"

definition join_dots :: "string list \<Rightarrow> string" where
  "join_dots parts = foldl (\<lambda>s p. (if s \<noteq> [] then s @ ''.'' else s) @ p) [] parts"

definition split_addr_mask :: "string \<Rightarrow> string \<times> string" where
  "split_addr_mask field =
     (let parts = dot_parts field []
      in if length parts = 8 then (join_dots (take 4 parts), join_dots (drop 4 parts))
         else if length parts = 4 then (join_dots parts, [])
         else ([], []))"

record pdp_context_params =
  pc_apn :: string
  pc_ipv4 :: string
  pc_netmask :: string
  pc_gateway :: string
  pc_dns1 :: string
  pc_dns2 :: string

definition pdp_context_params0 :: pdp_context_params where
  "pdp_context_params0 = \<lparr>pc_apn = [], pc_ipv4 = [], pc_netmask = [], pc_gateway = [], pc_dns1 = [], pc_dns2 = []\<rparr>"

definition parse_cgcontrdp :: "string \<Rightarrow> pdp_context_params" where
  "parse_cgcontrdp raw =
     (let body = at_extract raw ''+CGCONTRDP:''
      in if body = [] then pdp_context_params0
         else let (addr, msk) = split_addr_mask (csv_field body 3); gw = csv_field body 4
              in \<lparr>pc_apn = csv_field body 2, pc_ipv4 = (if addr = ''0.0.0.0'' then [] else addr), pc_netmask = msk,
                  pc_gateway = (if gw = ''0.0.0.0'' then [] else gw), pc_dns1 = csv_field body 5, pc_dns2 = csv_field body 6\<rparr>)"

record neighbour_cell =
  nc_kind :: string
  nc_rat :: string
  nc_earfcn :: "int option"
  nc_pci :: "int option"
  nc_rsrq :: "int option"
  nc_rsrp :: "int option"
  nc_rssi :: "int option"
  nc_sinr :: "int option"

definition neighbour_of :: "nat \<Rightarrow> string \<Rightarrow> neighbour_cell option" where
  "neighbour_of lb l =
     (if take 6 l \<noteq> ''+QENG:'' then None
      else let body = trim (drop 6 l); what = csv_field body 0
           in if take 13 what \<noteq> ''neighbourcell'' then None
              else let rat = csv_field body 1; lte = (rat = ''LTE'')
                   in Some \<lparr>nc_kind = (if contains ''intra'' what then ''intra'' else if contains ''inter'' what then ''inter'' else []),
                            nc_rat = rat, nc_earfcn = as_int lb (csv_field body 2),
                            nc_pci = (if lte then as_int lb (csv_field body 3) else None),
                            nc_rsrq = (if lte then as_int lb (csv_field body 4) else None),
                            nc_rsrp = (if lte then as_int lb (csv_field body 5) else None),
                            nc_rssi = (if lte then as_int lb (csv_field body 6) else as_int lb (csv_field body 4)),
                            nc_sinr = (if lte then as_int lb (csv_field body 7) else None)\<rparr>)"

definition parse_qeng_neighbours :: "nat \<Rightarrow> string \<Rightarrow> neighbour_cell list" where
  "parse_qeng_neighbours lb raw = somes (map (neighbour_of lb) (lines_of raw))"

definition parse_clck :: "nat \<Rightarrow> string \<Rightarrow> int option" where
  "parse_clck lb raw =
     (let body = at_extract raw ''+CLCK:''
      in if body = [] then None
         else case as_int lb (csv_field body 0) of None \<Rightarrow> None | Some v \<Rightarrow> if v \<noteq> 0 \<and> v \<noteq> 1 then None else Some v)"

record pin_counters =
  pin_left :: "int option"
  puk_left :: "int option"

definition parse_qpinc :: "nat \<Rightarrow> string \<Rightarrow> pin_counters" where
  "parse_qpinc lb raw =
     (let body = at_extract raw ''+QPINC:''
      in if body = [] then \<lparr>pin_left = None, puk_left = None\<rparr>
         else if csv_field body 0 \<noteq> ''SC'' then \<lparr>pin_left = None, puk_left = None\<rparr>
         else \<lparr>pin_left = as_int lb (csv_field body 1), puk_left = as_int lb (csv_field body 2)\<rparr>)"

definition parse_qcfg_int :: "nat \<Rightarrow> string \<Rightarrow> string \<Rightarrow> int option" where
  "parse_qcfg_int lb raw name =
     (let body = at_extract raw ''+QCFG:''
      in if body = [] then None else if csv_field body 0 \<noteq> name then None else as_int lb (csv_field body 1))"


section \<open>Lemmas\<close>

subsection \<open>Fields\<close>

lemma trim_id: "s = [] \<or> \<not> is_trim (hd s) \<and> \<not> is_trim (last s) \<Longrightarrow> trim s = s"
proof (cases s)
  case (Cons c cs)
  assume "s = [] \<or> \<not> is_trim (hd s) \<and> \<not> is_trim (last s)"
  with Cons have c: "\<not> is_trim c" "\<not> is_trim (last s)" by simp_all
  then have "dropWhile is_trim s = s" by (simp add: Cons)
  moreover have "dropWhile is_trim (rev s) = rev s"
    using c(2) hd_rev [of s] by (cases "rev s") (auto simp: Cons)
  ultimately show ?thesis by (simp add: trim_def)
qed (simp add: trim_def)

lemma trim_clean: "\<forall>c \<in> set s. \<not> is_trim c \<Longrightarrow> trim s = s"
  by (rule trim_id) (cases s; auto)

lemma trim_pad:
  assumes "s \<noteq> []" "\<not> is_trim (hd s)" "\<not> is_trim (last s)" "\<forall>c \<in> set a. is_trim c" "\<forall>c \<in> set b. is_trim c"
  shows "trim (a @ s @ b) = s"
proof -
  have "dropWhile is_trim (a @ s @ b) = s @ b" using assms(1,2,4) by (cases s) (simp_all add: dropWhile_append2)
  moreover have "dropWhile is_trim (rev b @ rev s) = rev s"
    using assms(1,3,5) dropWhile_append2 [of "rev b" is_trim "rev s"] by (cases s rule: rev_cases) auto
  ultimately show ?thesis by (simp add: trim_def)
qed

lemma trim_hd: "trim s = s \<Longrightarrow> s \<noteq> [] \<Longrightarrow> \<not> is_trim (hd s)"
proof
  assume s: "trim s = s" "s \<noteq> []" "is_trim (hd s)"
  have "length (trim s) \<le> length (dropWhile is_trim s)"
    unfolding trim_def length_rev by (rule order_trans [OF length_dropWhile_le]) simp
  also have "\<dots> < length s" using s(2,3) length_dropWhile_le [of is_trim "tl s"] by (cases s) auto
  finally show False using s(1) by simp
qed

text \<open>A line of fields, each bare or in quotation marks; what \<open>csv_field\<close> reads back.\<close>

definition item_text :: "bool \<times> string \<Rightarrow> string" where
  "item_text i = (if fst i then CHR 0x22 # snd i @ [CHR 0x22] else snd i)"

definition item_ok :: "bool \<times> string \<Rightarrow> bool" where
  "item_ok i \<longleftrightarrow> CHR 0x22 \<notin> set (snd i) \<and> (fst i \<or> CHR '','' \<notin> set (snd i))"

fun csv_text :: "(bool \<times> string) list \<Rightarrow> string" where
  "csv_text [] = []"
| "csv_text [i] = item_text i"
| "csv_text (i # is) = item_text i @ CHR '','' # csv_text is"

lemma csv_loop_plain:
  "CHR 0x22 \<notin> set s \<Longrightarrow> quoted \<or> CHR '','' \<notin> set s \<Longrightarrow>
     csv_loop idx (s @ rest) field quoted cur = csv_loop idx rest field quoted (cur @ s)"
  by (induction s arbitrary: cur) auto

lemma csv_loop_item:
  "item_ok i \<Longrightarrow> csv_loop idx (item_text i @ rest) field False cur = csv_loop idx rest field False (cur @ snd i)"
  by (auto simp: item_ok_def item_text_def csv_loop_plain)

lemma csv_loop_text:
  "list_all item_ok is \<Longrightarrow> n < length is \<Longrightarrow> csv_loop (field + int n) (csv_text is) field False [] = trim (snd (is ! n))"
proof (induction "is" arbitrary: n field rule: csv_text.induct)
  case (2 i)
  then show ?case using csv_loop_item [of i "field" "[]" field "[]"] by simp
next
  case (3 i j js)
  show ?case
  proof (cases n)
    case 0
    with 3 show ?thesis by (simp add: csv_loop_item)
  next
    case (Suc k)
    with 3 "3.IH" [of k "field + 1"] show ?thesis by (simp add: csv_loop_item add.assoc)
  qed
qed simp

theorem csv_field_text:
  "list_all item_ok is \<Longrightarrow> n < length is \<Longrightarrow> csv_field (csv_text is) (int n) = trim (snd (is ! n))"
  using csv_loop_text [of "is" n 0] by (simp add: csv_field_def)

lemma digit_plain: "is_digit c \<Longrightarrow> \<not> is_trim c \<and> c \<noteq> CHR ''-'' \<and> c \<noteq> CHR ''+'' \<and> c \<noteq> CHR ''.'' \<and> c \<noteq> CHR 0x22 \<and> c \<noteq> CHR '',''"
  by (auto simp: is_digit_def is_trim_def)

lemma as_int_int_dec:
  assumes "32 \<le> lb" "- (2 ^ 31) \<le> v" "v < 2 ^ 31"
  shows "as_int lb (int_dec v) = Some v"
proof -
  have "(2::int) ^ 31 \<le> 2 ^ (lb - 1)" using assms(1) by (intro power_increasing) auto
  then have "clamp_long lb v = v" using assms(2,3) by (simp add: clamp_long_def max_def min_def)
  moreover have "to_int32 v = v" using assms(2,3) by (simp add: to_int32_def sint_sbintrunc' signed_take_bit_int_eq_self)
  moreover have digits: "\<forall>c \<in> set (nat_dec n). \<not> is_trim c \<and> c \<noteq> CHR ''-'' \<and> c \<noteq> CHR ''+''" for n
    using nat_dec_digits [of _ n] digit_plain by blast
  moreover have "trim (int_dec v) = int_dec v"
    by (rule trim_clean) (use digits in \<open>auto simp: int_dec_def is_trim_def\<close>)
  moreover have "hd (nat_dec n) \<noteq> CHR ''-'' \<and> hd (nat_dec n) \<noteq> CHR ''+''" for n using digits [of n] by (simp add: hd_in_set)
  ultimately show ?thesis by (auto simp: as_int_def int_dec_def Let_def)
qed

subsection \<open>Masks\<close>

lemma bit_bit_mask [simp]: "bit (bit_mask n) i \<longleftrightarrow> i = n \<and> n < 64"
proof -
  have "bit (push_bit n (1 :: u64)) i \<longleftrightarrow> i = n \<and> n < 64"
    unfolding bit_push_bit_iff bit_1_iff by auto
  then show ?thesis by (simp add: bit_mask_def)
qed

lemma and_bit_mask: "n < 64 \<Longrightarrow> m AND bit_mask n \<noteq> 0 \<longleftrightarrow> bit m n"
  using bit_eq_iff [of "m AND bit_mask n" 0] by (auto simp: bit_and_iff)

lemma bands_in_word: "b \<in> set lte_bands \<Longrightarrow> lb_bit b < 64"
  by (auto simp: lte_bands_def)

lemma lte_band_by_number_num: "b \<in> set lte_bands \<Longrightarrow> lte_band_by_number (lb_num b) = Some b"
  by (auto simp: lte_bands_def lte_band_by_number_def)

lemma lte_band_by_number_SomeD: "lte_band_by_number n = Some b \<Longrightarrow> b \<in> set lte_bands \<and> lb_num b = n"
  using find_SomeD [of "\<lambda>b. lb_num b = n" lte_bands b] by (simp add: lte_band_by_number_def)

lemma bit_of_num: "b \<in> set lte_bands \<Longrightarrow> c \<in> set lte_bands \<Longrightarrow> lb_bit b = lb_bit c \<longleftrightarrow> lb_num b = lb_num c"
  by (auto simp: lte_bands_def)

lemma bit_foldl_mask:
  "bit (foldl (\<lambda>m b. m OR bit_mask (lb_bit b)) a bs) i \<longleftrightarrow> bit a i \<or> (\<exists>b \<in> set bs. i = lb_bit b \<and> i < 64)"
  by (induction bs arbitrary: a) (auto simp: bit_or_iff)

lemma mask_loop_InrD:
  "mask_loop ns m = Inr m' \<Longrightarrow>
     \<exists>bs. set bs \<subseteq> set lte_bands \<and> ns = map lb_num bs \<and> m' = foldl (\<lambda>m b. m OR bit_mask (lb_bit b)) m bs"
proof (induction ns arbitrary: m)
  case (Cons n ns)
  then obtain b where b: "lte_band_by_number n = Some b" "mask_loop ns (m OR bit_mask (lb_bit b)) = Inr m'"
    by (auto split: option.splits)
  from Cons.IH [OF b(2)] obtain bs where
    "set bs \<subseteq> set lte_bands" "ns = map lb_num bs" "m' = foldl (\<lambda>m b. m OR bit_mask (lb_bit b)) (m OR bit_mask (lb_bit b)) bs"
    by blast
  with lte_band_by_number_SomeD [OF b(1)] show ?case by (intro exI [of _ "b # bs"]) simp
qed simp

lemma mask_loop_bands:
  "set bs \<subseteq> set lte_bands \<Longrightarrow> mask_loop (map lb_num bs) m = Inr (foldl (\<lambda>m b. m OR bit_mask (lb_bit b)) m bs)"
  by (induction bs arbitrary: m) (simp_all add: lte_band_by_number_num)

lemma mask_loop_Inl: "mask_loop ns m = Inl n \<Longrightarrow> n \<in> set ns \<and> n \<notin> lb_num ` set lte_bands"
  by (induction ns arbitrary: m) (auto simp: lte_band_by_number_num split: option.splits)

lemma mask_bits:
  assumes "mask_from_bands ns = Inr m"
  shows "set ns \<subseteq> lb_num ` set lte_bands" "bit m i \<longleftrightarrow> (\<exists>b \<in> set lte_bands. lb_num b \<in> set ns \<and> i = lb_bit b)"
proof -
  from assms obtain bs where bs: "set bs \<subseteq> set lte_bands" "ns = map lb_num bs" "m = foldl (\<lambda>m b. m OR bit_mask (lb_bit b)) 0 bs"
    unfolding mask_from_bands_def using mask_loop_InrD by blast
  then show "set ns \<subseteq> lb_num ` set lte_bands" by auto
  have same: "b = c" if "b \<in> set lte_bands" "c \<in> set bs" "lb_num b = lb_num c" for b c
    using lte_band_by_number_num [OF that(1)] lte_band_by_number_num [of c] that bs(1) by auto
  have "bit m i \<longleftrightarrow> (\<exists>b \<in> set bs. i = lb_bit b)" using bs(1) bands_in_word by (auto simp: bs(3) bit_foldl_mask)
  also have "\<dots> \<longleftrightarrow> (\<exists>b \<in> set lte_bands. lb_num b \<in> set ns \<and> i = lb_bit b)"
    using bs(1) same by (fastforce simp: bs(2))
  finally show "bit m i \<longleftrightarrow> (\<exists>b \<in> set lte_bands. lb_num b \<in> set ns \<and> i = lb_bit b)" .
qed

lemma set_bands_from_mask: "set (bands_from_mask m) = {lb_num b | b. b \<in> set lte_bands \<and> bit m (lb_bit b)}"
  by (auto simp: bands_from_mask_def and_bit_mask bands_in_word)

lemma bands_of_mask: "mask_from_bands ns = Inr m \<Longrightarrow> set (bands_from_mask m) = set ns"
proof -
  assume m: "mask_from_bands ns = Inr m"
  have "bit m (lb_bit b) \<longleftrightarrow> lb_num b \<in> set ns" if "b \<in> set lte_bands" for b
    using mask_bits(2) [OF m] that bit_of_num by metis
  with mask_bits(1) [OF m] show ?thesis by (auto simp: set_bands_from_mask)
qed

lemma all_supported_bit: "bit all_supported_mask i \<longleftrightarrow> (\<exists>b \<in> set lte_bands. i = lb_bit b)"
  using bands_in_word by (auto simp: all_supported_mask_def bit_foldl_mask)

lemma mask_of_bands: "mask_from_bands (bands_from_mask m) = Inr (m AND all_supported_mask)"
proof -
  let ?bs = "filter (\<lambda>b. m AND bit_mask (lb_bit b) \<noteq> 0) lte_bands"
  have "mask_from_bands (bands_from_mask m) = Inr (foldl (\<lambda>m b. m OR bit_mask (lb_bit b)) 0 ?bs)"
    unfolding mask_from_bands_def bands_from_mask_def by (rule mask_loop_bands) auto
  moreover have "foldl (\<lambda>m b. m OR bit_mask (lb_bit b)) 0 ?bs = m AND all_supported_mask"
    using bands_in_word and_bit_mask [of _ m] by (intro bit_eqI) (auto simp: bit_foldl_mask bit_and_iff all_supported_bit)
  ultimately show ?thesis by simp
qed

subsection \<open>Hexadecimal\<close>

lemma hex_digit_hex_char [simp]: "d < 16 \<Longrightarrow> hex_digit (hex_char d) = Some d"
  by (auto simp: hex_digit_def hex_char_def digit_char_def Let_def)

lemma hex_char_plain: "d < 16 \<Longrightarrow> hex_char d \<noteq> CHR '' '' \<and> hex_char d \<noteq> CHR 0x22 \<and> hex_char d \<noteq> CHR 0x09 \<and> hex_char d \<noteq> CHR ''x''
    \<and> hex_char d \<noteq> CHR ''X''"
  using hex_digit_hex_char [of d] by (auto simp del: hex_digit_hex_char simp: hex_digit_def Let_def)

lemma nat_hex_chars: "c \<in> set (nat_hex n) \<Longrightarrow> \<exists>d < 16. c = hex_char d"
proof (induction n rule: nat_hex.induct)
  case (1 n)
  show ?case
  proof (cases "c = hex_char (n mod 16)")
    case True
    then show ?thesis by (intro exI [of _ "n mod 16"]) simp
  next
    case False
    with 1 show ?thesis by (cases "n < 16") (auto simp: nat_hex.simps [of n])
  qed
qed

lemma hex_nat_nat_hex [simp]: "hex_nat (nat_hex n) = n"
proof (induction n rule: nat_hex.induct)
  case (1 n)
  show ?case
  proof (cases "n < 16")
    case True
    then show ?thesis by (simp add: nat_hex.simps [of n] hex_nat_def)
  next
    case False
    then have "hex_nat (nat_hex n) = hex_nat (nat_hex (n div 16)) * 16 + n mod 16"
      by (simp add: nat_hex.simps [of n] hex_nat_def)
    with "1.IH" [OF False] show ?thesis by simp
  qed
qed

lemma length_nat_hex: "n < 16 ^ Suc k \<Longrightarrow> length (nat_hex n) \<le> Suc k"
proof (induction k arbitrary: n)
  case (Suc k)
  then have "n div 16 < 16 ^ Suc k" by (simp add: less_mult_imp_div_less)
  from Suc.IH [OF this] show ?case by (simp add: nat_hex.simps [of n])
qed (simp add: nat_hex.simps)

lemma nat_hex_not_Nil [simp]: "nat_hex n \<noteq> []"
  by (simp add: nat_hex.simps)

lemma parse_mask_hex_mask_hex: "parse_mask_hex (mask_hex m) = Some m"
proof -
  let ?s = "nat_hex (unat m)"
  note chars = nat_hex_chars [of _ "unat m"]
  have f: "filter (\<lambda>c. c \<noteq> CHR '' '' \<and> c \<noteq> CHR 0x22 \<and> c \<noteq> CHR 0x09) ?s = ?s"
    using chars hex_char_plain by (fastforce intro: filter_True)
  have "?s ! 1 \<noteq> CHR ''x'' \<and> ?s ! 1 \<noteq> CHR ''X''" if "2 < length ?s"
    using chars [OF nth_mem, of 1] that hex_char_plain by fastforce
  then have d: "drop_0x ?s = ?s" by (auto simp: drop_0x_def)
  have "unat m < 16 ^ Suc 15" using unsigned_less [of m] by simp
  from length_nat_hex [OF this] have l: "length ?s \<le> 16" by simp
  have "\<not> list_ex (\<lambda>c. hex_digit c = None) ?s" using chars by (fastforce simp: list_ex_iff)
  with f d l show ?thesis by (simp add: parse_mask_hex_def mask_hex_def Let_def)
qed

subsection \<open>Addresses\<close>

definition dotted :: "nat list \<Rightarrow> string" where
  "dotted ns = join_dots (map nat_dec ns)"

lemma dot_parts_plain: "CHR ''.'' \<notin> set s \<Longrightarrow> dot_parts (s @ rest) cur = dot_parts rest (cur @ s)"
  by (induction s arbitrary: cur) auto

lemma join_dots_Cons:
  assumes "p \<noteq> []" "\<forall>q \<in> set ps. q \<noteq> []"
  shows "join_dots (p # ps) = p @ concat (map (\<lambda>q. ''.'' @ q) ps)"
proof -
  have "s \<noteq> [] \<Longrightarrow> foldl (\<lambda>s p. (if s \<noteq> [] then s @ ''.'' else s) @ p) s ps = s @ concat (map (\<lambda>q. ''.'' @ q) ps)" for s
    using assms(2) by (induction ps arbitrary: s) auto
  from this [OF assms(1)] show ?thesis by (simp add: join_dots_def)
qed

lemma dot_parts_join:
  assumes "ps \<noteq> []" "\<forall>p \<in> set ps. p \<noteq> [] \<and> CHR ''.'' \<notin> set p"
  shows "dot_parts (join_dots ps) [] = ps"
  using assms
proof (induction ps)
  case (Cons p ps)
  show ?case
  proof (cases ps)
    case Nil
    with Cons.prems show ?thesis using dot_parts_plain [of p "[]" "[]"] by (simp add: join_dots_def)
  next
    case (Cons q qs)
    have "join_dots (p # ps) = p @ ''.'' @ join_dots ps"
      using Cons.prems join_dots_Cons [of p ps] join_dots_Cons [of q qs] by (simp add: Cons)
    with Cons.prems Cons.IH Cons show ?thesis by (simp add: dot_parts_plain)
  qed
qed simp

lemma nat_dec_part: "nat_dec n \<noteq> [] \<and> CHR ''.'' \<notin> set (nat_dec n)"
  using nat_dec_digits digit_plain by auto

lemma join_dots_append:
  "ps \<noteq> [] \<Longrightarrow> qs \<noteq> [] \<Longrightarrow> \<forall>p \<in> set (ps @ qs). p \<noteq> [] \<Longrightarrow> join_dots ps @ ''.'' @ join_dots qs = join_dots (ps @ qs)"
  by (cases ps; cases qs) (auto simp: join_dots_Cons)

lemma split_addr_mask_dotted:
  assumes "length a = 4" "length m = 4"
  shows "split_addr_mask (dotted a @ ''.'' @ dotted m) = (dotted a, dotted m)" "split_addr_mask (dotted a) = (dotted a, [])"
proof -
  have ne: "map nat_dec a \<noteq> []" "map nat_dec m \<noteq> []" "[] \<noteq> nat_dec n" for n using assms nat_dec_not_Nil [of n] by (auto simp del: nat_dec_not_Nil)
  have "dotted a @ ''.'' @ dotted m = join_dots (map nat_dec a @ map nat_dec m)"
    unfolding dotted_def by (rule join_dots_append) (use ne in auto)
  moreover have "dot_parts (join_dots (map nat_dec a @ map nat_dec m)) [] = map nat_dec a @ map nat_dec m"
    by (rule dot_parts_join) (use ne nat_dec_part in auto)
  ultimately show "split_addr_mask (dotted a @ ''.'' @ dotted m) = (dotted a, dotted m)"
    using assms by (simp add: split_addr_mask_def Let_def dotted_def)
  have "dot_parts (dotted a) [] = map nat_dec a"
    unfolding dotted_def by (rule dot_parts_join) (use ne nat_dec_part in auto)
  then show "split_addr_mask (dotted a) = (dotted a, [])" using assms by (simp add: split_addr_mask_def Let_def dotted_def)
qed

lemma dotted_chars: "c \<in> set (dotted ns) \<Longrightarrow> is_digit c \<or> c = CHR ''.''"
proof (cases ns)
  case (Cons n ns')
  assume "c \<in> set (dotted ns)"
  then show ?thesis using nat_dec_digits by (auto simp: Cons dotted_def join_dots_Cons split: if_splits)
qed (simp add: dotted_def join_dots_def)

section \<open>Framing\<close>

text \<open>An answer that is complete stays complete and keeps its meaning when more lines follow.\<close>

lemma split_nl_not_Nil: "split_nl a \<noteq> []"
  by (induction a) (auto split: list.splits)

lemma split_nl_append_nl: "split_nl (a @ CHR 0x0A # b) = split_nl a @ split_nl b"
proof (induction a)
  case (Cons c a)
  obtain l ls where "split_nl a = l # ls" using split_nl_not_Nil [of a] by (cases "split_nl a") auto
  with Cons show ?case by simp
qed simp

lemma scan_lines_append: "scan_lines xs \<noteq> AtPending \<Longrightarrow> scan_lines (xs @ ys) = scan_lines xs"
proof (induction xs)
  case (Cons l ls)
  then show ?case unfolding append_Cons scan_lines.simps by (auto split: if_splits)
qed simp

lemma at_scan_stable: "at_scan a \<noteq> AtPending \<Longrightarrow> at_scan (a @ CHR 0x0A # b) = at_scan a"
  by (simp add: at_scan_def lines_of_def split_nl_append_nl scan_lines_append)

section \<open>Properties\<close>

text \<open>The modem's report of a context is read as it is meant: whatever the APN (commas included), the four octets of the address and the four of
  the mask that 3GPP puts into one list are taken apart, the gateway and both name servers are found in their columns, and an address or a
  gateway of zeros counts as none.\<close>

theorem cgcontrdp_reads_context:
  assumes "length addr = 4" "length msk = 4" "length gw = 4"
    and "CHR 0x22 \<notin> set apn" "trim apn = apn" "CHR 0x0A \<notin> set apn"
    and "list_all (\<lambda>s. CHR 0x22 \<notin> set s \<and> CHR '','' \<notin> set s \<and> CHR 0x0A \<notin> set s \<and> trim s = s) [cid, bearer, dns1, dns2]"
  shows "parse_cgcontrdp (''+CGCONTRDP: '' @ csv_text [(False, cid), (False, bearer), (True, apn),
           (True, dotted addr @ ''.'' @ dotted msk), (True, dotted gw), (True, dns1), (True, dns2)] @ [CHR 0x0D, CHR 0x0A] @ rest)
       = \<lparr>pc_apn = apn, pc_ipv4 = (if dotted addr = ''0.0.0.0'' then [] else dotted addr), pc_netmask = dotted msk,
          pc_gateway = (if dotted gw = ''0.0.0.0'' then [] else dotted gw), pc_dns1 = dns1, pc_dns2 = dns2\<rparr>"
proof -
  let ?is = "[(False, cid), (False, bearer), (True, apn), (True, dotted addr @ ''.'' @ dotted msk), (True, dotted gw), (True, dns1), (True, dns2)]"
  have dc: "is_trim c \<or> c = CHR 0x22 \<or> c = CHR '','' \<Longrightarrow> c \<notin> set (dotted ns)" for c ns
    using dotted_chars [of c ns] digit_plain [of c] by (auto simp: is_trim_def)
  then have dt: "trim (dotted ns) = dotted ns" "trim (dotted ns @ ''.'' @ dotted ks) = dotted ns @ ''.'' @ dotted ks" for ns ks
    by (intro trim_clean; auto simp: is_trim_def)+
  have ok: "list_all item_ok ?is" using assms(4,7) dc by (auto simp: item_ok_def)
  have nl: "CHR 0x0A \<notin> set (csv_text ?is)"
    using assms(6,7) dc [of "CHR 0x0A"] by (auto simp: item_text_def is_trim_def)
  have body: "at_extract (''+CGCONTRDP: '' @ csv_text ?is @ [CHR 0x0D, CHR 0x0A] @ rest) ''+CGCONTRDP:''
      = trim (CHR '' '' # csv_text ?is @ [CHR 0x0D])"
    using nl by (simp add: at_extract_def takeWhile_append is_trim_def)
  have "trim ('' '' @ csv_text ?is @ [CHR 0x0D]) = csv_text ?is"
    by (rule trim_pad) (use assms(7) trim_hd [of cid] in \<open>auto simp: item_text_def is_trim_def hd_append\<close>)
  with body have ext: "at_extract (''+CGCONTRDP: '' @ csv_text ?is @ [CHR 0x0D, CHR 0x0A] @ rest) ''+CGCONTRDP:'' = csv_text ?is"
    by simp
  note f = csv_field_text [OF ok]
  have fields: "csv_field (csv_text ?is) 2 = apn" "csv_field (csv_text ?is) 3 = dotted addr @ ''.'' @ dotted msk"
    "csv_field (csv_text ?is) 4 = dotted gw" "csv_field (csv_text ?is) 5 = dns1" "csv_field (csv_text ?is) 6 = dns2"
    using f [of 2] f [of 3] f [of 4] f [of 5] f [of 6] assms(5,7) dt
    by (simp_all add: numeral_nat del: csv_text.simps)
  have "csv_text ?is \<noteq> []" by (simp add: item_text_def)
  then show ?thesis
    unfolding parse_cgcontrdp_def ext Let_def fields split_addr_mask_dotted(1) [OF assms(1,2)] by simp
qed

theorem cgcontrdp_reads_context_witness:
  "parse_cgcontrdp (''+CGCONTRDP: '' @ csv_text [(False, ''1''), (False, ''5''), (True, ''internet''),
       (True, dotted [10, 9, 2, 3] @ ''.'' @ dotted [255, 255, 255, 0]), (True, dotted [10, 9, 2, 4]), (True, ''9.9.9.9''), (True, [])]
       @ [CHR 0x0D, CHR 0x0A] @ ''OK'')
   = \<lparr>pc_apn = ''internet'', pc_ipv4 = ''10.9.2.3'', pc_netmask = ''255.255.255.0'', pc_gateway = ''10.9.2.4'',
      pc_dns1 = ''9.9.9.9'', pc_dns2 = []\<rparr>"
proof -
  have t: "trim ''internet'' = ''internet''" "trim ''1'' = ''1''" "trim ''5'' = ''5''" "trim ''9.9.9.9'' = ''9.9.9.9''" "trim [] = []"
    and d: "dotted [10, 9, 2, 3] = ''10.9.2.3''" "dotted [255, 255, 255, 0] = ''255.255.255.0''" "dotted [10, 9, 2, 4] = ''10.9.2.4''"
    by code_simp+
  show ?thesis
    using cgcontrdp_reads_context [of "[10, 9, 2, 3]" "[255, 255, 255, 0]" "[10, 9, 2, 4]" "''internet''" "''1''" "''5''" "''9.9.9.9''" "[]" "''OK''"]
    by (simp add: t d del: csv_text.simps)
qed

text \<open>What the owner selects is what the modem is told, and what the modem reports is what is shown. A selection of bands becomes a mask exactly
  when every band is one the modem has; the first one it does not have is named; the mask, printed for the modem and read back from its
  report, is the same; and the bands shown for it are the ones selected. A mask with foreign bits is shown by its known bands.\<close>

theorem band_masks_roundtrip:
  "(case mask_from_bands bands of
      Inl bad \<Rightarrow> bad \<in> set bands \<and> lte_band_by_number bad = None
    | Inr m \<Rightarrow> set (bands_from_mask m) = set bands \<and> parse_mask_hex (mask_hex m) = Some m \<and> profile_mask BandCustom m = m)
   \<and> mask_from_bands (bands_from_mask m') = Inr (m' AND all_supported_mask)"
proof (cases "mask_from_bands bands")
  case (Inl bad)
  then have "bad \<in> set bands" "bad \<notin> lb_num ` set lte_bands" using mask_loop_Inl [of bands 0 bad] by (simp_all add: mask_from_bands_def)
  then have "bad \<in> set bands \<and> lte_band_by_number bad = None" using lte_band_by_number_SomeD [of bad] by (cases "lte_band_by_number bad") auto
  with Inl show ?thesis by (simp add: mask_of_bands)
next
  case (Inr m)
  have "m AND all_supported_mask = m"
    using mask_bits(2) [OF Inr] by (intro bit_eqI) (auto simp: bit_and_iff all_supported_bit)
  with Inr show ?thesis by (simp add: mask_of_bands bands_of_mask parse_mask_hex_mask_hex)
qed

end
