(* ===== verification/Cellular.thy ===== *)
theory Cellular
  imports At_Parse
begin

text \<open>
  The vocabulary of the cellular components: one AT exchange (\<^verbatim>\<open>ports/iat_transport.hpp\<close>), the configuration and status a data link reads
  (\<^verbatim>\<open>cellular_config.hpp\<close>, \<^verbatim>\<open>cellular_status.hpp\<close>), the states of a data link and the retry curve both
  links share (\<^verbatim>\<open>ecm_link.hpp\<close>, \<^verbatim>\<open>ecm_link.cpp\<close>). The data link contract \<^verbatim>\<open>ICellularDataLink\<close> is the locale \<open>data_link\<close>.
\<close>

section \<open>The modem\<close>

record at_exchange =
  ax_result :: at_result
  ax_payload :: string
  ax_raw :: string
  ax_timed_out :: bool
  ax_device_gone :: bool

definition ax_ok :: "at_exchange \<Rightarrow> bool" where
  "ax_ok x \<longleftrightarrow> ax_result x = AtOk"

text \<open>
  The port \<^verbatim>\<open>IAtTransport\<close> as the components that share it see it: every command with what was answered, and every reading of
  the clock, in order. The environment answers by position in that log.
\<close>

datatype at_call = Cmd string int at_exchange | Clock u64

type_synonym at_log = "at_call list"

record at_env =
  ae_lb :: nat
  ae_available :: bool
  ae_at :: "nat \<Rightarrow> at_exchange"
  ae_now :: "nat \<Rightarrow> u64"

definition at_command :: "at_env \<Rightarrow> string \<Rightarrow> int \<Rightarrow> at_log \<Rightarrow> at_exchange \<times> at_log" where
  "at_command env cmd timeout log = (ae_at env (length log), log @ [Cmd cmd timeout (ae_at env (length log))])"

definition read_clock :: "at_env \<Rightarrow> at_log \<Rightarrow> u64 \<times> at_log" where
  "read_clock env log = (ae_now env (length log), log @ [Clock (ae_now env (length log))])"

section \<open>Configuration and status\<close>

datatype pdp_type = Ipv4 | Ipv4v6

datatype auth_mode = AuthNone | Pap | Chap

definition pdp_type_name :: "pdp_type \<Rightarrow> string" where
  "pdp_type_name t = (if t = Ipv4v6 then ''IPV4V6'' else ''IP'')"

definition pdp_type_parse :: "string \<Rightarrow> pdp_type option" where
  "pdp_type_parse s =
     (if s = ''IP'' \<or> s = ''ip'' then Some Ipv4 else if s = ''IPV4V6'' \<or> s = ''ipv4v6'' then Some Ipv4v6 else None)"

fun auth_mode_name :: "auth_mode \<Rightarrow> string" where
  "auth_mode_name Pap = ''pap''"
| "auth_mode_name Chap = ''chap''"
| "auth_mode_name AuthNone = ''none''"

definition auth_mode_parse :: "string \<Rightarrow> auth_mode option" where
  "auth_mode_parse s =
     (if s = ''none'' \<or> s = ''NONE'' then Some AuthNone
      else if s = ''pap'' \<or> s = ''PAP'' then Some Pap
      else if s = ''chap'' \<or> s = ''CHAP'' then Some Chap else None)"

lemma pdp_type_parse_name [simp]: "pdp_type_parse (pdp_type_name t) = Some t"
  by (cases t) (simp_all add: pdp_type_parse_def pdp_type_name_def)

lemma auth_mode_parse_name [simp]: "auth_mode_parse (auth_mode_name a) = Some a"
  by (cases a) (simp_all add: auth_mode_parse_def)

record cellular_config =
  cc_enabled :: bool
  cc_apn :: string
  cc_pdp :: pdp_type
  cc_auth :: auth_mode
  cc_username :: string
  cc_password :: string
  cc_auto_connect :: bool
  cc_sim_pin :: string
  cc_nic_mode :: bool
  cc_data_link :: string
  cc_dial :: string
  cc_net_mode :: net_mode
  cc_band_profile :: band_profile
  cc_band_mask :: u64

definition cellular_config0 :: cellular_config where
  "cellular_config0 = \<lparr>cc_enabled = False, cc_apn = [], cc_pdp = Ipv4, cc_auth = AuthNone, cc_username = [], cc_password = [],
     cc_auto_connect = False, cc_sim_pin = [], cc_nic_mode = True, cc_data_link = ''ecm'', cc_dial = ''*99***1#'',
     cc_net_mode = NetAuto, cc_band_profile = BandAuto, cc_band_mask = 0\<rparr>"

record cellular_status =
  cs_present :: bool
  cs_responsive :: bool
  cs_identity :: modem_identity
  cs_imei :: string
  cs_sim :: sim_state
  cs_sim_detail :: string
  cs_iccid :: string
  cs_imsi :: string
  cs_registration :: reg_state
  cs_operator_name :: string
  cs_operator_code :: string
  cs_rat :: string
  cs_cell :: serving_cell
  cs_signal :: signal_info
  cs_pdp :: pdp_address
  cs_last_error :: string
  cs_last_update_ms :: u64

definition cellular_status0 :: cellular_status where
  "cellular_status0 = \<lparr>cs_present = False, cs_responsive = False, cs_identity = \<lparr>mi_manufacturer = [], mi_model = [], mi_firmware = []\<rparr>,
     cs_imei = [], cs_sim = SimUnknown, cs_sim_detail = [], cs_iccid = [], cs_imsi = [], cs_registration = RegUnknown,
     cs_operator_name = [], cs_operator_code = [], cs_rat = [], cs_cell = serving_cell0,
     cs_signal = \<lparr>si_csq = None, si_rssi_dbm = None\<rparr>, cs_pdp = \<lparr>pa_ipv4 = [], pa_ipv6 = []\<rparr>, cs_last_error = [],
     cs_last_update_ms = 0\<rparr>"

record link_address =
  la_ipv4 :: string
  la_netmask :: string
  la_gateway :: string
  la_dns1 :: string
  la_dns2 :: string
  la_mtu :: int

definition link_address0 :: link_address where
  "link_address0 = \<lparr>la_ipv4 = [], la_netmask = [], la_gateway = [], la_dns1 = [], la_dns2 = [], la_mtu = 0\<rparr>"

definition has_address :: "link_address \<Rightarrow> bool" where
  "has_address a \<longleftrightarrow> la_ipv4 a \<noteq> []"

section \<open>Data links\<close>

datatype data_link_state =
    Disabled | WaitDevice | WaitAt | WaitSim | WaitRegistration | EnsureEcmMode | WaitReenumeration
  | ConfigurePdp | StartData | WaitNetif | Addressing | Dial | Negotiating | Disconnecting | LinkUp | DlFailed

fun data_link_state_name :: "data_link_state \<Rightarrow> string" where
  "data_link_state_name Disabled = ''disabled''"
| "data_link_state_name WaitDevice = ''wait_device''"
| "data_link_state_name WaitAt = ''wait_at''"
| "data_link_state_name WaitSim = ''wait_sim''"
| "data_link_state_name WaitRegistration = ''wait_registration''"
| "data_link_state_name EnsureEcmMode = ''ensure_ecm_mode''"
| "data_link_state_name WaitReenumeration = ''wait_reenumeration''"
| "data_link_state_name ConfigurePdp = ''configure_pdp''"
| "data_link_state_name StartData = ''start_data''"
| "data_link_state_name WaitNetif = ''wait_netif''"
| "data_link_state_name Addressing = ''addressing''"
| "data_link_state_name Dial = ''dial''"
| "data_link_state_name Negotiating = ''negotiating''"
| "data_link_state_name Disconnecting = ''disconnecting''"
| "data_link_state_name LinkUp = ''up''"
| "data_link_state_name DlFailed = ''failed''"

datatype data_link_kind = Ecm | Ppp

definition data_link_kind_name :: "data_link_kind \<Rightarrow> string" where
  "data_link_kind_name k = (if k = Ppp then ''ppp'' else ''ecm'')"

definition data_link_kind_parse :: "string \<Rightarrow> data_link_kind option" where
  "data_link_kind_parse s = (if s = ''ecm'' then Some Ecm else if s = ''ppp'' then Some Ppp else None)"

lemma data_link_kind_parse_name [simp]: "data_link_kind_parse (data_link_kind_name k) = Some k"
  by (cases k) (simp_all add: data_link_kind_parse_def data_link_kind_name_def)

record cellular_link_state =
  cl_state :: data_link_state
  cl_kind :: data_link_kind
  cl_interface_name :: string
  cl_address :: link_address
  cl_modem_pdp_address :: string
  cl_nic_mode :: bool
  cl_detail :: string
  cl_attempts :: int

definition cellular_link_state0 :: cellular_link_state where
  "cellular_link_state0 = \<lparr>cl_state = Disabled, cl_kind = Ecm, cl_interface_name = [], cl_address = link_address0,
     cl_modem_pdp_address = [], cl_nic_mode = False, cl_detail = [], cl_attempts = 0\<rparr>"

definition is_up :: "cellular_link_state \<Rightarrow> bool" where
  "is_up s \<longleftrightarrow> cl_state s = LinkUp"

text \<open>The loop \<open>for (int i = 1; i < attempts && s < 30; ++i) s *= 2\<close>.\<close>

function backoff_loop :: "int \<Rightarrow> int \<Rightarrow> u32 \<Rightarrow> u32" where
  "backoff_loop i attempts s = (if i < attempts \<and> s < 30 then backoff_loop (i + 1) attempts (s * 2) else s)"
  by pat_completeness auto
termination by (relation "measure (\<lambda>(i, attempts, s). nat (attempts - i))") auto

declare backoff_loop.simps [simp del]

definition backoff_ms :: "int \<Rightarrow> u32" where
  "backoff_ms attempts =
     (if attempts \<le> 0 then 0
      else let s = backoff_loop 1 attempts 2 in (if 30 < s then 30 else s) * 1000)"

lemma backoff_loop_stop: "\<not> s < 30 \<Longrightarrow> backoff_loop i attempts s = s"
  by (simp add: backoff_loop.simps)

lemma backoff_values:
  "backoff_ms 1 = 2000" "backoff_ms 2 = 4000" "backoff_ms 3 = 8000" "backoff_ms 4 = 16000"
  by (simp_all add: backoff_ms_def backoff_loop.simps)

lemma backoff_saturates:
  assumes "5 \<le> n" shows "backoff_ms n = 30000"
proof -
  have "backoff_loop 1 n 2 = 32"
    using assms by (simp add: backoff_loop.simps)
  with assms show ?thesis by (simp add: backoff_ms_def)
qed

lemma backoff_cases:
  assumes "1 \<le> n" shows "backoff_ms n \<in> {2000, 4000, 8000, 16000, 30000}"
proof -
  from assms consider "n = 1" | "n = 2" | "n = 3" | "n = 4" | "5 \<le> n" by linarith
  then show ?thesis by cases (simp_all add: backoff_values backoff_saturates)
qed

text \<open>
  What \<^verbatim>\<open>ICellularDataLink\<close> promises its client, as long as the ports below answer sensibly (\<open>env_ok\<close>): a link reported up has an interface and an address to route through, and after
  \<^verbatim>\<open>disconnect()\<close> it is down and stays down, whatever the modem reports, until \<^verbatim>\<open>connect()\<close>.
\<close>

datatype 'e link_op = Connect | Disconnect | SetConfig cellular_config | Tick 'e

locale data_link =
  fixes connect :: "'s \<Rightarrow> 's"
    and disconnect :: "'s \<Rightarrow> 's"
    and set_config :: "cellular_config \<Rightarrow> 's \<Rightarrow> 's"
    and tick :: "'e \<Rightarrow> 's \<Rightarrow> 's"
    and link :: "'s \<Rightarrow> cellular_link_state"
    and env_ok :: "'e \<Rightarrow> bool"
    and ok :: "'s \<Rightarrow> bool"
    and wanted :: "'s \<Rightarrow> bool"
  assumes connect_ok: "ok s \<Longrightarrow> ok (connect s)"
    and disconnect_ok: "ok s \<Longrightarrow> ok (disconnect s)"
    and set_config_ok: "ok s \<Longrightarrow> ok (set_config c s)"
    and tick_ok: "ok s \<Longrightarrow> env_ok e \<Longrightarrow> ok (tick e s)"
    and up_addressed: "ok s \<Longrightarrow> is_up (link s) \<Longrightarrow>
          cl_interface_name (link s) \<noteq> [] \<and> has_address (cl_address (link s)) \<and> wanted s"
    and disconnect_unwanted: "\<not> wanted (disconnect s)"
    and tick_wanted: "wanted (tick e s) = wanted s"
begin

fun op_step :: "'e link_op \<Rightarrow> 's \<Rightarrow> 's" where
  "op_step Connect s = connect s"
| "op_step Disconnect s = disconnect s"
| "op_step (SetConfig c) s = set_config c s"
| "op_step (Tick e) s = tick e s"

fun op_ok :: "'e link_op \<Rightarrow> bool" where
  "op_ok (Tick e) \<longleftrightarrow> env_ok e"
| "op_ok _ \<longleftrightarrow> True"

lemma fold_ok: "ok s \<Longrightarrow> list_all op_ok ops \<Longrightarrow> ok (fold op_step ops s)"
proof (induction ops arbitrary: s)
  case (Cons x xs)
  then show ?case by (cases x) (simp_all add: connect_ok disconnect_ok set_config_ok tick_ok)
qed simp

lemma up_is_addressed:
  "ok s \<Longrightarrow> list_all op_ok ops \<Longrightarrow> is_up (link (fold op_step ops s)) \<Longrightarrow>
     cl_interface_name (link (fold op_step ops s)) \<noteq> [] \<and> has_address (cl_address (link (fold op_step ops s)))"
  using up_addressed [OF fold_ok] by blast

lemma fold_ticks_wanted: "wanted (fold tick es s) = wanted s"
  by (induction es arbitrary: s) (simp_all add: tick_wanted)

lemma ticks_as_ops: "fold tick es s = fold op_step (map Tick es) s"
  by (induction es arbitrary: s) simp_all

lemma disconnected_stays_down:
  assumes "ok s" "list_all env_ok es" shows "\<not> is_up (link (fold tick es (disconnect s)))"
proof -
  have "list_all op_ok (map Tick es)" using assms(2) by (induction es) simp_all
  from up_addressed [OF fold_ok [OF disconnect_ok [OF assms(1)] this]]
    fold_ticks_wanted [of es "disconnect s"] disconnect_unwanted [of s] show ?thesis
    by (auto simp: ticks_as_ops)
qed

end

end
