(* ===== verification/Sim_Manager.thy ===== *)
theory Sim_Manager
  imports Cellular
begin

text \<open>
  SIM readiness and the protection of the card (\<^verbatim>\<open>core/cellular/sim_manager.hpp\<close>, \<^verbatim>\<open>sim_manager.cpp\<close>): the configured PIN is
  sent at most once per life of the note about it, because three wrong attempts lock the card. The AT transport is a port; what
  it answers in one call of \<^verbatim>\<open>ensure_ready\<close> is the environment. The two persistence callbacks are optional parameters on an
  abstract medium \<open>'w\<close>. Every command sent and every note written is an effect, in order, so that a crash can fall between any
  two of them.
\<close>

section \<open>Definitions\<close>

definition fnv1a :: "string \<Rightarrow> u32" where
  "fnv1a s = foldl (\<lambda>h c. xor h (of_nat (of_char c)) * 16777619) 2166136261 s"

text \<open>\<open>%08x\<close>.\<close>

definition hex08 :: "u32 \<Rightarrow> string" where
  "hex08 w = map (\<lambda>i. hex_char (unat w div 16 ^ i mod 16)) [7, 6, 5, 4, 3, 2, 1, 0]"

definition sim_attempt_token :: "string \<Rightarrow> string" where
  "sim_attempt_token pin =
     (if pin = [] then [] else nat_dec (length pin mod 2 ^ 32) @ '':'' @ hex08 (fnv1a pin))"

record sim_snapshot =
  ss_state :: sim_state
  ss_detail :: string
  ss_pin_attempted :: bool
  ss_pin_rejected :: bool

definition sim_snapshot0 :: sim_snapshot where
  "sim_snapshot0 = \<lparr>ss_state = SimUnknown, ss_detail = [], ss_pin_attempted = False, ss_pin_rejected = False\<rparr>"

record sim_manager =
  sm_last :: sim_snapshot
  sm_attempt_log :: string
  sm_loaded :: bool

definition sim_new :: sim_manager where
  "sim_new = \<lparr>sm_last = sim_snapshot0, sm_attempt_log = [], sm_loaded = False\<rparr>"

definition set_persistence :: "sim_manager \<Rightarrow> sim_manager" where
  "set_persistence m = m\<lparr>sm_loaded := False\<rparr>"

record 'w note_fns =
  nf_load :: "('w \<Rightarrow> string option) option"
  nf_store :: "(string \<Rightarrow> 'w \<Rightarrow> 'w) option"

text \<open>The answers of one round: to the first \<^verbatim>\<open>AT+CPIN?\<close>, to the unlock, and to the \<^verbatim>\<open>AT+CPIN?\<close> after it.\<close>

record sim_env =
  se_query :: at_exchange
  se_unlock :: at_exchange
  se_after :: at_exchange

datatype effect = Sent string int at_exchange | StoreNote string

definition already_failed_for :: "string \<Rightarrow> sim_manager \<Rightarrow> bool" where
  "already_failed_for pin m \<longleftrightarrow> sim_attempt_token pin \<noteq> [] \<and> sim_attempt_token pin = sm_attempt_log m"

definition remember_attempt :: "string \<Rightarrow> sim_manager \<Rightarrow> sim_manager \<times> effect list" where
  "remember_attempt pin m =
     (m\<lparr>sm_attempt_log := sim_attempt_token pin\<rparr>, [StoreNote (sim_attempt_token pin)])"

definition forget_attempt :: "sim_manager \<Rightarrow> sim_manager \<times> effect list" where
  "forget_attempt m = (m\<lparr>sm_attempt_log := []\<rparr>, [StoreNote []])"

definition load_note :: "'w note_fns \<Rightarrow> 'w \<Rightarrow> sim_manager \<Rightarrow> sim_manager" where
  "load_note fns w m =
     (case nf_load fns of
        None \<Rightarrow> m
      | Some load \<Rightarrow>
          if sm_loaded m then m
          else (case load w of None \<Rightarrow> m | Some tok \<Rightarrow> m\<lparr>sm_attempt_log := tok\<rparr>)\<lparr>sm_loaded := True\<rparr>)"

definition settle :: "sim_snapshot \<Rightarrow> effect list \<Rightarrow> sim_manager \<Rightarrow> sim_snapshot \<times> effect list \<times> sim_manager" where
  "settle s es m = (s, es, m\<lparr>sm_last := s\<rparr>)"

definition cpin_query :: string where "cpin_query = ''AT+CPIN?''"

definition cpin_unlock :: "string \<Rightarrow> string" where
  "cpin_unlock pin = ''AT+CPIN=\"'' @ pin @ ''\"''"

text \<open>From the unlock on: the note is written before the command is sent.\<close>

definition try_unlock ::
    "sim_env \<Rightarrow> string \<Rightarrow> sim_snapshot \<Rightarrow> sim_manager \<Rightarrow> sim_snapshot \<times> effect list \<times> sim_manager" where
  "try_unlock env pin s m =
     (let s = s\<lparr>ss_pin_attempted := True\<rparr>;
          (m, note) = remember_attempt pin m;
          es = note @ [Sent (cpin_unlock pin) 10000 (se_unlock env)]
      in if \<not> ax_ok (se_unlock env)
         then settle (s\<lparr>ss_pin_rejected := True, ss_detail := ''PIN abgelehnt''\<rparr>) es m
         else
           let es = es @ [Sent cpin_query 3000 (se_after env)];
               s = s\<lparr>ss_state := parse_cpin (ax_raw (se_after env))\<rparr>
           in if ss_state s = SimReady
              then (let (m, note) = forget_attempt m
                    in settle (s\<lparr>ss_pin_rejected := False, ss_detail := ''SIM bereit (mit PIN entsperrt)''\<rparr>) (es @ note) m)
              else settle (s\<lparr>ss_detail := ''PIN gesendet, SIM meldet noch kein READY''\<rparr>) es m)"

definition pin_required_round ::
    "sim_env \<Rightarrow> string \<Rightarrow> sim_snapshot \<Rightarrow> sim_manager \<Rightarrow> sim_snapshot \<times> effect list \<times> sim_manager" where
  "pin_required_round env pin s m =
     (if pin = [] then settle (s\<lparr>ss_detail := ''SIM verlangt eine PIN, es ist keine konfiguriert''\<rparr>) [] m
      else if already_failed_for pin m
      then settle (s\<lparr>ss_pin_attempted := True, ss_pin_rejected := True,
             ss_detail := ''PIN wurde bereits abgelehnt - kein weiterer Versuch (PUK-Schutz). PIN pruefen, dann neu starten''\<rparr>) [] m
      else try_unlock env pin s m)"

definition ensure_ready ::
    "'w note_fns \<Rightarrow> 'w \<Rightarrow> sim_env \<Rightarrow> string \<Rightarrow> sim_manager \<Rightarrow> sim_snapshot \<times> effect list \<times> sim_manager" where
  "ensure_ready fns w env pin m =
     (let m = load_note fns w m;
          r = se_query env;
          s = sim_snapshot0\<lparr>ss_state := parse_cpin (ax_raw r)\<rparr>;
          (s, es, m) =
            (if ax_device_gone r then settle (s\<lparr>ss_state := SimUnknown, ss_detail := ''Modem nicht erreichbar''\<rparr>) [] m
             else if ax_timed_out r then settle (s\<lparr>ss_state := SimUnknown, ss_detail := ''keine Antwort auf AT+CPIN?''\<rparr>) [] m
             else case ss_state s of
                 SimReady \<Rightarrow> (let (m, note) = forget_attempt m in settle (s\<lparr>ss_detail := ''SIM bereit''\<rparr>) note m)
               | PukRequired \<Rightarrow>
                   settle (s\<lparr>ss_detail := ''SIM gesperrt - PUK noetig, nur ausserhalb der Kamera entsperrbar''\<rparr>) [] m
               | NotInserted \<Rightarrow> settle (s\<lparr>ss_detail := ''keine SIM erkannt''\<rparr>) [] m
               | PinRequired \<Rightarrow> pin_required_round env pin s m
               | SimUnknown \<Rightarrow> settle (s\<lparr>ss_detail := ''SIM-Zustand unklar''\<rparr>) [] m
               | SimError \<Rightarrow> settle (s\<lparr>ss_detail := ''SIM-Zustand unklar''\<rparr>) [] m)
      in (s, Sent cpin_query 3000 r # es, m))"

text \<open>What the effects leave on the medium: \<open>if (store_) store_(token)\<close>.\<close>

fun note_after :: "'w note_fns \<Rightarrow> effect list \<Rightarrow> 'w \<Rightarrow> 'w" where
  "note_after fns [] w = w"
| "note_after fns (StoreNote t # es) w =
     note_after fns es (case nf_store fns of None \<Rightarrow> w | Some st \<Rightarrow> st t w)"
| "note_after fns (Sent c t x # es) w = note_after fns es w"

section \<open>Runs\<close>

text \<open>
  A supervisor's rounds with one configured PIN. A round may run to its end, or the process may die after \<open>n\<close> of its effects
  and be started again with an empty manager; the medium keeps what was written.
\<close>

datatype sim_op = Round sim_env | Crash sim_env nat

fun sim_run :: "'w note_fns \<Rightarrow> string \<Rightarrow> sim_op list \<Rightarrow> sim_manager \<times> 'w \<Rightarrow> effect list \<times> sim_manager \<times> 'w" where
  "sim_run fns pin [] (m, w) = ([], m, w)"
| "sim_run fns pin (Round env # ops) (m, w) =
     (let (s, es, m') = ensure_ready fns w env pin m;
          (es', r) = sim_run fns pin ops (m', note_after fns es w)
      in (es @ es', r))"
| "sim_run fns pin (Crash env n # ops) (m, w) =
     (let (s, es, m') = ensure_ready fns w env pin m;
          done_es = take n es;
          (es', r) = sim_run fns pin ops (sim_new, note_after fns done_es w)
      in (done_es @ es', r))"

fun is_unlock :: "string \<Rightarrow> effect \<Rightarrow> bool" where
  "is_unlock pin (Sent c t x) \<longleftrightarrow> c = cpin_unlock pin"
| "is_unlock pin (StoreNote t) \<longleftrightarrow> False"

fun is_ready_answer :: "effect \<Rightarrow> bool" where
  "is_ready_answer (Sent c t x) \<longleftrightarrow> c = cpin_query \<and> parse_cpin (ax_raw x) = SimReady"
| "is_ready_answer (StoreNote t) \<longleftrightarrow> False"

abbreviation unlocks :: "string \<Rightarrow> effect list \<Rightarrow> nat" where
  "unlocks pin es \<equiv> length (filter (is_unlock pin) es)"

abbreviation readies :: "effect list \<Rightarrow> nat" where
  "readies es \<equiv> length (filter is_ready_answer es)"

section \<open>Lemmas\<close>

lemma token_not_Nil [simp]: "pin \<noteq> [] \<Longrightarrow> sim_attempt_token pin \<noteq> []"
  by (simp add: sim_attempt_token_def)

lemma query_not_unlock [simp]: "cpin_query \<noteq> cpin_unlock pin" "cpin_unlock pin \<noteq> cpin_query"
  by (simp_all add: cpin_query_def cpin_unlock_def)

text \<open>The shape of a round's effects.\<close>

lemma round_effects:
  assumes "ensure_ready fns w env pin m = (s, es, m')"
  obtains
    (silent) "es = [Sent cpin_query 3000 (se_query env)]" "sm_attempt_log m' = sm_attempt_log (load_note fns w m)"
  | (ready) "es = [Sent cpin_query 3000 (se_query env), StoreNote []]" "parse_cpin (ax_raw (se_query env)) = SimReady"
      "sm_attempt_log m' = []"
  | (tried) "pin \<noteq> []" "sim_attempt_token pin \<noteq> sm_attempt_log (load_note fns w m)"
      "parse_cpin (ax_raw (se_query env)) = PinRequired" "\<not> ax_device_gone (se_query env)" "\<not> ax_timed_out (se_query env)"
      "\<exists>rest. es = Sent cpin_query 3000 (se_query env) # StoreNote (sim_attempt_token pin)
              # Sent (cpin_unlock pin) 10000 (se_unlock env) # rest
          \<and> (rest = [] \<and> sm_attempt_log m' = sim_attempt_token pin
             \<or> rest = [Sent cpin_query 3000 (se_after env)] \<and> sm_attempt_log m' = sim_attempt_token pin
             \<or> rest = [Sent cpin_query 3000 (se_after env), StoreNote []]
               \<and> parse_cpin (ax_raw (se_after env)) = SimReady \<and> sm_attempt_log m' = [])"
proof (cases "ax_device_gone (se_query env) \<or> ax_timed_out (se_query env)")
  case True
  with assms silent show thesis by (auto simp: ensure_ready_def settle_def Let_def split: if_splits)
next
  case False
  note unfolded = ensure_ready_def settle_def forget_attempt_def Let_def
  show thesis
  proof (cases "parse_cpin (ax_raw (se_query env))")
    case SimReady
    with False assms ready show thesis by (auto simp: unfolded)
  next
    case PinRequired
    show thesis
    proof (cases "pin = [] \<or> already_failed_for pin (load_note fns w m)")
      case True
      with False PinRequired assms silent show thesis
        by (auto simp: unfolded pin_required_round_def split: if_splits)
    next
      case fresh: False
      with False PinRequired assms show thesis
        by (intro tried)
           (auto simp: unfolded pin_required_round_def already_failed_for_def try_unlock_def remember_attempt_def split: if_splits)
    qed
  qed (use False assms silent in \<open>auto simp: unfolded\<close>)
qed

text \<open>
  The note in force is what \<open>ensure_ready\<close> compares with. With persistence it is what the medium holds; without, what the
  manager remembers.
\<close>

definition note_in_force :: "'w note_fns \<Rightarrow> 'w \<Rightarrow> sim_manager \<Rightarrow> string" where
  "note_in_force fns w m = sm_attempt_log (load_note fns w m)"

definition persistent :: "'w note_fns \<Rightarrow> bool" where
  "persistent fns \<longleftrightarrow> (\<exists>load store. nf_load fns = Some load \<and> nf_store fns = Some store \<and> (\<forall>t w. load (store t w) = Some t))"

definition note_on :: "'w note_fns \<Rightarrow> 'w \<Rightarrow> string" where
  "note_on fns w = (case nf_load fns of None \<Rightarrow> [] | Some load \<Rightarrow> (case load w of None \<Rightarrow> [] | Some t \<Rightarrow> t))"

definition synced :: "'w note_fns \<Rightarrow> 'w \<Rightarrow> sim_manager \<Rightarrow> bool" where
  "synced fns w m \<longleftrightarrow> sm_attempt_log m = (if sm_loaded m then note_on fns w else [])"

text \<open>One attempt is left while the note in force is not the one of this PIN.\<close>

definition left_for :: "string \<Rightarrow> string \<Rightarrow> nat" where
  "left_for pin note = (if note = sim_attempt_token pin then 0 else 1)"

lemma left_for_simps [simp]:
  "left_for pin (sim_attempt_token pin) = 0" "left_for pin note \<le> 1" "note \<noteq> sim_attempt_token pin \<Longrightarrow> left_for pin note = 1"
  by (simp_all add: left_for_def)

lemma take_Cons2: "take n (x # xs) = (if n = 0 then [] else x # take (n - 1) xs)"
  by (cases n) auto

lemma note_on_stored:
  "persistent fns \<Longrightarrow> note_on fns (case nf_store fns of None \<Rightarrow> w | Some st \<Rightarrow> st t w) = t"
  by (auto simp: persistent_def note_on_def)

lemma load_note_loaded: "persistent fns \<Longrightarrow> sm_loaded (load_note fns w m)"
  by (auto simp: persistent_def load_note_def split: option.splits)

lemma ensure_ready_loaded:
  "ensure_ready fns w env pin m = (s, es, m') \<Longrightarrow> sm_loaded m' = sm_loaded (load_note fns w m)"
  by (auto simp: ensure_ready_def settle_def forget_attempt_def pin_required_round_def try_unlock_def remember_attempt_def
        Let_def split: if_splits sim_state.splits)

lemma note_in_force_synced:
  assumes "persistent fns" "synced fns w m"
  shows "note_in_force fns w m = note_on fns w"
  using assms by (auto simp: persistent_def synced_def note_in_force_def note_on_def load_note_def split: option.splits)

text \<open>A round cut off after any number of its effects, on a medium that keeps the note.\<close>

lemma round_prefix_bound:
  assumes "persistent fns" "synced fns w m" "ensure_ready fns w env pin m = (s, es, m')"
  shows "unlocks pin (take n es) + left_for pin (note_on fns (note_after fns (take n es) w))
           \<le> left_for pin (note_on fns w) + readies (take n es)"
  using assms(3)
proof (cases rule: round_effects)
  case silent
  then show ?thesis by (simp add: take_Cons2)
next
  case ready
  then show ?thesis by (auto simp: take_Cons2 note_on_stored [OF assms(1)] left_for_def)
next
  case tried
  then have "note_on fns w \<noteq> sim_attempt_token pin"
    using note_in_force_synced [OF assms(1,2)] by (simp add: note_in_force_def)
  with tried(6) show ?thesis
    by (auto simp: take_Cons2 note_on_stored [OF assms(1)] left_for_def)
qed

lemma round_synced:
  assumes "persistent fns" "synced fns w m" "ensure_ready fns w env pin m = (s, es, m')"
  shows "synced fns (note_after fns es w) m'"
proof -
  have l: "sm_loaded m'" using ensure_ready_loaded [OF assms(3)] load_note_loaded [OF assms(1)] by simp
  have f: "sm_attempt_log (load_note fns w m) = note_on fns w"
    using note_in_force_synced [OF assms(1,2)] by (simp add: note_in_force_def)
  from assms(3) show ?thesis
  proof (cases rule: round_effects)
    case tried
    then show ?thesis using l by (auto simp: synced_def note_on_stored [OF assms(1)])
  qed (use l f in \<open>auto simp: synced_def note_on_stored [OF assms(1)]\<close>)
qed

lemma synced_new [simp]: "synced fns w sim_new"
  by (simp add: synced_def sim_new_def)

lemma run_bound:
  "persistent fns \<Longrightarrow> synced fns w m \<Longrightarrow>
     unlocks pin (fst (sim_run fns pin ops (m, w)))
       \<le> left_for pin (note_on fns w) + readies (fst (sim_run fns pin ops (m, w)))"
proof (induction ops arbitrary: m w)
  case (Cons op ops)
  obtain env n c where op: "op = Round env \<and> \<not> c \<or> op = Crash env n \<and> c" by (cases op) auto
  obtain s es m' where r: "ensure_ready fns w env pin m = (s, es, m')" by (metis prod_cases3)
  show ?case
  proof (cases c)
    case False
    with Cons.IH [OF Cons.prems(1) round_synced [OF Cons.prems r]] round_prefix_bound [OF Cons.prems r, of "length es"] op r
    show ?thesis by (auto split: prod.splits)
  next
    case True
    with Cons.IH [OF Cons.prems(1) synced_new, of "note_after fns (take n es) w"] round_prefix_bound [OF Cons.prems r, of n] op r
    show ?thesis by (auto simp: Let_def split: prod.splits)
  qed
qed simp

text \<open>Without persistence the note is in the manager, and bounds the rounds of one process.\<close>

lemma round_bound_in_process:
  assumes "nf_load fns = None" "ensure_ready fns w env pin m = (s, es, m')"
  shows "unlocks pin es + left_for pin (sm_attempt_log m') \<le> left_for pin (sm_attempt_log m) + readies es"
proof -
  have l: "load_note fns w m = m" using assms(1) by (simp add: load_note_def)
  from assms(2) show ?thesis
  proof (cases rule: round_effects)
    case tried
    then show ?thesis by (auto simp: l left_for_def)
  qed (auto simp: l left_for_def)
qed

fun is_round :: "sim_op \<Rightarrow> bool" where
  "is_round (Round env) \<longleftrightarrow> True"
| "is_round (Crash env n) \<longleftrightarrow> False"

lemma run_bound_in_process:
  "nf_load fns = None \<Longrightarrow> list_all is_round ops \<Longrightarrow>
     unlocks pin (fst (sim_run fns pin ops (m, w)))
       \<le> left_for pin (sm_attempt_log m) + readies (fst (sim_run fns pin ops (m, w)))"
proof (induction ops arbitrary: m w)
  case (Cons op ops)
  then obtain env where op: "op = Round env" by (cases op) auto
  obtain s es m' where r: "ensure_ready fns w env pin m = (s, es, m')" by (metis prod_cases3)
  from Cons.IH [OF Cons.prems(1), of m' "note_after fns es w"] Cons.prems(2) round_bound_in_process [OF Cons.prems(1) r] op r
  show ?case by (auto split: prod.splits)
qed simp

section \<open>Properties\<close>

definition says :: "string \<Rightarrow> at_exchange" where
  "says t = \<lparr>ax_result = AtOk, ax_payload = t, ax_raw = t, ax_timed_out = False, ax_device_gone = False\<rparr>"

definition refused :: at_exchange where
  "refused = (says ''+CME ERROR: 16'')\<lparr>ax_result := AtError\<rparr>"

definition locked_card :: sim_env where
  "locked_card = \<lparr>se_query = says ''+CPIN: SIM PIN'', se_unlock = refused, se_after = says ''+CPIN: SIM PIN''\<rparr>"

text \<open>A note kept in one cell of memory that outlives the process.\<close>

definition cell_note :: "string option note_fns" where
  "cell_note = \<lparr>nf_load = Some (\<lambda>w. w), nf_store = Some (\<lambda>t w. Some t)\<rparr>"

definition no_note :: "string option note_fns" where
  "no_note = \<lparr>nf_load = None, nf_store = None\<rparr>"

lemma locked_card_ops: "list_all is_round [Round locked_card, Round locked_card]"
  by simp

lemma locked_card_state: "parse_cpin ''+CPIN: SIM PIN'' = PinRequired"
  by (simp add: parse_cpin_def)



text \<open>The same bound inside one process with no persistence installed, which is how the daemon builds the manager: however
  often the supervisor asks, the PIN goes out at most once per READY and once more.\<close>

theorem pin_attempts_bounded_in_process:
  assumes "nf_load fns = None" "list_all is_round ops" "sim_run fns pin ops (sim_new, w) = (es, r)"
  shows "length (filter (is_unlock pin) es) \<le> 1 + length (filter is_ready_answer es)"
  using run_bound_in_process [OF assms(1,2), of pin sim_new w] assms(3) left_for_simps(2) [of pin "sm_attempt_log sim_new"]
  by (auto simp del: left_for_simps)

theorem pin_attempts_bounded_in_process_witness:
  "list_all is_round [Round locked_card, Round locked_card] \<and>
   (let es = fst (sim_run no_note ''1234'' [Round locked_card, Round locked_card] (sim_new, None))
    in length (filter (is_unlock ''1234'') es) \<le> 1 + length (filter is_ready_answer es))"
proof -
  let ?run = "sim_run no_note ''1234'' [Round locked_card, Round locked_card] (sim_new, None)"
  have e: "?run = (fst ?run, snd ?run)" by (rule prod.collapse [symmetric])
  have "nf_load no_note = None" by (simp add: no_note_def)
  from pin_attempts_bounded_in_process [OF this locked_card_ops e] locked_card_ops show ?thesis unfolding Let_def by blast
qed



text \<open>Without persistence, a daemon that is restarted sends a rejected PIN again: three starts, three wrong attempts, and
  the card asks for its PUK. No caller in the daemon installs the callbacks.\<close>

theorem restart_resends_pin:
  "length (filter (is_unlock ''1234'')
     (fst (sim_run no_note ''1234'' [Crash locked_card 3, Crash locked_card 3, Crash locked_card 3] (sim_new, None)))) = 3"
  by (simp add: ensure_ready_def locked_card_def says_def locked_card_state settle_def pin_required_round_def try_unlock_def
        already_failed_for_def remember_attempt_def load_note_def no_note_def sim_new_def sim_snapshot0_def Let_def
        refused_def ax_ok_def)

text \<open>A modem that answers NOT READY is read as ready, because the parser looks for READY anywhere in the answer; the round
  then erases the note that protects the card.\<close>

theorem not_ready_reads_as_ready:
  "parse_cpin ''+CPIN: NOT READY'' = SimReady"
  by (simp add: parse_cpin_def)

end
