(* ===== verification/Modem_Actions.thy ===== *)
theory Modem_Actions
  imports Sim_Manager
begin

text \<open>
  One-time actions on the modem (\<^verbatim>\<open>core/cellular/modem_actions.hpp\<close>, \<^verbatim>\<open>modem_actions.cpp\<close>) and the status service that polls it
  (\<^verbatim>\<open>core/cellular/cellular_service.hpp\<close>, \<^verbatim>\<open>cellular_service.cpp\<close>). Both speak on the shared AT port, whose log is threaded through.
\<close>

section \<open>Actions\<close>

record neighbour_report =
  nr_have :: bool
  nr_updated_ms :: u64
  nr_cells :: "neighbour_cell list"
  nr_raw :: string
  nr_error :: string

definition neighbour_report0 :: neighbour_report where
  "neighbour_report0 = \<lparr>nr_have = False, nr_updated_ms = 0, nr_cells = [], nr_raw = [], nr_error = []\<rparr>"

datatype sim_lock_action = LockStatus | LockEnable | LockDisable | LockChange

fun sim_lock_action_name :: "sim_lock_action \<Rightarrow> string" where
  "sim_lock_action_name LockEnable = ''enable''"
| "sim_lock_action_name LockDisable = ''disable''"
| "sim_lock_action_name LockChange = ''change''"
| "sim_lock_action_name LockStatus = ''status''"

definition sim_lock_action_parse :: "string \<Rightarrow> sim_lock_action option" where
  "sim_lock_action_parse s =
     (if s = ''status'' then Some LockStatus else if s = ''enable'' then Some LockEnable
      else if s = ''disable'' then Some LockDisable else if s = ''change'' then Some LockChange else None)"

record sim_lock_request =
  slr_action :: sim_lock_action
  slr_pin :: string
  slr_new_pin :: string

definition sim_lock_request0 :: sim_lock_request where
  "sim_lock_request0 = \<lparr>slr_action = LockStatus, slr_pin = [], slr_new_pin = []\<rparr>"

record sim_lock_report =
  sl_have :: bool
  sl_updated_ms :: u64
  sl_action :: sim_lock_action
  sl_ok :: bool
  sl_detail :: string
  sl_enabled :: "int option"
  sl_pin_left :: "int option"
  sl_puk_left :: "int option"
  sl_cpin :: string

definition sim_lock_report0 :: sim_lock_report where
  "sim_lock_report0 = \<lparr>sl_have = False, sl_updated_ms = 0, sl_action = LockStatus, sl_ok = False, sl_detail = [], sl_enabled = None,
     sl_pin_left = None, sl_puk_left = None, sl_cpin = []\<rparr>"

record modem_actions =
  ma_nb :: neighbour_report
  ma_sl :: sim_lock_report
  ma_nb_requested :: bool
  ma_restart_requested :: bool
  ma_sim_requested :: bool
  ma_sim_req :: sim_lock_request

definition actions_new :: modem_actions where
  "actions_new = \<lparr>ma_nb = neighbour_report0, ma_sl = sim_lock_report0, ma_nb_requested = False, ma_restart_requested = False,
     ma_sim_requested = False, ma_sim_req = sim_lock_request0\<rparr>"

record outcome =
  oc_pin_changed :: bool
  oc_new_pin :: string
  oc_restarted :: bool

definition outcome0 :: outcome where
  "outcome0 = \<lparr>oc_pin_changed = False, oc_new_pin = [], oc_restarted = False\<rparr>"

definition pin_well_formed :: "string \<Rightarrow> bool" where
  "pin_well_formed pin \<longleftrightarrow> 4 \<le> length pin \<and> length pin \<le> 8 \<and> list_all is_digit pin"

definition cme_of :: "at_exchange \<Rightarrow> string" where
  "cme_of x =
     (let cme = at_extract (ax_raw x) ''+CME ERROR:''
      in if cme \<noteq> [] then '' (+CME ERROR: '' @ cme @ '')''
         else if ax_timed_out x then '' (no answer)'' else if ax_device_gone x then '' (modem gone)'' else [])"

definition request_neighbours :: "modem_actions \<Rightarrow> modem_actions" where
  "request_neighbours a = a\<lparr>ma_nb_requested := True\<rparr>"

definition request_restart :: "modem_actions \<Rightarrow> modem_actions" where
  "request_restart a = a\<lparr>ma_restart_requested := True\<rparr>"

text \<open>The result is the reason for a refusal, empty when the request is taken.\<close>

definition request_sim_lock :: "sim_lock_request \<Rightarrow> modem_actions \<Rightarrow> string \<times> modem_actions" where
  "request_sim_lock r a =
     (if ma_sim_requested a then (''a SIM action is already waiting'', a)
      else if (slr_action r = LockEnable \<or> slr_action r = LockDisable) \<and> \<not> pin_well_formed (slr_pin r)
      then (''a SIM PIN is 4 to 8 digits'', a)
      else if slr_action r = LockChange \<and> (\<not> pin_well_formed (slr_pin r) \<or> \<not> pin_well_formed (slr_new_pin r))
      then (''the current and the new PIN are 4 to 8 digits each'', a)
      else ([], a\<lparr>ma_sim_req := r, ma_sim_requested := True\<rparr>))"

definition clck_cmd :: "bool \<Rightarrow> string \<Rightarrow> string" where
  "clck_cmd enable pin = ''AT+CLCK=\"SC\",'' @ (if enable then ''1'' else ''0'') @ '',\"'' @ pin @ ''\"''"

definition cpwd_cmd :: "string \<Rightarrow> string \<Rightarrow> string" where
  "cpwd_cmd pin new_pin = ''AT+CPWD=\"SC\",\"'' @ pin @ ''\",\"'' @ new_pin @ ''\"''"

text \<open>The action itself: success, text, outcome.\<close>

definition sim_lock_command ::
    "at_env \<Rightarrow> sim_lock_request \<Rightarrow> at_log \<Rightarrow> bool \<times> string \<times> outcome \<times> at_log" where
  "sim_lock_command env q log =
     (case slr_action q of
        LockStatus \<Rightarrow> (True, ''status read'', outcome0, log)
      | LockChange \<Rightarrow>
          let (x, log) = at_command env (cpwd_cmd (slr_pin q) (slr_new_pin q)) 10000 log
          in if ax_ok x then (True, ''PIN changed - the new PIN is stored for the next connection'',
                              outcome0\<lparr>oc_pin_changed := True, oc_new_pin := slr_new_pin q\<rparr>, log)
             else (False, ''the card rejected the change'' @ cme_of x @ '' - the lock must be enabled and the current PIN correct'', outcome0, log)
      | _ \<Rightarrow>
          let enable = (slr_action q = LockEnable);
              (x, log) = at_command env (clck_cmd enable (slr_pin q)) 10000 log
          in if ax_ok x then (True, (if enable then ''PIN lock enabled - the PIN is stored for the next connection''
                                     else ''PIN lock disabled - the stored PIN was cleared''),
                              outcome0\<lparr>oc_pin_changed := True, oc_new_pin := (if enable then slr_pin q else [])\<rparr>, log)
             else (False, ''the card rejected the request'' @ cme_of x @ '' - a wrong PIN costs one of the three attempts'', outcome0, log))"

definition run_sim_lock :: "at_env \<Rightarrow> modem_actions \<Rightarrow> at_log \<Rightarrow> outcome \<times> modem_actions \<times> at_log" where
  "run_sim_lock env a log =
     (let q = ma_sim_req a;
          (now, log) = read_clock env log;
          (ok, detail, out, log) = sim_lock_command env q log;
          (xl, log) = at_command env ''AT+CLCK=\"SC\",2'' 3000 log;
          (xp, log) = at_command env ''AT+QPINC=\"SC\"'' 3000 log;
          (xc, log) = at_command env ''AT+CPIN?'' 3000 log;
          pc = parse_qpinc (ae_lb env) (ax_raw xp)
      in (out, a\<lparr>ma_sl := \<lparr>sl_have = True, sl_updated_ms = now, sl_action = slr_action q, sl_ok = ok, sl_detail = detail,
            sl_enabled = parse_clck (ae_lb env) (ax_raw xl), sl_pin_left = pin_left pc, sl_puk_left = puk_left pc,
            sl_cpin = at_extract (ax_raw xc) ''+CPIN:''\<rparr>\<rparr>, log))"

definition run_neighbours :: "at_env \<Rightarrow> modem_actions \<Rightarrow> at_log \<Rightarrow> modem_actions \<times> at_log" where
  "run_neighbours env a log =
     (let (now, log) = read_clock env log;
          (x, log) = at_command env ''AT+QENG=\"neighbourcell\"'' 8000 log;
          cells = (if ax_ok x then parse_qeng_neighbours (ae_lb env) (ax_raw x) else []);
          error = (if \<not> ax_ok x then (if ax_timed_out x then ''no answer from the modem'' else if ax_device_gone x then ''modem gone''
                                      else ''the modem rejected the query'')
                   else if cells = [] then ''no neighbour cells reported'' else [])
      in (a\<lparr>ma_nb := \<lparr>nr_have = True, nr_updated_ms = now, nr_cells = cells, nr_raw = ax_raw x, nr_error = error\<rparr>\<rparr>, log))"

text \<open>No modem: waiting requests are answered, not kept.\<close>

definition actions_gone :: "at_env \<Rightarrow> modem_actions \<Rightarrow> at_log \<Rightarrow> modem_actions \<times> at_log" where
  "actions_gone env a log =
     (let (a, log) =
            (if ma_sim_requested a then
               let (now, log) = read_clock env log
               in (a\<lparr>ma_sim_requested := False,
                    ma_sl := sim_lock_report0\<lparr>sl_have := True, sl_updated_ms := now, sl_action := slr_action (ma_sim_req a),
                               sl_detail := ''no modem answering - nothing sent''\<rparr>, ma_sim_req := sim_lock_request0\<rparr>, log)
             else (a, log));
          (a, log) =
            (if ma_nb_requested a then
               let (now, log) = read_clock env log
               in (a\<lparr>ma_nb_requested := False,
                    ma_nb := neighbour_report0\<lparr>nr_have := True, nr_updated_ms := now, nr_error := ''no modem answering''\<rparr>\<rparr>, log)
             else (a, log))
      in (a\<lparr>ma_restart_requested := False\<rparr>, log))"

definition actions_tick :: "at_env \<Rightarrow> cellular_status \<Rightarrow> modem_actions \<Rightarrow> at_log \<Rightarrow> outcome \<times> modem_actions \<times> at_log" where
  "actions_tick env s a log =
     (if \<not> cs_present s \<or> \<not> cs_responsive s then (outcome0, actions_gone env a log)
      else if ma_restart_requested a
      then (outcome0\<lparr>oc_restarted := True\<rparr>, a\<lparr>ma_restart_requested := False\<rparr>, snd (at_command env ''AT+CFUN=1,1'' 10000 log))
      else if ma_sim_requested a
      then (let (out, a, log) = run_sim_lock env (a\<lparr>ma_sim_requested := False\<rparr>) log in (out, a\<lparr>ma_sim_req := sim_lock_request0\<rparr>, log))
      else if ma_nb_requested a then (outcome0, run_neighbours env (a\<lparr>ma_nb_requested := False\<rparr>) log)
      else (outcome0, a, log))"

section \<open>The status service\<close>

text \<open>\<^verbatim>\<open>starts_with_ci\<close>, and a command as it may be logged.\<close>

definition upper :: "char \<Rightarrow> char" where
  "upper c = (if 97 \<le> (of_char c :: nat) \<and> (of_char c :: nat) \<le> 122 then char_of (of_char c - 32 :: nat) else c)"

definition starts_with_ci :: "string \<Rightarrow> string \<Rightarrow> bool" where
  "starts_with_ci s pat \<longleftrightarrow> length pat \<le> length s \<and> map upper (take (length pat) s) = map upper pat"

definition secret_commands :: "string list" where
  "secret_commands = [''AT+CPIN='', ''AT+CLCK='', ''AT+CPWD='', ''AT+QICSGP='', ''AT+CGAUTH='']"

definition redact_at :: "string \<Rightarrow> string" where
  "redact_at cmd = (case find (starts_with_ci cmd) secret_commands of None \<Rightarrow> cmd | Some p \<Rightarrow> p @ ''<redigiert>'')"

record cellular_service =
  cv_cfg :: cellular_config
  cv_sim :: sim_manager
  cv_st :: cellular_status
  cv_identity_read :: bool

definition service_new :: cellular_service where
  "service_new = \<lparr>cv_cfg = cellular_config0, cv_sim = sim_new, cv_st = cellular_status0, cv_identity_read = False\<rparr>"

definition service_set_config :: "cellular_config \<Rightarrow> cellular_service \<Rightarrow> cellular_service \<times> effect list" where
  "service_set_config c v =
     (let (m, es) = (if cc_sim_pin c \<noteq> cc_sim_pin (cv_cfg v) then forget_attempt (cv_sim v) else (cv_sim v, []))
      in (v\<lparr>cv_sim := m, cv_cfg := c\<rparr>, es))"

text \<open>The SIM manager on the shared port: its commands in the log, its notes on the medium.\<close>

fun sent_calls :: "effect list \<Rightarrow> at_log" where
  "sent_calls [] = []"
| "sent_calls (Sent c t x # es) = Cmd c t x # sent_calls es"
| "sent_calls (StoreNote n # es) = sent_calls es"

definition ensure_on_port ::
    "'w note_fns \<Rightarrow> at_env \<Rightarrow> string \<Rightarrow> sim_manager \<Rightarrow> 'w \<times> at_log \<Rightarrow> sim_snapshot \<times> sim_manager \<times> 'w \<times> at_log" where
  "ensure_on_port fns env pin m p =
     (case p of (w, log) \<Rightarrow>
        let n = length log;
            (s, es, m) = ensure_ready fns w \<lparr>se_query = ae_at env n, se_unlock = ae_at env (n + 1), se_after = ae_at env (n + 2)\<rparr> pin m
        in (s, m, note_after fns es w, log @ sent_calls es))"

definition poll_identity :: "at_env \<Rightarrow> cellular_service \<Rightarrow> cellular_status \<Rightarrow> at_log \<Rightarrow> cellular_status \<times> cellular_service \<times> at_log" where
  "poll_identity env v s log =
     (if cv_identity_read v then (s\<lparr>cs_identity := cs_identity (cv_st v), cs_imei := cs_imei (cv_st v)\<rparr>, v, log)
      else
        let (xi, log) = at_command env ''ATI'' 3000 log;
            (xn, log) = at_command env ''AT+CGSN'' 3000 log;
            s = s\<lparr>cs_identity := parse_ati (ax_payload xi), cs_imei := first_numeric_line (ax_payload xn)\<rparr>
        in (s, (if mi_model (cs_identity s) \<noteq> [] \<or> cs_imei s \<noteq> [] then v\<lparr>cv_identity_read := True\<rparr> else v), log))"

text \<open>From a ready SIM on: registration and radio.\<close>

definition poll_network :: "at_env \<Rightarrow> cellular_status \<Rightarrow> at_log \<Rightarrow> cellular_status \<times> at_log" where
  "poll_network env s log =
     (let lb = ae_lb env;
          (xi, log) = at_command env ''AT+CIMI'' 3000 log;
          (xr, log) = at_command env ''AT+CEREG?'' 3000 log;
          (xq, log) = at_command env ''AT+CSQ'' 3000 log;
          s = s\<lparr>cs_imsi := first_numeric_line (ax_payload xi), cs_registration := parse_cereg lb (ax_raw xr),
               cs_signal := parse_csq lb (ax_raw xq)\<rparr>
      in if reg_is_registered (cs_registration s)
         then
           let (xo, log) = at_command env ''AT+COPS?'' 3000 log;
               (xw, log) = at_command env ''AT+QNWINFO'' 3000 log;
               (xe, log) = at_command env ''AT+QENG=\"servingcell\"'' 3000 log;
               (xp, log) = at_command env ''AT+CGPADDR'' 3000 log;
               nw = parse_qnwinfo lb (ax_raw xw)
           in (s\<lparr>cs_operator_name := oi_name (parse_cops lb (ax_raw xo)), cs_rat := ni_rat nw, cs_operator_code := ni_oper_code nw,
                cs_cell := parse_qeng_servingcell lb (ax_raw xe), cs_pdp := parse_cgpaddr (ax_raw xp)\<rparr>, log)
         else (s\<lparr>cs_last_error := ''nicht registriert: '' @ reg_state_name (cs_registration s)\<rparr>, log))"

text \<open>From a modem that answers on: identity, SIM, and the network if the SIM is ready.\<close>

definition poll_sim ::
    "'w note_fns \<Rightarrow> at_env \<Rightarrow> cellular_service \<Rightarrow> cellular_status \<Rightarrow> 'w \<times> at_log \<Rightarrow> cellular_service \<times> 'w \<times> at_log" where
  "poll_sim fns env v s p =
     (let (s, v, log) = poll_identity env v s (snd p);
          (sim, m, w, log) = ensure_on_port fns env (cc_sim_pin (cv_cfg v)) (cv_sim v) (fst p, log);
          (xc, log) = at_command env ''AT+QCCID'' 3000 log;
          s = s\<lparr>cs_sim := ss_state sim, cs_sim_detail := ss_detail sim, cs_iccid := at_extract (ax_raw xc) ''+QCCID:''\<rparr>;
          v = v\<lparr>cv_sim := m\<rparr>
      in if ss_state sim \<noteq> SimReady then (v\<lparr>cv_st := s\<lparr>cs_last_error := ss_detail sim\<rparr>\<rparr>, w, log)
         else let (s, log) = poll_network env s log in (v\<lparr>cv_st := s\<rparr>, w, log))"

definition poll :: "'w note_fns \<Rightarrow> at_env \<Rightarrow> cellular_service \<Rightarrow> 'w \<times> at_log \<Rightarrow> cellular_service \<times> 'w \<times> at_log" where
  "poll fns env v p =
     (let (now, log) = read_clock env (snd p);
          s = cellular_status0\<lparr>cs_last_update_ms := now, cs_present := ae_available env\<rparr>
      in if \<not> ae_available env then (v\<lparr>cv_st := s\<lparr>cs_last_error := ''kein AT-Port - Modem nicht erkannt''\<rparr>\<rparr>, fst p, log)
         else
           let (ping, log) = at_command env ''AT'' 2000 log; s = s\<lparr>cs_responsive := ax_ok ping\<rparr>
           in if \<not> ax_ok ping
              then (v\<lparr>cv_st := s\<lparr>cs_last_error := (if ax_device_gone ping then ''Modem verschwunden''
                      else if ax_timed_out ping then ''keine Antwort auf AT'' else ''AT abgelehnt'')\<rparr>\<rparr>, fst p, log)
              else poll_sim fns env v s (fst p, log))"

section \<open>Lemmas\<close>

text \<open>A command that carries a PIN, by its first characters.\<close>

definition pin_command :: "at_call \<Rightarrow> bool" where
  "pin_command x = (case x of Cmd c t a \<Rightarrow> starts_with c ''AT+CPWD='' \<or> starts_with c ''AT+CLCK=\"SC\",0'' \<or> starts_with c ''AT+CLCK=\"SC\",1''
     | Clock n \<Rightarrow> False)"

definition pin_commands :: "at_log \<Rightarrow> nat" where
  "pin_commands log = length (filter pin_command log)"

lemma pin_commands_simps [simp]:
  "pin_commands [] = 0" "pin_commands (xs @ ys) = pin_commands xs + pin_commands ys"
  "pin_commands (x # xs) = (if pin_command x then 1 else 0) + pin_commands xs"
  by (simp_all add: pin_commands_def)

lemma pin_command_simps [simp]:
  "\<not> pin_command (Clock n)" "\<not> pin_command (Cmd ''AT+CLCK=\"SC\",2'' t a)" "\<not> pin_command (Cmd ''AT+QPINC=\"SC\"'' t a)"
  "\<not> pin_command (Cmd ''AT+CPIN?'' t a)" "\<not> pin_command (Cmd ''AT+CFUN=1,1'' t a)" "\<not> pin_command (Cmd ''AT+QENG=\"neighbourcell\"'' t a)"
  "pin_command (Cmd (clck_cmd e p) t a)" "pin_command (Cmd (cpwd_cmd p q) t a)"
  by (simp_all add: pin_command_def starts_with_def clck_cmd_def cpwd_cmd_def)

lemma sim_lock_command_pins:
  "sim_lock_command env q log = (ok, d, out, log') \<Longrightarrow> pin_commands log' = pin_commands log + (if slr_action q = LockStatus then 0 else 1)"
  by (auto simp: sim_lock_command_def at_command_def Let_def split: sim_lock_action.splits if_splits)

datatype action_op = AskSim sim_lock_request | AskNeighbours | AskRestart | ActTick at_env cellular_status

fun action_step :: "action_op \<Rightarrow> modem_actions \<times> at_log \<Rightarrow> modem_actions \<times> at_log" where
  "action_step (AskSim r) (a, log) = (snd (request_sim_lock r a), log)"
| "action_step AskNeighbours (a, log) = (request_neighbours a, log)"
| "action_step AskRestart (a, log) = (request_restart a, log)"
| "action_step (ActTick env s) (a, log) = snd (actions_tick env s a log)"

fun asks_pin :: "action_op \<Rightarrow> nat" where
  "asks_pin (AskSim r) = (if slr_action r = LockStatus then 0 else 1)"
| "asks_pin _ = 0"

text \<open>What the waiting request can still cost.\<close>

definition pins_due :: "modem_actions \<times> at_log \<Rightarrow> nat" where
  "pins_due p = pin_commands (snd p) + (if ma_sim_requested (fst p) \<and> slr_action (ma_sim_req (fst p)) \<noteq> LockStatus then 1 else 0)"

lemma actions_gone_pins: "pins_due (actions_gone env a log) \<le> pins_due (a, log)"
  by (simp add: pins_due_def actions_gone_def read_clock_def Let_def)

lemma actions_tick_pins: "pins_due (snd (actions_tick env s a log)) \<le> pins_due (a, log)"
proof (cases "cs_present s \<and> cs_responsive s \<and> \<not> ma_restart_requested a \<and> ma_sim_requested a")
  case True
  obtain ok d out l where c: "sim_lock_command env (ma_sim_req a) (log @ [Clock (ae_now env (length log))]) = (ok, d, out, l)"
    by (metis prod_cases4)
  from True sim_lock_command_pins [OF c] show ?thesis
    by (simp add: actions_tick_def run_sim_lock_def read_clock_def at_command_def c pins_due_def Let_def)
next
  case False
  with actions_gone_pins [of env a log] show ?thesis
    by (auto simp: actions_tick_def at_command_def run_neighbours_def read_clock_def pins_due_def Let_def)
qed

lemma action_step_pins: "pins_due (action_step op p) \<le> pins_due p + asks_pin op"
  by (cases p; cases op)
     (auto simp: actions_tick_pins, auto simp: pins_due_def request_sim_lock_def request_neighbours_def request_restart_def)

lemma action_run_pins: "pins_due (fold action_step ops p) \<le> pins_due p + sum_list (map asks_pin ops)"
proof (induction ops arbitrary: p)
  case (Cons op ops)
  from Cons.IH [of "action_step op p"] action_step_pins [of op p] show ?case by simp
qed simp

text \<open>What a poll may send.\<close>

definition queries :: "string list" where
  "queries = [''AT'', ''ATI'', ''AT+CGSN'', ''AT+CPIN?'', ''AT+QCCID'', ''AT+CIMI'', ''AT+CEREG?'', ''AT+CSQ'', ''AT+COPS?'',
     ''AT+QNWINFO'', ''AT+QENG=\"servingcell\"'', ''AT+CGPADDR'']"

definition reads_only :: "string \<Rightarrow> at_log \<Rightarrow> bool" where
  "reads_only pin log \<longleftrightarrow> list_all (\<lambda>x. case x of Cmd c t a \<Rightarrow> c \<in> set queries \<or> c = cpin_unlock pin | Clock n \<Rightarrow> True) log"

lemma reads_only_simps [simp]:
  "reads_only pin []" "reads_only pin (xs @ ys) \<longleftrightarrow> reads_only pin xs \<and> reads_only pin ys"
  "reads_only pin (Clock n # xs) \<longleftrightarrow> reads_only pin xs"
  "reads_only pin (Cmd c t a # xs) \<longleftrightarrow> (c \<in> set queries \<or> c = cpin_unlock pin) \<and> reads_only pin xs"
  by (simp_all add: reads_only_def)

lemma ensure_ready_reads:
  "ensure_ready fns w env pin m = (s, es, m') \<Longrightarrow> reads_only pin (sent_calls es)"
  by (auto simp: ensure_ready_def pin_required_round_def try_unlock_def settle_def remember_attempt_def forget_attempt_def cpin_query_def
        queries_def Let_def split: if_splits sim_state.splits)

lemma ensure_ready_unlocks:
  "ensure_ready fns w env pin m = (s, es, m') \<Longrightarrow> length (filter (is_unlock pin) es) \<le> 1"
  by (auto simp: ensure_ready_def pin_required_round_def try_unlock_def settle_def remember_attempt_def forget_attempt_def cpin_query_def
        cpin_unlock_def Let_def split: if_splits sim_state.splits)

lemma ensure_on_port_reads:
  "ensure_on_port fns env pin m (w, log) = (s, m', w', log') \<Longrightarrow> \<exists>es. log' = log @ es \<and> reads_only pin es"
  using ensure_ready_reads by (fastforce simp: ensure_on_port_def Let_def split: prod.splits)

lemma poll_identity_reads:
  "poll_identity env v s log = (s', v', log') \<Longrightarrow>
     cv_cfg v' = cv_cfg v \<and> cv_sim v' = cv_sim v \<and> cs_present s' = cs_present s \<and> cs_responsive s' = cs_responsive s
     \<and> (\<exists>es. log' = log @ es \<and> reads_only pin es)"
  by (auto simp: poll_identity_def at_command_def queries_def Let_def split: if_splits)

lemma poll_network_reads:
  "poll_network env s log = (s', log') \<Longrightarrow>
     cs_present s' = cs_present s \<and> cs_responsive s' = cs_responsive s \<and> cs_sim s' = cs_sim s \<and> (\<exists>es. log' = log @ es \<and> reads_only pin es)"
  by (auto simp: poll_network_def at_command_def queries_def Let_def split: if_splits)

lemma poll_sim_reads:
  assumes "poll_sim fns env v s (w, log) = (v', w', log')"
  shows "cv_cfg v' = cv_cfg v \<and> cs_present (cv_st v') = cs_present s \<and> cs_responsive (cv_st v') = cs_responsive s
    \<and> (\<exists>es. log' = log @ es \<and> reads_only (cc_sim_pin (cv_cfg v)) es)"
proof -
  let ?pin = "cc_sim_pin (cv_cfg v)"
  obtain s1 v1 l2 where i: "poll_identity env v s log = (s1, v1, l2)" by (metis prod_cases3)
  note ir = poll_identity_reads [OF i, of ?pin]
  obtain sim m w2 l3 where e: "ensure_on_port fns env ?pin (cv_sim v) (w, l2) = (sim, m, w2, l3)" by (metis prod_cases4)
  note er = ensure_on_port_reads [OF e]
  let ?xc = "ae_at env (length l3)"
  let ?l4 = "l3 @ [Cmd ''AT+QCCID'' 3000 ?xc]"
  let ?s2 = "s1\<lparr>cs_sim := ss_state sim, cs_sim_detail := ss_detail sim, cs_iccid := at_extract (ax_raw ?xc) ''+QCCID:''\<rparr>"
  obtain s3 l5 where n: "poll_network env ?s2 ?l4 = (s3, l5)" by (metis surj_pair)
  note nr = poll_network_reads [OF n, of ?pin]
  have l4: "\<exists>es. ?l4 = log @ es \<and> reads_only ?pin es" using ir er by (auto simp: queries_def)
  then obtain e4 where e4: "?l4 = log @ e4" "reads_only ?pin e4" by blast
  from nr obtain e5 where "l5 = ?l4 @ e5" "reads_only ?pin e5" by blast
  moreover from this(1) have "l5 = log @ e4 @ e5" unfolding e4(1) by simp
  ultimately have "l5 = log @ (e4 @ e5) \<and> reads_only ?pin (e4 @ e5)" using e4(2) by (simp only: reads_only_simps)
  then have "\<exists>es. l5 = log @ es \<and> reads_only ?pin es" by blast
  moreover have c: "cv_cfg v1 = cv_cfg v" "cv_sim v1 = cv_sim v" using ir by simp_all
  have "poll_sim fns env v s (w, log) =
      (if ss_state sim \<noteq> SimReady then (v1\<lparr>cv_sim := m, cv_st := ?s2\<lparr>cs_last_error := ss_detail sim\<rparr>\<rparr>, w2, ?l4)
       else (v1\<lparr>cv_sim := m, cv_st := s3\<rparr>, w2, l5))"
    unfolding poll_sim_def snd_conv fst_conv i prod.case Let_def c e at_command_def n by (rule refl)
  ultimately show ?thesis using l4 ir nr assms by (simp split: if_splits)
qed

lemma poll_reads:
  assumes "poll fns env v (w, log) = (v', w', log')"
  shows "cv_cfg v' = cv_cfg v \<and> (\<exists>es. log' = log @ es \<and> reads_only (cc_sim_pin (cv_cfg v)) es)"
  using assms by (auto simp: poll_def read_clock_def at_command_def queries_def Let_def dest!: poll_sim_reads split: if_splits)

lemma upper_idem: "starts_with_ci (p @ x) p"
  by (simp add: starts_with_ci_def)

section \<open>Properties\<close>

text \<open>A PIN the owner enters is tried once. Whatever is requested in whatever order, and whatever the modem answers: the commands that carry a PIN
  and can cost an attempt are at most as many as the requests that asked for one; a failure is not repeated, and neither is a request that came while
  the modem was gone.\<close>

theorem pin_action_runs_once:
  "pin_commands (snd (fold action_step ops (actions_new, []))) \<le> sum_list (map asks_pin ops)"
proof -
  have "pins_due (actions_new, []) = 0" by (simp add: pins_due_def actions_new_def)
  with action_run_pins [of ops "(actions_new, [])"] show ?thesis by (simp add: pins_due_def)
qed

text \<open>The status service reads and does not set. Everything a poll sends, whatever the modem answers, is one of twelve queries or the unlock with the configured
  PIN; no mode, band, context or restart is written.\<close>

theorem poll_only_reads:
  assumes "poll fns env v (w, log) = (v', w', log')"
  shows "\<exists>es. log' = log @ es \<and> list_all (\<lambda>x. case x of Cmd c t a \<Rightarrow> c \<in> set queries \<or> c = cpin_unlock (cc_sim_pin (cv_cfg v)) | Clock n \<Rightarrow> True) es"
  using poll_reads [OF assms] by (auto simp: reads_only_def)

definition poll_env :: at_env where
  "poll_env = \<lparr>ae_lb = 32, ae_available = True, ae_at = (\<lambda>k. says ''+CPIN: READY''), ae_now = (\<lambda>_. 1000)\<rparr>"

theorem poll_only_reads_witness:
  "\<exists>es. snd (snd (poll no_note poll_env service_new (None, []))) = [] @ es
     \<and> list_all (\<lambda>x. case x of Cmd c t a \<Rightarrow> c \<in> set queries \<or> c = cpin_unlock [] | Clock n \<Rightarrow> True) es"
proof -
  let ?r = "poll no_note poll_env service_new (None, [])"
  have "?r = (fst ?r, fst (snd ?r), snd (snd ?r))" by simp
  from poll_only_reads [OF this] show ?thesis by (simp add: service_new_def cellular_config0_def)
qed

text \<open>No secret reaches the log. For every command the components send with a PIN or a password in it, what may be logged is the same whatever the secret.\<close>

theorem secrets_are_redacted:
  "redact_at (cpin_unlock pin) = ''AT+CPIN=<redigiert>''
   \<and> redact_at (clck_cmd e pin) = ''AT+CLCK=<redigiert>''
   \<and> redact_at (cpwd_cmd pin new_pin) = ''AT+CPWD=<redigiert>''
   \<and> redact_at (''AT+QICSGP='' @ x) = ''AT+QICSGP=<redigiert>''"
  by (simp add: redact_at_def secret_commands_def starts_with_ci_def upper_def cpin_unlock_def clck_cmd_def cpwd_cmd_def)

end
