(* ===== verification/Radio_Tuner.thy ===== *)
theory Radio_Tuner
  imports Cellular
begin

unbundle bit_operations_syntax

text \<open>
  Band selection and network mode, enforced on the modem, and the scan that measures every band
  (\<^verbatim>\<open>core/cellular/radio_tuner.hpp\<close>, \<^verbatim>\<open>radio_tuner.cpp\<close>). The AT port is shared with other components, so its log is an argument
  and a result. The code indexes a table and dereferences a pointer in the scan; where that would be out of bounds the model sets
  \<open>rt_fault\<close>, and it is shown that it never is.
\<close>

section \<open>Definitions\<close>

datatype radio_sync = SyncUnknown | InSync | SyncPending | SyncFailed | Unverified

fun radio_sync_name :: "radio_sync \<Rightarrow> string" where
  "radio_sync_name InSync = ''in-sync''"
| "radio_sync_name SyncPending = ''pending''"
| "radio_sync_name SyncFailed = ''failed''"
| "radio_sync_name Unverified = ''unverified''"
| "radio_sync_name SyncUnknown = ''unknown''"

datatype scan_state = ScanIdle | ScanRunning | ScanDone | ScanError

fun scan_state_name :: "scan_state \<Rightarrow> string" where
  "scan_state_name ScanRunning = ''running''"
| "scan_state_name ScanDone = ''done''"
| "scan_state_name ScanError = ''error''"
| "scan_state_name ScanIdle = ''idle''"

record scan_row =
  sr_band :: int
  sr_mhz :: int
  sr_ok :: bool
  sr_samples :: int
  sr_sinr :: "int option"
  sr_rsrp :: "int option"
  sr_rsrq :: "int option"

record radio_state =
  rs_sync :: radio_sync
  rs_detail :: string
  rs_desired_mask :: u64
  rs_desired_mode :: net_mode
  rs_modem_mask :: "u64 option"
  rs_modem_nwscanmode :: "int option"
  rs_writes :: int
  rs_scan :: scan_state
  rs_scan_detail :: string
  rs_scan_current :: int
  rs_scan_best :: int
  rs_rows :: "scan_row list"

definition radio_state0 :: radio_state where
  "radio_state0 = \<lparr>rs_sync = SyncUnknown, rs_detail = [], rs_desired_mask = 0, rs_desired_mode = NetAuto, rs_modem_mask = None,
     rs_modem_nwscanmode = None, rs_writes = 0, rs_scan = ScanIdle, rs_scan_detail = [], rs_scan_current = 0, rs_scan_best = 0,
     rs_rows = []\<rparr>"

datatype radio_phase = PhaseIdle | RfOff
datatype scan_phase = Lock | Measure | Restore

record radio_tuner =
  rt_st :: radio_state
  rt_have_cfg :: bool
  rt_alive :: bool
  rt_verified :: bool
  rt_apply_pending :: bool
  rt_restore_pending :: bool
  rt_phase :: radio_phase
  rt_reenable_owed :: bool
  rt_reenable_tries :: int
  rt_scan_bands :: "int list"
  rt_scan_idx :: nat
  rt_scan_phase :: scan_phase
  rt_scan_deadline_ms :: u64
  rt_sinr :: "int list"
  rt_rsrp :: "int list"
  rt_rsrq :: "int list"
  rt_fault :: bool

definition tuner_new :: radio_tuner where
  "tuner_new = \<lparr>rt_st = radio_state0, rt_have_cfg = False, rt_alive = False, rt_verified = False, rt_apply_pending = False,
     rt_restore_pending = False, rt_phase = PhaseIdle, rt_reenable_owed = False, rt_reenable_tries = 0, rt_scan_bands = [],
     rt_scan_idx = 0, rt_scan_phase = Lock, rt_scan_deadline_ms = 0, rt_sinr = [], rt_rsrp = [], rt_rsrq = [], rt_fault = False\<rparr>"

definition kSamplesPerBand :: int where "kSamplesPerBand = 4"
definition kBandTimeoutMs :: u32 where "kBandTimeoutMs = 30000"
definition kMaxRadioReenable :: int where "kMaxRadioReenable = 3"

definition upd_rs :: "(radio_state \<Rightarrow> radio_state) \<Rightarrow> radio_tuner \<Rightarrow> radio_tuner" where
  "upd_rs f t = t\<lparr>rt_st := f (rt_st t)\<rparr>"

definition say :: "radio_sync \<Rightarrow> string \<Rightarrow> radio_tuner \<Rightarrow> radio_tuner" where
  "say s d = upd_rs (\<lambda>r. r\<lparr>rs_sync := s, rs_detail := d\<rparr>)"

abbreviation scanning :: "radio_tuner \<Rightarrow> bool" where
  "scanning t \<equiv> rs_scan (rt_st t) = ScanRunning"

definition median_of :: "int list \<Rightarrow> int option" where
  "median_of v = (if v = [] then None else Some (sort v ! (length v div 2)))"

fun band_words :: "int list \<Rightarrow> string \<Rightarrow> string" where
  "band_words [] s = s"
| "band_words (b # bs) s = band_words bs ((if s \<noteq> [] then s @ '' '' else s) @ ''B'' @ int_dec b)"

definition band_list :: "u64 \<Rightarrow> string" where
  "band_list m = (let s = band_words (bands_from_mask m) [] in if s = [] then ''(none)'' else s)"

definition tuner_set_config :: "cellular_config \<Rightarrow> radio_tuner \<Rightarrow> radio_tuner" where
  "tuner_set_config c t =
     (let m = profile_mask (cc_band_profile c) (cc_band_mask c);
          changed = rt_have_cfg t \<and> (m \<noteq> rs_desired_mask (rt_st t) \<or> cc_net_mode c \<noteq> rs_desired_mode (rt_st t));
          t = upd_rs (\<lambda>r. r\<lparr>rs_desired_mask := m, rs_desired_mode := cc_net_mode c\<rparr>) (t\<lparr>rt_have_cfg := True\<rparr>)
      in if \<not> changed then t
         else say SyncPending ''change waiting for the modem'' (t\<lparr>rt_apply_pending := True, rt_verified := False\<rparr>))"

definition mask_in_sync :: "radio_tuner \<Rightarrow> u64 \<Rightarrow> bool" where
  "mask_in_sync t modem_mask \<longleftrightarrow> modem_mask AND all_supported_mask = rs_desired_mask (rt_st t)"

definition scan_refusal :: "radio_tuner \<Rightarrow> string" where
  "scan_refusal t =
     (if \<not> rt_alive t then ''no modem answering''
      else if scanning t then ''a scan is already running''
      else if rs_desired_mode (rt_st t) = GsmOnly then ''the SINR scan needs LTE - the network mode is GSM only''
      else if bands_from_mask (rs_desired_mask (rt_st t)) = [] then ''no LTE band in the active profile''
      else if rt_phase t \<noteq> PhaseIdle then ''a band change is being written - try again in a moment''
      else [])"

text \<open>The result is the reason for a refusal, empty when the scan starts.\<close>

definition request_scan :: "radio_tuner \<Rightarrow> string \<times> radio_tuner" where
  "request_scan t =
     (let why = scan_refusal t
      in if why \<noteq> [] then (why, upd_rs (\<lambda>r. r\<lparr>rs_scan := ScanError, rs_scan_detail := why\<rparr>) t)
         else let bands = bands_from_mask (rs_desired_mask (rt_st t))
              in ([], upd_rs (\<lambda>r. r\<lparr>rs_rows := [], rs_scan := ScanRunning, rs_scan_best := 0, rs_scan_current := hd bands,
                                   rs_scan_detail := ''starting''\<rparr>)
                        (t\<lparr>rt_scan_bands := bands, rt_scan_idx := 0, rt_scan_phase := Lock\<rparr>)))"

definition on_modem_gone :: "radio_tuner \<Rightarrow> radio_tuner" where
  "on_modem_gone t =
     (let t = t\<lparr>rt_alive := False, rt_verified := False, rt_restore_pending := (rt_phase t = RfOff \<or> rt_restore_pending t),
                rt_reenable_tries := 0, rt_phase := PhaseIdle\<rparr>;
          t = upd_rs (\<lambda>r. r\<lparr>rs_writes := 0, rs_modem_mask := None, rs_modem_nwscanmode := None\<rparr>) t
      in if scanning t
         then (upd_rs (\<lambda>r. r\<lparr>rs_scan := ScanError,
                 rs_scan_detail := ''the modem disappeared during the scan - the configured bands are restored once it is back'',
                 rs_scan_current := 0\<rparr>) t)\<lparr>rt_restore_pending := True\<rparr>
         else t)"

definition band_cmd :: "u64 \<Rightarrow> string" where
  "band_cmd m = ''AT+QCFG=\"band\",d3,'' @ mask_hex m"

text \<open>Second half of a write: the settings, and the radio on again.\<close>

definition write_step :: "at_env \<Rightarrow> radio_tuner \<Rightarrow> at_log \<Rightarrow> radio_tuner \<times> at_log" where
  "write_step env t log =
     (let dm = rs_desired_mask (rt_st t);
          (b, log) = at_command env (band_cmd dm) 3000 log;
          (n, log) = at_command env (''AT+QCFG=\"nwscanmode\",'' @ int_dec (net_mode_nwscanmode (rs_desired_mode (rt_st t))) @ '',1'') 3000 log;
          (on, log) = at_command env ''AT+CFUN=1'' 10000 log;
          t = upd_rs (\<lambda>r. r\<lparr>rs_writes := rs_writes r + 1\<rparr>) t
      in if \<not> ax_ok on \<and> rt_reenable_tries t + 1 \<le> kMaxRadioReenable
         then (say SyncPending ''the radio did not confirm back on - retrying''
                 (t\<lparr>rt_reenable_tries := rt_reenable_tries t + 1, rt_phase := RfOff\<rparr>), log)
         else
           let t = t\<lparr>rt_reenable_owed := False, rt_reenable_tries := 0, rt_phase := PhaseIdle\<rparr>
           in if \<not> ax_ok on
              then (say SyncFailed ''AT+CFUN=1 did not confirm after retries - the radio may be off'' (t\<lparr>rt_verified := True\<rparr>), log)
              else if \<not> ax_ok b \<or> \<not> ax_ok n
              then (say SyncFailed
                      (if \<not> ax_ok b
                       then ''the modem rejected the band mask '' @ mask_hex dm @ '' ('' @ band_list dm @ '') - a band outside this variant's set?''
                       else ''the modem rejected the network mode'') (t\<lparr>rt_verified := True\<rparr>), log)
              else (say SyncPending ''written, waiting for the modem to confirm'' (t\<lparr>rt_verified := False\<rparr>), log))"

definition lock_mask :: "at_env \<Rightarrow> u64 \<Rightarrow> at_log \<Rightarrow> bool \<times> at_log" where
  "lock_mask env m log =
     (if m = 0 then (False, log)
      else let (off, log) = at_command env ''AT+CFUN=0'' 10000 log
           in if \<not> ax_ok off then (False, log)
              else let (cfg, log) = at_command env (band_cmd m) 3000 log;
                       (on, log) = at_command env ''AT+CFUN=1'' 10000 log
                   in (ax_ok cfg \<and> ax_ok on, log))"

definition scan_advance :: "radio_tuner \<Rightarrow> radio_tuner" where
  "scan_advance t =
     (let i = rt_scan_idx t + 1
      in t\<lparr>rt_scan_idx := i, rt_scan_phase := (if i < length (rt_scan_bands t) then Lock else Restore)\<rparr>)"

text \<open>The best row so far: its band, SINR and RSRP.\<close>

definition better_row :: "(int \<times> int option \<times> int option) \<Rightarrow> scan_row \<Rightarrow> int \<times> int option \<times> int option" where
  "better_row acc r =
     (case acc of (best, bs, bp) \<Rightarrow>
        (case sr_sinr r of
           None \<Rightarrow> acc
         | Some v \<Rightarrow>
             if sr_ok r \<and> (case bs of None \<Rightarrow> True
                           | Some b \<Rightarrow> b < v \<or> v = b \<and> (case sr_rsrp r of None \<Rightarrow> False
                               | Some p \<Rightarrow> (case bp of None \<Rightarrow> True | Some q \<Rightarrow> q < p)))
             then (sr_band r, sr_sinr r, sr_rsrp r) else acc))"

definition scan_finish :: "radio_tuner \<Rightarrow> radio_tuner" where
  "scan_finish t =
     (let (best, bs, bp) = foldl better_row (0, None, None) (rs_rows (rt_st t));
          t = upd_rs (\<lambda>r. r\<lparr>rs_scan_current := 0, rs_scan_best := best\<rparr>) t;
          t = (if best = 0
               then upd_rs (\<lambda>r. r\<lparr>rs_scan := ScanError,
                      rs_scan_detail := ''no usable SINR measurement on any band - the configured bands are restored''\<rparr>) t
               else upd_rs (\<lambda>r. r\<lparr>rs_scan := ScanDone,
                      rs_scan_detail := ''best band: B'' @ int_dec best @ '' (SINR '' @ int_dec (case bs of None \<Rightarrow> 0 | Some v \<Rightarrow> v) @ '' dB''
                        @ (case bp of None \<Rightarrow> [] | Some p \<Rightarrow> '', RSRP '' @ int_dec p @ '' dBm'')
                        @ ''). The configured bands are restored; lock it as a separate step.''\<rparr>) t)
      in t\<lparr>rt_verified := False\<rparr>)"

definition new_row :: "lte_band \<Rightarrow> scan_row" where
  "new_row b = \<lparr>sr_band = lb_num b, sr_mhz = lb_mhz b, sr_ok = False, sr_samples = 0, sr_sinr = None, sr_rsrp = None, sr_rsrq = None\<rparr>"

definition scan_lock :: "at_env \<Rightarrow> radio_tuner \<Rightarrow> at_log \<Rightarrow> radio_tuner \<times> at_log" where
  "scan_lock env t log =
     (case (if rt_scan_idx t < length (rt_scan_bands t) then lte_band_by_number (rt_scan_bands t ! rt_scan_idx t) else None) of
        None \<Rightarrow> (t\<lparr>rt_fault := True\<rparr>, log)
      | Some b \<Rightarrow>
          let t = upd_rs (\<lambda>r. r\<lparr>rs_rows := rs_rows r @ [new_row b], rs_scan_current := lb_num b,
                               rs_scan_detail := ''measuring B'' @ int_dec (lb_num b)\<rparr>) t;
              t = t\<lparr>rt_sinr := [], rt_rsrp := [], rt_rsrq := []\<rparr>;
              (ok, log) = lock_mask env (bit_mask (lb_bit b)) log
          in if \<not> ok then (scan_advance t, log)
             else let (now, log) = read_clock env log
                  in (t\<lparr>rt_scan_deadline_ms := now + ucast kBandTimeoutMs, rt_scan_phase := Measure\<rparr>, log))"

definition upd_last :: "(scan_row \<Rightarrow> scan_row) \<Rightarrow> radio_tuner \<Rightarrow> radio_tuner" where
  "upd_last f = upd_rs (\<lambda>r. r\<lparr>rs_rows := butlast (rs_rows r) @ [f (last (rs_rows r))]\<rparr>)"

text \<open>A measurement that is known to come from the band being measured.\<close>

definition sample_of :: "cellular_status \<Rightarrow> scan_row \<Rightarrow> int option" where
  "sample_of s row = (if reg_is_registered (cs_registration s) \<and> sc_band (cs_cell s) = Some (sr_band row) then sc_sinr (cs_cell s) else None)"

definition opt_snoc :: "int list \<Rightarrow> int option \<Rightarrow> int list" where
  "opt_snoc xs v = (case v of None \<Rightarrow> xs | Some x \<Rightarrow> xs @ [x])"

definition scan_measure :: "at_env \<Rightarrow> cellular_status \<Rightarrow> radio_tuner \<Rightarrow> at_log \<Rightarrow> radio_tuner \<times> at_log" where
  "scan_measure env s t log =
     (if rs_rows (rt_st t) = [] then (t\<lparr>rt_fault := True\<rparr>, log)
      else
        case sample_of s (last (rs_rows (rt_st t))) of
          Some v \<Rightarrow>
            let t = t\<lparr>rt_sinr := rt_sinr t @ [v], rt_rsrp := opt_snoc (rt_rsrp t) (sc_rsrp (cs_cell s)),
                     rt_rsrq := opt_snoc (rt_rsrq t) (sc_rsrq (cs_cell s))\<rparr>;
                t = upd_last (\<lambda>r. r\<lparr>sr_samples := int (length (rt_sinr t))\<rparr>) t
            in if kSamplesPerBand \<le> int (length (rt_sinr t))
               then (scan_advance (upd_last (\<lambda>r. r\<lparr>sr_ok := True, sr_sinr := median_of (rt_sinr t), sr_rsrp := median_of (rt_rsrp t),
                                             sr_rsrq := median_of (rt_rsrq t)\<rparr>) t), log)
               else (t, log)
        | None \<Rightarrow>
            let (now, log) = read_clock env log
            in if rt_scan_deadline_ms t \<le> now then (scan_advance (upd_last (\<lambda>r. r\<lparr>sr_ok := False\<rparr>) t), log) else (t, log))"

definition scan_step :: "at_env \<Rightarrow> cellular_status \<Rightarrow> radio_tuner \<Rightarrow> at_log \<Rightarrow> radio_tuner \<times> at_log" where
  "scan_step env s t log =
     (case rt_scan_phase t of
        Lock \<Rightarrow> scan_lock env t log
      | Measure \<Rightarrow> scan_measure env s t log
      | Restore \<Rightarrow> let (ok, log) = lock_mask env (rs_desired_mask (rt_st t)) log in (scan_finish t, log))"

text \<open>Reading back what the modem has, and the first half of a write when it has something else.\<close>

definition tuner_check :: "at_env \<Rightarrow> radio_tuner \<Rightarrow> at_log \<Rightarrow> bool \<times> radio_tuner \<times> at_log" where
  "tuner_check env t log =
     (let (xb, log) = at_command env ''AT+QCFG=\"band\"'' 3000 log;
          (xn, log) = at_command env ''AT+QCFG=\"nwscanmode\"'' 3000 log;
          lte = qb_lte (parse_qcfg_band (ax_raw xb));
          nw = parse_qcfg_int (ae_lb env) (ax_raw xn) ''nwscanmode'';
          t = upd_rs (\<lambda>r. r\<lparr>rs_modem_mask := lte, rs_modem_nwscanmode := nw\<rparr>) t;
          readable = (lte \<noteq> None \<and> nw \<noteq> None);
          in_sync = (\<not> rt_reenable_owed t \<and> (case lte of None \<Rightarrow> False | Some m \<Rightarrow> mask_in_sync t m)
                     \<and> nw = Some (net_mode_nwscanmode (rs_desired_mode (rt_st t))))
      in if in_sync
         then (False, say InSync (if 0 < rs_writes (rt_st t) then ''applied and confirmed by the modem'' else ''the modem matches the configuration'')
                        (t\<lparr>rt_verified := True, rt_apply_pending := False\<rparr>), log)
         else if \<not> rt_apply_pending t \<and> \<not> readable
         then (False, say Unverified ''the modem's band report is not readable - nothing written'' (t\<lparr>rt_verified := True\<rparr>), log)
         else if \<not> rt_apply_pending t \<and> 0 < rs_writes (rt_st t)
         then (False, say SyncFailed (''the modem reports '' @ band_list ((case lte of None \<Rightarrow> 0 | Some m \<Rightarrow> m) AND all_supported_mask)
                        @ '' after the write, configured is '' @ band_list (rs_desired_mask (rt_st t)) @ '' - not written again'')
                        (t\<lparr>rt_verified := True\<rparr>), log)
         else
           let t = t\<lparr>rt_apply_pending := False\<rparr>; (off, log) = at_command env ''AT+CFUN=0'' 10000 log
           in if \<not> ax_ok off
              then (False, say SyncFailed ''AT+CFUN=0 rejected - nothing written'' (t\<lparr>rt_verified := True\<rparr>), log)
              else (True, say SyncPending ''radio off, writing bands and network mode''
                            (t\<lparr>rt_reenable_owed := True, rt_phase := RfOff\<rparr>), log))"

definition tuner_idle :: "at_env \<Rightarrow> radio_tuner \<Rightarrow> at_log \<Rightarrow> bool \<times> radio_tuner \<times> at_log" where
  "tuner_idle env t log =
     (if \<not> rt_have_cfg t then (False, t, log)
      else
        let t = (if rt_restore_pending t then t\<lparr>rt_restore_pending := False, rt_apply_pending := True, rt_verified := False\<rparr> else t)
        in if rs_desired_mask (rt_st t) = 0
           then (False, say SyncFailed ''no LTE band selected - nothing written'' (t\<lparr>rt_apply_pending := False, rt_verified := True\<rparr>), log)
           else
             let t = (if rt_reenable_owed t then t\<lparr>rt_apply_pending := True, rt_verified := False\<rparr> else t)
             in if \<not> rt_apply_pending t \<and> rt_verified t then (False, t, log) else tuner_check env t log)"

definition tuner_tick :: "at_env \<Rightarrow> cellular_status \<Rightarrow> radio_tuner \<Rightarrow> at_log \<Rightarrow> bool \<times> radio_tuner \<times> at_log" where
  "tuner_tick env s t log =
     (if \<not> cs_present s \<or> \<not> cs_responsive s then (False, (if rt_alive t then on_modem_gone t else t), log)
      else
        let t = t\<lparr>rt_alive := True\<rparr>
        in if scanning t then (True, scan_step env s t log)
           else if rt_phase t = RfOff then (True, write_step env t log)
           else tuner_idle env t log)"

section \<open>Lemmas\<close>

lemma upd_rs_simps [simp]:
  "rt_st (upd_rs f t) = f (rt_st t)" "rt_have_cfg (upd_rs f t) = rt_have_cfg t" "rt_alive (upd_rs f t) = rt_alive t"
  "rt_verified (upd_rs f t) = rt_verified t" "rt_apply_pending (upd_rs f t) = rt_apply_pending t"
  "rt_restore_pending (upd_rs f t) = rt_restore_pending t" "rt_phase (upd_rs f t) = rt_phase t"
  "rt_reenable_owed (upd_rs f t) = rt_reenable_owed t" "rt_reenable_tries (upd_rs f t) = rt_reenable_tries t"
  "rt_scan_bands (upd_rs f t) = rt_scan_bands t" "rt_scan_idx (upd_rs f t) = rt_scan_idx t"
  "rt_scan_phase (upd_rs f t) = rt_scan_phase t" "rt_sinr (upd_rs f t) = rt_sinr t" "rt_fault (upd_rs f t) = rt_fault t"
  "rt_scan_deadline_ms (upd_rs f t) = rt_scan_deadline_ms t"
  by (simp_all add: upd_rs_def)

lemma say_simps [simp]:
  "rt_st (say s d t) = (rt_st t)\<lparr>rs_sync := s, rs_detail := d\<rparr>" "rt_have_cfg (say s d t) = rt_have_cfg t" "rt_alive (say s d t) = rt_alive t"
  "rt_verified (say s d t) = rt_verified t" "rt_apply_pending (say s d t) = rt_apply_pending t"
  "rt_restore_pending (say s d t) = rt_restore_pending t" "rt_phase (say s d t) = rt_phase t"
  "rt_reenable_owed (say s d t) = rt_reenable_owed t" "rt_reenable_tries (say s d t) = rt_reenable_tries t"
  "rt_scan_bands (say s d t) = rt_scan_bands t" "rt_scan_idx (say s d t) = rt_scan_idx t"
  "rt_scan_phase (say s d t) = rt_scan_phase t" "rt_sinr (say s d t) = rt_sinr t" "rt_fault (say s d t) = rt_fault t"
  by (simp_all add: say_def)

text \<open>The radio as the log tells it, and the refusals to switch it on.\<close>

fun radio_step :: "at_call \<Rightarrow> bool \<Rightarrow> bool" where
  "radio_step (Cmd c tm a) off =
     (if c = ''AT+CFUN=0'' \<and> ax_ok a then True else if c = ''AT+CFUN=1'' \<and> ax_ok a then False else off)"
| "radio_step (Clock n) off = off"

definition radio_off :: "at_log \<Rightarrow> bool" where
  "radio_off log = fold radio_step log False"

definition refusals :: "at_log \<Rightarrow> nat" where
  "refusals log = length (filter (\<lambda>x. case x of Cmd c tm a \<Rightarrow> c = ''AT+CFUN=1'' \<and> \<not> ax_ok a | Clock n \<Rightarrow> False) log)"

definition rf_cycles :: "at_log \<Rightarrow> nat" where
  "rf_cycles log = length (filter (\<lambda>x. case x of Cmd c tm a \<Rightarrow> c = ''AT+CFUN=0'' \<and> ax_ok a | Clock n \<Rightarrow> False) log)"

lemma log_append [simp]:
  "radio_off (xs @ ys) = fold radio_step ys (radio_off xs)" "refusals (xs @ ys) = refusals xs + refusals ys"
  "rf_cycles (xs @ ys) = rf_cycles xs + rf_cycles ys"
  by (simp_all add: radio_off_def refusals_def rf_cycles_def)

lemma log_Cons [simp]:
  "refusals (Cmd c tm a # xs) = (if c = ''AT+CFUN=1'' \<and> \<not> ax_ok a then 1 else 0) + refusals xs"
  "refusals (Clock n # xs) = refusals xs" "refusals [] = 0"
  "rf_cycles (Cmd c tm a # xs) = (if c = ''AT+CFUN=0'' \<and> ax_ok a then 1 else 0) + rf_cycles xs"
  "rf_cycles (Clock n # xs) = rf_cycles xs" "rf_cycles [] = 0"
  by (simp_all add: refusals_def rf_cycles_def)

lemma cmd_not_cfun [simp]: "band_cmd m \<noteq> ''AT+CFUN=0''" "band_cmd m \<noteq> ''AT+CFUN=1''"
  by (simp_all add: band_cmd_def)

lemmas at_port_defs = at_command_def read_clock_def

text \<open>A run of the tuner on a port of its own.\<close>

datatype tuner_op = TConfig cellular_config | TScan | TTick at_env cellular_status

fun tuner_step :: "tuner_op \<Rightarrow> radio_tuner \<times> at_log \<Rightarrow> radio_tuner \<times> at_log" where
  "tuner_step (TConfig c) (t, log) = (tuner_set_config c t, log)"
| "tuner_step TScan (t, log) = (snd (request_scan t), log)"
| "tuner_step (TTick env s) (t, log) = snd (tuner_tick env s t log)"

section \<open>A dead radio is not in sync\<close>

definition sync_inv :: "radio_tuner \<times> at_log \<Rightarrow> bool" where
  "sync_inv p \<longleftrightarrow> (case p of (t, log) \<Rightarrow> \<not> scanning t \<and> 0 \<le> rt_reenable_tries t \<and> rt_reenable_tries t \<le> int (refusals log)
     \<and> (refusals log \<le> 3 \<longrightarrow> (radio_off log \<longrightarrow> rt_reenable_owed t) \<and> (rs_sync (rt_st t) = InSync \<longrightarrow> \<not> rt_reenable_owed t)))"

lemma tuner_check_sync: "sync_inv (t, log) \<Longrightarrow> sync_inv (snd (tuner_check env t log))"
  by (auto simp: sync_inv_def tuner_check_def at_port_defs Let_def split: option.splits)

lemma write_step_sync: "sync_inv (t, log) \<Longrightarrow> sync_inv (write_step env t log)"
  by (auto simp: sync_inv_def write_step_def at_port_defs Let_def kMaxRadioReenable_def)

lemma tuner_idle_sync: "sync_inv (t, log) \<Longrightarrow> sync_inv (snd (tuner_idle env t log))"
  unfolding tuner_idle_def Let_def by (auto intro!: tuner_check_sync) (auto simp: sync_inv_def)

lemma tuner_tick_sync: "sync_inv (t, log) \<Longrightarrow> sync_inv (snd (tuner_tick env s t log))"
  unfolding tuner_tick_def Let_def
  by (auto intro!: tuner_idle_sync write_step_sync) (auto simp: sync_inv_def on_modem_gone_def Let_def)

lemma tuner_step_sync: "sync_inv p \<Longrightarrow> op \<noteq> TScan \<Longrightarrow> sync_inv (tuner_step op p)"
  by (cases p; cases op) (simp_all add: tuner_tick_sync, simp add: sync_inv_def tuner_set_config_def Let_def)

lemma tuner_run_sync: "sync_inv p \<Longrightarrow> TScan \<notin> set ops \<Longrightarrow> sync_inv (fold tuner_step ops p)"
proof (induction ops arbitrary: p)
  case (Cons op ops)
  then have "op \<noteq> TScan" by auto
  with Cons tuner_step_sync show ?case by simp
qed simp

section \<open>Radio cycles\<close>

text \<open>Whether the tuner may still switch the radio off by itself.\<close>

definition cycle_left :: "radio_tuner \<Rightarrow> nat" where
  "cycle_left t = of_bool (rt_apply_pending t \<or> rt_restore_pending t
     \<or> rt_phase t = PhaseIdle \<and> (rt_reenable_owed t \<or> \<not> rt_verified t \<and> rs_writes (rt_st t) \<le> 0))"

definition cycles_within :: "nat \<Rightarrow> radio_tuner \<times> at_log \<Rightarrow> bool" where
  "cycles_within n p \<longleftrightarrow> (case p of (t, log) \<Rightarrow> \<not> scanning t \<and> 0 \<le> rs_writes (rt_st t) \<and> rf_cycles log + cycle_left t \<le> n)"

lemma tuner_check_cycles:
  "cycles_within n (t, log) \<Longrightarrow> rt_phase t = PhaseIdle \<Longrightarrow> rt_restore_pending t = False \<Longrightarrow> rt_reenable_owed t \<longrightarrow> rt_apply_pending t \<Longrightarrow>
     rt_apply_pending t \<or> \<not> rt_verified t \<Longrightarrow> cycles_within n (snd (tuner_check env t log))"
  by (auto simp: cycles_within_def cycle_left_def tuner_check_def at_port_defs Let_def split: option.splits)

lemma write_step_cycles: "cycles_within n (t, log) \<Longrightarrow> rt_phase t = RfOff \<Longrightarrow> cycles_within n (write_step env t log)"
  by (auto simp: cycles_within_def cycle_left_def write_step_def at_port_defs Let_def)

lemma tuner_idle_cycles:
  assumes "cycles_within n (t, log)" "rt_phase t = PhaseIdle"
  shows "cycles_within n (snd (tuner_idle env t log))"
proof -
  define r where "r = (if rt_restore_pending t then t\<lparr>rt_restore_pending := False, rt_apply_pending := True, rt_verified := False\<rparr> else t)"
  define q where "q = (if rt_reenable_owed r then r\<lparr>rt_apply_pending := True, rt_verified := False\<rparr> else r)"
  have r: "cycles_within n (r, log)" "rt_phase r = PhaseIdle" "\<not> rt_restore_pending r"
    using assms by (auto simp: r_def cycles_within_def cycle_left_def)
  then have q: "cycles_within n (q, log)" "rt_phase q = PhaseIdle" "rt_restore_pending q = False" "rt_reenable_owed q \<longrightarrow> rt_apply_pending q"
    by (auto simp: q_def cycles_within_def cycle_left_def)
  have "cycles_within n (say SyncFailed d (r\<lparr>rt_apply_pending := False, rt_verified := True\<rparr>), log)" for d
    using r by (auto simp: cycles_within_def cycle_left_def)
  with tuner_check_cycles [OF q] q(1) assms(1) show ?thesis
    by (auto simp: tuner_idle_def Let_def r_def [symmetric] q_def [symmetric])
qed

lemma tuner_tick_cycles:
  assumes "cycles_within n (t, log)" "cs_present s" "cs_responsive s"
  shows "cycles_within n (snd (tuner_tick env s t log))"
proof -
  let ?t = "t\<lparr>rt_alive := True\<rparr>"
  have "cycles_within n (?t, log)" "\<not> scanning t" using assms(1) by (auto simp: cycles_within_def cycle_left_def)
  then show ?thesis using assms(2,3) tuner_idle_cycles [of n ?t log env] write_step_cycles [of n ?t log env]
    by (cases "rt_phase t") (simp_all add: tuner_tick_def Let_def)
qed

definition writes_ok :: "radio_tuner \<times> at_log \<Rightarrow> bool" where
  "writes_ok p \<longleftrightarrow> 0 \<le> rs_writes (rt_st (fst p))"

lemma scan_step_writes: "rs_writes (rt_st (fst (scan_step env s t log))) = rs_writes (rt_st t)"
  by (auto simp: scan_step_def scan_lock_def scan_measure_def scan_finish_def scan_advance_def upd_last_def case_prod_beta Let_def
      split: scan_phase.split option.split)

lemma tuner_check_writes: "rs_writes (rt_st (fst (snd (tuner_check env t log)))) = rs_writes (rt_st t)"
  unfolding tuner_check_def at_port_defs Let_def prod.case by simp

lemma write_step_writes: "rs_writes (rt_st (fst (write_step env t log))) = rs_writes (rt_st t) + 1"
  unfolding write_step_def at_port_defs Let_def prod.case by simp

lemma tuner_tick_writes:
  "0 \<le> rs_writes (rt_st t) \<Longrightarrow> 0 \<le> rs_writes (rt_st (fst (snd (tuner_tick env s t log))))"
  by (simp add: tuner_tick_def on_modem_gone_def tuner_idle_def Let_def tuner_check_writes write_step_writes scan_step_writes)

lemma tuner_step_writes: "writes_ok p \<Longrightarrow> writes_ok (tuner_step op p)"
  by (cases p; cases op) (simp_all add: writes_ok_def tuner_set_config_def request_scan_def tuner_tick_writes Let_def)

lemma tuner_run_writes: "writes_ok p \<Longrightarrow> writes_ok (fold tuner_step ops p)"
  by (induction ops arbitrary: p) (simp_all add: tuner_step_writes)

lemma tuner_ticks_cycles:
  "cycles_within n p \<Longrightarrow> list_all (\<lambda>(env, s). cs_present s \<and> cs_responsive s) ts \<Longrightarrow>
     cycles_within n (fold tuner_step (map (\<lambda>(env, s). TTick env s) ts) p)"
proof (induction ts arbitrary: p)
  case (Cons x xs)
  obtain t log env s where x: "p = (t, log)" "x = (env, s)" by (metis surj_pair)
  with Cons tuner_tick_cycles [of n t log s env] show ?case by simp
qed simp

section \<open>The scan\<close>

definition scan_ok :: "radio_tuner \<Rightarrow> bool" where
  "scan_ok t \<longleftrightarrow> \<not> rt_fault t \<and> (scanning t \<longrightarrow> (\<forall>b \<in> set (rt_scan_bands t). lte_band_by_number b \<noteq> None)
     \<and> (rt_scan_phase t \<noteq> Restore \<longrightarrow> rt_scan_idx t < length (rt_scan_bands t))
     \<and> (rt_scan_phase t = Measure \<longrightarrow> rs_rows (rt_st t) \<noteq> [] \<and> length (rt_sinr t) < 4))"

text \<open>An upper bound on what is left of a scan, in ticks that do not wait.\<close>

definition scan_work :: "radio_tuner \<Rightarrow> nat" where
  "scan_work t =
     (if \<not> scanning t then 0
      else case rt_scan_phase t of
             Lock \<Rightarrow> 1 + 5 * (length (rt_scan_bands t) - rt_scan_idx t)
           | Measure \<Rightarrow> 1 + 5 * (length (rt_scan_bands t) - rt_scan_idx t - 1) + (4 - length (rt_sinr t))
           | Restore \<Rightarrow> 1)"

text \<open>A tick that waits for the modem to find the band.\<close>

definition scan_waits :: "at_env \<Rightarrow> cellular_status \<Rightarrow> radio_tuner \<Rightarrow> at_log \<Rightarrow> bool" where
  "scan_waits env s t log \<longleftrightarrow> scanning t \<and> rt_scan_phase t = Measure \<and> sample_of s (last (rs_rows (rt_st t))) = None
     \<and> ae_now env (length log) < rt_scan_deadline_ms t"

lemma upd_last_simps [simp]:
  "rt_scan_bands (upd_last f t) = rt_scan_bands t" "rt_scan_idx (upd_last f t) = rt_scan_idx t" "rt_sinr (upd_last f t) = rt_sinr t"
  "rt_scan_phase (upd_last f t) = rt_scan_phase t" "rt_fault (upd_last f t) = rt_fault t" "rs_rows (rt_st (upd_last f t)) \<noteq> []"
  "rs_scan (rt_st (upd_last f t)) = rs_scan (rt_st t)"
  by (simp_all add: upd_last_def)

lemma scan_advance_simps [simp]:
  "rt_st (scan_advance t) = rt_st t" "rt_fault (scan_advance t) = rt_fault t" "rt_scan_bands (scan_advance t) = rt_scan_bands t"
  "rt_scan_idx (scan_advance t) = rt_scan_idx t + 1" "rt_scan_phase (scan_advance t) = Measure \<longleftrightarrow> False"
  "rt_scan_phase (scan_advance t) = Restore \<longleftrightarrow> \<not> rt_scan_idx t + 1 < length (rt_scan_bands t)"
  by (simp_all add: scan_advance_def Let_def)

lemma scan_advance_work:
  "scanning t \<Longrightarrow> scan_work (scan_advance t) \<le> 1 + 5 * (length (rt_scan_bands t) - rt_scan_idx t - 1)"
  by (simp add: scan_work_def scan_advance_def Let_def)

lemma scan_finish_simps [simp]: "\<not> scanning (scan_finish t)" "rt_fault (scan_finish t) = rt_fault t"
  by (simp_all add: scan_finish_def Let_def case_prod_beta)

lemma scan_lock_progress:
  assumes "scanning t" "scan_ok t" "rt_scan_phase t = Lock"
  shows "scan_ok (fst (scan_lock env t log)) \<and> scan_work (fst (scan_lock env t log)) < scan_work t"
proof -
  have i: "rt_scan_idx t < length (rt_scan_bands t)" and ok: "\<forall>b \<in> set (rt_scan_bands t). lte_band_by_number b \<noteq> None" "\<not> rt_fault t"
    using assms by (auto simp: scan_ok_def)
  obtain b where b: "lte_band_by_number (rt_scan_bands t ! rt_scan_idx t) = Some b" using i ok(1) nth_mem by fastforce
  define k where "k = (upd_rs (\<lambda>r. r\<lparr>rs_rows := rs_rows r @ [new_row b], rs_scan_current := lb_num b,
      rs_scan_detail := ''measuring B'' @ int_dec (lb_num b)\<rparr>) t)\<lparr>rt_sinr := [], rt_rsrp := [], rt_rsrq := []\<rparr>"
  obtain okl l where l: "lock_mask env (bit_mask (lb_bit b)) log = (okl, l)" by (metis surj_pair)
  have k: "scanning k" "rt_scan_bands k = rt_scan_bands t" "rt_scan_idx k = rt_scan_idx t" "\<not> rt_fault k" "rs_rows (rt_st k) \<noteq> []" "rt_sinr k = []"
    using assms(1) ok by (simp_all add: k_def)
  have e: "fst (scan_lock env t log) = (if okl then k\<lparr>rt_scan_deadline_ms := ae_now env (length l) + ucast kBandTimeoutMs, rt_scan_phase := Measure\<rparr>
      else scan_advance k)"
    using i b l by (simp add: scan_lock_def k_def Let_def read_clock_def)
  have w: "scan_work t = 1 + 5 * (length (rt_scan_bands t) - rt_scan_idx t)" using assms by (simp add: scan_work_def)
  show ?thesis
  proof (cases okl)
    case True
    then show ?thesis using k i ok w by (simp add: e scan_ok_def) (simp add: scan_work_def)
  next
    case False
    moreover have "scan_ok (scan_advance k)" using k i ok by (auto simp: scan_ok_def)
    ultimately show ?thesis using scan_advance_work [OF k(1)] k i w by (simp add: e)
  qed
qed

lemma scan_measure_progress:
  assumes "scanning t" "scan_ok t" "rt_scan_phase t = Measure" "\<not> scan_waits env s t log"
  shows "scan_ok (fst (scan_measure env s t log)) \<and> scan_work (fst (scan_measure env s t log)) < scan_work t"
proof -
  have rows: "rs_rows (rt_st t) \<noteq> []" "rt_scan_idx t < length (rt_scan_bands t)" "length (rt_sinr t) < 4"
    and ok: "\<forall>b \<in> set (rt_scan_bands t). lte_band_by_number b \<noteq> None" "\<not> rt_fault t"
    using assms(1-3) by (auto simp: scan_ok_def)
  have w: "scan_work t = 1 + 5 * (length (rt_scan_bands t) - rt_scan_idx t - 1) + (4 - length (rt_sinr t))"
    using assms(1,3) by (simp add: scan_work_def)
  have adv: "scan_ok (scan_advance k) \<and> scan_work (scan_advance k) < scan_work t"
    if "scanning k" "rt_scan_bands k = rt_scan_bands t" "rt_scan_idx k = rt_scan_idx t" "\<not> rt_fault k" for k
    using that ok(1) rows(3) w scan_advance_work [OF that(1)] by (auto simp: scan_ok_def)
  show ?thesis
  proof (cases "sample_of s (last (rs_rows (rt_st t)))")
    case None
    with assms have "rt_scan_deadline_ms t \<le> ae_now env (length log)" by (simp add: scan_waits_def)
    then have "fst (scan_measure env s t log) = scan_advance (upd_last (\<lambda>r. r\<lparr>sr_ok := False\<rparr>) t)"
      using None rows(1) by (simp add: scan_measure_def read_clock_def)
    then show ?thesis using adv assms(1) ok by simp
  next
    case (Some v)
    define k where "k = t\<lparr>rt_sinr := rt_sinr t @ [v], rt_rsrp := opt_snoc (rt_rsrp t) (sc_rsrp (cs_cell s)),
                          rt_rsrq := opt_snoc (rt_rsrq t) (sc_rsrq (cs_cell s))\<rparr>"
    define m where "m = upd_last (\<lambda>r. r\<lparr>sr_samples := int (length (rt_sinr k))\<rparr>) k"
    have m: "scanning m" "rt_scan_bands m = rt_scan_bands t" "rt_scan_idx m = rt_scan_idx t" "\<not> rt_fault m" "rs_rows (rt_st m) \<noteq> []"
        "rt_scan_phase m = Measure" "length (rt_sinr m) = length (rt_sinr t) + 1"
      using assms(1,3) ok by (simp_all add: m_def k_def)
    have e: "fst (scan_measure env s t log) = (if kSamplesPerBand \<le> int (length (rt_sinr m))
        then scan_advance (upd_last (\<lambda>r. r\<lparr>sr_ok := True, sr_sinr := median_of (rt_sinr m), sr_rsrp := median_of (rt_rsrp m),
               sr_rsrq := median_of (rt_rsrq m)\<rparr>) m) else m)"
      using Some rows(1) by (simp add: scan_measure_def m_def k_def Let_def)
    show ?thesis
    proof (cases "kSamplesPerBand \<le> int (length (rt_sinr m))")
      case True
      then show ?thesis using adv [of "upd_last (\<lambda>r. r\<lparr>sr_ok := True, sr_sinr := median_of (rt_sinr m), sr_rsrp := median_of (rt_rsrp m),
               sr_rsrq := median_of (rt_rsrq m)\<rparr>) m"] m by (simp add: e)
    next
      case False
      then have "length (rt_sinr t) < 3" using m(7) by (simp add: kSamplesPerBand_def)
      moreover have "scan_work m = 1 + 5 * (length (rt_scan_bands t) - rt_scan_idx t - 1) + (4 - (length (rt_sinr t) + 1))"
        using m by (simp add: scan_work_def)
      ultimately have "scan_work m < scan_work t" unfolding w by linarith
      moreover have "scan_ok m" using m ok rows \<open>length (rt_sinr t) < 3\<close> by (simp add: scan_ok_def)
      ultimately show ?thesis using False by (simp add: e)
    qed
  qed
qed

lemma scan_measure_waits:
  assumes "scan_ok t" "scan_waits env s t log"
  shows "fst (scan_measure env s t log) = t"
  using assms by (auto simp: scan_waits_def scan_measure_def read_clock_def scan_ok_def)

lemma scan_step_progress:
  assumes "scanning t" "scan_ok t"
  shows "scan_ok (fst (scan_step env s t log)) \<and>
    (if scan_waits env s t log then scan_work (fst (scan_step env s t log)) = scan_work t
     else scan_work (fst (scan_step env s t log)) < scan_work t)"
proof (cases "rt_scan_phase t")
  case Lock
  with scan_lock_progress [OF assms] show ?thesis by (simp add: scan_step_def scan_waits_def)
next
  case Measure
  with scan_measure_progress [OF assms] scan_measure_waits [OF assms(2)] assms(2) show ?thesis
    by (cases "scan_waits env s t log") (simp_all add: scan_step_def)
next
  case Restore
  with assms show ?thesis by (simp add: scan_step_def scan_waits_def case_prod_beta Let_def scan_ok_def scan_work_def)
qed

lemma scan_ok_cong:
  "\<not> scanning t \<Longrightarrow> \<not> rt_fault t \<Longrightarrow> scan_ok t"
  by (simp add: scan_ok_def)

lemma write_step_scan: "rs_scan (rt_st (fst (write_step env t log))) = rs_scan (rt_st t)" "rt_fault (fst (write_step env t log)) = rt_fault t"
  unfolding write_step_def at_port_defs Let_def prod.case by simp_all

lemma tuner_check_scan:
  "rs_scan (rt_st (fst (snd (tuner_check env t log)))) = rs_scan (rt_st t)" "rt_fault (fst (snd (tuner_check env t log))) = rt_fault t"
  unfolding tuner_check_def at_port_defs Let_def prod.case by simp_all

lemma tuner_idle_scan:
  "rs_scan (rt_st (fst (snd (tuner_idle env t log)))) = rs_scan (rt_st t)" "rt_fault (fst (snd (tuner_idle env t log))) = rt_fault t"
  by (simp_all add: tuner_idle_def Let_def tuner_check_scan)

lemma tuner_tick_scan_ok:
  assumes "scan_ok t" shows "scan_ok (fst (snd (tuner_tick env s t log)))"
proof -
  let ?t = "t\<lparr>rt_alive := True\<rparr>"
  have t: "scan_ok ?t" using assms by (simp add: scan_ok_def)
  show ?thesis
  proof (cases "cs_present s \<and> cs_responsive s \<and> scanning t")
    case True
    with scan_step_progress [of ?t env s log] t show ?thesis by (simp add: tuner_tick_def)
  next
    case False
    with assms show ?thesis
      by (auto simp: tuner_tick_def on_modem_gone_def Let_def write_step_scan tuner_idle_scan scan_ok_def)
  qed
qed

lemma tuner_step_scan_ok: "scan_ok (fst p) \<Longrightarrow> scan_ok (fst (tuner_step op p))"
proof (cases p; cases op)
  fix t log assume "p = (t, log)" "op = TScan" "scan_ok (fst p)"
  moreover have "lte_band_by_number b \<noteq> None" if "b \<in> set (bands_from_mask m)" for b m
    using that by (auto simp: set_bands_from_mask lte_band_by_number_num)
  ultimately show ?thesis by (auto simp: request_scan_def scan_refusal_def Let_def scan_ok_def)
qed (auto simp: tuner_tick_scan_ok, simp add: scan_ok_def tuner_set_config_def Let_def)

lemma tuner_run_scan_ok: "scan_ok (fst p) \<Longrightarrow> scan_ok (fst (fold tuner_step ops p))"
  by (induction ops arbitrary: p) (simp_all add: tuner_step_scan_ok)

text \<open>Of the rows measured, the one reported.\<close>

definition usable_row :: "scan_row \<Rightarrow> bool" where
  "usable_row r \<longleftrightarrow> sr_ok r \<and> sr_sinr r \<noteq> None"

text \<open>No better than: a lower SINR, or the same and no better RSRP.\<close>

definition row_le :: "scan_row \<Rightarrow> scan_row \<Rightarrow> bool" where
  "row_le r b \<longleftrightarrow> (\<exists>v w. sr_sinr r = Some v \<and> sr_sinr b = Some w
     \<and> (v < w \<or> v = w \<and> (case sr_rsrp r of None \<Rightarrow> True | Some p \<Rightarrow> (case sr_rsrp b of None \<Rightarrow> False | Some q \<Rightarrow> p \<le> q))))"

definition best_of_rows :: "scan_row list \<Rightarrow> int \<times> int option \<times> int option \<Rightarrow> bool" where
  "best_of_rows rows acc \<longleftrightarrow>
     (if \<exists>r \<in> set rows. usable_row r
      then \<exists>b \<in> set rows. usable_row b \<and> acc = (sr_band b, sr_sinr b, sr_rsrp b) \<and> (\<forall>r \<in> set rows. usable_row r \<longrightarrow> row_le r b)
      else acc = (0, None, None))"

lemma row_le_trans: "row_le a b \<Longrightarrow> row_le b c \<Longrightarrow> row_le a c"
  by (auto simp: row_le_def split: option.splits)

lemma row_le_refl: "usable_row r \<Longrightarrow> row_le r r"
  by (auto simp: row_le_def usable_row_def split: option.splits)

lemma better_row_cases:
  "better_row (sr_band b, sr_sinr b, sr_rsrp b) r =
     (if usable_row r \<and> usable_row b \<and> \<not> row_le r b then (sr_band r, sr_sinr r, sr_rsrp r)
      else if usable_row r \<and> sr_sinr b = None then (sr_band r, sr_sinr r, sr_rsrp r)
      else (sr_band b, sr_sinr b, sr_rsrp b))" if "usable_row b"
  using that by (auto simp: better_row_def usable_row_def row_le_def split: option.splits)

lemma better_row_first:
  "better_row (0, None, None) r = (if usable_row r then (sr_band r, sr_sinr r, sr_rsrp r) else (0, None, None))"
  by (auto simp: better_row_def usable_row_def split: option.splits)

lemma row_le_total: "usable_row r \<Longrightarrow> usable_row b \<Longrightarrow> \<not> row_le r b \<Longrightarrow> row_le b r"
  by (auto simp: row_le_def usable_row_def split: option.splits)

lemma best_of_rows_snoc:
  assumes "best_of_rows rows acc" shows "best_of_rows (rows @ [r]) (better_row acc r)"
proof (cases "\<exists>r \<in> set rows. usable_row r")
  case True
  with assms obtain b where b: "b \<in> set rows" "usable_row b" "acc = (sr_band b, sr_sinr b, sr_rsrp b)" "\<forall>r \<in> set rows. usable_row r \<longrightarrow> row_le r b"
    by (auto simp: best_of_rows_def)
  then have nb: "sr_sinr b \<noteq> None" by (simp add: usable_row_def)
  show ?thesis
  proof (cases "usable_row r \<and> \<not> row_le r b")
    case True
    with b have "\<forall>x \<in> set (rows @ [r]). usable_row x \<longrightarrow> row_le x r"
      using row_le_trans [OF _ row_le_total [of r b]] row_le_refl by auto
    with True b nb show ?thesis by (auto simp: best_of_rows_def better_row_cases)
  next
    case False
    with b nb have "better_row acc r = acc" by (auto simp: better_row_cases)
    with False b show ?thesis by (auto simp: best_of_rows_def)
  qed
next
  case False
  with assms show ?thesis by (auto simp: best_of_rows_def better_row_first row_le_refl)
qed

lemma best_of_rows_fold: "best_of_rows rows (foldl better_row (0, None, None) rows)"
  by (induction rows rule: rev_induct) (simp add: best_of_rows_def, simp add: best_of_rows_snoc)

section \<open>Properties\<close>

text \<open>C25: A dead radio is not called in sync. For every sequence of configurations and ticks without a scan, whatever the modem answers and
  whenever it vanishes: as long as it has not refused to switch the radio on four times, a tuner that reports the modem to be in sync has a
  radio that was switched on again after it was last switched off.\<close>

theorem radio_in_sync_is_on:
  assumes "TScan \<notin> set ops" "fold tuner_step ops (tuner_new, []) = (t, log)" "refusals log \<le> 3" "rs_sync (rt_st t) = InSync"
  shows "\<not> radio_off log"
proof -
  have "sync_inv (tuner_new, [])" by (simp add: sync_inv_def tuner_new_def radio_state0_def radio_off_def)
  from tuner_run_sync [OF this assms(1)] assms(2-4) show ?thesis by (auto simp: sync_inv_def)
qed

definition band_modem :: "string \<Rightarrow> (nat \<Rightarrow> at_result) \<Rightarrow> at_env" where
  "band_modem hex res = \<lparr>ae_lb = 32, ae_available = True,
     ae_at = (\<lambda>k. \<lparr>ax_result = res k, ax_payload = [],
        ax_raw = (if even k then ''+QCFG: \"band\",d3,'' @ hex else ''+QCFG: \"nwscanmode\",0''), ax_timed_out = False, ax_device_gone = False\<rparr>),
     ae_now = (\<lambda>_. 1000)\<rparr>"

definition mid_band :: cellular_config where
  "mid_band = cellular_config0\<lparr>cc_enabled := True, cc_band_profile := BandMid\<rparr>"

definition answering :: cellular_status where
  "answering = cellular_status0\<lparr>cs_present := True, cs_responsive := True, cs_sim := SimReady, cs_registration := RegisteredHome\<rparr>"

text \<open>A modem that has two bands, is told to keep to one, and confirms it.\<close>

definition band_change :: "tuner_op list" where
  "band_change = [TConfig mid_band, TTick (band_modem ''5'' (\<lambda>_. AtOk)) answering,
     TTick (band_modem ''4'' (\<lambda>_. AtOk)) answering, TTick (band_modem ''4'' (\<lambda>_. AtOk)) answering]"

theorem radio_in_sync_is_on_witness:
  "let (t, log) = fold tuner_step band_change (tuner_new, []) in rs_sync (rt_st t) = InSync \<and> rf_cycles log = 1 \<and> \<not> radio_off log"
proof -
  let ?r = "fold tuner_step band_change (tuner_new, [])"
  have e: "?r = (fst ?r, snd ?r)" by simp
  have "case ?r of (t, log) \<Rightarrow> refusals log \<le> 3 \<and> rs_sync (rt_st t) = InSync \<and> rf_cycles log = 1" by code_simp
  then have p: "refusals (snd ?r) \<le> 3" "rs_sync (rt_st (fst ?r)) = InSync" "rf_cycles (snd ?r) = 1" by (simp_all add: case_prod_beta)
  have "TScan \<notin> set band_change" by (simp add: band_change_def)
  from radio_in_sync_is_on [OF this e p(1,2)] p(2,3) show ?thesis unfolding case_prod_beta Let_def by blast
qed

text \<open>A disagreement is not fought out. From any state a run can reach outside a scan, however many ticks follow with the modem there and
  no new configuration: the radio is switched off at most once more, whatever the modem reports back.\<close>

theorem radio_cycles_bounded:
  assumes "fold tuner_step ops (tuner_new, []) = (t, log)" "\<not> scanning t"
    and "list_all (\<lambda>(env, s). cs_present s \<and> cs_responsive s) ts"
    and "fold tuner_step (map (\<lambda>(env, s). TTick env s) ts) (t, log) = (t', log')"
  shows "rf_cycles log' \<le> rf_cycles log + 1"
proof -
  have "writes_ok (tuner_new, [])" by (simp add: writes_ok_def tuner_new_def radio_state0_def)
  from tuner_run_writes [OF this, of ops] assms(1) have "0 \<le> rs_writes (rt_st t)" by (simp add: writes_ok_def)
  then have "cycles_within (rf_cycles log + 1) (t, log)" using assms(2) by (simp add: cycles_within_def cycle_left_def)
  from tuner_ticks_cycles [OF this assms(3)] assms(4) show ?thesis by (simp add: cycles_within_def)
qed

theorem radio_cycles_bounded_witness:
  "let (t, log) = fold tuner_step [TConfig mid_band] (tuner_new, []);
       ts = replicate 4 (band_modem ''5'' (\<lambda>_. AtOk), answering);
       (t', log') = fold tuner_step (map (\<lambda>(env, s). TTick env s) ts) (t, log)
   in rf_cycles log' \<le> rf_cycles log + 1 \<and> rs_sync (rt_st t') = SyncFailed"
proof -
  let ?r = "fold tuner_step [TConfig mid_band] (tuner_new, [])"
  let ?ts = "replicate 4 (band_modem ''5'' (\<lambda>_. AtOk), answering)"
  let ?q = "fold tuner_step (map (\<lambda>(env, s). TTick env s) ?ts) ?r"
  have e: "?r = (fst ?r, snd ?r)" "?q = (fst ?q, snd ?q)" by simp_all
  have n: "\<not> scanning (fst ?r)" by code_simp
  have f: "rs_sync (rt_st (fst ?q)) = SyncFailed" by code_simp
  have a: "list_all (\<lambda>(env, s). cs_present s \<and> cs_responsive s) ?ts" by (simp add: answering_def numeral_eq_Suc)
  have q: "fold tuner_step (map (\<lambda>(env, s). TTick env s) ?ts) (fst ?r, snd ?r) = (fst ?q, snd ?q)" by simp
  from radio_cycles_bounded [OF e(1) n a q] f show ?thesis unfolding case_prod_beta Let_def by simp
qed



text \<open>The band a scan recommends is the best it measured: of the rows with enough measurements, no row has a higher median SINR, and none with the same
  SINR a higher RSRP; none is recommended exactly when no row is usable.\<close>

theorem scan_recommends_best:
  assumes "\<forall>r \<in> set (rs_rows (rt_st t)). sr_band r \<noteq> 0"
  shows "(rs_scan_best (rt_st (scan_finish t)) = 0 \<longleftrightarrow> (\<forall>r \<in> set (rs_rows (rt_st t)). \<not> usable_row r))
    \<and> (rs_scan_best (rt_st (scan_finish t)) \<noteq> 0 \<longrightarrow> (\<exists>b \<in> set (rs_rows (rt_st t)). usable_row b \<and> sr_band b = rs_scan_best (rt_st (scan_finish t))
         \<and> (\<forall>r \<in> set (rs_rows (rt_st t)). usable_row r \<longrightarrow> row_le r b)))"
proof -
  have e: "rs_scan_best (rt_st (scan_finish t)) = fst (foldl better_row (0, None, None) (rs_rows (rt_st t)))"
    by (simp add: scan_finish_def Let_def case_prod_beta)
  show ?thesis
    using best_of_rows_fold [of "rs_rows (rt_st t)"] assms unfolding e best_of_rows_def by (auto split: if_splits)
qed

definition two_rows :: radio_tuner where
  "two_rows = upd_rs (\<lambda>r. r\<lparr>rs_rows := [\<lparr>sr_band = 3, sr_mhz = 1800, sr_ok = True, sr_samples = 4, sr_sinr = Some 7, sr_rsrp = Some (-95), sr_rsrq = None\<rparr>,
     \<lparr>sr_band = 20, sr_mhz = 800, sr_ok = True, sr_samples = 4, sr_sinr = Some 11, sr_rsrp = Some (-101), sr_rsrq = None\<rparr>]\<rparr>) tuner_new"

theorem scan_recommends_best_witness:
  "rs_scan_best (rt_st (scan_finish two_rows)) = 20 \<and> (\<exists>b \<in> set (rs_rows (rt_st two_rows)). usable_row b \<and> sr_band b = 20)"
proof -
  have b: "rs_scan_best (rt_st (scan_finish two_rows)) = 20" by code_simp
  have "\<forall>r \<in> set (rs_rows (rt_st two_rows)). sr_band r \<noteq> 0" by (simp add: two_rows_def)
  from scan_recommends_best [OF this] b show ?thesis by auto
qed

text \<open>After a scan the radio can be off and called in sync. Restoring the bands switches the radio off and on again like a write, but a refusal to switch it on
  is not recorded as owed; the check that follows compares the masks only.\<close>

theorem scan_restore_leaves_radio_off:
  "let (t, log) = ((upd_rs (\<lambda>r. r\<lparr>rs_scan := ScanRunning\<rparr>) (fst (fold tuner_step [TConfig mid_band] (tuner_new, []))))\<lparr>rt_scan_phase := Restore\<rparr>, []);
       (t', log') = fold tuner_step [TTick (band_modem ''4'' (\<lambda>k. if k = 2 then AtError else AtOk)) answering,
                      TTick ((band_modem ''4'' (\<lambda>_. AtOk))\<lparr>ae_at := \<lambda>k. ae_at (band_modem ''4'' (\<lambda>_. AtOk)) (k + 1)\<rparr>) answering] (t, log)
   in rs_sync (rt_st t') = InSync \<and> radio_off log'"
  by code_simp

text \<open>An empty mask can be written. The check that no band is selected is made before the radio is switched off; a configuration without bands that
  arrives between the two halves of a write is written unchecked.\<close>

theorem empty_mask_can_be_written:
  "list_ex (\<lambda>x. case x of Cmd c tm a \<Rightarrow> c = band_cmd 0 | Clock n \<Rightarrow> False)
     (snd (fold tuner_step [TConfig mid_band, TTick (band_modem ''5'' (\<lambda>_. AtOk)) answering,
        TConfig (mid_band\<lparr>cc_band_profile := BandCustom\<rparr>), TTick (band_modem ''5'' (\<lambda>_. AtOk)) answering] (tuner_new, [])))"
  by code_simp

end
