(* ===== verification/Ecm_Link.thy ===== *)
theory Ecm_Link
  imports Cellular
begin

text \<open>
  The ECM data link (\<^verbatim>\<open>core/cellular/ecm_link.hpp\<close>, \<^verbatim>\<open>ecm_link.cpp\<close>): a state machine over the AT port and the network
  interface of the modem (\<^verbatim>\<open>IEcmBackend\<close>). Every call of a port and every reading of the clock is an effect, in order; what a call answers
  is the environment's value at its position in that log, so that no two calls need agree. One definition per stage of
  \<^verbatim>\<open>tick\<close>; a stage says whether the tick returns there.
\<close>

section \<open>Definitions\<close>

datatype ecm_effect =
    EAt string int | ENow | EFind | ESetUp string | EDhcpStart string bool | EDhcpStop string
  | ERead string | ESetAddr string link_address bool | ETeardown string

record ecm_env =
  ee_lb :: nat
  ee_status :: cellular_status
  ee_at :: "nat \<Rightarrow> at_exchange"
  ee_now :: "nat \<Rightarrow> u64"
  ee_find :: "nat \<Rightarrow> string option"
  ee_ok :: "nat \<Rightarrow> bool"
  ee_addr :: "nat \<Rightarrow> link_address option"

record ecm_link =
  el_cfg :: cellular_config
  el_st :: cellular_link_state
  el_want_up :: bool
  el_next_due_ms :: u64
  el_reenum_deadline_ms :: u64
  el_netif_deadline_ms :: u64
  el_dhcp_deadline_ms :: u64
  el_usbnet_switch_tried :: bool
  el_nat_switch_tried :: bool
  el_dhcp_running :: bool
  el_dhcp_iface :: string
  el_unresponsive_ticks :: int
  el_log :: "ecm_effect list"

definition kUnresponsiveTeardownTicks :: int where "kUnresponsiveTeardownTicks = 3"
definition kReenumWaitMs :: u32 where "kReenumWaitMs = 90000"
definition kNetifWaitMs :: u32 where "kNetifWaitMs = 20000"
definition kDhcpWaitMs :: u32 where "kDhcpWaitMs = 30000"

definition ecm_new :: "cellular_config \<Rightarrow> ecm_link" where
  "ecm_new cfg = \<lparr>el_cfg = cfg, el_st = cellular_link_state0, el_want_up = False, el_next_due_ms = 0, el_reenum_deadline_ms = 0,
     el_netif_deadline_ms = 0, el_dhcp_deadline_ms = 0, el_usbnet_switch_tried = False, el_nat_switch_tried = False,
     el_dhcp_running = False, el_dhcp_iface = [], el_unresponsive_ticks = 0, el_log = []\<rparr>"

definition ecm_set_config :: "cellular_config \<Rightarrow> ecm_link \<Rightarrow> ecm_link" where
  "ecm_set_config c l = l\<lparr>el_cfg := c\<rparr>"

text \<open>The calls of the ports.\<close>

definition elog :: "ecm_effect \<Rightarrow> ecm_link \<Rightarrow> ecm_link" where
  "elog e l = l\<lparr>el_log := el_log l @ [e]\<rparr>"

definition pos :: "ecm_link \<Rightarrow> nat" where
  "pos l = length (el_log l)"

definition est :: "(cellular_link_state \<Rightarrow> cellular_link_state) \<Rightarrow> ecm_link \<Rightarrow> ecm_link" where
  "est f l = l\<lparr>el_st := f (el_st l)\<rparr>"

abbreviation el_state :: "ecm_link \<Rightarrow> data_link_state" where
  "el_state l \<equiv> cl_state (el_st l)"

abbreviation el_iface :: "ecm_link \<Rightarrow> string" where
  "el_iface l \<equiv> cl_interface_name (el_st l)"

definition ecm_enter :: "data_link_state \<Rightarrow> string \<Rightarrow> ecm_link \<Rightarrow> ecm_link" where
  "ecm_enter s detail = est (\<lambda>st. st\<lparr>cl_state := s, cl_detail := detail\<rparr>)"

definition ecm_fail :: "ecm_env \<Rightarrow> string \<Rightarrow> ecm_link \<Rightarrow> ecm_link" where
  "ecm_fail env detail l =
     (let l = est (\<lambda>st. st\<lparr>cl_attempts := cl_attempts st + 1\<rparr>) l;
          l = (elog ENow l)\<lparr>el_next_due_ms := ee_now env (pos l) + ucast (backoff_ms (cl_attempts (el_st l)))\<rparr>
      in ecm_enter DlFailed detail l)"

definition ecm_due :: "ecm_env \<Rightarrow> ecm_link \<Rightarrow> bool \<times> ecm_link" where
  "ecm_due env l =
     (if el_next_due_ms l = 0 then (True, l) else (el_next_due_ms l \<le> ee_now env (pos l), elog ENow l))"

definition ecm_connect :: "ecm_link \<Rightarrow> ecm_link" where
  "ecm_connect l =
     (if el_want_up l then l
      else ecm_enter WaitDevice ''Verbindung angefordert''
             (est (\<lambda>st. st\<lparr>cl_attempts := 0\<rparr>)
                (l\<lparr>el_want_up := True, el_next_due_ms := 0, el_usbnet_switch_tried := False, el_nat_switch_tried := False\<rparr>)))"

text \<open>\<open>if (dhcp_running_) { be_.dhcp_stop(dhcp_iface_); dhcp_running_ = false; }\<close>.\<close>

definition stop_dhcp :: "ecm_link \<Rightarrow> ecm_link" where
  "stop_dhcp l = (if el_dhcp_running l then (elog (EDhcpStop (el_dhcp_iface l)) l)\<lparr>el_dhcp_running := False\<rparr> else l)"

definition ecm_disconnect :: "ecm_link \<Rightarrow> ecm_link" where
  "ecm_disconnect l =
     (let l = stop_dhcp (l\<lparr>el_want_up := False\<rparr>);
          l = (if el_iface l \<noteq> [] then est (\<lambda>st. st\<lparr>cl_interface_name := []\<rparr>) (elog (ETeardown (el_iface l)) l) else l);
          l = est (\<lambda>st. st\<lparr>cl_address := link_address0, cl_modem_pdp_address := [], cl_attempts := 0\<rparr>) l
      in ecm_enter Disabled ''getrennt'' (l\<lparr>el_next_due_ms := 0\<rparr>))"

text \<open>The modem is gone or silent.\<close>

definition ecm_lost :: "ecm_env \<Rightarrow> ecm_link \<Rightarrow> ecm_link" where
  "ecm_lost env l =
     (let present = cs_present (ee_status env);
          l = est (\<lambda>st. st\<lparr>cl_address := link_address0\<rparr>) (stop_dhcp (l\<lparr>el_unresponsive_ticks := 0\<rparr>))
      in if el_state l = WaitReenumeration
         then (let k = elog ENow l
               in if el_reenum_deadline_ms l < ee_now env (pos l)
                  then ecm_fail env ''Modem kam nach dem Moduswechsel nicht zurueck'' k else k)
         else ecm_enter (if present then WaitAt else WaitDevice) (if present then ''Modem antwortet nicht'' else ''kein Modem'') l)"

definition ecm_service :: "ecm_env \<Rightarrow> ecm_link \<Rightarrow> bool \<times> ecm_link" where
  "ecm_service env l =
     (let s = ee_status env;
          l = (if el_state l = WaitReenumeration then ecm_enter EnsureEcmMode ''Modem ist zurueck'' l else l);
          (due, l) = (if el_state l = DlFailed then ecm_due env l else (True, l))
      in if \<not> due then (True, l)
         else if cs_sim s \<noteq> SimReady
         then (True, ecm_enter WaitSim (if cs_sim_detail s = [] then ''SIM nicht bereit'' else cs_sim_detail s) l)
         else if \<not> reg_is_registered (cs_registration s)
         then (True, ecm_enter WaitRegistration (''nicht im Netz: '' @ reg_state_name (cs_registration s)) l)
         else (False, l))"

definition ecm_reach :: "ecm_env \<Rightarrow> ecm_link \<Rightarrow> bool \<times> ecm_link" where
  "ecm_reach env l =
     (let s = ee_status env;
          silent = cs_present s \<and> \<not> cs_responsive s \<and> (el_state l = LinkUp \<or> el_state l = Addressing);
          l = (if silent then l\<lparr>el_unresponsive_ticks := el_unresponsive_ticks l + 1\<rparr> else l)
      in if silent \<and> el_unresponsive_ticks l < kUnresponsiveTeardownTicks then (True, l)
         else if \<not> cs_present s \<or> \<not> cs_responsive s then (True, ecm_lost env l)
         else ecm_service env (l\<lparr>el_unresponsive_ticks := 0\<rparr>))"

text \<open>A persistent setting of the modem, and the restart it needs.\<close>

definition switch_mode :: "ecm_env \<Rightarrow> string \<Rightarrow> string \<Rightarrow> ecm_link \<Rightarrow> ecm_link" where
  "switch_mode env cmd detail l =
     (let l = elog (EAt ''AT+CFUN=1,1'' 10000) (elog (EAt cmd 3000) l);
          l = (elog ENow l)\<lparr>el_reenum_deadline_ms := ee_now env (pos l) + ucast kReenumWaitMs\<rparr>
      in ecm_enter WaitReenumeration detail l)"

definition ecm_nat :: "ecm_env \<Rightarrow> ecm_link \<Rightarrow> bool \<times> ecm_link" where
  "ecm_nat env l =
     (let nat_now = parse_qcfg_int (ee_lb env) (ax_raw (ee_at env (pos l))) ''nat'';
          l = elog (EAt ''AT+QCFG=\"nat\"'' 3000) l;
          want_nat = (if cc_nic_mode (el_cfg l) then 1 else 0 :: int)
      in if nat_now \<noteq> None \<and> nat_now \<noteq> Some want_nat \<and> \<not> el_nat_switch_tried l
         then (True, switch_mode env (''AT+QCFG=\"nat\",'' @ int_dec want_nat) ''Betriebsart umgestellt, Modem startet neu''
                       (l\<lparr>el_nat_switch_tried := True\<rparr>))
         else (False, ecm_enter ConfigurePdp ''Betriebsart in Ordnung''
                 (est (\<lambda>st. st\<lparr>cl_nic_mode := (case nat_now of None \<Rightarrow> cc_nic_mode (el_cfg l) | Some v \<Rightarrow> v = 1)\<rparr>) l)))"

definition ecm_mode :: "ecm_env \<Rightarrow> ecm_link \<Rightarrow> bool \<times> ecm_link" where
  "ecm_mode env l =
     (if el_state l \<in> {ConfigurePdp, StartData, WaitNetif, Addressing, LinkUp} then (False, l)
      else
        let l = ecm_enter EnsureEcmMode ''pruefe Betriebsart'' l;
            usbnet = parse_qcfg_int (ee_lb env) (ax_raw (ee_at env (pos l))) ''usbnet'';
            l = elog (EAt ''AT+QCFG=\"usbnet\"'' 3000) l
        in case usbnet of
             None \<Rightarrow> (True, ecm_fail env ''AT+QCFG=\"usbnet\" nicht lesbar - Modus unbekannt, nichts umgestellt'' l)
           | Some v \<Rightarrow>
               if v \<noteq> 1 then
                 (True, if el_usbnet_switch_tried l
                        then ecm_fail env (''Modem bleibt nach der Umstellung auf usbnet='' @ int_dec v
                               @ '' - ECM wird hier nicht unterstuetzt'') l
                        else switch_mode env ''AT+QCFG=\"usbnet\",1'' ''auf ECM umgestellt, Modem startet neu''
                               (l\<lparr>el_usbnet_switch_tried := True\<rparr>))
               else ecm_nat env l)"

definition ecm_pdp :: "ecm_env \<Rightarrow> ecm_link \<Rightarrow> bool \<times> ecm_link" where
  "ecm_pdp env l =
     (if el_state l \<noteq> ConfigurePdp then (False, l)
      else if cc_apn (el_cfg l) = [] then (True, ecm_fail env ''kein APN konfiguriert'' l)
      else
        let c = el_cfg l;
            ok = ax_ok (ee_at env (pos l));
            l = elog (EAt (''AT+CGDCONT=1,\"'' @ pdp_type_name (cc_pdp c) @ ''\",\"'' @ cc_apn c @ ''\"'') 3000) l
        in if \<not> ok then (True, ecm_fail env ''AT+CGDCONT abgelehnt - APN oder PDP-Typ passt nicht'' l)
           else
             let ctx_type = (if cc_pdp c = Ipv4v6 then ''3'' else ''1'');
                 auth = (if cc_auth c = Chap then ''2'' else if cc_auth c = Pap then ''1'' else ''0'');
                 l = elog (EAt (''AT+QICSGP=1,'' @ ctx_type @ '',\"'' @ cc_apn c @ ''\",\"'' @ cc_username c @ ''\",\"''
                       @ cc_password c @ ''\",'' @ auth) 3000) l
             in (False, ecm_enter StartData ''PDP-Kontext gesetzt'' l))"

definition ecm_start :: "ecm_env \<Rightarrow> ecm_link \<Rightarrow> bool \<times> ecm_link" where
  "ecm_start env l =
     (if el_state l \<noteq> StartData then (False, l)
      else
        let ok = ax_ok (ee_at env (pos l)); l = elog (EAt ''AT+QNETDEVCTL=3,1'' 10000) l
        in if \<not> ok then (True, ecm_fail env ''AT+QNETDEVCTL abgelehnt - Datenkanal kam nicht hoch'' l)
           else let l = (elog ENow l)\<lparr>el_netif_deadline_ms := ee_now env (pos l) + ucast kNetifWaitMs\<rparr>
                in (False, ecm_enter WaitNetif ''Datenkanal an, warte auf das Interface'' l))"

definition ecm_netif :: "ecm_env \<Rightarrow> ecm_link \<Rightarrow> bool \<times> ecm_link" where
  "ecm_netif env l =
     (if el_state l \<noteq> WaitNetif then (False, l)
      else
        let found = ee_find env (pos l); l = elog EFind l
        in case found of
             None \<Rightarrow>
               let k = elog ENow l
               in (True, if el_netif_deadline_ms l < ee_now env (pos l)
                         then ecm_fail env ''kein ECM-Netzwerkinterface erschienen - cdc_ether geladen?'' k else k)
           | Some name \<Rightarrow>
               let l = elog (ESetUp name) (est (\<lambda>st. st\<lparr>cl_interface_name := name\<rparr>) l);
                   l = (elog ENow l)\<lparr>el_dhcp_deadline_ms := ee_now env (pos l) + ucast kDhcpWaitMs\<rparr>
               in (False, ecm_enter Addressing (''Interface '' @ name @ '' da'') l))"

text \<open>The interface is not there, or is another one.\<close>

definition ecm_vanished :: "ecm_env \<Rightarrow> ecm_link \<Rightarrow> ecm_link" where
  "ecm_vanished env l = ecm_fail env ''Interface verschwunden'' (est (\<lambda>st. st\<lparr>cl_interface_name := []\<rparr>) (stop_dhcp l))"

text \<open>DHCP brought nothing: the address the modem reports, unless its gateway is plainly a name server.\<close>

definition static_usable :: "pdp_context_params \<Rightarrow> bool" where
  "static_usable rdp \<longleftrightarrow> pc_ipv4 rdp \<noteq> [] \<and> pc_ipv4 rdp \<noteq> ''0.0.0.0'' \<and> pc_gateway rdp \<noteq> []
     \<and> pc_gateway rdp \<noteq> pc_dns1 rdp \<and> pc_gateway rdp \<noteq> pc_dns2 rdp"

definition ecm_static :: "ecm_env \<Rightarrow> pdp_context_params \<Rightarrow> ecm_link \<Rightarrow> ecm_link" where
  "ecm_static env rdp l =
     (let l = (elog (EDhcpStop (el_iface l)) l)\<lparr>el_dhcp_running := False\<rparr>;
          s = \<lparr>la_ipv4 = pc_ipv4 rdp, la_netmask = pc_netmask rdp, la_gateway = pc_gateway rdp, la_dns1 = pc_dns1 rdp,
               la_dns2 = pc_dns2 rdp, la_mtu = 0\<rparr>;
          ok = static_usable rdp \<and> ee_ok env (pos l);
          l = (if static_usable rdp then elog (ESetAddr (el_iface l) s (ee_ok env (pos l))) l else l)
      in if ok then ecm_enter LinkUp ''verbunden (statisch aus CGCONTRDP, DHCP-Fallback)''
                      (est (\<lambda>st. st\<lparr>cl_address := s, cl_attempts := 0\<rparr>) l)
         else ecm_fail env ''DHCP lieferte keine Adresse'' l)"

definition ecm_lease :: "ecm_env \<Rightarrow> pdp_context_params \<Rightarrow> ecm_link \<Rightarrow> ecm_link" where
  "ecm_lease env rdp l =
     (let a = ee_addr env (pos l); l = elog (ERead (el_iface l)) l
      in case a of
           Some addr \<Rightarrow>
             if has_address addr
             then ecm_enter LinkUp ''verbunden (DHCP)'' (est (\<lambda>st. st\<lparr>cl_address := addr, cl_attempts := 0\<rparr>) l)
             else (let k = elog ENow l in if el_dhcp_deadline_ms l < ee_now env (pos l) then ecm_static env rdp k else k)
         | None \<Rightarrow> (let k = elog ENow l in if el_dhcp_deadline_ms l < ee_now env (pos l) then ecm_static env rdp k else k))"

definition ecm_addressing :: "ecm_env \<Rightarrow> ecm_link \<Rightarrow> bool \<times> ecm_link" where
  "ecm_addressing env l =
     (if el_state l \<noteq> Addressing then (False, l)
      else
        let found = ee_find env (pos l); l = elog EFind l
        in if found \<noteq> Some (el_iface l) then (True, ecm_vanished env l)
           else
             let rdp = parse_cgcontrdp (ax_raw (ee_at env (pos l)));
                 l = est (\<lambda>st. st\<lparr>cl_modem_pdp_address := pc_ipv4 rdp\<rparr>) (elog (EAt ''AT+CGCONTRDP=1'' 3000) l)
             in if el_dhcp_running l then (True, ecm_lease env rdp l)
                else
                  let ok = ee_ok env (pos l); l = elog (EDhcpStart (el_iface l) ok) l
                  in if \<not> ok then (True, ecm_fail env ''DHCP liess sich nicht starten'' l)
                     else (True, ecm_lease env rdp (l\<lparr>el_dhcp_running := True, el_dhcp_iface := el_iface l\<rparr>)))"

text \<open>A reading without gateway for an unchanged address keeps the gateway and servers known before.\<close>

definition keep_gateway :: "link_address \<Rightarrow> link_address \<Rightarrow> link_address" where
  "keep_gateway old a =
     (if la_gateway a = [] \<and> la_ipv4 a = la_ipv4 old \<and> la_gateway old \<noteq> []
      then a\<lparr>la_gateway := la_gateway old, la_dns1 := (if la_dns1 a = [] then la_dns1 old else la_dns1 a),
             la_dns2 := (if la_dns2 a = [] then la_dns2 old else la_dns2 a)\<rparr>
      else a)"

definition ecm_hold :: "ecm_env \<Rightarrow> ecm_link \<Rightarrow> ecm_link" where
  "ecm_hold env l =
     (if el_state l \<noteq> LinkUp then l
      else
        let found = ee_find env (pos l); l = elog EFind l
        in if found \<noteq> Some (el_iface l) then
             ecm_fail env ''Interface verschwunden''
               (est (\<lambda>st. st\<lparr>cl_address := link_address0, cl_interface_name := []\<rparr>) (stop_dhcp l))
           else
             let a = ee_addr env (pos l); l = elog (ERead (el_iface l)) l
             in case a of
                  Some addr \<Rightarrow>
                    if has_address addr then est (\<lambda>st. st\<lparr>cl_address := keep_gateway (cl_address st) addr\<rparr>) l
                    else ecm_enter Addressing ''Adresse verloren, hole neue''
                           ((elog ENow l)\<lparr>el_dhcp_deadline_ms := ee_now env (pos l) + ucast kDhcpWaitMs\<rparr>)
                | None \<Rightarrow> ecm_enter Addressing ''Adresse verloren, hole neue''
                           ((elog ENow l)\<lparr>el_dhcp_deadline_ms := ee_now env (pos l) + ucast kDhcpWaitMs\<rparr>))"

text \<open>The next stage, unless the tick has returned.\<close>

definition next_stage :: "(ecm_link \<Rightarrow> bool \<times> ecm_link) \<Rightarrow> bool \<times> ecm_link \<Rightarrow> bool \<times> ecm_link" where
  "next_stage f r = (if fst r then r else f (snd r))"

definition ecm_stages :: "ecm_env \<Rightarrow> ecm_link \<Rightarrow> bool \<times> ecm_link" where
  "ecm_stages env l =
     next_stage (ecm_addressing env) (next_stage (ecm_netif env) (next_stage (ecm_start env)
       (next_stage (ecm_pdp env) (next_stage (ecm_mode env) (ecm_reach env l)))))"

definition ecm_tick :: "ecm_env \<Rightarrow> ecm_link \<Rightarrow> ecm_link" where
  "ecm_tick env l =
     (if \<not> el_want_up l then (if el_state l \<noteq> Disabled then ecm_disconnect l else l)
      else let (done, l) = ecm_stages env l in if done then l else ecm_hold env l)"

section \<open>Lemmas\<close>

lemma elog_simps [simp]:
  "el_log (elog e l) = el_log l @ [e]" "el_st (elog e l) = el_st l" "el_want_up (elog e l) = el_want_up l"
  "el_cfg (elog e l) = el_cfg l" "el_dhcp_running (elog e l) = el_dhcp_running l" "el_dhcp_iface (elog e l) = el_dhcp_iface l"
  "el_usbnet_switch_tried (elog e l) = el_usbnet_switch_tried l" "el_nat_switch_tried (elog e l) = el_nat_switch_tried l"
  "el_dhcp_deadline_ms (elog e l) = el_dhcp_deadline_ms l" "el_netif_deadline_ms (elog e l) = el_netif_deadline_ms l"
  "el_next_due_ms (elog e l) = el_next_due_ms l" "el_unresponsive_ticks (elog e l) = el_unresponsive_ticks l"
  "el_reenum_deadline_ms (elog e l) = el_reenum_deadline_ms l"
  by (simp_all add: elog_def)

lemma est_simps [simp]:
  "el_log (est f l) = el_log l" "el_st (est f l) = f (el_st l)" "el_want_up (est f l) = el_want_up l"
  "el_cfg (est f l) = el_cfg l" "el_dhcp_running (est f l) = el_dhcp_running l" "el_dhcp_iface (est f l) = el_dhcp_iface l"
  "el_usbnet_switch_tried (est f l) = el_usbnet_switch_tried l" "el_nat_switch_tried (est f l) = el_nat_switch_tried l"
  "el_dhcp_deadline_ms (est f l) = el_dhcp_deadline_ms l" "el_netif_deadline_ms (est f l) = el_netif_deadline_ms l"
  "el_next_due_ms (est f l) = el_next_due_ms l" "el_unresponsive_ticks (est f l) = el_unresponsive_ticks l"
  "el_reenum_deadline_ms (est f l) = el_reenum_deadline_ms l"
  by (simp_all add: est_def)

lemma ecm_enter_simps [simp]:
  "el_log (ecm_enter s d l) = el_log l" "el_st (ecm_enter s d l) = (el_st l)\<lparr>cl_state := s, cl_detail := d\<rparr>"
  "el_want_up (ecm_enter s d l) = el_want_up l" "el_cfg (ecm_enter s d l) = el_cfg l"
  "el_dhcp_running (ecm_enter s d l) = el_dhcp_running l" "el_dhcp_iface (ecm_enter s d l) = el_dhcp_iface l"
  "el_usbnet_switch_tried (ecm_enter s d l) = el_usbnet_switch_tried l" "el_nat_switch_tried (ecm_enter s d l) = el_nat_switch_tried l"
  "el_dhcp_deadline_ms (ecm_enter s d l) = el_dhcp_deadline_ms l" "el_netif_deadline_ms (ecm_enter s d l) = el_netif_deadline_ms l"
  "el_next_due_ms (ecm_enter s d l) = el_next_due_ms l" "el_unresponsive_ticks (ecm_enter s d l) = el_unresponsive_ticks l"
  by (simp_all add: ecm_enter_def)

lemma stop_dhcp_simps [simp]:
  "el_log (stop_dhcp l) = el_log l @ (if el_dhcp_running l then [EDhcpStop (el_dhcp_iface l)] else [])"
  "\<not> el_dhcp_running (stop_dhcp l)" "el_st (stop_dhcp l) = el_st l" "el_want_up (stop_dhcp l) = el_want_up l"
  "el_usbnet_switch_tried (stop_dhcp l) = el_usbnet_switch_tried l" "el_nat_switch_tried (stop_dhcp l) = el_nat_switch_tried l"
  "el_unresponsive_ticks (stop_dhcp l) = el_unresponsive_ticks l" "el_next_due_ms (stop_dhcp l) = el_next_due_ms l"
  "el_reenum_deadline_ms (stop_dhcp l) = el_reenum_deadline_ms l"
  by (simp_all add: stop_dhcp_def)

lemma ecm_fail_simps [simp]:
  "el_log (ecm_fail env d l) = el_log l @ [ENow]" "cl_state (el_st (ecm_fail env d l)) = DlFailed"
  "cl_interface_name (el_st (ecm_fail env d l)) = cl_interface_name (el_st l)" "el_want_up (ecm_fail env d l) = el_want_up l"
  "cl_address (el_st (ecm_fail env d l)) = cl_address (el_st l)"
  "cl_attempts (el_st (ecm_fail env d l)) = cl_attempts (el_st l) + 1" "cl_detail (el_st (ecm_fail env d l)) = d"
  "el_dhcp_running (ecm_fail env d l) = el_dhcp_running l" "el_dhcp_iface (ecm_fail env d l) = el_dhcp_iface l"
  "el_usbnet_switch_tried (ecm_fail env d l) = el_usbnet_switch_tried l" "el_nat_switch_tried (ecm_fail env d l) = el_nat_switch_tried l"
  "el_next_due_ms (ecm_fail env d l) = ee_now env (pos l) + ucast (backoff_ms (cl_attempts (el_st l) + 1))"
  by (simp_all add: ecm_fail_def Let_def pos_def)

lemma switch_mode_simps [simp]:
  "el_log (switch_mode env c d l) = el_log l @ [EAt c 3000, EAt ''AT+CFUN=1,1'' 10000, ENow]"
  "el_st (switch_mode env c d l) = (el_st l)\<lparr>cl_state := WaitReenumeration, cl_detail := d\<rparr>"
  "el_want_up (switch_mode env c d l) = el_want_up l" "el_dhcp_running (switch_mode env c d l) = el_dhcp_running l"
  "el_dhcp_iface (switch_mode env c d l) = el_dhcp_iface l"
  "el_usbnet_switch_tried (switch_mode env c d l) = el_usbnet_switch_tried l"
  "el_nat_switch_tried (switch_mode env c d l) = el_nat_switch_tried l"
  by (simp_all add: switch_mode_def Let_def)

lemma ecm_due_simps [simp]:
  "el_st (snd (ecm_due env l)) = el_st l" "el_want_up (snd (ecm_due env l)) = el_want_up l"
  "el_dhcp_running (snd (ecm_due env l)) = el_dhcp_running l" "el_dhcp_iface (snd (ecm_due env l)) = el_dhcp_iface l"
  "el_usbnet_switch_tried (snd (ecm_due env l)) = el_usbnet_switch_tried l"
  "el_nat_switch_tried (snd (ecm_due env l)) = el_nat_switch_tried l"
  "el_log (snd (ecm_due env l)) = el_log l @ (if el_next_due_ms l = 0 then [] else [ENow])"
  by (simp_all add: ecm_due_def)

lemmas ecm_stage_defs = ecm_lost_def ecm_service_def ecm_reach_def ecm_nat_def ecm_mode_def ecm_pdp_def ecm_start_def ecm_netif_def
  ecm_vanished_def ecm_static_def ecm_lease_def ecm_addressing_def ecm_hold_def

text \<open>What every stage keeps, a tick keeps.\<close>

lemma ecm_tick_keeps:
  assumes "P l" "\<And>k. P k \<Longrightarrow> \<not> el_want_up k \<Longrightarrow> P (ecm_disconnect k)"
    and stages: "\<And>k f. P k \<Longrightarrow> el_want_up k \<Longrightarrow>
        f \<in> {ecm_reach, ecm_mode, ecm_pdp, ecm_start, ecm_netif, ecm_addressing} \<Longrightarrow> P (snd (f env k)) \<and> el_want_up (snd (f env k))"
    and hold: "\<And>k. P k \<Longrightarrow> el_want_up k \<Longrightarrow> P (ecm_hold env k)"
  shows "P (ecm_tick env l)"
proof (cases "el_want_up l")
  case True
  define Q where "Q k \<longleftrightarrow> P k \<and> el_want_up k" for k
  have step: "Q (snd (next_stage (f env) r))"
    if "Q (snd r)" "f \<in> {ecm_reach, ecm_mode, ecm_pdp, ecm_start, ecm_netif, ecm_addressing}" for f r
    using that stages [of "snd r" f] by (auto simp: next_stage_def Q_def)
  have "Q (snd (ecm_reach env l))" using stages [of l ecm_reach] assms(1) True by (simp add: Q_def)
  then have "Q (snd (ecm_stages env l))" unfolding ecm_stages_def by (intro step) simp_all
  then show ?thesis using hold True by (auto simp: ecm_tick_def Q_def split: prod.splits)
qed (use assms(1,2) in \<open>simp add: ecm_tick_def\<close>)

section \<open>The link contract\<close>

definition ecm_env_ok :: "ecm_env \<Rightarrow> bool" where
  "ecm_env_ok env \<longleftrightarrow> (\<forall>k. ee_find env k \<noteq> Some [])"

definition ecm_ok :: "ecm_link \<Rightarrow> bool" where
  "ecm_ok l \<longleftrightarrow> (el_state l = Addressing \<or> el_state l = LinkUp \<longrightarrow> el_iface l \<noteq> [])
     \<and> (el_state l = LinkUp \<longrightarrow> has_address (cl_address (el_st l))) \<and> (\<not> el_want_up l \<longrightarrow> el_state l = Disabled \<and> \<not> el_dhcp_running l)"

lemma has_keep_gateway [simp]: "has_address (keep_gateway old a) = has_address a"
  by (simp add: keep_gateway_def has_address_def)

lemma ecm_disconnect_ok: "ecm_ok (ecm_disconnect l)" "\<not> el_want_up (ecm_disconnect l)"
  by (simp_all add: ecm_disconnect_def ecm_ok_def Let_def)

lemma ecm_reach_ok: "ecm_ok k \<Longrightarrow> el_want_up k \<Longrightarrow> ecm_ok (snd (ecm_reach env k)) \<and> el_want_up (snd (ecm_reach env k))"
  by (auto simp: ecm_ok_def ecm_reach_def ecm_lost_def ecm_service_def Let_def case_prod_beta split: if_splits)

lemma ecm_mode_ok: "ecm_ok k \<Longrightarrow> el_want_up k \<Longrightarrow> ecm_ok (snd (ecm_mode env k)) \<and> el_want_up (snd (ecm_mode env k))"
  by (simp add: ecm_ok_def ecm_mode_def ecm_nat_def Let_def split: option.split)

lemma ecm_pdp_ok: "ecm_ok k \<Longrightarrow> el_want_up k \<Longrightarrow> ecm_ok (snd (ecm_pdp env k)) \<and> el_want_up (snd (ecm_pdp env k))"
  by (simp add: ecm_ok_def ecm_pdp_def Let_def)

lemma ecm_start_ok: "ecm_ok k \<Longrightarrow> el_want_up k \<Longrightarrow> ecm_ok (snd (ecm_start env k)) \<and> el_want_up (snd (ecm_start env k))"
  by (simp add: ecm_ok_def ecm_start_def Let_def)

lemma ecm_netif_ok:
  "ecm_ok k \<Longrightarrow> el_want_up k \<Longrightarrow> ecm_env_ok env \<Longrightarrow> ecm_ok (snd (ecm_netif env k)) \<and> el_want_up (snd (ecm_netif env k))"
  by (auto simp: ecm_ok_def ecm_netif_def Let_def ecm_env_ok_def split: option.split)

lemma ecm_fail_ok: "el_want_up k \<Longrightarrow> ecm_ok (ecm_fail env d k)"
  by (simp add: ecm_ok_def)

lemma ecm_static_ok:
  assumes "el_iface k \<noteq> []" "el_want_up k"
  shows "ecm_ok (ecm_static env rdp k) \<and> el_want_up (ecm_static env rdp k)"
proof (cases "static_usable rdp \<and> ee_ok env (Suc (pos k))")
  case True
  then have "pc_ipv4 rdp \<noteq> []" by (simp add: static_usable_def)
  with True assms show ?thesis by (simp add: ecm_static_def Let_def pos_def ecm_ok_def has_address_def)
next
  case False
  then show ?thesis using assms by (auto simp add: ecm_static_def Let_def pos_def ecm_fail_ok)
qed

lemma ecm_lease_ok:
  assumes "el_iface k \<noteq> []" "el_want_up k" "el_state k = Addressing"
  shows "ecm_ok (ecm_lease env rdp k) \<and> el_want_up (ecm_lease env rdp k)"
proof -
  define m where "m = elog ENow (elog (ERead (el_iface k)) k)"
  have m: "ecm_ok m" "el_want_up m" "el_iface m \<noteq> []" using assms by (simp_all add: m_def ecm_ok_def)
  show ?thesis
  proof (cases "\<exists>a. ee_addr env (pos k) = Some a \<and> has_address a")
    case True
    then show ?thesis using assms by (auto simp: ecm_lease_def Let_def ecm_ok_def)
  next
    case False
    then have "ecm_lease env rdp k = ecm_static env rdp m \<or> ecm_lease env rdp k = m"
      by (auto simp: ecm_lease_def Let_def m_def split: option.split)
    then show ?thesis using m ecm_static_ok by metis
  qed
qed

lemma ecm_addressing_ok:
  assumes "ecm_ok k" "el_want_up k"
  shows "ecm_ok (snd (ecm_addressing env k)) \<and> el_want_up (snd (ecm_addressing env k))"
proof (cases "el_state k = Addressing")
  case True
  with assms(1) have "el_iface k \<noteq> []" by (simp add: ecm_ok_def)
  with True assms(2) show ?thesis
    by (simp add: ecm_addressing_def ecm_vanished_def Let_def ecm_lease_ok ecm_fail_ok)
qed (use assms in \<open>simp add: ecm_addressing_def\<close>)

lemma ecm_hold_ok: "ecm_ok k \<Longrightarrow> el_want_up k \<Longrightarrow> ecm_ok (ecm_hold env k) \<and> el_want_up (ecm_hold env k)"
  by (auto simp: ecm_ok_def ecm_hold_def Let_def split: option.split)

lemmas ecm_stages_ok = ecm_reach_ok ecm_mode_ok ecm_pdp_ok ecm_start_ok ecm_netif_ok ecm_addressing_ok

lemma ecm_tick_ok: "ecm_ok l \<Longrightarrow> ecm_env_ok env \<Longrightarrow> ecm_ok (ecm_tick env l)"
  by (rule ecm_tick_keeps [where P = ecm_ok]) (auto simp: ecm_disconnect_ok ecm_stages_ok ecm_hold_ok)

lemma ecm_stage_wanted:
  "f \<in> {ecm_reach, ecm_mode, ecm_pdp, ecm_start, ecm_netif, ecm_addressing} \<Longrightarrow> el_want_up (snd (f env k)) = el_want_up k"
  by (elim insertE) (auto simp: ecm_stage_defs Let_def case_prod_beta split: option.split if_splits)

lemma ecm_hold_wanted: "el_want_up (ecm_hold env k) = el_want_up k"
  by (simp add: ecm_hold_def Let_def split: option.split)

lemma ecm_tick_wanted: "el_want_up (ecm_tick env l) = el_want_up l"
  by (rule ecm_tick_keeps [where P = "\<lambda>k. el_want_up k = el_want_up l"])
     (simp_all add: ecm_disconnect_ok ecm_stage_wanted ecm_hold_wanted)

interpretation ecm: data_link ecm_connect ecm_disconnect ecm_set_config ecm_tick el_st ecm_env_ok ecm_ok el_want_up
proof unfold_locales
  show "ecm_ok l \<Longrightarrow> ecm_ok (ecm_connect l)" for l by (simp add: ecm_connect_def ecm_ok_def)
  show "ecm_ok l \<Longrightarrow> ecm_ok (ecm_set_config c l)" for c l by (simp add: ecm_set_config_def ecm_ok_def)
  show "ecm_ok l \<Longrightarrow> is_up (el_st l) \<Longrightarrow> el_iface l \<noteq> [] \<and> has_address (cl_address (el_st l)) \<and> el_want_up l" for l
    by (auto simp: ecm_ok_def is_up_def)
qed (simp_all add: ecm_disconnect_ok ecm_tick_ok ecm_tick_wanted)

lemma ecm_new_ok: "ecm_ok (ecm_new cfg)"
  by (simp add: ecm_ok_def ecm_new_def cellular_link_state0_def)

section \<open>Restarts of the modem\<close>

definition reboots :: "ecm_effect list \<Rightarrow> nat" where
  "reboots log = length (filter (\<lambda>e. \<exists>t. e = EAt ''AT+CFUN=1,1'' t) log)"

lemma reboots_simps [simp]:
  "reboots [] = 0" "reboots (xs @ ys) = reboots xs + reboots ys"
  "reboots (e # es) = (if \<exists>t. e = EAt ''AT+CFUN=1,1'' t then 1 else 0) + reboots es"
  by (simp_all add: reboots_def)

text \<open>What is left of the two switches.\<close>

definition switches_left :: "ecm_link \<Rightarrow> nat" where
  "switches_left l = (if el_want_up l then of_bool (\<not> el_usbnet_switch_tried l) + of_bool (\<not> el_nat_switch_tried l) else 0)"

definition within :: "nat \<Rightarrow> ecm_link \<Rightarrow> bool" where
  "within n l \<longleftrightarrow> reboots (el_log l) + switches_left l \<le> n"

lemma ecm_reach_within: "within n k \<Longrightarrow> within n (snd (ecm_reach env k))"
  by (auto simp: within_def switches_left_def ecm_reach_def ecm_lost_def ecm_service_def Let_def case_prod_beta split: if_splits)

lemma ecm_nat_within: "el_want_up k \<Longrightarrow> within n k \<Longrightarrow> within n (snd (ecm_nat env k))"
  by (auto simp: within_def switches_left_def ecm_nat_def Let_def)

lemma ecm_mode_within: "el_want_up k \<Longrightarrow> within n k \<Longrightarrow> within n (snd (ecm_mode env k))"
  by (auto simp: ecm_mode_def Let_def intro!: ecm_nat_within split: option.split) (auto simp: within_def switches_left_def)

lemma ecm_pdp_within: "within n k \<Longrightarrow> within n (snd (ecm_pdp env k))"
  by (auto simp: within_def switches_left_def ecm_pdp_def Let_def)

lemma ecm_start_within: "within n k \<Longrightarrow> within n (snd (ecm_start env k))"
  by (auto simp: within_def switches_left_def ecm_start_def Let_def)

lemma ecm_netif_within: "within n k \<Longrightarrow> within n (snd (ecm_netif env k))"
  by (auto simp: within_def switches_left_def ecm_netif_def Let_def split: option.split)

lemma ecm_lease_within: "within n k \<Longrightarrow> within n (ecm_lease env rdp k)"
  by (auto simp: within_def switches_left_def ecm_lease_def ecm_static_def Let_def split: option.split)

lemma ecm_addressing_within: "within n k \<Longrightarrow> within n (snd (ecm_addressing env k))"
  by (auto simp: ecm_addressing_def ecm_vanished_def Let_def intro!: ecm_lease_within) (auto simp: within_def switches_left_def)

lemma ecm_hold_within: "within n k \<Longrightarrow> within n (ecm_hold env k)"
  by (auto simp: within_def switches_left_def ecm_hold_def Let_def split: option.split)

lemma ecm_disconnect_within: "within n k \<Longrightarrow> within n (ecm_disconnect k)"
  by (auto simp: within_def switches_left_def ecm_disconnect_def Let_def)

lemma ecm_tick_within: "within n l \<Longrightarrow> within n (ecm_tick env l)"
  by (rule ecm_tick_keeps [where P = "within n"])
     (auto simp: ecm_disconnect_within ecm_reach_within ecm_mode_within ecm_pdp_within ecm_start_within ecm_netif_within
        ecm_addressing_within ecm_hold_within ecm_stage_wanted)

section \<open>DHCP clients\<close>

text \<open>The clients that run, by interface; a client beside another is an error.\<close>

fun dhcp_step :: "ecm_effect \<Rightarrow> string set \<Rightarrow> string set option" where
  "dhcp_step (EDhcpStart i ok) C = (if C \<noteq> {} then None else Some (if ok then {i} else {}))"
| "dhcp_step (EDhcpStop i) C = Some (C - {i})"
| "dhcp_step _ C = Some C"

fun dhcp_run :: "ecm_effect list \<Rightarrow> string set \<Rightarrow> string set option" where
  "dhcp_run [] C = Some C"
| "dhcp_run (e # es) C = Option.bind (dhcp_step e C) (dhcp_run es)"

lemma dhcp_run_append [simp]: "dhcp_run (xs @ ys) C = Option.bind (dhcp_run xs C) (dhcp_run ys)"
proof (induction xs arbitrary: C)
  case (Cons e es)
  then show ?case by (cases "dhcp_step e C") simp_all
qed simp

definition dhcp_inv :: "string \<Rightarrow> ecm_link \<Rightarrow> bool" where
  "dhcp_inv n l \<longleftrightarrow> dhcp_run (el_log l) {} = Some (if el_dhcp_running l then {n} else {})
     \<and> (el_dhcp_running l \<longrightarrow> el_dhcp_iface l = n) \<and> (el_state l = Addressing \<or> el_state l = LinkUp \<longrightarrow> el_iface l = n)"

definition named :: "string \<Rightarrow> ecm_env \<Rightarrow> bool" where
  "named n env \<longleftrightarrow> (\<forall>k. ee_find env k = None \<or> ee_find env k = Some n)"

lemma ecm_reach_dhcp: "dhcp_inv n k \<Longrightarrow> dhcp_inv n (snd (ecm_reach env k))"
  by (auto simp: dhcp_inv_def ecm_reach_def ecm_lost_def ecm_service_def Let_def case_prod_beta split: if_splits)

lemma ecm_mode_dhcp: "dhcp_inv n k \<Longrightarrow> dhcp_inv n (snd (ecm_mode env k))"
  by (simp add: dhcp_inv_def ecm_mode_def ecm_nat_def Let_def split: option.split)

lemma ecm_pdp_dhcp: "dhcp_inv n k \<Longrightarrow> dhcp_inv n (snd (ecm_pdp env k))"
  by (simp add: dhcp_inv_def ecm_pdp_def Let_def)

lemma ecm_start_dhcp: "dhcp_inv n k \<Longrightarrow> dhcp_inv n (snd (ecm_start env k))"
  by (simp add: dhcp_inv_def ecm_start_def Let_def)

lemma ecm_netif_dhcp: "named n env \<Longrightarrow> dhcp_inv n k \<Longrightarrow> dhcp_inv n (snd (ecm_netif env k))"
proof -
  assume "named n env" "dhcp_inv n k"
  moreover from this(1) have "ee_find env (pos k) = None \<or> ee_find env (pos k) = Some n" by (simp add: named_def)
  ultimately show ?thesis by (elim disjE) (simp_all add: dhcp_inv_def ecm_netif_def Let_def)
qed

lemma ecm_lease_dhcp:
  "dhcp_inv n k \<Longrightarrow> el_state k = Addressing \<Longrightarrow> el_dhcp_running k \<Longrightarrow> dhcp_inv n (ecm_lease env rdp k)"
  by (auto simp: dhcp_inv_def ecm_lease_def ecm_static_def Let_def split: option.split)

lemma ecm_addressing_dhcp:
  assumes "dhcp_inv n k" shows "dhcp_inv n (snd (ecm_addressing env k))"
proof (cases "el_state k = Addressing")
  case True
  with assms show ?thesis
    unfolding ecm_addressing_def Let_def
    by (auto simp: ecm_vanished_def intro!: ecm_lease_dhcp) (auto simp: dhcp_inv_def)
qed (use assms in \<open>simp add: ecm_addressing_def\<close>)

lemma ecm_hold_dhcp: "dhcp_inv n k \<Longrightarrow> dhcp_inv n (ecm_hold env k)"
  by (auto simp: dhcp_inv_def ecm_hold_def Let_def split: option.split)

lemma ecm_disconnect_dhcp: "dhcp_inv n k \<Longrightarrow> dhcp_inv n (ecm_disconnect k)"
  by (auto simp: dhcp_inv_def ecm_disconnect_def Let_def)

lemma ecm_tick_dhcp: "named n env \<Longrightarrow> dhcp_inv n l \<Longrightarrow> dhcp_inv n (ecm_tick env l)"
  by (rule ecm_tick_keeps [where P = "dhcp_inv n"])
     (auto simp: ecm_disconnect_dhcp ecm_reach_dhcp ecm_mode_dhcp ecm_pdp_dhcp ecm_start_dhcp ecm_netif_dhcp
        ecm_addressing_dhcp ecm_hold_dhcp ecm_stage_wanted)

lemma ecm_op_dhcp:
  "dhcp_inv n l \<Longrightarrow> (\<And>env. op = Tick env \<Longrightarrow> named n env) \<Longrightarrow> dhcp_inv n (ecm.op_step op l)"
  by (cases op) (simp_all add: ecm_tick_dhcp ecm_disconnect_dhcp, simp_all add: dhcp_inv_def ecm_connect_def ecm_set_config_def)

section \<open>Properties\<close>

fun ecm_step :: "ecm_env link_op \<Rightarrow> ecm_link \<Rightarrow> ecm_link" where
  "ecm_step Connect l = ecm_connect l"
| "ecm_step Disconnect l = ecm_disconnect l"
| "ecm_step (SetConfig c) l = ecm_set_config c l"
| "ecm_step (Tick env) l = ecm_tick env l"

lemma ecm_step_op: "ecm_step op l = ecm.op_step op l"
  by (cases op) simp_all

lemma ecm_step_dhcp:
  "dhcp_inv n l \<Longrightarrow> (\<And>env. op = Tick env \<Longrightarrow> named n env) \<Longrightarrow> dhcp_inv n (ecm_step op l)"
  by (simp add: ecm_step_op ecm_op_dhcp)

lemma ecm_step_within: "within n l \<Longrightarrow> within (n + (if op = Connect then 2 else 0)) (ecm_step op l)"
  by (cases op)
     (simp_all add: ecm_tick_within ecm_disconnect_within, auto simp: within_def switches_left_def ecm_connect_def ecm_set_config_def)

lemma ecm_run_within: "within n l \<Longrightarrow> within (n + 2 * length (filter (\<lambda>op. op = Connect) ops)) (fold ecm_step ops l)"
proof (induction ops arbitrary: n l)
  case (Cons op ops)
  from Cons.IH [OF ecm_step_within [OF Cons.prems, of op]] show ?case by (simp add: algebra_simps split: if_splits)
qed simp

lemma ecm_run_dhcp:
  "dhcp_inv n l \<Longrightarrow> list_all (\<lambda>op. \<forall>env. op = Tick env \<longrightarrow> named n env) ops \<Longrightarrow> dhcp_inv n (fold ecm_step ops l)"
  by (induction ops arbitrary: l) (simp_all add: ecm_step_dhcp)


text \<open>One DHCP client, and none left behind. As long as the modem's interface keeps its name, after any sequence of connects, disconnects,
  reconfigurations and ticks no client was ever started beside another, the one that runs is the one the link knows of, and after a
  disconnect none runs.\<close>

theorem ecm_dhcp_clients:
  assumes "list_all (\<lambda>op. \<forall>env. op = Tick env \<longrightarrow> named n env) ops"
  shows "dhcp_run (el_log (fold ecm_step ops (ecm_new cfg))) {}
      = Some (if el_dhcp_running (fold ecm_step ops (ecm_new cfg)) then {n} else {})
    \<and> dhcp_run (el_log (ecm_disconnect (fold ecm_step ops (ecm_new cfg)))) {} = Some {}"
proof -
  let ?l = "fold ecm_step ops (ecm_new cfg)"
  have "dhcp_inv n (ecm_new cfg)" by (simp add: dhcp_inv_def ecm_new_def cellular_link_state0_def)
  then have i: "dhcp_inv n ?l" using ecm_run_dhcp assms by blast
  from ecm_disconnect_dhcp [OF i] have "dhcp_run (el_log (ecm_disconnect ?l)) {} = Some (if el_dhcp_running (ecm_disconnect ?l) then {n} else {})"
    by (simp add: dhcp_inv_def)
  moreover have "\<not> el_dhcp_running (ecm_disconnect ?l)" by (simp add: ecm_disconnect_def Let_def)
  ultimately show ?thesis using i by (simp add: dhcp_inv_def)
qed

text \<open>A modem in ECM mode that answers everything, at a given time.\<close>

definition raw_ok :: "string \<Rightarrow> at_exchange" where
  "raw_ok raw = \<lparr>ax_result = AtOk, ax_payload = raw, ax_raw = raw, ax_timed_out = False, ax_device_gone = False\<rparr>"

definition ecm_demo :: "cellular_status \<Rightarrow> string option \<Rightarrow> link_address option \<Rightarrow> u64 \<Rightarrow> ecm_env" where
  "ecm_demo s found a now = \<lparr>ee_lb = 32, ee_status = s,
     ee_at = (\<lambda>k. raw_ok (if k = 0 then ''+QCFG: \"usbnet\",1'' else ''+QCFG: \"nat\",1'')),
     ee_now = (\<lambda>_. now), ee_find = (\<lambda>_. found), ee_ok = (\<lambda>_. True), ee_addr = (\<lambda>_. a)\<rparr>"

definition registered :: cellular_status where
  "registered = cellular_status0\<lparr>cs_present := True, cs_responsive := True, cs_sim := SimReady, cs_registration := RegisteredHome\<rparr>"

definition ecm_cfg :: cellular_config where
  "ecm_cfg = cellular_config0\<lparr>cc_enabled := True, cc_apn := ''internet''\<rparr>"

definition lease :: link_address where
  "lease = link_address0\<lparr>la_ipv4 := ''192.168.43.2'', la_gateway := ''192.168.43.1''\<rparr>"

definition ecm_up :: ecm_link where
  "ecm_up = ecm_tick (ecm_demo registered (Some ''usb0'') (Some lease) 1000) (ecm_connect (ecm_new ecm_cfg))"

theorem ecm_dhcp_clients_witness:
  "dhcp_run (el_log (fold ecm_step [Connect, Tick (ecm_demo registered (Some ''usb0'') (Some lease) 1000)] (ecm_new ecm_cfg))) {} = Some {''usb0''}"
proof -
  let ?ops = "[Connect, Tick (ecm_demo registered (Some ''usb0'') (Some lease) 1000)]"
  have n: "list_all (\<lambda>op. \<forall>env. op = Tick env \<longrightarrow> named ''usb0'' env) ?ops" by (simp add: named_def ecm_demo_def)
  have "el_dhcp_running (fold ecm_step ?ops (ecm_new ecm_cfg))" by code_simp
  with ecm_dhcp_clients [OF n, of ecm_cfg] show ?thesis by simp
qed

definition silent :: "ecm_env \<Rightarrow> bool" where
  "silent env \<longleftrightarrow> cs_present (ee_status env) \<and> \<not> cs_responsive (ee_status env)"

text \<open>A missed answer does not cost the connection. A link that is up stays exactly as it is, without a single call, through one or two
  ticks on which the modem is there but silent; the third takes it down, stops the DHCP client and forgets the address.\<close>

theorem ecm_survives_silence:
  assumes "el_want_up l" "el_state l = LinkUp" "el_unresponsive_ticks l = 0" "silent e1" "silent e2" "silent e3"
  shows "el_st (ecm_tick e2 (ecm_tick e1 l)) = el_st l \<and> el_log (ecm_tick e2 (ecm_tick e1 l)) = el_log l
    \<and> el_state (ecm_tick e3 (ecm_tick e2 (ecm_tick e1 l))) = WaitAt
    \<and> \<not> el_dhcp_running (ecm_tick e3 (ecm_tick e2 (ecm_tick e1 l)))
    \<and> \<not> has_address (cl_address (el_st (ecm_tick e3 (ecm_tick e2 (ecm_tick e1 l)))))"
proof -
  have quiet: "ecm_tick e k = k\<lparr>el_unresponsive_ticks := el_unresponsive_ticks k + 1\<rparr>"
    if "silent e" "el_want_up k" "el_state k = LinkUp" "el_unresponsive_ticks k < 2" for e k
    using that by (simp add: ecm_tick_def ecm_stages_def next_stage_def ecm_reach_def silent_def kUnresponsiveTeardownTicks_def Let_def)
  have lost: "ecm_tick e k = ecm_lost e (k\<lparr>el_unresponsive_ticks := el_unresponsive_ticks k + 1\<rparr>)"
    if "silent e" "el_want_up k" "el_state k = LinkUp" "el_unresponsive_ticks k = 2" for e k
    using that by (simp add: ecm_tick_def ecm_stages_def next_stage_def ecm_reach_def silent_def kUnresponsiveTeardownTicks_def Let_def)
  show ?thesis
    using assms by (simp add: quiet lost) (simp add: ecm_lost_def silent_def Let_def has_address_def link_address0_def)
qed

theorem ecm_survives_silence_witness:
  "let quiet = ecm_demo (registered\<lparr>cs_responsive := False\<rparr>) None None 3000
   in el_state ecm_up = LinkUp \<and> el_st (ecm_tick quiet (ecm_tick quiet ecm_up)) = el_st ecm_up
      \<and> el_state (ecm_tick quiet (ecm_tick quiet (ecm_tick quiet ecm_up))) = WaitAt"
proof -
  let ?quiet = "ecm_demo (registered\<lparr>cs_responsive := False\<rparr>) None None 3000"
  have q: "silent ?quiet" by (simp add: silent_def ecm_demo_def registered_def)
  have u: "el_want_up ecm_up" "el_state ecm_up = LinkUp" "el_unresponsive_ticks ecm_up = 0" by code_simp+
  from ecm_survives_silence [OF u q q q] u(2) show ?thesis unfolding Let_def by blast
qed

definition ecm_ready :: "ecm_env \<Rightarrow> bool" where
  "ecm_ready env \<longleftrightarrow> cs_present (ee_status env) \<and> cs_responsive (ee_status env) \<and> cs_sim (ee_status env) = SimReady
     \<and> reg_is_registered (cs_registration (ee_status env))"

lemma ecm_reach_ready:
  "ecm_ready env \<Longrightarrow> el_state l \<noteq> WaitReenumeration \<Longrightarrow> el_state l \<noteq> DlFailed \<Longrightarrow>
     ecm_reach env l = (False, l\<lparr>el_unresponsive_ticks := 0\<rparr>)"
  by (simp add: ecm_ready_def ecm_reach_def ecm_service_def Let_def)

lemma ecm_lease_state:
  "el_state (ecm_lease env rdp k) \<in> {LinkUp, DlFailed, el_state k}"
  "(\<And>i. el_dhcp_deadline_ms k < ee_now env i) \<Longrightarrow> el_state (ecm_lease env rdp k) \<in> {LinkUp, DlFailed}"
  by (auto simp: ecm_lease_def ecm_static_def Let_def split: option.split)

lemma ecm_addressing_cases:
  assumes "el_state k = Addressing"
  obtains (failed) r where "ecm_addressing env k = (True, r)" "el_state r = DlFailed" "\<exists>es. el_log r = el_log k @ es"
  | (lease) rdp m where "ecm_addressing env k = (True, ecm_lease env rdp m)" "el_state m = Addressing"
      "el_dhcp_deadline_ms m = el_dhcp_deadline_ms k" "\<exists>es. el_log m = el_log k @ es"
proof -
  define rdp where "rdp = parse_cgcontrdp (ax_raw (ee_at env (pos (elog EFind k))))"
  define m where "m = est (\<lambda>st. st\<lparr>cl_modem_pdp_address := pc_ipv4 rdp\<rparr>) (elog (EAt ''AT+CGCONTRDP=1'' 3000) (elog EFind k))"
  define m' where "m' = elog (EDhcpStart (el_iface k) (ee_ok env (pos m))) m"
  have m: "el_state m = Addressing" "el_iface m = el_iface k" "el_dhcp_running m = el_dhcp_running k"
      "el_dhcp_deadline_ms m = el_dhcp_deadline_ms k" "\<exists>es. el_log m = el_log k @ es" "\<exists>es. el_log m' = el_log k @ es"
    using assms by (simp_all add: m_def m'_def)
  consider "ee_find env (pos k) \<noteq> Some (el_iface k)" | "ee_find env (pos k) = Some (el_iface k)" "el_dhcp_running k"
    | "ee_find env (pos k) = Some (el_iface k)" "\<not> el_dhcp_running k" "\<not> ee_ok env (pos m)"
    | "ee_find env (pos k) = Some (el_iface k)" "\<not> el_dhcp_running k" "ee_ok env (pos m)" by blast
  then show thesis
  proof cases
    case 1
    with assms show thesis by (intro failed [of "ecm_vanished env (elog EFind k)"]) (simp_all add: ecm_addressing_def ecm_vanished_def)
  next
    case 2
    with assms have "ecm_addressing env k = (True, ecm_lease env rdp m)"
      using m by (simp add: ecm_addressing_def Let_def rdp_def [symmetric] m_def [symmetric])
    with m show thesis by (intro lease)
  next
    case 3
    with assms m have "ecm_addressing env k = (True, ecm_fail env ''DHCP liess sich nicht starten'' m')"
      by (simp add: ecm_addressing_def Let_def rdp_def [symmetric] m_def [symmetric] m'_def)
    with m(6) show thesis by (intro failed [of "ecm_fail env ''DHCP liess sich nicht starten'' m'"]) auto
  next
    case 4
    with assms m have "ecm_addressing env k = (True, ecm_lease env rdp (m'\<lparr>el_dhcp_running := True, el_dhcp_iface := el_iface k\<rparr>))"
      by (simp add: ecm_addressing_def Let_def rdp_def [symmetric] m_def [symmetric] m'_def)
    with m show thesis by (intro lease [of rdp "m'\<lparr>el_dhcp_running := True, el_dhcp_iface := el_iface k\<rparr>"]) (simp_all add: m'_def)
  qed
qed

lemma ecm_addressing_state:
  assumes "el_state k = Addressing"
  shows "fst (ecm_addressing env k)" "el_state (snd (ecm_addressing env k)) \<in> {LinkUp, DlFailed, Addressing}"
    and "(\<And>i. el_dhcp_deadline_ms k < ee_now env i) \<Longrightarrow> el_state (snd (ecm_addressing env k)) \<in> {LinkUp, DlFailed}"
proof -
  have "fst (ecm_addressing env k) \<and> el_state (snd (ecm_addressing env k)) \<in> {LinkUp, DlFailed, Addressing}
      \<and> ((\<forall>i. el_dhcp_deadline_ms k < ee_now env i) \<longrightarrow> el_state (snd (ecm_addressing env k)) \<in> {LinkUp, DlFailed})"
  proof (cases rule: ecm_addressing_cases [OF assms, of env])
    case (2 rdp m)
    with ecm_lease_state(1) [of env rdp m] ecm_lease_state(2) [of m env rdp] show ?thesis by auto
  qed simp
  then show "fst (ecm_addressing env k)" "el_state (snd (ecm_addressing env k)) \<in> {LinkUp, DlFailed, Addressing}"
    "(\<And>i. el_dhcp_deadline_ms k < ee_now env i) \<Longrightarrow> el_state (snd (ecm_addressing env k)) \<in> {LinkUp, DlFailed}" by blast+
qed

text \<open>The log only grows.\<close>

lemma ecm_lease_log: "\<exists>es. el_log (ecm_lease env rdp k) = el_log k @ es"
  by (simp add: ecm_lease_def ecm_static_def Let_def split: option.split)

lemma ecm_addressing_log: "\<exists>es. el_log (snd (ecm_addressing env k)) = el_log k @ es"
proof (cases "el_state k = Addressing")
  case True
  from ecm_lease_log [of env] show ?thesis
    by (cases rule: ecm_addressing_cases [OF True, of env]) (fastforce, metis append.assoc snd_conv)
qed (simp add: ecm_addressing_def)

lemma ecm_later_log:
  "f \<in> {ecm_pdp, ecm_start, ecm_netif, ecm_addressing} \<Longrightarrow> \<exists>es. el_log (snd (f env k)) = el_log k @ es"
  by (elim insertE) (auto simp: ecm_pdp_def ecm_start_def ecm_netif_def Let_def ecm_addressing_log split: option.split)

lemma ecm_hold_log: "\<exists>es. el_log (ecm_hold env k) = el_log k @ es"
  by (simp add: ecm_hold_def Let_def split: option.split)

lemma ecm_mode_log:
  assumes "el_state k = DlFailed"
  shows "\<exists>es. el_log (snd (ecm_mode env k)) = el_log k @ EAt ''AT+QCFG=\"usbnet\"'' 3000 # es"
  using assms by (simp add: ecm_mode_def ecm_nat_def Let_def split: option.split)

lemma next_stage_log:
  "(\<exists>es. el_log (snd r) = pre @ es) \<Longrightarrow> f \<in> {ecm_pdp, ecm_start, ecm_netif, ecm_addressing} \<Longrightarrow>
     \<exists>es. el_log (snd (next_stage (f env) r)) = pre @ es"
  using ecm_later_log [of f env "snd r"] by (auto simp: next_stage_def)



text \<open>A client can be left behind when the interface changes its name. Registration lost and found again while the modem came back under another
  name: the running client is taken for one on the new interface, none is started there, and at the deadline the stop is sent to the new name.\<close>

theorem dhcp_client_left_behind:
  "let l = fold ecm_step [Connect, Tick (ecm_demo registered (Some ''usb0'') (Some lease) 1000),
             Tick (ecm_demo (registered\<lparr>cs_registration := Searching\<rparr>) (Some ''usb0'') None 2000)] (ecm_new ecm_cfg);
       e = (ecm_demo registered (Some ''usb1'') None 3000)\<lparr>ee_at := \<lambda>k. raw_ok (if odd k then ''+QCFG: \"usbnet\",1'' else ''+QCFG: \"nat\",1'')\<rparr>
   in dhcp_run (el_log (ecm_disconnect (ecm_tick (e\<lparr>ee_now := \<lambda>_. 40000\<rparr>) (ecm_tick e l)))) {} = Some {''usb0''}"
  by code_simp

end
