(* ===== verification/Ppp_Link.thy ===== *)
theory Ppp_Link
  imports Cellular
begin

text \<open>
  The PPP data link (\<^verbatim>\<open>core/cellular/ppp_link.hpp\<close>, \<^verbatim>\<open>ppp_link.cpp\<close>): a state machine over the AT port and pppd. pppd is
  behind the port \<^verbatim>\<open>IPppBackend\<close>; what it and the modem answer in one tick is the environment, and every call that
  changes something outside is an effect, in order. Looking at pppd is an effect too, because what it says decides what
  may be started next. The clock is read up to three times in a tick; each reading is a field of the environment.
\<close>

section \<open>Definitions\<close>

datatype ppp_exit =
    ExitNone | ExitOk | NoDevice | DialFailed | AuthFailed | NegotiationFailed | LinkTerminated | ExitOther

fun ppp_exit_name :: "ppp_exit \<Rightarrow> string" where
  "ppp_exit_name ExitNone = ''none''"
| "ppp_exit_name ExitOk = ''ok''"
| "ppp_exit_name NoDevice = ''no-device''"
| "ppp_exit_name DialFailed = ''dial-failed''"
| "ppp_exit_name AuthFailed = ''auth-failed''"
| "ppp_exit_name NegotiationFailed = ''negotiation-failed''"
| "ppp_exit_name LinkTerminated = ''link-terminated''"
| "ppp_exit_name ExitOther = ''other''"

record ppp_status =
  ps_running :: bool
  ps_ifname :: string
  ps_address :: link_address
  ps_exit :: ppp_exit
  ps_detail :: string

record ppp_request =
  pr_tty :: string
  pr_baud :: int
  pr_apn :: string
  pr_dial :: string
  pr_pdp :: pdp_type
  pr_auth :: auth_mode
  pr_username :: string
  pr_password :: string

datatype ppp_effect = PppLook "ppp_status option" | PppStop | PppStart ppp_request result | PppAt string int

record ppp_env =
  pe_status :: cellular_status
  pe_ppp :: "ppp_status option"
  pe_cgdcont :: at_exchange
  pe_start :: result
  pe_due_now :: u64
  pe_check_now :: u64
  pe_now :: u64

record ppp_link =
  pp_cfg :: cellular_config
  pp_st :: cellular_link_state
  pp_modem_tty :: string
  pp_want_up :: bool
  pp_next_due_ms :: u64
  pp_negotiate_deadline_ms :: u64
  pp_started :: bool
  pp_log :: "ppp_effect list"

definition kNegotiateWaitMs :: u32 where "kNegotiateWaitMs = 12000"
definition kDialWaitMs :: u32 where "kDialWaitMs = 8000"

definition ppp_new :: "cellular_config \<Rightarrow> string \<Rightarrow> ppp_link" where
  "ppp_new cfg tty = \<lparr>pp_cfg = cfg, pp_st = cellular_link_state0\<lparr>cl_kind := Ppp\<rparr>, pp_modem_tty = tty, pp_want_up = False,
     pp_next_due_ms = 0, pp_negotiate_deadline_ms = 0, pp_started = False, pp_log = []\<rparr>"

definition ppp_set_config :: "cellular_config \<Rightarrow> ppp_link \<Rightarrow> ppp_link" where
  "ppp_set_config c l = l\<lparr>pp_cfg := c\<rparr>"

definition set_modem_port :: "string \<Rightarrow> ppp_link \<Rightarrow> ppp_link" where
  "set_modem_port tty l = l\<lparr>pp_modem_tty := tty\<rparr>"

definition plog :: "ppp_effect \<Rightarrow> ppp_link \<Rightarrow> ppp_link" where
  "plog e l = l\<lparr>pp_log := pp_log l @ [e]\<rparr>"

definition upd_st :: "(cellular_link_state \<Rightarrow> cellular_link_state) \<Rightarrow> ppp_link \<Rightarrow> ppp_link" where
  "upd_st f l = l\<lparr>pp_st := f (pp_st l)\<rparr>"

definition ppp_enter :: "data_link_state \<Rightarrow> string \<Rightarrow> ppp_link \<Rightarrow> ppp_link" where
  "ppp_enter s detail = upd_st (\<lambda>st. st\<lparr>cl_state := s, cl_detail := detail\<rparr>)"

text \<open>\<open>if (started_) { be_.stop(); started_ = false; }\<close>.\<close>

definition stop_if_started :: "ppp_link \<Rightarrow> ppp_link" where
  "stop_if_started l = (if pp_started l then (plog PppStop l)\<lparr>pp_started := False\<rparr> else l)"

definition ppp_fail :: "u64 \<Rightarrow> string \<Rightarrow> ppp_link \<Rightarrow> ppp_link" where
  "ppp_fail now detail l =
     (let l = upd_st (\<lambda>st. st\<lparr>cl_attempts := cl_attempts st + 1\<rparr>) l;
          l = l\<lparr>pp_next_due_ms := now + ucast (backoff_ms (cl_attempts (pp_st l)))\<rparr>
      in ppp_enter DlFailed detail (stop_if_started l))"

definition ppp_due :: "u64 \<Rightarrow> ppp_link \<Rightarrow> bool" where
  "ppp_due now l \<longleftrightarrow> pp_next_due_ms l = 0 \<or> pp_next_due_ms l \<le> now"

definition ppp_connect :: "ppp_link \<Rightarrow> ppp_link" where
  "ppp_connect l =
     (if pp_want_up l then l
      else ppp_enter WaitDevice ''Verbindung angefordert''
             (upd_st (\<lambda>st. st\<lparr>cl_attempts := 0\<rparr>) (l\<lparr>pp_want_up := True, pp_next_due_ms := 0\<rparr>)))"

definition ppp_disconnect :: "ppp_link \<Rightarrow> ppp_link" where
  "ppp_disconnect l =
     (let l = stop_if_started (l\<lparr>pp_want_up := False\<rparr>);
          l = upd_st (\<lambda>st. st\<lparr>cl_interface_name := [], cl_address := link_address0, cl_modem_pdp_address := [], cl_attempts := 0\<rparr>) l
      in ppp_enter Disabled ''getrennt'' (l\<lparr>pp_next_due_ms := 0\<rparr>))"

text \<open>pppd has ended: what its exit code means.\<close>

definition exit_detail :: "string \<Rightarrow> ppp_status \<Rightarrow> string" where
  "exit_detail tty ps =
     (case ps_exit ps of
        AuthFailed \<Rightarrow> ''Authentifizierung abgelehnt - Benutzername oder Passwort pruefen''
      | DialFailed \<Rightarrow> ''kein CONNECT auf '' @ tty @ '' - Einwahlnummer oder APN pruefen''
      | NegotiationFailed \<Rightarrow> ''PPP-Aushandlung gescheitert''
      | NoDevice \<Rightarrow> ''der Modem-Port ist verschwunden''
      | LinkTerminated \<Rightarrow> ''die Gegenstelle hat die Verbindung beendet''
      | _ \<Rightarrow> if ps_detail ps = [] then ''pppd hat aufgehoert'' else ps_detail ps)"

text \<open>The branch of \<^verbatim>\<open>tick\<close> with pppd started.\<close>

definition tick_started :: "ppp_env \<Rightarrow> ppp_link \<Rightarrow> ppp_link" where
  "tick_started env l =
     (case pe_ppp env of
        None \<Rightarrow> ppp_enter (cl_state (pp_st l)) ''Zustand des PPP-Prozesses nicht lesbar'' l
      | Some ps \<Rightarrow>
          if \<not> ps_running ps
          then ppp_fail (pe_now env) (exit_detail (pp_modem_tty l) ps) (l\<lparr>pp_started := False\<rparr>)
          else if ps_ifname ps \<noteq> [] \<and> has_address (ps_address ps)
          then ppp_enter LinkUp (''verbunden ueber '' @ ps_ifname ps)
                 ((upd_st (\<lambda>st. st\<lparr>cl_interface_name := ps_ifname ps, cl_address := ps_address ps, cl_attempts := 0\<rparr>) l)
                    \<lparr>pp_next_due_ms := 0\<rparr>)
          else
            let l = upd_st (\<lambda>st. st\<lparr>cl_interface_name := ps_ifname ps\<rparr>) l
            in if pp_negotiate_deadline_ms l < pe_check_now env
               then ppp_fail (pe_now env)
                      (''Aushandlung haengt ('' @ nat_dec (unat (kNegotiateWaitMs div 1000)) @
                       '' s ohne Ergebnis) - Abbruch und neuer Versuch'') l
               else ppp_enter (if ps_ifname ps = [] then Dial else Negotiating)
                      (if ps_ifname ps = [] then ''Einwahl laeuft'' else ''Aushandlung auf '' @ ps_ifname ps) l)"

definition request_of :: "ppp_link \<Rightarrow> ppp_request" where
  "request_of l = \<lparr>pr_tty = pp_modem_tty l, pr_baud = 115200, pr_apn = cc_apn (pp_cfg l),
     pr_dial = (if cc_dial (pp_cfg l) = [] then ''*99***1#'' else cc_dial (pp_cfg l)),
     pr_pdp = cc_pdp (pp_cfg l), pr_auth = cc_auth (pp_cfg l),
     pr_username = cc_username (pp_cfg l), pr_password = cc_password (pp_cfg l)\<rparr>"

definition cgdcont :: "ppp_link \<Rightarrow> string" where
  "cgdcont l = ''AT+CGDCONT=1,\"'' @ (if cc_pdp (pp_cfg l) = Ipv4v6 then ''IPV4V6'' else ''IP'') @ ''\",\"'' @ cc_apn (pp_cfg l) @ ''\"''"

text \<open>The branch of \<^verbatim>\<open>tick\<close> that builds the connection up.\<close>

definition tick_build :: "ppp_env \<Rightarrow> ppp_link \<Rightarrow> ppp_link" where
  "tick_build env l =
     (if pp_modem_tty l = [] then ppp_enter WaitDevice ''kein Modem-Port gefunden'' l
      else if cc_apn (pp_cfg l) = []
      then ppp_fail (pe_now env) ''kein APN konfiguriert - ohne den weiss das Netz nicht, wohin'' l
      else
        let l = ppp_enter ConfigurePdp ''PDP-Kontext wird gesetzt'' l;
            l = plog (PppAt (cgdcont l) 3000) (plog (PppAt ''AT+CGACT=0,1'' 10000) l)
        in if \<not> ax_ok (pe_cgdcont env) then ppp_fail (pe_now env) ''das Modem hat den APN abgelehnt'' l
           else
             let req = request_of l; l = plog (PppStart req (pe_start env)) l
             in if \<not> is_ok (pe_start env) then ppp_fail (pe_now env) ''der PPP-Prozess liess sich nicht starten'' l
                else ppp_enter Dial (''Einwahl mit '' @ pr_dial req)
                       (l\<lparr>pp_started := True,
                         pp_negotiate_deadline_ms := pe_now env + ucast kDialWaitMs + ucast kNegotiateWaitMs\<rparr>))"

definition ppp_tick :: "ppp_env \<Rightarrow> ppp_link \<Rightarrow> ppp_link" where
  "ppp_tick env l =
     (if \<not> pp_want_up l then (if cl_state (pp_st l) \<noteq> Disabled then ppp_disconnect l else l)
      else
        let status = pe_status env; l = plog (PppLook (pe_ppp env)) l
        in if \<not> cs_present status \<or> \<not> cs_responsive status
           then ppp_enter (if cs_present status then WaitAt else WaitDevice)
                  (if cs_present status then ''Modem antwortet nicht'' else ''kein Modem'')
                  (upd_st (\<lambda>st. st\<lparr>cl_interface_name := [], cl_address := link_address0\<rparr>) (stop_if_started l))
           else if cl_state (pp_st l) = DlFailed \<and> \<not> ppp_due (pe_due_now env) l then l
           else if cs_sim status \<noteq> SimReady
           then ppp_enter WaitSim (if cs_sim_detail status = [] then ''SIM nicht bereit'' else cs_sim_detail status) l
           else if \<not> reg_is_registered (cs_registration status)
           then ppp_enter WaitRegistration (''nicht im Netz: '' @ reg_state_name (cs_registration status)) l
           else if pp_started l then tick_started env l
           else tick_build env l)"

section \<open>Lemmas\<close>

lemma plog_simps [simp]:
  "pp_log (plog e l) = pp_log l @ [e]" "pp_st (plog e l) = pp_st l" "pp_started (plog e l) = pp_started l"
  "pp_want_up (plog e l) = pp_want_up l" "pp_cfg (plog e l) = pp_cfg l" "pp_modem_tty (plog e l) = pp_modem_tty l"
  "pp_next_due_ms (plog e l) = pp_next_due_ms l" "pp_negotiate_deadline_ms (plog e l) = pp_negotiate_deadline_ms l"
  by (simp_all add: plog_def)

lemma upd_st_simps [simp]:
  "pp_st (upd_st f l) = f (pp_st l)" "pp_log (upd_st f l) = pp_log l" "pp_started (upd_st f l) = pp_started l"
  "pp_want_up (upd_st f l) = pp_want_up l" "pp_cfg (upd_st f l) = pp_cfg l" "pp_modem_tty (upd_st f l) = pp_modem_tty l"
  "pp_next_due_ms (upd_st f l) = pp_next_due_ms l" "pp_negotiate_deadline_ms (upd_st f l) = pp_negotiate_deadline_ms l"
  by (simp_all add: upd_st_def)

lemma ppp_enter_simps [simp]:
  "pp_st (ppp_enter s d l) = (pp_st l)\<lparr>cl_state := s, cl_detail := d\<rparr>" "pp_log (ppp_enter s d l) = pp_log l"
  "pp_started (ppp_enter s d l) = pp_started l" "pp_want_up (ppp_enter s d l) = pp_want_up l"
  "pp_cfg (ppp_enter s d l) = pp_cfg l" "pp_modem_tty (ppp_enter s d l) = pp_modem_tty l"
  "pp_next_due_ms (ppp_enter s d l) = pp_next_due_ms l"
  "pp_negotiate_deadline_ms (ppp_enter s d l) = pp_negotiate_deadline_ms l"
  by (simp_all add: ppp_enter_def)

lemma stop_if_started_simps [simp]:
  "pp_log (stop_if_started l) = pp_log l @ (if pp_started l then [PppStop] else [])"
  "\<not> pp_started (stop_if_started l)" "pp_st (stop_if_started l) = pp_st l" "pp_want_up (stop_if_started l) = pp_want_up l"
  "pp_next_due_ms (stop_if_started l) = pp_next_due_ms l"
  by (simp_all add: stop_if_started_def)

lemma ppp_fail_simps [simp]:
  "pp_log (ppp_fail now d l) = pp_log l @ (if pp_started l then [PppStop] else [])" "\<not> pp_started (ppp_fail now d l)"
  "cl_state (pp_st (ppp_fail now d l)) = DlFailed" "pp_want_up (ppp_fail now d l) = pp_want_up l"
  "cl_attempts (pp_st (ppp_fail now d l)) = cl_attempts (pp_st l) + 1"
  "cl_detail (pp_st (ppp_fail now d l)) = d"
  "pp_next_due_ms (ppp_fail now d l) = now + ucast (backoff_ms (cl_attempts (pp_st l) + 1))"
  by (simp_all add: ppp_fail_def Let_def)

text \<open>
  The rule of the port: a second pppd is never put beside a running one. pppd is running from an accepted start until it is
  stopped or is seen to have ended.
\<close>

fun pppd_step :: "ppp_effect \<Rightarrow> bool \<Rightarrow> bool option" where
  "pppd_step (PppStart req r) running = (if running then None else Some (is_ok r))"
| "pppd_step PppStop running = Some False"
| "pppd_step (PppLook (Some ps)) running = Some (running \<and> ps_running ps)"
| "pppd_step (PppLook None) running = Some running"
| "pppd_step (PppAt c t) running = Some running"

fun pppd_run :: "ppp_effect list \<Rightarrow> bool \<Rightarrow> bool option" where
  "pppd_run [] running = Some running"
| "pppd_run (e # es) running = (case pppd_step e running of None \<Rightarrow> None | Some r \<Rightarrow> pppd_run es r)"

lemma pppd_run_append:
  "pppd_run (xs @ ys) b = (case pppd_run xs b of None \<Rightarrow> None | Some c \<Rightarrow> pppd_run ys c)"
  by (induction xs arbitrary: b) (auto split: option.splits)

definition pppd_ok :: "ppp_effect list \<Rightarrow> bool \<Rightarrow> bool" where
  "pppd_ok log started \<longleftrightarrow> (case pppd_run log False of None \<Rightarrow> False | Some b \<Rightarrow> b \<longrightarrow> started)"

lemma pppd_ok_append_down [simp]:
  "pppd_ok log False \<Longrightarrow> pppd_ok (log @ es) b \<longleftrightarrow> (case pppd_run es False of None \<Rightarrow> False | Some r \<Rightarrow> r \<longrightarrow> b)"
  by (auto simp: pppd_ok_def pppd_run_append split: option.splits)

lemma pppd_ok_append_up [simp]:
  "pppd_ok log True \<Longrightarrow> (case pppd_run es False of None \<Rightarrow> False | Some r \<Rightarrow> r \<longrightarrow> b) \<Longrightarrow>
   (case pppd_run es True of None \<Rightarrow> False | Some r \<Rightarrow> r \<longrightarrow> b) \<Longrightarrow> pppd_ok (log @ es) b"
  by (auto simp: pppd_ok_def pppd_run_append split: option.splits) (metis (full_types) option.sel option.simps(3,5))+

lemma pppd_ok_started: "pppd_ok log False \<Longrightarrow> pppd_ok log b"
  by (auto simp: pppd_ok_def split: option.splits)

lemma pppd_step_look [simp]: "pppd_step (PppLook ps) r = Some (r \<and> (case ps of None \<Rightarrow> True | Some p \<Rightarrow> ps_running p))"
  by (cases ps) simp_all

definition ppp_ok :: "ppp_link \<Rightarrow> bool" where
  "ppp_ok l \<longleftrightarrow> pppd_ok (pp_log l) (pp_started l)
     \<and> (cl_state (pp_st l) = LinkUp \<longrightarrow>
          pp_started l \<and> cl_interface_name (pp_st l) \<noteq> [] \<and> has_address (cl_address (pp_st l)))
     \<and> (cl_state (pp_st l) = DlFailed \<longrightarrow> \<not> pp_started l)
     \<and> (\<not> pp_want_up l \<longrightarrow> cl_state (pp_st l) = Disabled \<and> \<not> pp_started l)"

lemma ppp_fail_ok [intro]:
  "pppd_ok (pp_log l) (pp_started l) \<Longrightarrow> pp_want_up l \<Longrightarrow> ppp_ok (ppp_fail now d l)"
  by (cases "pp_started l") (simp_all add: ppp_ok_def)

lemma ppp_new_ok [simp]: "ppp_ok (ppp_new cfg tty)"
  by (simp add: ppp_ok_def pppd_ok_def ppp_new_def cellular_link_state0_def)

lemma ppp_connect_ok: "ppp_ok l \<Longrightarrow> ppp_ok (ppp_connect l)"
  by (auto simp: ppp_ok_def ppp_connect_def)

lemma ppp_disconnect_ok: "ppp_ok l \<Longrightarrow> ppp_ok (ppp_disconnect l)"
  by (cases "pp_started l") (simp_all add: ppp_ok_def ppp_disconnect_def Let_def)

lemma ppp_configured_ok: "ppp_ok l \<Longrightarrow> ppp_ok (ppp_set_config c l)" "ppp_ok l \<Longrightarrow> ppp_ok (set_modem_port tty l)"
  by (simp_all add: ppp_ok_def ppp_set_config_def set_modem_port_def)

lemma tick_started_ok:
  assumes "ppp_ok l" "pp_want_up l" "pp_started l"
  shows "ppp_ok (tick_started env (plog (PppLook (pe_ppp env)) l))"
proof (cases "pe_ppp env")
  case None
  with assms show ?thesis by (simp add: ppp_ok_def tick_started_def)
next
  case (Some ps)
  have log: "pppd_ok (pp_log l) True" using assms by (simp add: ppp_ok_def)
  show ?thesis
  proof (cases "ps_running ps")
    case False
    with assms Some log show ?thesis
      by (simp add: tick_started_def) (rule ppp_fail_ok; simp)
  next
    case run: True
    show ?thesis
    proof (cases "ps_ifname ps \<noteq> [] \<and> has_address (ps_address ps)")
      case True
      with assms Some run log show ?thesis by (simp add: ppp_ok_def tick_started_def)
    next
      case False
      with assms Some run log show ?thesis
        by (simp add: tick_started_def Let_def) (simp add: ppp_ok_def)
    qed
  qed
qed

lemma tick_build_ok:
  assumes "ppp_ok l" "pp_want_up l" "\<not> pp_started l"
  shows "ppp_ok (tick_build env (plog (PppLook (pe_ppp env)) l))"
proof -
  have log: "pppd_ok (pp_log l) False" using assms by (simp add: ppp_ok_def)
  with assms show ?thesis
    by (simp add: tick_build_def Let_def) (simp add: ppp_ok_def)
qed

lemma ppp_tick_ok:
  assumes "ppp_ok l" shows "ppp_ok (ppp_tick env l)"
proof (cases "pp_want_up l")
  case False
  with assms show ?thesis by (simp add: ppp_tick_def ppp_disconnect_ok)
next
  case True
  then show ?thesis
    using assms True tick_started_ok [OF assms True, of env] tick_build_ok [OF assms True, of env]
    by (cases "pp_started l") (simp_all add: ppp_tick_def Let_def, simp_all add: ppp_ok_def)
qed

lemma ppp_tick_want_up: "pp_want_up (ppp_tick env l) = pp_want_up l"
proof (cases "pp_want_up l")
  case False
  then show ?thesis by (simp add: ppp_tick_def ppp_disconnect_def Let_def)
next
  case True
  have "pp_want_up (tick_started env k) = pp_want_up k" for k
    by (simp add: tick_started_def Let_def split: option.splits)
  moreover have "pp_want_up (tick_build env k) = pp_want_up k" for k
    by (simp add: tick_build_def Let_def)
  ultimately show ?thesis using True by (simp add: ppp_tick_def Let_def)
qed

interpretation ppp: data_link ppp_connect ppp_disconnect ppp_set_config ppp_tick pp_st "\<lambda>_. True" ppp_ok pp_want_up
proof unfold_locales
  show "ppp_ok l \<Longrightarrow> is_up (pp_st l) \<Longrightarrow>
          cl_interface_name (pp_st l) \<noteq> [] \<and> has_address (cl_address (pp_st l)) \<and> pp_want_up l" for l
    by (auto simp: ppp_ok_def is_up_def)
  show "\<not> pp_want_up (ppp_disconnect l)" for l
    by (simp add: ppp_disconnect_def Let_def)
qed (simp_all add: ppp_connect_ok ppp_disconnect_ok ppp_configured_ok ppp_tick_ok ppp_tick_want_up)

lemma tick_started_effects:
  "\<exists>es. pp_log (tick_started env k) = pp_log k @ es \<and> (es = [] \<or> es = [PppStop])"
  by (auto simp: tick_started_def Let_def split: option.splits)

section \<open>Properties\<close>

datatype ppp_op = POp "ppp_env link_op" | PPort string

fun ppp_step :: "ppp_op \<Rightarrow> ppp_link \<Rightarrow> ppp_link" where
  "ppp_step (POp Connect) l = ppp_connect l"
| "ppp_step (POp Disconnect) l = ppp_disconnect l"
| "ppp_step (POp (SetConfig c)) l = ppp_set_config c l"
| "ppp_step (POp (Tick env)) l = ppp_tick env l"
| "ppp_step (PPort tty) l = set_modem_port tty l"

lemma ppp_step_ok: "ppp_ok l \<Longrightarrow> ppp_ok (ppp_step op l)"
  by (induction op l rule: ppp_step.induct)
     (simp_all add: ppp_connect_ok ppp_disconnect_ok ppp_configured_ok ppp_tick_ok)

lemma ppp_run_ok: "ppp_ok l \<Longrightarrow> ppp_ok (fold ppp_step ops l)"
  by (induction ops arbitrary: l) (simp_all add: ppp_step_ok)

text \<open>One pppd at a time. Whatever the modem, pppd, the clock and the user do, in any order, the calls the link makes never
  ask for a second pppd while one that was started has neither been stopped nor been seen to have ended.\<close>

theorem ppp_single_daemon:
  "pppd_run (pp_log (fold ppp_step ops (ppp_new cfg tty))) False \<noteq> None"
  using ppp_run_ok [OF ppp_new_ok, of ops cfg tty] by (auto simp: ppp_ok_def pppd_ok_def split: option.splits)

definition demo_cellular :: cellular_config where
  "demo_cellular = cellular_config0\<lparr>cc_enabled := True, cc_apn := ''internet''\<rparr>"

definition in_service :: cellular_status where
  "in_service = cellular_status0\<lparr>cs_present := True, cs_responsive := True, cs_sim := SimReady, cs_registration := RegisteredHome\<rparr>"

definition demo_pppd :: "string \<Rightarrow> ppp_status" where
  "demo_pppd ip = \<lparr>ps_running = True, ps_ifname = ''ppp0'', ps_address = link_address0\<lparr>la_ipv4 := ip\<rparr>, ps_exit = ExitNone, ps_detail = []\<rparr>"

definition demo_env :: "ppp_status option \<Rightarrow> u64 \<Rightarrow> ppp_env" where
  "demo_env ps now = \<lparr>pe_status = in_service, pe_ppp = ps,
     pe_cgdcont = \<lparr>ax_result = AtOk, ax_payload = [], ax_raw = [], ax_timed_out = False, ax_device_gone = False\<rparr>,
     pe_start = result_ok, pe_due_now = now, pe_check_now = now, pe_now = now\<rparr>"

definition dialling :: ppp_link where
  "dialling = ppp_tick (demo_env None 1000) (ppp_connect (ppp_new demo_cellular ''/dev/ttyUSB4''))"

lemmas ppp_demo_defs = cellular_config0_def cellular_status0_def dialling_def demo_env_def demo_pppd_def in_service_def demo_cellular_def ppp_tick_def tick_build_def
  tick_started_def ppp_connect_def ppp_new_def ppp_enter_def upd_st_def plog_def ax_ok_def is_ok_def result_ok_def
  reg_is_registered_def ppp_fail_def stop_if_started_def has_address_def link_address0_def cellular_link_state0_def
  ppp_due_def request_of_def cgdcont_def kDialWaitMs_def kNegotiateWaitMs_def

text \<open>A link that reports up has something to route through: an interface and an address, after any sequence of connects,
  disconnects, reconfigurations and ticks.\<close>

theorem ppp_up_is_addressed:
  assumes "cl_state (pp_st (fold ppp_step (map POp ops) (ppp_new cfg tty))) = LinkUp"
  shows "cl_interface_name (pp_st (fold ppp_step (map POp ops) (ppp_new cfg tty))) \<noteq> []
    \<and> la_ipv4 (cl_address (pp_st (fold ppp_step (map POp ops) (ppp_new cfg tty)))) \<noteq> []"
proof -
  have step: "ppp_step (POp op) l = ppp.op_step op l" for op l by (cases op) simp_all
  have "fold ppp_step (map POp ops) l = fold ppp.op_step ops l" for l
    by (induction ops arbitrary: l) (simp_all add: step)
  moreover have "ppp.op_ok op" for op by (cases op) simp_all
  then have "list_all ppp.op_ok ops" by (simp add: list_all_iff)
  ultimately show ?thesis using ppp.up_is_addressed [OF ppp_new_ok, of ops cfg tty] assms by (simp add: is_up_def has_address_def)
qed

theorem ppp_up_is_addressed_witness:
  "cl_interface_name (pp_st (fold ppp_step (map POp [Connect, Tick (demo_env None 1000), Tick (demo_env (Some (demo_pppd ''10.0.0.2'')) 3000)])
     (ppp_new demo_cellular ''/dev/ttyUSB4''))) \<noteq> []"
proof -
  have "cl_state (pp_st (fold ppp_step (map POp [Connect, Tick (demo_env None 1000), Tick (demo_env (Some (demo_pppd ''10.0.0.2'')) 3000)])
     (ppp_new demo_cellular ''/dev/ttyUSB4''))) = LinkUp"
    by (simp add: ppp_demo_defs)
  from ppp_up_is_addressed [OF this] show ?thesis by blast
qed

text \<open>The link dials only when dialling can work: it is wanted, the modem is there and answers, the SIM is ready, the modem is
  registered, a port and an APN are known, nothing is running, and after a failure the wait is over. The old PDP context has been
  cleared and the new one accepted directly before, and pppd is asked for exactly the configured call.\<close>

theorem ppp_dials_only_when_ready:
  assumes "pp_log (ppp_tick env l) = pp_log l @ es" "PppStart req r \<in> set es"
  shows "pp_want_up l \<and> cs_present (pe_status env) \<and> cs_responsive (pe_status env) \<and> cs_sim (pe_status env) = SimReady
    \<and> reg_is_registered (cs_registration (pe_status env)) \<and> \<not> pp_started l
    \<and> pp_modem_tty l \<noteq> [] \<and> cc_apn (pp_cfg l) \<noteq> [] \<and> ax_ok (pe_cgdcont env)
    \<and> (cl_state (pp_st l) = DlFailed \<longrightarrow> ppp_due (pe_due_now env) l)
    \<and> es = [PppLook (pe_ppp env), PppAt ''AT+CGACT=0,1'' 10000, PppAt (cgdcont l) 3000, PppStart (request_of l) (pe_start env)]"
proof -
  have want: "pp_want_up l" using assms by (auto simp: ppp_tick_def ppp_disconnect_def Let_def split: if_splits)
  let ?k = "plog (PppLook (pe_ppp env)) l"
  have reach: "cs_present (pe_status env) \<and> cs_responsive (pe_status env) \<and> cs_sim (pe_status env) = SimReady
      \<and> reg_is_registered (cs_registration (pe_status env)) \<and> (cl_state (pp_st l) = DlFailed \<longrightarrow> ppp_due (pe_due_now env) l)"
    using assms want by (auto simp: ppp_tick_def ppp_due_def Let_def split: if_splits)
  have not_started: "\<not> pp_started l"
    using assms want reach tick_started_effects [of env ?k] by (auto simp: ppp_tick_def ppp_due_def Let_def split: if_splits)
  from assms(1) want reach not_started have log: "pp_log (tick_build env ?k) = pp_log l @ es"
    by (auto simp: ppp_tick_def ppp_due_def Let_def split: if_splits)
  with assms(2) want reach not_started show ?thesis
    by (auto simp: tick_build_def Let_def request_of_def cgdcont_def split: if_splits)
qed

theorem ppp_dials_only_when_ready_witness:
  "PppStart (request_of (ppp_connect (ppp_new demo_cellular ''/dev/ttyUSB4''))) result_ok \<in> set (pp_log dialling)
   \<and> \<not> pp_started (ppp_connect (ppp_new demo_cellular ''/dev/ttyUSB4''))"
proof -
  let ?l = "ppp_connect (ppp_new demo_cellular ''/dev/ttyUSB4'')"
  have in_log: "PppStart (request_of ?l) result_ok \<in> set (pp_log dialling)" and empty: "pp_log ?l = []"
    by (simp_all add: ppp_demo_defs)
  have "pp_log (ppp_tick (demo_env None 1000) ?l) = pp_log ?l @ pp_log dialling" by (simp add: empty dialling_def)
  from ppp_dials_only_when_ready [OF this in_log] in_log show ?thesis by blast
qed

text \<open>A stuck negotiation is not a slow success. When pppd runs without an address past its deadline, the tick stops it, counts the
  attempt and goes to the failed state, from which it will try again after 2, 4, 8, 16 or at most 30 seconds.\<close>

theorem ppp_stuck_negotiation_ends:
  assumes "pp_want_up l" "pp_started l" "cl_state (pp_st l) \<noteq> DlFailed" "0 \<le> cl_attempts (pp_st l)"
    and "cs_present (pe_status env)" "cs_responsive (pe_status env)" "cs_sim (pe_status env) = SimReady"
      "reg_is_registered (cs_registration (pe_status env))"
    and "pe_ppp env = Some ps" "ps_running ps" "\<not> has_address (ps_address ps)"
    and "pp_negotiate_deadline_ms l < pe_check_now env"
  shows "cl_state (pp_st (ppp_tick env l)) = DlFailed \<and> \<not> pp_started (ppp_tick env l)
    \<and> pp_log (ppp_tick env l) = pp_log l @ [PppLook (Some ps), PppStop]
    \<and> cl_attempts (pp_st (ppp_tick env l)) = cl_attempts (pp_st l) + 1
    \<and> (\<exists>s\<in>{2, 4, 8, 16, 30}. pp_next_due_ms (ppp_tick env l) = pe_now env + s * 1000)"
proof -
  have "backoff_ms (cl_attempts (pp_st l) + 1) \<in> {2000, 4000, 8000, 16000, 30000}"
    by (rule backoff_cases) (use assms(4) in simp)
  then have "\<exists>s\<in>{2, 4, 8, 16, 30}. (ucast (backoff_ms (cl_attempts (pp_st l) + 1)) :: u64) = s * 1000" by auto
  with assms show ?thesis by (simp add: ppp_tick_def tick_started_def Let_def)
qed

theorem ppp_stuck_negotiation_ends_witness:
  "pp_started dialling \<and> \<not> pp_started (ppp_tick (demo_env (Some (demo_pppd [])) 22000) dialling)"
proof -
  have d: "pp_want_up dialling" "pp_started dialling" "cl_state (pp_st dialling) \<noteq> DlFailed" "0 \<le> cl_attempts (pp_st dialling)"
    "pp_negotiate_deadline_ms dialling < 22000"
    by (simp_all add: ppp_demo_defs)
  have e: "pe_status (demo_env ps now) = in_service" "pe_ppp (demo_env ps now) = ps" "pe_check_now (demo_env ps now) = now" for ps now
    by (simp_all add: demo_env_def)
  have "\<not> pp_started (ppp_tick (demo_env (Some (demo_pppd [])) 22000) dialling)"
    using ppp_stuck_negotiation_ends [OF d(1-4), of "demo_env (Some (demo_pppd [])) 22000" "demo_pppd []"] d(5)
    by (simp add: e in_service_def reg_is_registered_def demo_pppd_def has_address_def link_address0_def)
  with d(2) show ?thesis by blast
qed

end
