(* ===== verification/Cell_Uplink.thy ===== *)
theory Cell_Uplink
  imports Modem_Actions Radio_Tuner Ecm_Link Ppp_Link Connectivity
begin

text \<open>
  Cellular as an uplink (\<^verbatim>\<open>core/net/cellular_uplink.hpp\<close>, \<^verbatim>\<open>cellular_uplink.cpp\<close>): the status service, the tuner, the one-time actions and a data link put
  together behind \<^verbatim>\<open>INetworkUplink\<close>. What the mutex protects is \<open>cell_shared\<close>; what only the main thread touches is \<open>cell_private\<close>. A tick gives up the lock
  several times; what other threads do to the shared part in each gap is an argument of it. The data link is given by its operations, and what is proved of it
  rests on the locale \<open>data_link\<close> only.
\<close>

section \<open>Definitions\<close>

record ('s, 'e) link_ops =
  lk_connect :: "'s \<Rightarrow> 's"
  lk_disconnect :: "'s \<Rightarrow> 's"
  lk_set_config :: "cellular_config \<Rightarrow> 's \<Rightarrow> 's"
  lk_tick :: "cellular_status \<Rightarrow> 'e \<Rightarrow> 's \<Rightarrow> 's"
  lk_state :: "'s \<Rightarrow> cellular_link_state"

record cell_shared =
  sh_st :: cellular_status
  sh_ls :: cellular_link_state
  sh_radio :: radio_state
  sh_nb :: neighbour_report
  sh_sl :: sim_lock_report
  sh_cfg :: cellular_config
  sh_cfg_dirty :: bool
  sh_want_up :: bool
  sh_intent_dirty :: bool
  sh_scan_requested :: bool
  sh_nb_requested :: bool
  sh_restart_requested :: bool
  sh_sim_requested :: bool
  sh_sim_req :: sim_lock_request
  sh_persist :: bool

definition shared_new :: cell_shared where
  "shared_new = \<lparr>sh_st = cellular_status0, sh_ls = cellular_link_state0, sh_radio = radio_state0, sh_nb = neighbour_report0,
     sh_sl = sim_lock_report0, sh_cfg = cellular_config0, sh_cfg_dirty = True, sh_want_up = False, sh_intent_dirty = False,
     sh_scan_requested = False, sh_nb_requested = False, sh_restart_requested = False, sh_sim_requested = False,
     sh_sim_req = sim_lock_request0, sh_persist = False\<rparr>"

text \<open>\<open>sh_persist\<close>: a persistence hook is set; \<open>pv_saved\<close> is what was handed to it, in order.\<close>

record ('s, 'w) cell_private =
  pv_svc :: cellular_service
  pv_link :: 's
  pv_tuner :: radio_tuner
  pv_actions :: modem_actions
  pv_scan_held_link :: bool
  pv_log :: at_log
  pv_notes :: 'w
  pv_saved :: "cellular_config list"

definition uplink_set_config :: "cellular_config \<Rightarrow> cell_shared \<Rightarrow> cell_shared" where
  "uplink_set_config c sh = sh\<lparr>sh_cfg := c, sh_cfg_dirty := True\<rparr>"

definition set_persist :: "cell_shared \<Rightarrow> cell_shared" where
  "set_persist sh = sh\<lparr>sh_persist := True\<rparr>"

text \<open>The reason an action is not possible, empty when it is.\<close>

definition modem_usable :: "cellular_config \<Rightarrow> cellular_status \<Rightarrow> string" where
  "modem_usable cfg st =
     (if \<not> cc_enabled cfg then ''cellular is switched off (USB role)''
      else if \<not> cs_present st then ''no modem found''
      else if \<not> cs_responsive st then ''the modem does not answer on the AT port'' else [])"

definition request_band_scan :: "cell_shared \<Rightarrow> string \<times> cell_shared" where
  "request_band_scan sh =
     (let why = modem_usable (sh_cfg sh) (sh_st sh)
      in if why \<noteq> [] then (why, sh)
         else if sh_scan_requested sh \<or> rs_scan (sh_radio sh) = ScanRunning then (''a scan is already running'', sh)
         else if cc_net_mode (sh_cfg sh) = GsmOnly then (''the SINR scan needs LTE - the network mode is GSM only'', sh)
         else if profile_mask (cc_band_profile (sh_cfg sh)) (cc_band_mask (sh_cfg sh)) = 0 then (''no LTE band selected'', sh)
         else ([], sh\<lparr>sh_scan_requested := True\<rparr>))"

definition request_neighbour_cells :: "cell_shared \<Rightarrow> string \<times> cell_shared" where
  "request_neighbour_cells sh =
     (let why = modem_usable (sh_cfg sh) (sh_st sh)
      in if why \<noteq> [] then (why, sh)
         else if rs_scan (sh_radio sh) = ScanRunning then (''a band scan is running - the modem is busy'', sh)
         else ([], sh\<lparr>sh_nb_requested := True\<rparr>))"

definition uplink_sim_lock :: "sim_lock_request \<Rightarrow> cell_shared \<Rightarrow> string \<times> cell_shared" where
  "uplink_sim_lock r sh =
     (let why = modem_usable (sh_cfg sh) (sh_st sh); probe = fst (request_sim_lock r actions_new)
      in if why \<noteq> [] then (why, sh)
         else if sh_sim_requested sh then (''a SIM action is already waiting'', sh)
         else if rs_scan (sh_radio sh) = ScanRunning then (''a band scan is running - the modem is busy'', sh)
         else if probe \<noteq> [] then (probe, sh)
         else ([], sh\<lparr>sh_sim_req := r, sh_sim_requested := True\<rparr>))"

definition request_modem_restart :: "cell_shared \<Rightarrow> string \<times> cell_shared" where
  "request_modem_restart sh =
     (let why = modem_usable (sh_cfg sh) (sh_st sh)
      in if why \<noteq> [] then (why, sh)
         else if rs_scan (sh_radio sh) = ScanRunning then (''a band scan is running - finish it first'', sh)
         else ([], sh\<lparr>sh_restart_requested := True\<rparr>))"

definition uplink_connect :: "cell_shared \<Rightarrow> result \<times> cell_shared" where
  "uplink_connect sh =
     (if \<not> cc_enabled (sh_cfg sh) then (result_unsupported, sh) else (result_ok, sh\<lparr>sh_want_up := True, sh_intent_dirty := True\<rparr>))"

definition uplink_disconnect :: "cell_shared \<Rightarrow> result \<times> cell_shared" where
  "uplink_disconnect sh = (result_ok, sh\<lparr>sh_want_up := False, sh_intent_dirty := True\<rparr>)"

subsection \<open>The tick\<close>

text \<open>What a tick takes with it from the shared part.\<close>

record intent =
  in_cfg :: cellular_config
  in_cfg_changed :: bool
  in_intent_changed :: bool
  in_want_up :: bool
  in_scan :: bool
  in_nb :: bool
  in_restart :: bool
  in_sim :: "sim_lock_request option"
  in_persist :: bool

definition tick_take :: "cell_shared \<Rightarrow> intent \<times> cell_shared" where
  "tick_take sh =
     (\<lparr>in_cfg = sh_cfg sh, in_cfg_changed = sh_cfg_dirty sh, in_intent_changed = sh_intent_dirty sh, in_want_up = sh_want_up sh,
       in_scan = sh_scan_requested sh, in_nb = sh_nb_requested sh, in_restart = sh_restart_requested sh,
       in_sim = (if sh_sim_requested sh then Some (sh_sim_req sh) else None), in_persist = sh_persist sh\<rparr>,
      sh\<lparr>sh_cfg_dirty := False, sh_intent_dirty := False, sh_scan_requested := False, sh_nb_requested := False,
         sh_restart_requested := False, sh_sim_requested := False,
         sh_sim_req := (if sh_sim_requested sh then sim_lock_request0 else sh_sim_req sh)\<rparr>)"

definition set_all :: "('s, 'e) link_ops \<Rightarrow> 'w note_fns \<Rightarrow> cellular_config \<Rightarrow> ('s, 'w) cell_private \<Rightarrow> ('s, 'w) cell_private" where
  "set_all ops fns cfg pv =
     (let (v, es) = service_set_config cfg (pv_svc pv)
      in pv\<lparr>pv_svc := v, pv_notes := note_after fns es (pv_notes pv), pv_link := lk_set_config ops cfg (pv_link pv)\<rparr>)"

text \<open>A new configuration is a new intent.\<close>

definition take_config :: "('s, 'e) link_ops \<Rightarrow> 'w note_fns \<Rightarrow> intent \<Rightarrow> ('s, 'w) cell_private \<Rightarrow> intent \<times> ('s, 'w) cell_private" where
  "take_config ops fns i pv =
     (if in_cfg_changed i
      then (i\<lparr>in_want_up := cc_enabled (in_cfg i), in_intent_changed := True\<rparr>,
            (set_all ops fns (in_cfg i) pv)\<lparr>pv_tuner := tuner_set_config (in_cfg i) (pv_tuner pv)\<rparr>)
      else (i, pv))"

definition take_intent :: "('s, 'e) link_ops \<Rightarrow> intent \<Rightarrow> ('s, 'w) cell_private \<Rightarrow> ('s, 'w) cell_private" where
  "take_intent ops i pv =
     (if in_intent_changed i
      then pv\<lparr>pv_link := (if in_want_up i then lk_connect ops (pv_link pv) else lk_disconnect ops (pv_link pv))\<rparr> else pv)"

definition tick_off :: "at_env \<Rightarrow> ('s, 'w) cell_private \<Rightarrow> ('s, 'w) cell_private" where
  "tick_off env pv =
     (let (busy, t, log) = tuner_tick env cellular_status0 (pv_tuner pv) (pv_log pv);
          (out, a, log) = actions_tick env cellular_status0 (pv_actions pv) log
      in pv\<lparr>pv_tuner := t, pv_actions := a, pv_log := log, pv_scan_held_link := False\<rparr>)"

definition forward_requests :: "intent \<Rightarrow> ('s, 'w) cell_private \<Rightarrow> ('s, 'w) cell_private" where
  "forward_requests i pv =
     (let t = (if in_scan i then snd (request_scan (pv_tuner pv)) else pv_tuner pv);
          a = (if in_nb i then request_neighbours (pv_actions pv) else pv_actions pv);
          a = (if in_restart i then request_restart a else a);
          a = (case in_sim i of None \<Rightarrow> a | Some r \<Rightarrow> snd (request_sim_lock r a))
      in pv\<lparr>pv_tuner := t, pv_actions := a\<rparr>)"

text \<open>The scan takes the link down and gives it back.\<close>

definition hold_link :: "('s, 'e) link_ops \<Rightarrow> bool \<Rightarrow> ('s, 'w) cell_private \<Rightarrow> ('s, 'w) cell_private" where
  "hold_link ops want_up pv =
     (if scanning (pv_tuner pv) \<and> \<not> pv_scan_held_link pv
      then pv\<lparr>pv_link := lk_disconnect ops (pv_link pv), pv_scan_held_link := True\<rparr>
      else if \<not> scanning (pv_tuner pv) \<and> pv_scan_held_link pv
      then (if want_up then pv\<lparr>pv_scan_held_link := False, pv_link := lk_connect ops (pv_link pv)\<rparr> else pv\<lparr>pv_scan_held_link := False\<rparr>)
      else pv)"

text \<open>Poll, tuner and actions of one tick.\<close>

definition tick_modem ::
    "('s, 'e) link_ops \<Rightarrow> 'w note_fns \<Rightarrow> at_env \<Rightarrow> intent \<Rightarrow> ('s, 'w) cell_private \<Rightarrow> bool \<times> outcome \<times> ('s, 'w) cell_private" where
  "tick_modem ops fns env i pv =
     (let (v, w, log) = poll fns env (pv_svc pv) (pv_notes pv, pv_log pv);
          pv = forward_requests i (pv\<lparr>pv_svc := v, pv_notes := w\<rparr>);
          (busy, t, log) = tuner_tick env (cv_st v) (pv_tuner pv) log;
          pv = hold_link ops (in_want_up i) (pv\<lparr>pv_tuner := t\<rparr>);
          (out, a, log) = (if \<not> busy then actions_tick env (cv_st v) (pv_actions pv) log else (outcome0, pv_actions pv, log))
      in (busy, out, pv\<lparr>pv_actions := a, pv_log := log\<rparr>))"

definition publish :: "('s, 'e) link_ops \<Rightarrow> cellular_status \<Rightarrow> ('s, 'w) cell_private \<Rightarrow> cell_shared \<Rightarrow> cell_shared" where
  "publish ops st pv sh =
     sh\<lparr>sh_st := st, sh_ls := lk_state ops (pv_link pv), sh_radio := rt_st (pv_tuner pv), sh_nb := ma_nb (pv_actions pv),
        sh_sl := ma_sl (pv_actions pv)\<rparr>"

text \<open>\<open>gap k\<close> is what other threads do to the shared part while the tick does not hold the lock.\<close>

definition uplink_tick ::
    "('s, 'e) link_ops \<Rightarrow> 'w note_fns \<Rightarrow> at_env \<Rightarrow> 'e \<Rightarrow> (nat \<Rightarrow> cell_shared \<Rightarrow> cell_shared)
     \<Rightarrow> cell_shared \<times> ('s, 'w) cell_private \<Rightarrow> cell_shared \<times> ('s, 'w) cell_private" where
  "uplink_tick ops fns env le gap p =
     (let (i, sh) = tick_take (fst p);
          sh = gap 0 sh;
          (i, pv) = take_config ops fns i (snd p);
          pv = take_intent ops i pv;
          sh = (if in_intent_changed i then gap 1 (sh\<lparr>sh_want_up := in_want_up i\<rparr>) else sh)
      in if \<not> cc_enabled (in_cfg i)
         then (let pv = tick_off env pv in (publish ops cellular_status0 pv sh, pv))
         else
           let (busy, out, pv) = tick_modem ops fns env i pv;
               cfg = (in_cfg i)\<lparr>cc_sim_pin := oc_new_pin out\<rparr>;
               (sh, pv) = (if oc_pin_changed out
                           then (gap 2 (sh\<lparr>sh_cfg := (sh_cfg sh)\<lparr>cc_sim_pin := oc_new_pin out\<rparr>\<rparr>),
                                 (set_all ops fns cfg pv)\<lparr>pv_saved := pv_saved pv @ (if in_persist i then [cfg] else [])\<rparr>)
                           else (sh, pv));
               st = cv_st (pv_svc pv);
               pv = (if busy \<or> oc_restarted out then pv else pv\<lparr>pv_link := lk_tick ops st le (pv_link pv)\<rparr>)
           in (publish ops st pv sh, pv))"

subsection \<open>What the connectivity manager asks\<close>

fun state_of_link :: "cellular_status \<Rightarrow> data_link_state \<Rightarrow> link_state" where
  "state_of_link st LinkUp = Connected"
| "state_of_link st DlFailed = LinkFailed"
| "state_of_link st Disabled = LinkDown"
| "state_of_link st Disconnecting = LinkDown"
| "state_of_link st WaitDevice = (if cs_responsive st then Connecting else LinkDown)"
| "state_of_link st WaitAt = (if cs_responsive st then Connecting else LinkDown)"
| "state_of_link st _ = Connecting"

definition uplink_state :: "cell_shared \<Rightarrow> link_state" where
  "uplink_state sh =
     (if \<not> cc_enabled (sh_cfg sh) then Absent
      else if \<not> cs_present (sh_st sh) then Absent
      else state_of_link (sh_st sh) (cl_state (sh_ls sh)))"

definition uplink_info :: "cell_shared \<Rightarrow> network_info" where
  "uplink_info sh =
     (let ls = sh_ls sh; a = cl_address ls
      in \<lparr>ni_ifname = cl_interface_name ls, ni_ipv4 = la_ipv4 a, ni_netmask = la_netmask a, ni_gateway = la_gateway a,
          ni_dns = (if la_dns2 a \<noteq> [] then (if la_dns1 a = [] then la_dns2 a else la_dns1 a @ '' '' @ la_dns2 a) else la_dns1 a),
          ni_dhcp = (cl_kind ls = Ecm), ni_dns_is_own = (la_dns1 a \<noteq> [] \<or> la_dns2 a \<noteq> [])\<rparr>)"

definition uplink_metrics_of :: "cell_shared \<Rightarrow> uplink_metrics" where
  "uplink_metrics_of sh =
     \<lparr>um_carrier = (cl_state (sh_ls sh) = LinkUp),
      um_rssi_dbm = (case sc_rsrp (cs_cell (sh_st sh)) of Some v \<Rightarrow> v
                     | None \<Rightarrow> (case si_rssi_dbm (cs_signal (sh_st sh)) of Some v \<Rightarrow> v | None \<Rightarrow> 0)),
      um_link_mbit = 0, um_rx_bytes = 0, um_tx_bytes = 0\<rparr>"

definition uplink_has_internet :: "(string \<Rightarrow> bool) option \<Rightarrow> cell_shared \<Rightarrow> bool" where
  "uplink_has_internet reach sh \<longleftrightarrow>
     uplink_state sh = Connected \<and>
     (case reach of
        Some f \<Rightarrow> if cl_interface_name (sh_ls sh) = [] then la_gateway (cl_address (sh_ls sh)) \<noteq> [] else f (cl_interface_name (sh_ls sh))
      | None \<Rightarrow> la_gateway (cl_address (sh_ls sh)) \<noteq> [])"

definition uplink_detail :: "cell_shared \<Rightarrow> string" where
  "uplink_detail sh =
     (if \<not> cc_enabled (sh_cfg sh) then ''Mobilfunk ist ausgeschaltet''
      else if rs_scan (sh_radio sh) = ScanRunning then ''band scan running - '' @ rs_scan_detail (sh_radio sh)
      else if cl_detail (sh_ls sh) \<noteq> [] then cl_detail (sh_ls sh)
      else cs_last_error (sh_st sh))"

definition ecm_ops :: "(ecm_link, ecm_env) link_ops" where
  "ecm_ops = \<lparr>lk_connect = ecm_connect, lk_disconnect = ecm_disconnect, lk_set_config = ecm_set_config,
     lk_tick = (\<lambda>s e. ecm_tick (e\<lparr>ee_status := s\<rparr>)), lk_state = el_st\<rparr>"

definition ppp_ops :: "(ppp_link, ppp_env) link_ops" where
  "ppp_ops = \<lparr>lk_connect = ppp_connect, lk_disconnect = ppp_disconnect, lk_set_config = ppp_set_config,
     lk_tick = (\<lambda>s e. ppp_tick (e\<lparr>pe_status := s\<rparr>)), lk_state = pp_st\<rparr>"

section \<open>Runs\<close>

text \<open>What other threads may do to the shared part, and a run of the uplink: calls of other threads and ticks, with further calls in the gaps of each tick.\<close>

datatype shared_op = OpConfig cellular_config | OpConnect | OpDisconnect | OpScan | OpNeighbours | OpSim sim_lock_request | OpRestart | OpPersist

fun shared_step :: "shared_op \<Rightarrow> cell_shared \<Rightarrow> cell_shared" where
  "shared_step (OpConfig c) sh = uplink_set_config c sh"
| "shared_step OpConnect sh = snd (uplink_connect sh)"
| "shared_step OpDisconnect sh = snd (uplink_disconnect sh)"
| "shared_step OpScan sh = snd (request_band_scan sh)"
| "shared_step OpNeighbours sh = snd (request_neighbour_cells sh)"
| "shared_step (OpSim r) sh = snd (uplink_sim_lock r sh)"
| "shared_step OpRestart sh = snd (request_modem_restart sh)"
| "shared_step OpPersist sh = set_persist sh"

datatype 'e uplink_event = Api shared_op | Turn at_env 'e "nat \<Rightarrow> shared_op list"

fun uplink_step ::
    "('s, 'e) link_ops \<Rightarrow> 'w note_fns \<Rightarrow> 'e uplink_event \<Rightarrow> cell_shared \<times> ('s, 'w) cell_private \<Rightarrow> cell_shared \<times> ('s, 'w) cell_private" where
  "uplink_step ops fns (Api op) p = (shared_step op (fst p), snd p)"
| "uplink_step ops fns (Turn env le g) p = uplink_tick ops fns env le (\<lambda>k. fold shared_step (g k)) p"

definition private_new :: "'s \<Rightarrow> 'w \<Rightarrow> cellular_service \<Rightarrow> ('s, 'w) cell_private" where
  "private_new l w v = \<lparr>pv_svc = v, pv_link = l, pv_tuner = tuner_new, pv_actions = actions_new, pv_scan_held_link = False, pv_log = [],
     pv_notes = w, pv_saved = []\<rparr>"

section \<open>Lemmas\<close>

lemmas shared_op_defs = uplink_set_config_def uplink_connect_def uplink_disconnect_def request_band_scan_def request_neighbour_cells_def
  uplink_sim_lock_def request_modem_restart_def set_persist_def

text \<open>Other threads never write what a tick publishes.\<close>

lemma shared_step_keeps [simp]:
  "sh_ls (shared_step op sh) = sh_ls sh" "sh_radio (shared_step op sh) = sh_radio sh" "sh_st (shared_step op sh) = sh_st sh"
  by (cases op; simp add: shared_op_defs Let_def)+

lemma shared_steps_keep [simp]:
  "sh_ls (fold shared_step xs sh) = sh_ls sh" "sh_radio (fold shared_step xs sh) = sh_radio sh" "sh_st (fold shared_step xs sh) = sh_st sh"
  by (induction xs arbitrary: sh) simp_all

lemma publish_simps [simp]:
  "sh_ls (publish ops st pv sh) = lk_state ops (pv_link pv)" "sh_radio (publish ops st pv sh) = rt_st (pv_tuner pv)"
  "sh_st (publish ops st pv sh) = st" "sh_cfg (publish ops st pv sh) = sh_cfg sh"
  by (simp_all add: publish_def)

lemma set_all_simps [simp]:
  "pv_link (set_all ops fns cfg pv) = lk_set_config ops cfg (pv_link pv)" "pv_tuner (set_all ops fns cfg pv) = pv_tuner pv"
  "pv_scan_held_link (set_all ops fns cfg pv) = pv_scan_held_link pv" "pv_saved (set_all ops fns cfg pv) = pv_saved pv"
  "pv_actions (set_all ops fns cfg pv) = pv_actions pv" "pv_log (set_all ops fns cfg pv) = pv_log pv"
  "cv_cfg (pv_svc (set_all ops fns cfg pv)) = cfg" "cv_st (pv_svc (set_all ops fns cfg pv)) = cv_st (pv_svc pv)"
  by (simp_all add: set_all_def service_set_config_def Let_def case_prod_beta)

lemma tuner_set_config_simps [simp]:
  "rs_scan (rt_st (tuner_set_config c t)) = rs_scan (rt_st t)" "rt_alive (tuner_set_config c t) = rt_alive t"
  by (simp_all add: tuner_set_config_def Let_def)

lemma request_scan_running:
  assumes "scanning (snd (request_scan t))" shows "rt_alive t \<and> \<not> scanning t"
  using assms by (auto simp: request_scan_def scan_refusal_def Let_def split: if_splits)

lemma scan_step_alive: "rt_alive (fst (scan_step env s t log)) = rt_alive t"
  by (simp add: scan_step_def scan_lock_def scan_measure_def upd_rs_def upd_last_def scan_advance_def scan_finish_def case_prod_beta Let_def
      split: scan_phase.split option.split)

lemma tuner_tick_running:
  assumes "scanning (fst (snd (tuner_tick env s t log)))" "scanning t \<longrightarrow> rt_alive t"
  shows "scanning t \<and> fst (tuner_tick env s t log) \<and> rt_alive (fst (snd (tuner_tick env s t log)))"
proof (cases "cs_present s \<and> cs_responsive s")
  case True
  then show ?thesis using assms(1)
    by (auto simp: tuner_tick_def Let_def write_step_scan tuner_idle_scan scan_step_alive split: if_splits)
next
  case False
  then show ?thesis using assms by (auto simp: tuner_tick_def on_modem_gone_def upd_rs_def Let_def split: if_splits)
qed

section \<open>The link under the uplink\<close>

text \<open>The data link contract with what the uplink adds: every tick sees the status just polled, and only a tick brings the link up.\<close>

locale uplink_link = data_link connect disconnect set_config tick link env_ok ok wanted
  for connect :: "'s \<Rightarrow> 's" and disconnect :: "'s \<Rightarrow> 's" and set_config :: "cellular_config \<Rightarrow> 's \<Rightarrow> 's" and tick :: "'e \<Rightarrow> 's \<Rightarrow> 's"
    and link :: "'s \<Rightarrow> cellular_link_state" and env_ok :: "'e \<Rightarrow> bool" and ok :: "'s \<Rightarrow> bool" and wanted :: "'s \<Rightarrow> bool" +
  fixes with_status :: "cellular_status \<Rightarrow> 'e \<Rightarrow> 'e"
  assumes with_status_ok: "env_ok e \<Longrightarrow> env_ok (with_status s e)"
    and connect_up: "is_up (link (connect l)) \<Longrightarrow> is_up (link l)"
    and disconnect_up: "\<not> is_up (link (disconnect l))"
    and set_config_link: "link (set_config c l) = link l"
begin

abbreviation ops :: "('s, 'e) link_ops" where
  "ops \<equiv> \<lparr>lk_connect = connect, lk_disconnect = disconnect, lk_set_config = set_config, lk_tick = (\<lambda>s e. tick (with_status s e)), lk_state = link\<rparr>"

text \<open>Between two ticks: a scan holds the link and the link is down.\<close>

definition private_ok :: "('s, 'w) cell_private \<Rightarrow> bool" where
  "private_ok pv \<longleftrightarrow> ok (pv_link pv) \<and> pv_scan_held_link pv = scanning (pv_tuner pv)
     \<and> (scanning (pv_tuner pv) \<longrightarrow> rt_alive (pv_tuner pv) \<and> \<not> is_up (link (pv_link pv)))"

definition shared_ok :: "cell_shared \<Rightarrow> bool" where
  "shared_ok sh \<longleftrightarrow> (is_up (sh_ls sh) \<longrightarrow> cl_interface_name (sh_ls sh) \<noteq> [] \<and> has_address (cl_address (sh_ls sh)))
     \<and> (rs_scan (sh_radio sh) = ScanRunning \<longrightarrow> \<not> is_up (sh_ls sh))"

lemma take_config_ok: "private_ok pv \<Longrightarrow> private_ok (snd (take_config ops fns i pv))"
  by (simp add: take_config_def private_ok_def set_config_ok set_config_link)

lemma take_intent_ok: "private_ok pv \<Longrightarrow> private_ok (take_intent ops i pv)"
  by (auto simp: take_intent_def private_ok_def connect_ok disconnect_ok disconnect_up dest: connect_up)

lemma tick_off_ok: "private_ok pv \<Longrightarrow> private_ok (tick_off env pv)"
  by (auto simp: tick_off_def private_ok_def tuner_tick_def cellular_status0_def on_modem_gone_def upd_rs_def Let_def case_prod_beta)

text \<open>What the tick has before and after the tuner's turn.\<close>

lemma hold_link_ok:
  assumes "ok (pv_link pv)" "scanning (pv_tuner pv) \<longrightarrow> rt_alive (pv_tuner pv) \<and> (pv_scan_held_link pv \<longrightarrow> \<not> is_up (link (pv_link pv)))"
  shows "private_ok (hold_link ops w pv)" "pv_tuner (hold_link ops w pv) = pv_tuner pv"
  using assms by (auto simp: hold_link_def private_ok_def connect_ok disconnect_ok disconnect_up)

lemma tick_modem_ok:
  assumes "private_ok pv"
  shows "private_ok (snd (snd (tick_modem ops fns env i pv)))
    \<and> (scanning (pv_tuner (snd (snd (tick_modem ops fns env i pv)))) \<longrightarrow> fst (tick_modem ops fns env i pv))"
proof -
  obtain v w log where p: "poll fns env (pv_svc pv) (pv_notes pv, pv_log pv) = (v, w, log)" by (metis prod_cases3)
  define f where "f = forward_requests i (pv\<lparr>pv_svc := v, pv_notes := w\<rparr>)"
  have f: "scanning (pv_tuner f) \<longrightarrow> rt_alive (pv_tuner f) \<and> (pv_scan_held_link f \<longrightarrow> \<not> is_up (link (pv_link f)))" "ok (pv_link f)"
    using assms request_scan_running [of "pv_tuner pv"]
    by (auto simp: f_def forward_requests_def private_ok_def Let_def) (auto simp: request_scan_def upd_rs_def Let_def)
  obtain busy t log' where t: "tuner_tick env (cv_st v) (pv_tuner f) log = (busy, t, log')" by (metis prod_cases3)
  have run: "scanning t \<Longrightarrow> scanning (pv_tuner f) \<and> busy \<and> rt_alive t"
    using tuner_tick_running [of env "cv_st v" "pv_tuner f" log] f(1) t by simp
  define h where "h = hold_link ops (in_want_up i) (f\<lparr>pv_tuner := t\<rparr>)"
  have h: "private_ok h" "pv_tuner h = t" unfolding h_def using f run by (auto intro!: hold_link_ok simp: hold_link_ok)
  have keep: "private_ok (h\<lparr>pv_actions := a, pv_log := l\<rparr>)" "private_ok (h\<lparr>pv_log := l\<rparr>)" for a l
    using h(1) by (simp_all add: private_ok_def)
  show ?thesis unfolding tick_modem_def p t Let_def f_def [symmetric] h_def [symmetric] prod.case
    using keep run h(2) by (simp add: case_prod_beta)
qed

lemma publish_ok: "private_ok pv \<Longrightarrow> shared_ok (publish ops st pv sh)"
  using up_addressed by (auto simp: shared_ok_def private_ok_def)

lemma uplink_tick_ok:
  assumes "private_ok (snd p)" "env_ok le"
  shows "private_ok (snd (uplink_tick ops fns env le gap p)) \<and> shared_ok (fst (uplink_tick ops fns env le gap p))"
proof -
  obtain i sh where i: "tick_take (fst p) = (i, sh)" by (cases "tick_take (fst p)")
  obtain j c where c: "take_config ops fns i (snd p) = (j, c)" by (cases "take_config ops fns i (snd p)")
  define k where "k = take_intent ops j c"
  have k: "private_ok k" using take_intent_ok take_config_ok [OF assms(1), of fns i] by (simp add: k_def c)
  obtain busy out m where m: "tick_modem ops fns env j k = (busy, out, m)" by (metis prod_cases3)
  have ok: "private_ok m" "scanning (pv_tuner m) \<longrightarrow> busy" using tick_modem_ok [OF k, of fns env j] by (simp_all add: m)
  define n where "n = (if oc_pin_changed out then (set_all ops fns ((in_cfg j)\<lparr>cc_sim_pin := oc_new_pin out\<rparr>) m)
     \<lparr>pv_saved := pv_saved m @ (if in_persist j then [(in_cfg j)\<lparr>cc_sim_pin := oc_new_pin out\<rparr>] else [])\<rparr> else m)"
  have n: "private_ok n" "scanning (pv_tuner n) \<longrightarrow> busy"
    using ok by (auto simp: n_def private_ok_def set_config_ok set_config_link)
  define q where "q = (if busy \<or> oc_restarted out then n else n\<lparr>pv_link := tick (with_status (cv_st (pv_svc n)) le) (pv_link n)\<rparr>)"
  have q: "private_ok q" using n assms(2) by (auto simp: q_def private_ok_def tick_ok with_status_ok)
  show ?thesis
  proof (cases "cc_enabled (in_cfg j)")
    case True
    then have "\<exists>sh. uplink_tick ops fns env le gap p = (publish ops (cv_st (pv_svc n)) q sh, q)"
      by (auto simp: uplink_tick_def i c k_def [symmetric] m Let_def q_def n_def)
    then show ?thesis using q by (auto simp: publish_ok)
  next
    case False
    then have "\<exists>sh. uplink_tick ops fns env le gap p = (publish ops cellular_status0 (tick_off env k) sh, tick_off env k)"
      by (auto simp: uplink_tick_def i c k_def [symmetric] Let_def)
    then show ?thesis using tick_off_ok [OF k] by (auto simp: publish_ok)
  qed
qed

fun event_ok :: "'e uplink_event \<Rightarrow> bool" where
  "event_ok (Turn env le g) \<longleftrightarrow> env_ok le"
| "event_ok (Api op) \<longleftrightarrow> True"

lemma uplink_run_ok:
  assumes "private_ok (snd p)" "shared_ok (fst p)" "list_all event_ok evs"
  shows "private_ok (snd (fold (uplink_step ops fns) evs p)) \<and> shared_ok (fst (fold (uplink_step ops fns) evs p))"
  using assms
proof (induction evs arbitrary: p)
  case (Cons ev evs)
  have "private_ok (snd (uplink_step ops fns ev p)) \<and> shared_ok (fst (uplink_step ops fns ev p))"
    using Cons.prems by (cases ev) (auto simp: uplink_tick_ok, auto simp: shared_ok_def)
  then show ?case using Cons.IH Cons.prems(3) by simp
qed simp

lemma new_ok: "ok l \<Longrightarrow> private_ok (private_new l w v)" "shared_ok shared_new"
  by (simp_all add: private_ok_def shared_ok_def private_new_def shared_new_def tuner_new_def radio_state0_def
      cellular_link_state0_def is_up_def)

lemma connected_addressed:
  assumes "ok l" "list_all event_ok evs" "sh = fst (fold (uplink_step ops fns) evs (shared_new, private_new l w v))" "uplink_state sh = Connected"
  shows "ni_ifname (uplink_info sh) \<noteq> [] \<and> ni_ipv4 (uplink_info sh) \<noteq> [] \<and> rs_scan (sh_radio sh) \<noteq> ScanRunning"
proof -
  have "is_up (sh_ls sh)" using assms(4)
    by (cases "cl_state (sh_ls sh)") (auto simp: uplink_state_def is_up_def split: if_splits)
  moreover have "shared_ok sh"
    using uplink_run_ok [of "(shared_new, private_new l w v)" evs] new_ok(1) [OF assms(1), of w v] new_ok(2) assms(2,3) by simp
  ultimately show ?thesis by (auto simp: shared_ok_def uplink_info_def has_address_def Let_def)
qed

end

interpretation ecm_uplink: uplink_link ecm_connect ecm_disconnect ecm_set_config ecm_tick el_st ecm_env_ok ecm_ok el_want_up
  "\<lambda>s e. e\<lparr>ee_status := s\<rparr>"
  by unfold_locales
     (auto simp: ecm_env_ok_def ecm_connect_def ecm_disconnect_def ecm_set_config_def is_up_def Let_def split: if_splits)

interpretation ppp_uplink: uplink_link ppp_connect ppp_disconnect ppp_set_config ppp_tick pp_st "\<lambda>_. True" ppp_ok pp_want_up
  "\<lambda>s e. e\<lparr>pe_status := s\<rparr>"
  by unfold_locales
     (auto simp: ppp_connect_def ppp_disconnect_def ppp_set_config_def is_up_def Let_def split: if_splits)

section \<open>Properties\<close>

fun turn_ok :: "ecm_env uplink_event \<Rightarrow> bool" where
  "turn_ok (Turn env le g) \<longleftrightarrow> ecm_env_ok le"
| "turn_ok (Api op) \<longleftrightarrow> True"

lemma turn_ok_event: "turn_ok = ecm_uplink.event_ok"
proof
  show "turn_ok ev = ecm_uplink.event_ok ev" for ev by (cases ev) (simp_all add: ecm_uplink.event_ok.simps)
qed

definition usable_when_connected :: "cell_shared \<Rightarrow> bool" where
  "usable_when_connected sh \<longleftrightarrow> (uplink_state sh = Connected \<longrightarrow>
     ni_ifname (uplink_info sh) \<noteq> [] \<and> ni_ipv4 (uplink_info sh) \<noteq> [] \<and> rs_scan (sh_radio sh) \<noteq> ScanRunning)"

text \<open>C21: The mobile uplink is called connected only when it can carry traffic. After any run, with requests of other threads between and inside the
  ticks, over ECM and over PPP: a connected uplink names an interface and an address, and no band scan is running on the modem.\<close>

theorem connected_uplink_is_addressed:
  assumes "list_all turn_ok evs"
  shows "usable_when_connected (fst (fold (uplink_step ecm_ops fns) evs (shared_new, private_new (ecm_new c) w v)))
    \<and> usable_when_connected (fst (fold (uplink_step ppp_ops fns) pevs (shared_new, private_new (ppp_new c tty) w v)))"
proof
  show "usable_when_connected (fst (fold (uplink_step ecm_ops fns) evs (shared_new, private_new (ecm_new c) w v)))"
    unfolding usable_when_connected_def ecm_ops_def
    using assms unfolding turn_ok_event by (intro impI ecm_uplink.connected_addressed [OF ecm_new_ok _ refl])
  have "ppp_uplink.event_ok ev" for ev by (cases ev) (simp_all add: ppp_uplink.event_ok.simps)
  then have "list_all ppp_uplink.event_ok pevs" by (simp add: list_all_iff)
  then show "usable_when_connected (fst (fold (uplink_step ppp_ops fns) pevs (shared_new, private_new (ppp_new c tty) w v)))"
    unfolding usable_when_connected_def ppp_ops_def
    by (intro impI ppp_uplink.connected_addressed [OF ppp_new_ok _ refl])
qed

text \<open>A modem on which everything is well: ready, registered, with a lease on the interface.\<close>

definition well_env :: at_env where
  "well_env = \<lparr>ae_lb = 32, ae_available = True, ae_at = (\<lambda>k. says (''+CPIN: READY'' @ [CHR 0x0A] @ ''+CEREG: 0,1'')), ae_now = (\<lambda>_. 1000)\<rparr>"

definition well_link :: ecm_env where
  "well_link = ecm_demo cellular_status0 (Some ''usb0'') (Some lease) 1000"

definition one_turn :: "(nat \<Rightarrow> shared_op list) \<Rightarrow> ecm_env uplink_event list" where
  "one_turn g = [Api (OpConfig ecm_cfg), Turn well_env well_link g]"

definition uplink_start :: "cell_shared \<times> (ecm_link, string option) cell_private" where
  "uplink_start = (shared_new, private_new (ecm_new cellular_config0) None service_new)"

theorem connected_uplink_is_addressed_witness:
  "let sh = fst (fold (uplink_step ecm_ops no_note) (one_turn (\<lambda>_. [OpNeighbours])) uplink_start)
   in uplink_state sh = Connected \<and> ni_ifname (uplink_info sh) \<noteq> [] \<and> ni_ipv4 (uplink_info sh) \<noteq> [] \<and> rs_scan (sh_radio sh) \<noteq> ScanRunning"
proof -
  have t: "list_all turn_ok (one_turn (\<lambda>_. [OpNeighbours]))" by (simp add: one_turn_def ecm_env_ok_def well_link_def ecm_demo_def)
  have "uplink_state (fst (fold (uplink_step ecm_ops no_note) (one_turn (\<lambda>_. [OpNeighbours])) uplink_start)) = Connected" by code_simp
  with connected_uplink_is_addressed [OF t, of no_note cellular_config0 None service_new] show ?thesis
    by (simp add: usable_when_connected_def uplink_start_def Let_def)
qed

definition commands :: "at_log \<Rightarrow> at_log" where
  "commands log = filter (\<lambda>x. case x of Cmd c t a \<Rightarrow> True | Clock n \<Rightarrow> False) log"

definition link_commands :: "ecm_effect list \<Rightarrow> ecm_effect list" where
  "link_commands log = filter (\<lambda>e. case e of EAt c t \<Rightarrow> True | _ \<Rightarrow> False) log"

lemma tick_off_silent:
  "commands (pv_log (tick_off env pv)) = commands (pv_log pv)" "pv_link (tick_off env pv) = pv_link pv" "pv_saved (tick_off env pv) = pv_saved pv"
  by (simp_all add: tick_off_def tuner_tick_def actions_tick_def cellular_status0_def actions_gone_def read_clock_def commands_def Let_def case_prod_beta)

lemma take_intent_silent:
  "pv_log (take_intent ops i pv) = pv_log pv" "pv_saved (take_intent ops i pv) = pv_saved pv"
  "link_commands (el_log (pv_link (take_intent ecm_ops i pv'))) = link_commands (el_log (pv_link pv'))"
  by (simp_all add: take_intent_def ecm_ops_def ecm_connect_def ecm_disconnect_def stop_dhcp_def link_commands_def Let_def)


definition uplink_up :: "cell_shared \<times> (ecm_link, string option) cell_private" where
  "uplink_up = fold (uplink_step ecm_ops no_note) (one_turn (\<lambda>_. [])) uplink_start"


lemma ecm_cfg_simps [simp]:
  "el_cfg (stop_dhcp l) = el_cfg l" "el_cfg (ecm_fail env d l) = el_cfg l" "el_cfg (switch_mode env c d l) = el_cfg l"
  "el_cfg (snd (ecm_due env l)) = el_cfg l" "el_cfg (ecm_disconnect l) = el_cfg l"
  by (simp_all add: stop_dhcp_def ecm_fail_def switch_mode_def ecm_due_def ecm_disconnect_def Let_def)

lemma ecm_lease_cfg [simp]: "el_cfg (ecm_lease env rdp l) = el_cfg l"
proof -
  have "el_cfg (ecm_static env rdp k) = el_cfg k" for k by (simp add: ecm_static_def Let_def)
  then show ?thesis by (simp add: ecm_lease_def Let_def split: option.split)
qed

lemma ecm_reach_cfg [simp]: "el_cfg (snd (ecm_reach env l)) = el_cfg l"
proof -
  have "el_cfg (ecm_lost env k) = el_cfg k" for k by (simp add: ecm_lost_def Let_def)
  moreover have "el_cfg (snd (ecm_service env k)) = el_cfg k" for k by (simp add: ecm_service_def Let_def case_prod_beta)
  ultimately show ?thesis by (simp add: ecm_reach_def Let_def case_prod_beta)
qed

lemma ecm_mode_cfg [simp]: "el_cfg (snd (ecm_mode env l)) = el_cfg l"
proof -
  have "el_cfg (snd (ecm_nat env k)) = el_cfg k" for k by (simp add: ecm_nat_def Let_def split: option.split)
  then show ?thesis by (simp add: ecm_mode_def Let_def split: option.split)
qed

lemma ecm_stage_cfg:
  "f \<in> {ecm_reach, ecm_mode, ecm_pdp, ecm_start, ecm_netif, ecm_addressing} \<Longrightarrow> el_cfg (snd (f env k)) = el_cfg k"
  by (elim insertE) (simp_all add: ecm_pdp_def ecm_start_def ecm_netif_def ecm_vanished_def ecm_addressing_def Let_def split: option.split)

lemma ecm_hold_cfg: "el_cfg (ecm_hold env k) = el_cfg k"
  by (simp add: ecm_hold_def Let_def split: option.split)

lemma ecm_tick_cfg: "el_cfg (ecm_tick env l) = el_cfg l"
  by (rule ecm_tick_keeps [where P = "\<lambda>k. el_cfg k = el_cfg l"])
     (simp_all add: ecm_stage_cfg ecm_hold_cfg ecm_stage_wanted)

lemma tick_modem_saved: "pv_saved (snd (snd (tick_modem ops fns env i pv))) = pv_saved pv"
  by (simp add: tick_modem_def forward_requests_def hold_link_def Let_def case_prod_beta)

text \<open>A PIN the card has accepted is the PIN everywhere. When a tick hands a configuration to the file, it is one, and it is what the uplink, the status service and
  the data link have from then on, provided no other thread changed the configuration meanwhile.\<close>

theorem accepted_pin_is_kept:
  assumes "uplink_tick ecm_ops fns env le (\<lambda>_. id) (sh, pv) = (sh', pv')" "pv_saved pv' \<noteq> pv_saved pv"
  shows "\<exists>c. pv_saved pv' = pv_saved pv @ [c] \<and> sh_cfg sh' = c \<and> cv_cfg (pv_svc pv') = c \<and> el_cfg (pv_link pv') = c
    \<and> c\<lparr>cc_sim_pin := []\<rparr> = (sh_cfg sh)\<lparr>cc_sim_pin := []\<rparr>"
proof -
  obtain i c where c: "take_config ecm_ops fns (fst (tick_take sh)) pv = (i, c)" by (metis surj_pair)
  then have i: "in_cfg i = sh_cfg sh" "pv_saved c = pv_saved pv"
    by (auto simp: take_config_def tick_take_def split: if_splits)
  obtain busy out m where m: "tick_modem ecm_ops fns env i (take_intent ecm_ops i c) = (busy, out, m)" by (metis prod_cases3)
  have "pv_saved m = pv_saved pv"
    using tick_modem_saved [of ecm_ops fns env i "take_intent ecm_ops i c"] by (simp add: m take_intent_silent i)
  then show ?thesis
    using assms c m i
    by (auto simp: uplink_tick_def tick_take_def tick_off_silent take_intent_silent publish_def ecm_ops_def ecm_set_config_def ecm_tick_cfg Let_def
        split: if_splits)
qed

definition change_pin :: sim_lock_request where
  "change_pin = \<lparr>slr_action = LockChange, slr_pin = ''1234'', slr_new_pin = ''4321''\<rparr>"

text \<open>The running uplink, asked to change the PIN.\<close>

definition pin_asked :: "cell_shared \<times> (ecm_link, string option) cell_private" where
  "pin_asked = fold (uplink_step ecm_ops no_note) [Api OpPersist, Api (OpSim change_pin)] uplink_up"

theorem accepted_pin_is_kept_witness:
  "let q = uplink_tick ecm_ops no_note well_env well_link (\<lambda>_. id) (fst pin_asked, snd pin_asked)
   in \<exists>c. pv_saved (snd q) = pv_saved (snd pin_asked) @ [c] \<and> cv_cfg (pv_svc (snd q)) = c"
proof -
  let ?q = "uplink_tick ecm_ops no_note well_env well_link (\<lambda>_. id) (fst pin_asked, snd pin_asked)"
  have q: "?q = (fst ?q, snd ?q)" by simp
  have "pv_saved (snd ?q) \<noteq> pv_saved (snd pin_asked)" by code_simp
  from accepted_pin_is_kept [OF q this] show ?thesis by (auto simp: Let_def)
qed

text \<open>The file can go back to an older configuration. The tick hands the configuration it took at its start to the file; one that another thread set meanwhile
  stays in the uplink, and the file loses it.\<close>

theorem saved_configuration_is_stale:
  "let q = uplink_tick ecm_ops no_note well_env well_link (\<lambda>k. if k = 0 then uplink_set_config (ecm_cfg\<lparr>cc_apn := ''iot''\<rparr>) else id) pin_asked
   in map cc_apn (pv_saved (snd q)) = [''internet''] \<and> cc_apn (sh_cfg (fst q)) = ''iot''"
  by code_simp

text \<open>A scan can be cut off by a second request for one. A request that arrives while the tick that starts the scan is still at work is accepted, because
  the running scan is not published yet; the next tick ends the scan with an error, restores nothing, and sends nothing from then on: the modem stays locked to the band that
  was being measured.\<close>

theorem second_request_strands_scan:
  "let t = fold (uplink_step ecm_ops no_note) [Api OpScan, Turn well_env well_link (\<lambda>k. if k = 0 then [OpScan] else []),
             Turn well_env well_link (\<lambda>_. [])] uplink_up;
       bands = (\<lambda>p. filter (\<lambda>x. case x of Cmd c tm a \<Rightarrow> starts_with c ''AT+QCFG=\"band\",'' | Clock n \<Rightarrow> False) (pv_log (snd p)))
   in rs_scan (sh_radio (fst t)) = ScanError \<and> length (bands t) = 1 \<and> rt_verified (pv_tuner (snd t)) \<and> \<not> rt_apply_pending (pv_tuner (snd t))
      \<and> \<not> rt_restore_pending (pv_tuner (snd t))"
  by code_simp

end
