(* ===== verification/Night_Service.thy ===== *)
theory Night_Service
  imports Proc_Net
begin

text \<open>
  Day and night (\<^verbatim>\<open>core/night/night_service.hpp\<close>, \<^verbatim>\<open>night_service.cpp\<close>): the night mode with its two actuators (the IR-cut
  filter and the light), the manual buttons, and the automation that follows the daylight sensor. The configuration store, the GPIO
  controller, the pin names and the image tuning are behind interfaces: what they answer during one call is the environment, where the
  \<open>n\<close>-th GPIO or tuning call of the service's life is answered by \<open>ne_answer n\<close> and \<open>ne_tune n\<close>; the calls are logged in order.
  The pause of 150 ms between two writes of a pulse is not modelled, and neither is the thread that calls \<^verbatim>\<open>tick\<close> every two seconds:
  a run is any sequence of ticks and buttons.
\<close>

section \<open>Definitions\<close>

record night_pins =
  np_ircut :: bool
  np_ircut_pin1 :: string
  np_ircut_pin2 :: string
  np_ircut_single_invert :: bool
  np_backlight :: bool
  np_backlight_pin :: string
  np_light_sensor_pin :: string
  np_light_sensor_invert :: bool
  np_light_monitor :: bool
  np_color_to_gray :: bool
  np_auto_night_delay_s :: int
  np_auto_day_delay_s :: int

record auto_state =
  as_enabled :: bool
  as_sensing :: bool
  as_dark :: int
  as_pending_s :: int
  as_error :: string

datatype gcall =
    ConfigOut string bool
  | WriteOut string bool
  | ConfigIn string
  | ReadIn string
  | Override int
  | ClearOverride

record night_env =
  ne_get :: "string \<Rightarrow> string"
  ne_gpio :: bool
  ne_name_of :: "(int \<Rightarrow> string) option"
  ne_resolve :: "string \<Rightarrow> int option"
  ne_answer :: "nat \<Rightarrow> result"
  ne_tune :: "nat \<Rightarrow> bool \<times> string"
  ne_level :: bool
  ne_atoi_overflow :: "string \<Rightarrow> int"

record night =
  n_night :: bool
  n_ircut :: bool
  n_ircut_driven :: int
  n_light :: bool
  n_def_ircut_pin1 :: string
  n_def_ircut_pin2 :: string
  n_def_light_sensor_pin :: string
  a_input_pin :: string
  a_retry_at_ms :: int
  a_committed :: int
  a_candidate :: int
  a_candidate_since_ms :: int
  a_raw :: int
  a_pending_s :: int
  a_announced :: bool
  a_error :: string
  a_switch_error :: string
  a_actuator_pending :: bool
  a_actuator_tries :: int
  n_log :: "gcall list"

definition night_new :: night where
  "night_new = \<lparr>n_night = False, n_ircut = True, n_ircut_driven = -1, n_light = False, n_def_ircut_pin1 = [], n_def_ircut_pin2 = [],
     n_def_light_sensor_pin = [], a_input_pin = [], a_retry_at_ms = 0, a_committed = -1, a_candidate = -1, a_candidate_since_ms = 0,
     a_raw = -1, a_pending_s = -1, a_announced = False, a_error = [], a_switch_error = [], a_actuator_pending = False,
     a_actuator_tries = 0, n_log = []\<rparr>"

definition set_default_pins :: "string \<Rightarrow> string \<Rightarrow> string \<Rightarrow> night \<Rightarrow> night" where
  "set_default_pins p1 p2 sensor n = n\<lparr>n_def_ircut_pin1 := p1, n_def_ircut_pin2 := p2, n_def_light_sensor_pin := sensor\<rparr>"

definition gpio_err :: "string \<Rightarrow> string \<Rightarrow> result \<Rightarrow> string" where
  "gpio_err what pin r =
     what @ '' '' @ pin @ '': '' @
     (if r_status r = Busy then ''pin is held by another driver''
      else if r_status r = Unsupported then ''not supported on this platform''
      else if r_status r = Timeout then ''timed out'' else ''failed'') @
     (if r_code r \<noteq> 0 then '' (code '' @ int_dec (r_code r) @ '')'' else [])"

definition pin_name :: "night_env \<Rightarrow> string \<Rightarrow> string" where
  "pin_name env pin =
     (if pin = [] then []
      else if list_all is_digit pin
      then (case ne_name_of env of None \<Rightarrow> [] | Some name_of \<Rightarrow> name_of (c_atoi (ne_atoi_overflow env) pin))
      else pin)"

definition secs :: "night_env \<Rightarrow> string \<Rightarrow> int \<Rightarrow> int" where
  "secs env key def =
     (let v = ne_get env key
      in if v = [] then def
         else let n = c_atoi (ne_atoi_overflow env) v in if 0 \<le> n \<and> n \<le> 3600 then n else def)"

definition pins :: "night_env \<Rightarrow> night \<Rightarrow> night_pins" where
  "pins env n =
     (let get = ne_get env;
          p = \<lparr>np_ircut = (get ''night.ircut'' = ''true''),
               np_ircut_pin1 = get ''night.ircut_pin1'',
               np_ircut_pin2 = get ''night.ircut_pin2'',
               np_ircut_single_invert = (get ''night.ircut_single_invert'' = ''true''),
               np_backlight = (get ''night.backlight'' = ''true''),
               np_backlight_pin = get ''night.backlight_pin'',
               np_light_sensor_pin = get ''night.light_sensor_pin'',
               np_light_sensor_invert = (get ''night.light_sensor_invert'' = ''true''),
               np_light_monitor = (get ''night.light_monitor'' = ''true''),
               np_color_to_gray = (get ''night.color_to_gray'' \<noteq> ''false''),
               np_auto_night_delay_s = secs env ''night.auto_night_delay'' 3,
               np_auto_day_delay_s = secs env ''night.auto_day_delay'' 3\<rparr>;
          p = (if np_ircut_pin1 p = [] \<and> np_ircut_pin2 p = []
               then p\<lparr>np_ircut_pin1 := n_def_ircut_pin1 n, np_ircut_pin2 := n_def_ircut_pin2 n\<rparr> else p)
      in if np_light_sensor_pin p = [] then p\<lparr>np_light_sensor_pin := n_def_light_sensor_pin n\<rparr> else p)"

text \<open>One call on a port: logged, and answered by its position.\<close>

definition nlog :: "gcall list \<Rightarrow> night \<Rightarrow> night" where
  "nlog cs n = n\<lparr>n_log := n_log n @ cs\<rparr>"

definition answer :: "night_env \<Rightarrow> night \<Rightarrow> result" where
  "answer env n = ne_answer env (length (n_log n))"

definition drive_single :: "night_env \<Rightarrow> night_pins \<Rightarrow> string \<Rightarrow> bool \<Rightarrow> night \<Rightarrow> string \<times> night" where
  "drive_single env p n1 engaged n =
     (let level = (engaged \<noteq> np_ircut_single_invert p);
          r = answer env n; n = nlog [ConfigOut n1 level] n
      in if \<not> is_ok r then (gpio_err ''IR-cut pin'' n1 r, n)
         else let r = answer env n; n = nlog [WriteOut n1 level] n
              in if \<not> is_ok r then (gpio_err ''IR-cut pin'' n1 r, n)
                 else ([], n\<lparr>n_ircut := engaged\<rparr>))"

definition drive_coil :: "night_env \<Rightarrow> string \<Rightarrow> string \<Rightarrow> bool \<Rightarrow> night \<Rightarrow> string \<times> night" where
  "drive_coil env n1 n2 engaged n =
     (if n_ircut_driven n = (if engaged then 1 else 0) then ([], n\<lparr>n_ircut := engaged\<rparr>)
      else
      let hi = (if engaged then n1 else n2); lo = (if engaged then n2 else n1);
          r = answer env n; n = nlog [ConfigOut hi False] n
      in if \<not> is_ok r then (gpio_err ''IR-cut pin'' hi r, n)
         else let r = answer env n; n = nlog [ConfigOut lo False] n
              in if \<not> is_ok r then (gpio_err ''IR-cut pin'' lo r, n)
                 else ([], (nlog [WriteOut lo False, WriteOut hi True, WriteOut hi False] n)
                             \<lparr>n_ircut := engaged, n_ircut_driven := (if engaged then 1 else 0)\<rparr>))"

definition drive_ircut :: "night_env \<Rightarrow> bool \<Rightarrow> night \<Rightarrow> string \<times> night" where
  "drive_ircut env engaged n =
     (let p = pins env n
      in if \<not> np_ircut p then (''the IR-cut filter is set to off in Day / Night settings'', n)
         else if \<not> ne_gpio env then (''no GPIO on this platform'', n)
         else if np_ircut_pin1 p = [] then (''no IR-cut pin configured in Day / Night settings'', n)
         else
         let n1 = pin_name env (np_ircut_pin1 p)
         in if n1 = [] then (''IR-cut pin 1 '' @ [CHR 0x27] @ np_ircut_pin1 p @ [CHR 0x27] @ '': not a valid pin'', n)
            else if np_ircut_pin2 p = [] then drive_single env p n1 engaged n
            else
            let n2 = pin_name env (np_ircut_pin2 p)
            in if n2 = [] then (''IR-cut pin 2 '' @ [CHR 0x27] @ np_ircut_pin2 p @ [CHR 0x27] @ '': not a valid pin'', n)
               else drive_coil env n1 n2 engaged n)"

definition drive_light :: "night_env \<Rightarrow> bool \<Rightarrow> night \<Rightarrow> string \<times> night" where
  "drive_light env on n =
     (let p = pins env n
      in if \<not> np_backlight p then (''the camera light is set to off in Day / Night settings'', n)
         else if \<not> ne_gpio env then (''no GPIO on this platform'', n)
         else if np_backlight_pin p = [] then (''no light pin configured in Day / Night settings'', n)
         else
         let bn = pin_name env (np_backlight_pin p)
         in if bn = [] then (''light pin '' @ [CHR 0x27] @ np_backlight_pin p @ [CHR 0x27] @ '': not a valid pin'', n)
            else
            let r = answer env n; n = nlog [ConfigOut bn on] n
            in if \<not> is_ok r then (gpio_err ''light pin'' bn r, n)
               else let r = answer env n; n = nlog [WriteOut bn on] n
                    in if \<not> is_ok r then (gpio_err ''light pin'' bn r, n)
                       else ([], n\<lparr>n_light := on\<rparr>))"

text \<open>The tuning part: night owns the ISP's running mode, day gives it back. The answer is an error text, empty when accepted.\<close>

definition apply_running_mode :: "night_env \<Rightarrow> bool \<Rightarrow> night \<Rightarrow> string \<times> night" where
  "apply_running_mode env on n =
     (if on
      then let (ok, message) = ne_tune env (length (n_log n));
               n = nlog [Override (if np_color_to_gray (pins env n) then 1 else 0)] n
           in (if ok then [] else if message = [] then ''running_mode could not be applied'' else message, n)
      else ([], nlog [ClearOverride] n))"

text \<open>The filter and the light follow where the configuration lets them; the first failure is reported apart.\<close>

definition drive_actuators :: "night_env \<Rightarrow> bool \<Rightarrow> night \<Rightarrow> string \<times> night" where
  "drive_actuators env on n =
     (let p = pins env n;
          (ae, n) = (if np_ircut p \<and> np_ircut_pin1 p \<noteq> [] then drive_ircut env (\<not> on) n else ([], n))
      in if np_backlight p \<and> np_backlight_pin p \<noteq> []
         then let (le, n) = drive_light env on n in (if ae = [] then le else ae, n)
         else (ae, n))"

text \<open>
  \<^verbatim>\<open>set_night_locked_\<close>: the error, the actuators' error (which is left as the caller initialised it, empty, when the mode itself
  failed) and the new state.
\<close>

definition set_night_locked :: "night_env \<Rightarrow> bool \<Rightarrow> night \<Rightarrow> string \<times> string \<times> night" where
  "set_night_locked env on n =
     (let (e, n) = apply_running_mode env on n
      in if e \<noteq> [] then (e, [], n)
         else let (ae, n) = drive_actuators env on (n\<lparr>n_night := on\<rparr>) in ([], ae, n))"

definition set_night :: "night_env \<Rightarrow> bool \<Rightarrow> night \<Rightarrow> string \<times> night" where
  "set_night env on n = (let (e, ae, n) = set_night_locked env on n in (e, n))"

definition toggle_night :: "night_env \<Rightarrow> night \<Rightarrow> string \<times> bool \<times> night" where
  "toggle_night env n = (let (e, ae, n) = set_night_locked env (\<not> n_night n) n in (e, n_night n, n))"

definition reapply_running_mode :: "night_env \<Rightarrow> night \<Rightarrow> string \<times> night" where
  "reapply_running_mode env n = apply_running_mode env (n_night n) n"

definition toggle_ircut :: "night_env \<Rightarrow> night \<Rightarrow> string \<times> night" where
  "toggle_ircut env n = drive_ircut env (\<not> n_ircut n) n"

definition toggle_light :: "night_env \<Rightarrow> night \<Rightarrow> string \<times> night" where
  "toggle_light env n = drive_light env (\<not> n_light n) n"

section \<open>The automation\<close>

definition auto_off :: "night \<Rightarrow> night" where
  "auto_off n = n\<lparr>a_committed := -1, a_candidate := -1, a_raw := -1, a_pending_s := -1, a_announced := False,
     a_actuator_pending := False, a_actuator_tries := 0, a_error := [], a_switch_error := []\<rparr>"

definition auto_fail :: "string \<Rightarrow> night \<Rightarrow> night" where
  "auto_fail why n = n\<lparr>a_error := why, a_raw := -1, a_pending_s := -1\<rparr>"

text \<open>Reading the sensor: what it says (1 dark, 0 light), or nothing.\<close>

definition read_sensor :: "night_env \<Rightarrow> night_pins \<Rightarrow> string \<Rightarrow> int \<Rightarrow> night \<Rightarrow> int option \<times> night" where
  "read_sensor env p name now_ms n =
     (let r = answer env n; n = nlog [ReadIn name] n
      in if \<not> is_ok r
         then (None, auto_fail (gpio_err ''daylight sensor'' name r) (n\<lparr>a_input_pin := [], a_retry_at_ms := now_ms + 60000\<rparr>))
         else let dark = (if ne_level env \<noteq> np_light_sensor_invert p then 1 else 0)
              in (Some dark, n\<lparr>a_error := [], a_raw := dark\<rparr>))"

definition sense :: "night_env \<Rightarrow> int \<Rightarrow> night \<Rightarrow> int option \<times> night" where
  "sense env now_ms n =
     (let p = pins env n
      in if \<not> np_light_monitor p then (None, auto_off n)
         else if \<not> ne_gpio env then (None, auto_fail ''no GPIO on this platform'' n)
         else if np_light_sensor_pin p = [] then (None, auto_fail ''no daylight sensor pin configured in Day / Night settings'' n)
         else
         let name = pin_name env (np_light_sensor_pin p)
         in if name = []
            then (None, auto_fail (''daylight sensor pin '' @ [CHR 0x27] @ np_light_sensor_pin p @ [CHR 0x27] @ '': not a valid pin'') n)
            else if a_input_pin n = name then read_sensor env p name now_ms n
            else if now_ms < a_retry_at_ms n then (None, n)
            else
            let r = answer env n; n = nlog [ConfigIn name] n
            in if \<not> is_ok r
               then (None, auto_fail (gpio_err ''daylight sensor'' name r) (n\<lparr>a_retry_at_ms := now_ms + 60000\<rparr>))
               else read_sensor env p name now_ms (n\<lparr>a_input_pin := name\<rparr>))"

text \<open>The lambda \<^verbatim>\<open>apply\<close>: a switch counts only when the mode was accepted.\<close>

definition auto_apply :: "night_env \<Rightarrow> int \<Rightarrow> night \<Rightarrow> night" where
  "auto_apply env dark n =
     (let (e, ae, n) = set_night_locked env (dark = 1) n
      in if e \<noteq> [] then n\<lparr>a_switch_error := e, a_pending_s := 0\<rparr>
         else let n = n\<lparr>a_committed := dark, a_candidate := -1, a_pending_s := -1\<rparr>
              in if ae \<noteq> [] then n\<lparr>a_switch_error := ae, a_actuator_pending := True, a_actuator_tries := 0\<rparr>
                 else n\<lparr>a_switch_error := [], a_actuator_pending := False\<rparr>)"

text \<open>The light is as committed: follow up on an actuator that failed, a limited number of times.\<close>

definition retry_actuator :: "night_env \<Rightarrow> int \<Rightarrow> night \<Rightarrow> night" where
  "retry_actuator env dark n =
     (if a_actuator_pending n \<and> n_night n = (dark = 1)
      then let (e, ae, n) = set_night_locked env (dark = 1) n
           in if ae = [] then n\<lparr>a_actuator_pending := False, a_switch_error := []\<rparr>
              else let n = n\<lparr>a_actuator_tries := a_actuator_tries n + 1\<rparr>
                   in if 5 \<le> a_actuator_tries n then n\<lparr>a_actuator_pending := False, a_switch_error := ae\<rparr>
                      else n\<lparr>a_switch_error := ae\<rparr>
      else if a_actuator_pending n then n\<lparr>a_actuator_pending := False\<rparr> else n)"

definition delay_ms :: "night_env \<Rightarrow> night \<Rightarrow> int \<Rightarrow> int" where
  "delay_ms env n dark = (if dark \<noteq> 0 then np_auto_night_delay_s (pins env n) else np_auto_day_delay_s (pins env n)) * 1000"

definition decide :: "night_env \<Rightarrow> int \<Rightarrow> int \<Rightarrow> night \<Rightarrow> night" where
  "decide env now_ms dark n =
     (if a_committed n < 0 then auto_apply env dark (n\<lparr>a_announced := True\<rparr>)
      else if dark = a_committed n then retry_actuator env dark (n\<lparr>a_candidate := -1, a_pending_s := -1\<rparr>)
      else
      let n = (if a_candidate n \<noteq> dark
               then n\<lparr>a_candidate := dark, a_candidate_since_ms := now_ms, a_switch_error := []\<rparr> else n);
          left_ms = delay_ms env n dark - (now_ms - a_candidate_since_ms n)
      in if 0 < left_ms then n\<lparr>a_pending_s := (left_ms + 999) div 1000\<rparr>
         else auto_apply env dark n)"

definition night_tick :: "night_env \<Rightarrow> int \<Rightarrow> night \<Rightarrow> night" where
  "night_tick env now_ms n =
     (case sense env now_ms n of (None, n) \<Rightarrow> n | (Some dark, n) \<Rightarrow> decide env now_ms dark n)"

definition auto_state_of :: "night_env \<Rightarrow> night \<Rightarrow> auto_state" where
  "auto_state_of env n =
     (let en = np_light_monitor (pins env n)
      in \<lparr>as_enabled = en, as_sensing = (en \<and> a_input_pin n \<noteq> [] \<and> a_error n = []), as_dark = a_raw n,
          as_pending_s = a_pending_s n, as_error = (if a_error n \<noteq> [] then a_error n else a_switch_error n)\<rparr>)"

section \<open>The pin map\<close>

definition pin_number :: "night_env \<Rightarrow> string \<Rightarrow> int" where
  "pin_number env pin =
     (if pin = [] then -1
      else if list_all is_digit pin then c_atoi (ne_atoi_overflow env) pin
      else if ne_name_of env = None then -1
      else case ne_resolve env pin of Some k \<Rightarrow> k | None \<Rightarrow> -1)"

record gpio_map =
  gm_bank_bases :: "int list"
  gm_bank_size :: int
  gm_held :: "(int \<times> string) list"
  gm_assigned :: "(int \<times> string) list"
  gm_avoid :: "int list"
  gm_owners_unknown :: bool

definition assigned :: "night_env \<Rightarrow> string \<Rightarrow> string \<Rightarrow> (int \<times> string) list" where
  "assigned env pin role = (let k = pin_number env pin in if 0 \<le> k then [(k, role)] else [])"

function split_comma :: "string \<Rightarrow> string list" where
  "split_comma s =
     (if s = [] then []
      else takeWhile (\<lambda>c. c \<noteq> CHR '','') s # split_comma (drop 1 (dropWhile (\<lambda>c. c \<noteq> CHR '','') s)))"
  by pat_completeness auto
termination
proof (relation "measure length", simp, goal_cases)
  case (1 s)
  have "length (dropWhile (\<lambda>c. c \<noteq> CHR '','') s) \<le> length s" by (rule length_dropWhile_le)
  moreover have "0 < length s" using 1 by simp
  ultimately show ?case unfolding in_measure length_drop by linarith
qed

declare split_comma.simps [simp del]

definition avoid_number :: "night_env \<Rightarrow> string \<Rightarrow> int list" where
  "avoid_number env tok =
     (let t = dropWhile (\<lambda>c. c = CHR '' '' \<or> c = CHR 0x09) tok
      in if t = [] then [] else let k = c_atoi (ne_atoi_overflow env) t in if 0 \<le> k then [k] else [])"

definition gpio_map_of :: "night_env \<Rightarrow> night \<Rightarrow> gpio_map" where
  "gpio_map_of env n =
     (let p = pins env n; usb_pin = ne_get env ''usb.power_pin''
      in \<lparr>gm_bank_bases = [0, 32, 64, 96, 128, 160], gm_bank_size = 32,
          gm_held = (if usb_pin = [] then [] else assigned env usb_pin ''machino (usb power)''),
          gm_assigned = assigned env (np_ircut_pin1 p) ''irCutPin1'' @ assigned env (np_ircut_pin2 p) ''irCutPin2'' @
            assigned env (np_backlight_pin p) ''backlightPin'' @ assigned env (np_light_sensor_pin p) ''lightSensorPin'',
          gm_avoid = concat (map (avoid_number env) (split_comma (ne_get env ''night.avoid''))),
          gm_owners_unknown = True\<rparr>)"

section \<open>What the actuators leave alone\<close>

lemma nlog_simps [simp]:
  "n_log (nlog cs n) = n_log n @ cs" "n_night (nlog cs n) = n_night n" "n_ircut (nlog cs n) = n_ircut n"
  "n_ircut_driven (nlog cs n) = n_ircut_driven n" "n_light (nlog cs n) = n_light n"
  "n_def_ircut_pin1 (nlog cs n) = n_def_ircut_pin1 n" "n_def_ircut_pin2 (nlog cs n) = n_def_ircut_pin2 n"
  "n_def_light_sensor_pin (nlog cs n) = n_def_light_sensor_pin n"
  "a_input_pin (nlog cs n) = a_input_pin n" "a_retry_at_ms (nlog cs n) = a_retry_at_ms n"
  "a_committed (nlog cs n) = a_committed n" "a_candidate (nlog cs n) = a_candidate n"
  "a_candidate_since_ms (nlog cs n) = a_candidate_since_ms n" "a_raw (nlog cs n) = a_raw n" "a_pending_s (nlog cs n) = a_pending_s n"
  "a_announced (nlog cs n) = a_announced n" "a_error (nlog cs n) = a_error n" "a_switch_error (nlog cs n) = a_switch_error n"
  "a_actuator_pending (nlog cs n) = a_actuator_pending n" "a_actuator_tries (nlog cs n) = a_actuator_tries n"
  by (simp_all add: nlog_def)

text \<open>The fields of the automation, and the board's defaults.\<close>

definition same_auto :: "night \<Rightarrow> night \<Rightarrow> bool" where
  "same_auto n m \<longleftrightarrow> a_committed m = a_committed n \<and> a_candidate m = a_candidate n
     \<and> a_candidate_since_ms m = a_candidate_since_ms n \<and> a_actuator_pending m = a_actuator_pending n
     \<and> a_actuator_tries m = a_actuator_tries n \<and> n_def_ircut_pin1 m = n_def_ircut_pin1 n
     \<and> n_def_ircut_pin2 m = n_def_ircut_pin2 n \<and> n_def_light_sensor_pin m = n_def_light_sensor_pin n"

lemma same_auto_refl [simp]: "same_auto n n"
  by (simp add: same_auto_def)

lemma same_auto_trans: "same_auto a b \<Longrightarrow> same_auto b c \<Longrightarrow> same_auto a c"
  by (simp add: same_auto_def)

lemma pins_cong:
  "n_def_ircut_pin1 m = n_def_ircut_pin1 n \<Longrightarrow> n_def_ircut_pin2 m = n_def_ircut_pin2 n \<Longrightarrow>
   n_def_light_sensor_pin m = n_def_light_sensor_pin n \<Longrightarrow> pins env m = pins env n"
  by (simp only: pins_def)

lemma pins_same_auto: "same_auto n m \<Longrightarrow> pins env m = pins env n"
  by (rule pins_cong) (simp_all add: same_auto_def)

lemma drive_single_same: "drive_single env p x b n = (e, n') \<Longrightarrow> same_auto n n' \<and> n_night n' = n_night n"
  by (auto simp: drive_single_def same_auto_def Let_def split: if_splits)

lemma drive_coil_same: "drive_coil env x y b n = (e, n') \<Longrightarrow> same_auto n n' \<and> n_night n' = n_night n"
  by (auto simp: drive_coil_def same_auto_def Let_def split: if_splits)

lemma drive_ircut_same: "drive_ircut env b n = (e, n') \<Longrightarrow> same_auto n n' \<and> n_night n' = n_night n"
  by (auto simp: drive_ircut_def Let_def dest: drive_single_same drive_coil_same split: if_splits)

lemma drive_light_same: "drive_light env b n = (e, n') \<Longrightarrow> same_auto n n' \<and> n_night n' = n_night n"
  by (auto simp: drive_light_def same_auto_def Let_def split: if_splits)

lemma drive_actuators_same:
  assumes "drive_actuators env b n = (e, n')" shows "same_auto n n' \<and> n_night n' = n_night n"
proof -
  obtain ae m where m: "(if np_ircut (pins env n) \<and> np_ircut_pin1 (pins env n) \<noteq> [] then drive_ircut env (\<not> b) n else ([], n)) = (ae, m)"
    by (metis surj_pair)
  then have "same_auto n m \<and> n_night m = n_night n" by (auto dest: drive_ircut_same split: if_splits)
  moreover have "same_auto m n' \<and> n_night n' = n_night m"
    using assms m by (auto simp: drive_actuators_def Let_def dest: drive_light_same split: if_splits prod.splits)
  ultimately show ?thesis using same_auto_trans by auto
qed

lemma apply_running_mode_same:
  "apply_running_mode env b n = (e, n') \<Longrightarrow> same_auto n n' \<and> n_night n' = n_night n"
  by (auto simp: apply_running_mode_def same_auto_def Let_def split: if_splits prod.splits)

lemma set_night_locked_same:
  assumes "set_night_locked env b n = (e, ae, n')"
  shows "same_auto n n' \<and> n_night n' = (if e = [] then b else n_night n) \<and> (e \<noteq> [] \<longrightarrow> ae = [])"
proof -
  obtain e1 m where m: "apply_running_mode env b n = (e1, m)" by (metis surj_pair)
  note am = apply_running_mode_same [OF m]
  show ?thesis
  proof (cases "e1 = []")
    case True
    obtain ae' k where k: "drive_actuators env b (m\<lparr>n_night := b\<rparr>) = (ae', k)" by (metis surj_pair)
    have "same_auto n (m\<lparr>n_night := b\<rparr>)" using am by (simp add: same_auto_def)
    then show ?thesis using assms m True k drive_actuators_same [OF k] same_auto_trans
      by (auto simp: set_night_locked_def)
  next
    case False
    with assms m am show ?thesis by (auto simp: set_night_locked_def)
  qed
qed

end
