(* ===== verification/Night_Props.thy ===== *)
theory Night_Props
  imports Night_Service
begin

text \<open>
  What holds of the day/night service over any sequence of ticks and buttons: a mode change needs stable light (the readings are kept as a
  history, and the candidate is a suffix of it), a refused change is asked for again, a broken actuator is followed up five times at
  most, and the filter's coil is never powered twice in a direction or left powered (the automaton \<open>coil_run\<close> over the calls).
\<close>

section \<open>The sensor is followed with patience\<close>

lemma read_sensor_auto:
  "read_sensor env p name now n = (d, n') \<Longrightarrow> same_auto n n' \<and> n_night n' = n_night n"
  by (auto simp: read_sensor_def same_auto_def auto_fail_def Let_def split: if_splits)

lemma sense_auto:
  assumes "sense env now n = (d, n')"
  shows "n_night n' = n_night n \<and> (if np_light_monitor (pins env n) then same_auto n n' else d = None \<and> n' = auto_off n)"
proof -
  have *: "same_auto n (nlog cs (n\<lparr>a_input_pin := x\<rparr>))" "same_auto n ((nlog cs n)\<lparr>a_input_pin := x\<rparr>)" for cs x
    by (simp_all add: same_auto_def)
  show ?thesis
    using assms same_auto_trans [OF *(2)]
    by (auto simp: sense_def Let_def auto_fail_def auto_off_def same_auto_def dest!: read_sensor_auto split: if_splits)
qed

lemma sense_reading: "sense env now n = (Some d, n') \<Longrightarrow> d = 0 \<or> d = 1"
  by (auto simp: sense_def read_sensor_def Let_def split: if_splits)

text \<open>An attempt to switch: taken, or left for the next tick.\<close>

lemma auto_apply_cases:
  assumes "d = 0 \<or> d = 1"
  obtains (taken) "a_committed (auto_apply env d n) = d" "a_candidate (auto_apply env d n) = -1"
      "n_night (auto_apply env d n) = (d = 1)" "a_actuator_tries (auto_apply env d n) = 0 \<or> \<not> a_actuator_pending (auto_apply env d n)"
  | (refused) "d = 1" "a_committed (auto_apply env d n) = a_committed n" "a_candidate (auto_apply env d n) = a_candidate n"
      "a_candidate_since_ms (auto_apply env d n) = a_candidate_since_ms n" "n_night (auto_apply env d n) = n_night n"
      "a_actuator_pending (auto_apply env d n) = a_actuator_pending n" "a_actuator_tries (auto_apply env d n) = a_actuator_tries n"
proof -
  obtain e ae m where s: "set_night_locked env (d = 1) n = (e, ae, m)" by (metis prod_cases3)
  note same = set_night_locked_same [OF s]
  show thesis
  proof (cases "e = []")
    case True
    then have "auto_apply env d n = (let k = m\<lparr>a_committed := d, a_candidate := -1, a_pending_s := -1\<rparr>
        in if ae \<noteq> [] then k\<lparr>a_switch_error := ae, a_actuator_pending := True, a_actuator_tries := 0\<rparr>
           else k\<lparr>a_switch_error := [], a_actuator_pending := False\<rparr>)"
      by (simp add: auto_apply_def s)
    with True same show thesis by (intro taken) (simp_all add: Let_def)
  next
    case False
    then have "d = 1"
      using s assms by (auto simp: set_night_locked_def apply_running_mode_def Let_def split: if_splits prod.splits)
    moreover from False have "auto_apply env d n = m\<lparr>a_switch_error := e, a_pending_s := 0\<rparr>"
      by (simp add: auto_apply_def s)
    ultimately show thesis using same False by (intro refused) (simp_all add: same_auto_def)
  qed
qed

lemma retry_actuator_mode:
  "a_committed (retry_actuator env d n) = a_committed n \<and> a_candidate (retry_actuator env d n) = a_candidate n
   \<and> n_night (retry_actuator env d n) = n_night n"
proof -
  obtain e ae m where s: "set_night_locked env (d = 1) n = (e, ae, m)" by (metis prod_cases3)
  from set_night_locked_same [OF s] show ?thesis by (auto simp: retry_actuator_def s same_auto_def Let_def)
qed

text \<open>A run of ticks and buttons, each with what the ports answered, and the readings the automation got.\<close>

datatype night_op =
    NTick night_env int | NSet night_env bool | NToggle night_env | NIrcut night_env | NLight night_env | NReapply night_env

fun night_step :: "night_op \<Rightarrow> night \<Rightarrow> night" where
  "night_step (NTick env now) n = night_tick env now n"
| "night_step (NSet env on) n = snd (set_night env on n)"
| "night_step (NToggle env) n = snd (snd (toggle_night env n))"
| "night_step (NIrcut env) n = snd (toggle_ircut env n)"
| "night_step (NLight env) n = snd (toggle_light env n)"
| "night_step (NReapply env) n = snd (reapply_running_mode env n)"

fun readings :: "night_op \<Rightarrow> night \<Rightarrow> (int \<times> int) list" where
  "readings (NTick env now) n = (case fst (sense env now n) of None \<Rightarrow> [] | Some d \<Rightarrow> [(now, d)])"
| "readings _ n = []"

fun night_run :: "night_op list \<Rightarrow> night \<Rightarrow> (int \<times> int) list \<times> night" where
  "night_run [] n = ([], n)"
| "night_run (op # ops) n = (let (h, n') = night_run ops (night_step op n) in (readings op n @ h, n'))"

definition cand_ok :: "(int \<times> int) list \<Rightarrow> night \<Rightarrow> bool" where
  "cand_ok h n \<longleftrightarrow> (a_committed n < 0 \<longrightarrow> a_candidate n < 0) \<and>
     (0 \<le> a_candidate n \<longrightarrow> (\<exists>pre post. h = pre @ (a_candidate_since_ms n, a_candidate n) # post \<and> (\<forall>e \<in> set post. snd e = a_candidate n)))"

lemma cand_ok_same: "cand_ok h n \<Longrightarrow> same_auto n m \<Longrightarrow> cand_ok h m"
  by (simp add: cand_ok_def same_auto_def)

lemma cand_ok_none: "a_candidate n < 0 \<Longrightarrow> cand_ok h n"
  by (simp add: cand_ok_def)

text \<open>A reading that differs from the committed state, as the candidate it starts or continues.\<close>

definition ripen :: "int \<Rightarrow> int \<Rightarrow> night \<Rightarrow> night" where
  "ripen now d n = (if a_candidate n \<noteq> d then n\<lparr>a_candidate := d, a_candidate_since_ms := now, a_switch_error := []\<rparr> else n)"

lemma pins_ripen: "pins env (ripen now d n) = pins env n"
  by (rule pins_cong) (simp_all add: ripen_def)

lemma ripen_ok:
  assumes "cand_ok h n" "0 \<le> a_committed n" "0 \<le> d"
  shows "cand_ok (h @ [(now, d)]) (ripen now d n)"
proof (cases "a_candidate n = d")
  case True
  with assms obtain pre post where h: "h = pre @ (a_candidate_since_ms n, d) # post" "\<forall>e \<in> set post. snd e = d"
    by (auto simp: cand_ok_def)
  then have "\<exists>pre post. h @ [(now, d)] = pre @ (a_candidate_since_ms n, d) # post \<and> (\<forall>e \<in> set post. snd e = d)"
    by (intro exI [of _ pre] exI [of _ "post @ [(now, d)]"]) auto
  with True assms(2) show ?thesis by (simp add: cand_ok_def ripen_def)
next
  case False
  then have "ripen now d n = n\<lparr>a_candidate := d, a_candidate_since_ms := now, a_switch_error := []\<rparr>" by (simp add: ripen_def)
  moreover have "\<exists>pre post. h @ [(now, d)] = pre @ (now, d) # post \<and> (\<forall>e \<in> set post. snd e = d)"
    by (rule exI [of _ h], rule exI [of _ "[]"]) simp
  ultimately show ?thesis using assms(2) by (simp add: cand_ok_def)
qed

lemma decide_ripen:
  "\<not> a_committed n < 0 \<Longrightarrow> d \<noteq> a_committed n \<Longrightarrow>
     decide env now d n =
       (let m = ripen now d n; left = delay_ms env m d - (now - a_candidate_since_ms m)
        in if 0 < left then m\<lparr>a_pending_s := (left + 999) div 1000\<rparr> else auto_apply env d m)"
  by (simp add: decide_def ripen_def Let_def)

lemma decide_cand_ok:
  assumes "cand_ok h n" "d = 0 \<or> d = 1"
  shows "cand_ok (h @ [(now, d)]) (decide env now d n)"
proof -
  consider (first) "a_committed n < 0" | (same) "\<not> a_committed n < 0" "d = a_committed n"
    | (differs) "\<not> a_committed n < 0" "d \<noteq> a_committed n" by blast
  then show ?thesis
  proof cases
    case first
    then have "a_candidate (n\<lparr>a_announced := True\<rparr>) < 0" using assms(1) by (simp add: cand_ok_def)
    then show ?thesis using first
      by (cases rule: auto_apply_cases [OF assms(2), of env "n\<lparr>a_announced := True\<rparr>"])
         (simp_all add: decide_def cand_ok_none)
  next
    case same
    then show ?thesis
      using retry_actuator_mode [of env d "n\<lparr>a_candidate := -1, a_pending_s := -1\<rparr>"]
      by (intro cand_ok_none) (simp add: decide_def)
  next
    case differs
    let ?m = "ripen now d n"
    have ok: "cand_ok (h @ [(now, d)]) ?m" using ripen_ok [OF assms(1)] differs assms(2) by auto
    have "cand_ok (h @ [(now, d)]) (auto_apply env d ?m)"
    proof (cases rule: auto_apply_cases [OF assms(2), of env ?m])
      case 1 then show ?thesis by (simp add: cand_ok_none)
    next
      case 2 with ok show ?thesis by (simp add: cand_ok_def)
    qed
    with ok show ?thesis unfolding decide_ripen [OF differs] Let_def by (simp add: cand_ok_def)
  qed
qed

text \<open>A button leaves the automation's fields alone.\<close>

lemma button_same_auto:
  assumes "\<And>env now. op \<noteq> NTick env now" shows "same_auto n (night_step op n)"
proof (cases op)
  case (NSet env on)
  obtain e ae m where "set_night_locked env on n = (e, ae, m)" by (metis prod_cases3)
  from set_night_locked_same [OF this] this NSet show ?thesis by (simp add: set_night_def)
next
  case (NToggle env)
  obtain e ae m where "set_night_locked env (\<not> n_night n) n = (e, ae, m)" by (metis prod_cases3)
  from set_night_locked_same [OF this] this NToggle show ?thesis by (simp add: toggle_night_def)
next
  case (NIrcut env)
  obtain e m where "drive_ircut env (\<not> n_ircut n) n = (e, m)" by (metis surj_pair)
  from drive_ircut_same [OF this] this NIrcut show ?thesis by (simp add: toggle_ircut_def)
next
  case (NLight env)
  obtain e m where "drive_light env (\<not> n_light n) n = (e, m)" by (metis surj_pair)
  from drive_light_same [OF this] this NLight show ?thesis by (simp add: toggle_light_def)
next
  case (NReapply env)
  obtain e m where "apply_running_mode env (n_night n) n = (e, m)" by (metis surj_pair)
  from apply_running_mode_same [OF this] this NReapply show ?thesis by (simp add: reapply_running_mode_def)
qed (use assms in blast)

lemma night_step_cand_ok:
  assumes "cand_ok h n" shows "cand_ok (h @ readings op n) (night_step op n)"
proof (cases op)
  case (NTick env now)
  obtain d n1 where s: "sense env now n = (d, n1)" by (metis surj_pair)
  note sa = sense_auto [OF s]
  show ?thesis
  proof (cases d)
    case None
    have "cand_ok h n1"
    proof (cases "np_light_monitor (pins env n)")
      case True
      with sa assms cand_ok_same show ?thesis by simp
    next
      case False
      with sa show ?thesis by (simp add: auto_off_def cand_ok_none)
    qed
    with None s NTick show ?thesis by (simp add: night_tick_def)
  next
    case (Some dk)
    with sa have "same_auto n n1" by (simp split: if_splits)
    then have "cand_ok h n1" using assms cand_ok_same by blast
    from decide_cand_ok [OF this, of dk now env] sense_reading [of env now n dk n1] s Some NTick
    show ?thesis by (simp add: night_tick_def)
  qed
qed (use button_same_auto [of op n] cand_ok_same [OF assms] in auto)

lemma night_run_cand_ok:
  "cand_ok h0 n0 \<Longrightarrow> night_run ops n0 = (h, n) \<Longrightarrow> cand_ok (h0 @ h) n"
proof (induction ops arbitrary: h0 n0 h)
  case (Cons op ops)
  obtain h' where r: "night_run ops (night_step op n0) = (h', n)" "h = readings op n0 @ h'"
    using Cons.prems(2) by (auto split: prod.splits)
  from Cons.IH [OF night_step_cand_ok [OF Cons.prems(1), of op] r(1)] r(2) show ?case by simp
qed simp

lemma tick_mode_change:
  assumes "cand_ok h n" "0 \<le> a_committed n" "n_night (night_tick env now n) \<noteq> n_night n"
  shows "\<exists>d pre t0 post. h @ readings (NTick env now) n = pre @ (t0, d) # post \<and> (\<forall>e \<in> set post. snd e = d)
    \<and> d \<noteq> a_committed n \<and> delay_ms env n d \<le> now - t0
    \<and> n_night (night_tick env now n) = (d = 1) \<and> a_committed (night_tick env now n) = d"
proof -
  obtain d n1 where s: "sense env now n = (d, n1)" by (metis surj_pair)
  note sa = sense_auto [OF s]
  obtain dk where d: "d = Some dk" using assms(3) s sa by (cases d) (auto simp: night_tick_def)
  from sa d have same: "same_auto n n1" and night: "n_night n1 = n_night n" by (simp_all split: if_splits)
  from sense_reading s d have dk: "dk = 0 \<or> dk = 1" by blast
  have t: "night_tick env now n = decide env now dk n1" by (simp add: night_tick_def s d)
  have c: "a_committed n1 = a_committed n" using same by (simp add: same_auto_def)
  have differs: "\<not> a_committed n1 < 0" "dk \<noteq> a_committed n1"
    using assms(2,3) c night retry_actuator_mode [of env dk "n1\<lparr>a_candidate := -1, a_pending_s := -1\<rparr>"]
    by (auto simp: t decide_def)
  let ?m = "ripen now dk n1"
  have m: "n_night ?m = n_night n" "a_candidate ?m = dk"
    using night by (simp_all add: ripen_def)
  have delay: "delay_ms env ?m dk = delay_ms env n dk"
    by (simp only: delay_ms_def pins_ripen pins_same_auto [OF same])
  have due: "delay_ms env n dk \<le> now - a_candidate_since_ms ?m" and ap: "decide env now dk n1 = auto_apply env dk ?m"
    using assms(3) m unfolding t decide_ripen [OF differs] Let_def delay by (auto split: if_splits)
  have "cand_ok (h @ [(now, dk)]) ?m"
    using ripen_ok [OF cand_ok_same [OF assms(1) same]] assms(2) c dk by auto
  then obtain pre post where "h @ [(now, dk)] = pre @ (a_candidate_since_ms ?m, dk) # post" "\<forall>e \<in> set post. snd e = dk"
    using m dk by (auto simp: cand_ok_def)
  moreover have "n_night (auto_apply env dk ?m) = (dk = 1) \<and> a_committed (auto_apply env dk ?m) = dk"
    using assms(3) m t ap by (cases rule: auto_apply_cases [OF dk, of env ?m]) simp_all
  ultimately show ?thesis using due differs c by (auto simp: s d t ap)
qed

section \<open>Counting the attempts\<close>

fun is_mode_call :: "gcall \<Rightarrow> bool" where
  "is_mode_call (Override v) \<longleftrightarrow> True"
| "is_mode_call ClearOverride \<longleftrightarrow> True"
| "is_mode_call _ \<longleftrightarrow> False"

abbreviation mode_calls :: "night \<Rightarrow> nat" where
  "mode_calls n \<equiv> length (filter is_mode_call (n_log n))"

lemma drive_mode_calls:
  "drive_single env p x b n = (e, n') \<Longrightarrow> mode_calls n' = mode_calls n"
  "drive_coil env x y b n = (e, n') \<Longrightarrow> mode_calls n' = mode_calls n"
  by (auto simp: drive_single_def drive_coil_def Let_def split: if_splits)

lemma drive_ircut_mode_calls: "drive_ircut env b n = (e, n') \<Longrightarrow> mode_calls n' = mode_calls n"
  by (auto simp: drive_ircut_def Let_def dest: drive_mode_calls split: if_splits)

lemma drive_light_mode_calls: "drive_light env b n = (e, n') \<Longrightarrow> mode_calls n' = mode_calls n"
  by (auto simp: drive_light_def Let_def split: if_splits)

lemma drive_actuators_mode_calls:
  assumes "drive_actuators env b n = (e, n')" shows "mode_calls n' = mode_calls n"
proof -
  obtain ae m where m: "(if np_ircut (pins env n) \<and> np_ircut_pin1 (pins env n) \<noteq> [] then drive_ircut env (\<not> b) n else ([], n)) = (ae, m)"
    by (metis surj_pair)
  then have "mode_calls m = mode_calls n" by (auto dest: drive_ircut_mode_calls split: if_splits)
  then show ?thesis
    using assms m by (auto simp: drive_actuators_def Let_def dest: drive_light_mode_calls split: if_splits prod.splits)
qed

lemma set_night_locked_mode_calls:
  assumes "set_night_locked env b n = (e, ae, n')" shows "mode_calls n' = mode_calls n + 1"
proof -
  obtain e1 m where m: "apply_running_mode env b n = (e1, m)" by (metis surj_pair)
  have c: "mode_calls m = mode_calls n + 1"
    using m by (auto simp: apply_running_mode_def Let_def split: if_splits prod.splits)
  obtain ae' k where k: "drive_actuators env b (m\<lparr>n_night := b\<rparr>) = (ae', k)" by (metis surj_pair)
  from drive_actuators_mode_calls [OF k] c m k assms show ?thesis
    by (auto simp: set_night_locked_def split: if_splits)
qed

lemma auto_apply_mode_calls: "mode_calls (auto_apply env d n) = mode_calls n + 1"
proof -
  obtain e ae m where s: "set_night_locked env (d = 1) n = (e, ae, m)" by (metis prod_cases3)
  from set_night_locked_mode_calls [OF s] show ?thesis by (simp add: auto_apply_def s Let_def)
qed

lemma sense_mode_calls: "sense env now n = (d, n') \<Longrightarrow> mode_calls n' = mode_calls n"
  by (auto simp: sense_def read_sensor_def auto_fail_def auto_off_def Let_def split: if_splits)

text \<open>How many follow-ups on a failed actuator are left.\<close>

definition tries_left :: "night \<Rightarrow> nat" where
  "tries_left n = (if a_actuator_pending n then nat (5 - a_actuator_tries n) else 0)"

definition tries_ok :: "night \<Rightarrow> bool" where
  "tries_ok n \<longleftrightarrow> (a_actuator_pending n \<longrightarrow> 0 \<le> a_actuator_tries n \<and> a_actuator_tries n < 5)"

lemma tries_same: "same_auto n m \<Longrightarrow> tries_ok m = tries_ok n \<and> tries_left m = tries_left n"
  by (simp add: tries_ok_def tries_left_def same_auto_def)

lemma retry_actuator_bound:
  assumes "tries_ok n"
  shows "tries_ok (retry_actuator env d n) \<and> mode_calls (retry_actuator env d n) + tries_left (retry_actuator env d n) \<le> mode_calls n + tries_left n"
proof -
  obtain e ae m where s: "set_night_locked env (d = 1) n = (e, ae, m)" by (metis prod_cases3)
  have "a_actuator_tries m = a_actuator_tries n" "a_actuator_pending m = a_actuator_pending n" "mode_calls m = mode_calls n + 1"
    using set_night_locked_same [OF s] set_night_locked_mode_calls [OF s] by (simp_all add: same_auto_def)
  with assms show ?thesis
    by (auto simp: retry_actuator_def s Let_def tries_ok_def tries_left_def)
qed

lemma auto_apply_tries:
  assumes "d = 0 \<or> d = 1" "tries_ok n" shows "tries_ok (auto_apply env d n)"
  using assms(2) by (cases rule: auto_apply_cases [OF assms(1), of env n]) (auto simp: tries_ok_def)

lemma ripen_tries: "tries_ok (ripen now d n) = tries_ok n"
  by (simp add: ripen_def tries_ok_def)

lemma decide_tries:
  assumes "d = 0 \<or> d = 1" "tries_ok n" shows "tries_ok (decide env now d n)"
proof -
  consider (first) "a_committed n < 0" | (same) "\<not> a_committed n < 0" "d = a_committed n"
    | (differs) "\<not> a_committed n < 0" "d \<noteq> a_committed n" by blast
  then show ?thesis
  proof cases
    case first
    then show ?thesis using auto_apply_tries [OF assms(1), of "n\<lparr>a_announced := True\<rparr>"] assms(2) by (simp add: decide_def tries_ok_def)
  next
    case same
    then show ?thesis using retry_actuator_bound [of "n\<lparr>a_candidate := -1, a_pending_s := -1\<rparr>"] assms(2)
      by (simp add: decide_def tries_ok_def)
  next
    case differs
    have "tries_ok (ripen now d n)" using assms(2) by (simp add: ripen_tries)
    with auto_apply_tries [OF assms(1) this, of env] show ?thesis
      unfolding decide_ripen [OF differs] Let_def by (simp add: tries_ok_def)
  qed
qed

lemma night_step_tries:
  assumes "tries_ok n" shows "tries_ok (night_step op n)"
proof (cases op)
  case (NTick env now)
  obtain d n1 where s: "sense env now n = (d, n1)" by (metis surj_pair)
  have "tries_ok n1" using sense_auto [OF s] assms tries_same by (auto simp: auto_off_def tries_ok_def split: if_splits)
  with NTick s show ?thesis using sense_reading [of env now n _ n1]
    by (cases d) (auto simp: night_tick_def intro!: decide_tries)
qed (use button_same_auto [of op n] tries_same assms in auto)

lemma night_run_tries: "tries_ok n \<Longrightarrow> night_run ops n = (h, n') \<Longrightarrow> tries_ok n'"
proof (induction ops arbitrary: n h)
  case (Cons op ops)
  from Cons.prems(2) obtain h' where "night_run ops (night_step op n) = (h', n')" by (auto split: prod.splits)
  from Cons.IH [OF night_step_tries [OF Cons.prems(1)] this] show ?case .
qed simp

lemma tick_same_light:
  assumes "tries_ok n" "0 \<le> a_committed n" "np_light_monitor (pins env n)"
    and "\<forall>r \<in> set (readings (NTick env now) n). snd r = a_committed n"
  shows "a_committed (night_tick env now n) = a_committed n
    \<and> mode_calls (night_tick env now n) + tries_left (night_tick env now n) \<le> mode_calls n + tries_left n"
proof -
  obtain d n1 where s: "sense env now n = (d, n1)" by (metis surj_pair)
  have same: "same_auto n n1" using sense_auto [OF s] assms(3) by simp
  note mc = sense_mode_calls [OF s]
  show ?thesis
  proof (cases d)
    case None
    with s same mc tries_same [OF same] show ?thesis by (simp add: night_tick_def same_auto_def)
  next
    case (Some dk)
    then have dk: "dk = a_committed n" "dk = a_committed n1" using assms(4) s same by (auto simp: same_auto_def)
    let ?m = "n1\<lparr>a_candidate := -1, a_pending_s := -1\<rparr>"
    have t: "night_tick env now n = retry_actuator env dk ?m"
      using s Some dk assms(2) by (simp add: night_tick_def decide_def)
    have m: "tries_ok ?m" "tries_left ?m = tries_left n" "mode_calls ?m = mode_calls n"
      using same assms(1) mc by (simp_all add: tries_ok_def tries_left_def same_auto_def)
    show ?thesis using retry_actuator_bound [OF m(1), of env dk] retry_actuator_mode [of env dk ?m] dk m(2,3) unfolding t by auto
  qed
qed

lemma ticks_same_light:
  "tries_ok n \<Longrightarrow> 0 \<le> a_committed n \<Longrightarrow> \<forall>(env, t) \<in> set ts. ne_get env ''night.light_monitor'' = ''true'' \<Longrightarrow>
   night_run (map (\<lambda>(env, t). NTick env t) ts) n = (h, n') \<Longrightarrow> \<forall>r \<in> set h. snd r = a_committed n \<Longrightarrow>
   mode_calls n' + tries_left n' \<le> mode_calls n + tries_left n"
proof (induction ts arbitrary: n h)
  case (Cons et ts)
  obtain env t where et: "et = (env, t)" by (cases et)
  let ?m = "night_tick env t n"
  from Cons.prems(4) et obtain h' where r: "night_run (map (\<lambda>(env, t). NTick env t) ts) ?m = (h', n')" "h = readings (NTick env t) n @ h'"
    by (auto split: prod.splits)
  have mon: "np_light_monitor (pins env n)" using Cons.prems(3) et by (simp add: pins_def Let_def)
  have here: "\<forall>r \<in> set (readings (NTick env t) n). snd r = a_committed n" using Cons.prems(5) r(2) by auto
  from tick_same_light [OF Cons.prems(1,2) mon here]
  have m: "a_committed ?m = a_committed n" "mode_calls ?m + tries_left ?m \<le> mode_calls n + tries_left n" by auto
  have "tries_ok ?m" using night_step_tries [OF Cons.prems(1), of "NTick env t"] by simp
  from Cons.IH [OF this _ _ r(1)] m Cons.prems(2,3,5) r(2) show ?case by auto
qed simp

section \<open>The filter's coil\<close>

text \<open>
  The rule for a two-pin filter: a coil is powered only in a direction it is not already in, and the power is taken away by the very next
  call. The state is the direction of the last pulse (-1: none yet).
\<close>

fun coil_step :: "string \<Rightarrow> string \<Rightarrow> gcall \<Rightarrow> int \<times> string option \<Rightarrow> (int \<times> string option) option" where
  "coil_step p1 p2 c (dir, Some x) = (if c = WriteOut x False then Some (dir, None) else None)"
| "coil_step p1 p2 c (dir, None) =
     (if c = WriteOut p1 True then (if dir \<noteq> 1 then Some (1, Some p1) else None)
      else if c = WriteOut p2 True then (if dir \<noteq> 0 then Some (0, Some p2) else None)
      else Some (dir, None))"

fun coil_run :: "string \<Rightarrow> string \<Rightarrow> gcall list \<Rightarrow> int \<times> string option \<Rightarrow> (int \<times> string option) option" where
  "coil_run p1 p2 [] st = Some st"
| "coil_run p1 p2 (c # cs) st = Option.bind (coil_step p1 p2 c st) (coil_run p1 p2 cs)"

lemma coil_run_append:
  "coil_run p1 p2 (xs @ ys) st = Option.bind (coil_run p1 p2 xs st) (coil_run p1 p2 ys)"
proof (induction xs arbitrary: st)
  case (Cons c cs)
  then show ?case by (cases "coil_step p1 p2 c st") auto
qed simp

text \<open>The configuration is for a two-pin filter whose pins nothing else drives.\<close>

definition two_pin :: "string \<Rightarrow> string \<Rightarrow> night_env \<Rightarrow> night \<Rightarrow> bool" where
  "two_pin p1 p2 env n \<longleftrightarrow> p1 \<noteq> p2 \<and> np_ircut_pin2 (pins env n) \<noteq> []
     \<and> pin_name env (np_ircut_pin1 (pins env n)) = p1 \<and> pin_name env (np_ircut_pin2 (pins env n)) = p2
     \<and> pin_name env (np_backlight_pin (pins env n)) \<noteq> p1 \<and> pin_name env (np_backlight_pin (pins env n)) \<noteq> p2"

definition coil_ok :: "string \<Rightarrow> string \<Rightarrow> night \<Rightarrow> night \<Rightarrow> bool" where
  "coil_ok p1 p2 n m \<longleftrightarrow>
     (\<exists>cs. n_log m = n_log n @ cs \<and> coil_run p1 p2 cs (n_ircut_driven n, None) = Some (n_ircut_driven m, None))"

lemma coil_ok_refl [simp]: "n_log m = n_log n \<Longrightarrow> n_ircut_driven m = n_ircut_driven n \<Longrightarrow> coil_ok p1 p2 n m"
  by (simp add: coil_ok_def)

lemma coil_ok_trans: "coil_ok p1 p2 a b \<Longrightarrow> coil_ok p1 p2 b c \<Longrightarrow> coil_ok p1 p2 a c"
  unfolding coil_ok_def by (metis append.assoc bind.bind_lunit coil_run_append)

lemma coil_ok_one:
  "n_log m = n_log n @ [c] \<Longrightarrow> n_ircut_driven m = n_ircut_driven n \<Longrightarrow> c \<noteq> WriteOut p1 True \<Longrightarrow> c \<noteq> WriteOut p2 True \<Longrightarrow> coil_ok p1 p2 n m"
  by (simp add: coil_ok_def)

lemma coil_ok_two:
  "n_log m = n_log n @ [c, d] \<Longrightarrow> n_ircut_driven m = n_ircut_driven n \<Longrightarrow> c \<noteq> WriteOut p1 True \<Longrightarrow> c \<noteq> WriteOut p2 True
   \<Longrightarrow> d \<noteq> WriteOut p1 True \<Longrightarrow> d \<noteq> WriteOut p2 True \<Longrightarrow> coil_ok p1 p2 n m"
  by (simp add: coil_ok_def)

lemma drive_coil_ok:
  assumes "p1 \<noteq> p2" "drive_coil env p1 p2 b n = (e, n')" shows "coil_ok p1 p2 n n'"
  using assms by (auto simp: drive_coil_def Let_def coil_ok_def split: if_splits)

lemma drive_ircut_coil:
  assumes "two_pin p1 p2 env n" "drive_ircut env b n = (e, n')" shows "coil_ok p1 p2 n n'"
proof -
  have "(\<exists>e. n' = n) \<or> (\<exists>e. drive_coil env p1 p2 b n = (e, n'))"
    using assms by (auto simp: drive_ircut_def two_pin_def Let_def split: if_splits)
  then show ?thesis using drive_coil_ok assms(1) by (auto simp: two_pin_def)
qed

lemma drive_light_coil:
  assumes "two_pin p1 p2 env n" "drive_light env b n = (e, n')" shows "coil_ok p1 p2 n n'"
  using assms
  by (auto simp: drive_light_def two_pin_def Let_def intro: coil_ok_one coil_ok_two split: if_splits)

lemma two_pin_same: "same_auto n m \<Longrightarrow> two_pin p1 p2 env m = two_pin p1 p2 env n"
  by (simp add: two_pin_def pins_same_auto)

lemma drive_actuators_coil:
  assumes "two_pin p1 p2 env n" "drive_actuators env b n = (e, n')" shows "coil_ok p1 p2 n n'"
proof -
  obtain ae m where m: "(if np_ircut (pins env n) \<and> np_ircut_pin1 (pins env n) \<noteq> [] then drive_ircut env (\<not> b) n else ([], n)) = (ae, m)"
    by (metis surj_pair)
  then have "coil_ok p1 p2 n m" "same_auto n m"
    by (auto dest: drive_ircut_coil [OF assms(1)] drive_ircut_same split: if_splits)
  moreover have "coil_ok p1 p2 m n'"
    using assms(2) m two_pin_same [OF \<open>same_auto n m\<close>] assms(1)
    by (auto simp: drive_actuators_def Let_def dest: drive_light_coil split: if_splits prod.splits)
  ultimately show ?thesis using coil_ok_trans by blast
qed

lemma apply_running_mode_coil: "apply_running_mode env b n = (e, n') \<Longrightarrow> coil_ok p1 p2 n n'"
  by (auto simp: apply_running_mode_def Let_def intro: coil_ok_one split: if_splits prod.splits)

lemma set_night_locked_coil:
  assumes "two_pin p1 p2 env n" "set_night_locked env b n = (e, ae, n')" shows "coil_ok p1 p2 n n'"
proof -
  obtain e1 m where m: "apply_running_mode env b n = (e1, m)" by (metis surj_pair)
  obtain ae' k where k: "drive_actuators env b (m\<lparr>n_night := b\<rparr>) = (ae', k)" by (metis surj_pair)
  have nm: "coil_ok p1 p2 n m" by (rule apply_running_mode_coil [OF m])
  have "same_auto n (m\<lparr>n_night := b\<rparr>)" using apply_running_mode_same [OF m] by (simp add: same_auto_def)
  from drive_actuators_coil [OF two_pin_same [OF this, THEN iffD2, OF assms(1)] k]
  have "coil_ok p1 p2 m k" by (simp add: coil_ok_def)
  with nm assms(2) m k show ?thesis by (auto simp: set_night_locked_def intro: coil_ok_trans split: if_splits)
qed

lemma sense_coil: "sense env now n = (d, n') \<Longrightarrow> coil_ok p1 p2 n n'"
  by (auto simp: sense_def read_sensor_def auto_fail_def auto_off_def Let_def intro: coil_ok_one coil_ok_two split: if_splits)

lemma coil_ok_auto:
  "coil_ok p1 p2 n m \<Longrightarrow> n_log k = n_log m \<Longrightarrow> n_ircut_driven k = n_ircut_driven m \<Longrightarrow> coil_ok p1 p2 n k"
  "coil_ok p1 p2 n m \<Longrightarrow> n_log k = n_log n \<Longrightarrow> n_ircut_driven k = n_ircut_driven n \<Longrightarrow> coil_ok p1 p2 k m"
  by (simp_all add: coil_ok_def)

lemma auto_apply_coil:
  assumes "two_pin p1 p2 env n" shows "coil_ok p1 p2 n (auto_apply env d n)"
proof -
  obtain e ae m where s: "set_night_locked env (d = 1) n = (e, ae, m)" by (metis prod_cases3)
  from coil_ok_auto(1) [OF set_night_locked_coil [OF assms s]] show ?thesis by (simp add: auto_apply_def s Let_def)
qed

lemma retry_actuator_coil:
  assumes "two_pin p1 p2 env n" shows "coil_ok p1 p2 n (retry_actuator env d n)"
proof -
  obtain e ae m where s: "set_night_locked env (d = 1) n = (e, ae, m)" by (metis prod_cases3)
  from coil_ok_auto(1) [OF set_night_locked_coil [OF assms s]] show ?thesis by (simp add: retry_actuator_def s Let_def)
qed

lemma two_pin_upd [simp]:
  "two_pin p1 p2 env (n\<lparr>a_announced := x\<rparr>) = two_pin p1 p2 env n"
  "two_pin p1 p2 env (n\<lparr>a_candidate := c, a_pending_s := x2\<rparr>) = two_pin p1 p2 env n"
  "two_pin p1 p2 env (ripen now d n) = two_pin p1 p2 env n"
proof -
  have "pins env (n\<lparr>a_announced := x\<rparr>) = pins env n" "pins env (n\<lparr>a_candidate := c, a_pending_s := x2\<rparr>) = pins env n"
    by (rule pins_cong; simp)+
  then show "two_pin p1 p2 env (n\<lparr>a_announced := x\<rparr>) = two_pin p1 p2 env n"
    "two_pin p1 p2 env (n\<lparr>a_candidate := c, a_pending_s := x2\<rparr>) = two_pin p1 p2 env n"
    by (simp_all only: two_pin_def)
  show "two_pin p1 p2 env (ripen now d n) = two_pin p1 p2 env n" by (simp only: two_pin_def pins_ripen)
qed

lemma decide_coil:
  assumes "two_pin p1 p2 env n" shows "coil_ok p1 p2 n (decide env now d n)"
proof -
  have 1: "coil_ok p1 p2 n (auto_apply env d (n\<lparr>a_announced := True\<rparr>))"
    using auto_apply_coil [of p1 p2 env "n\<lparr>a_announced := True\<rparr>" d] assms by (simp add: coil_ok_def)
  have 2: "coil_ok p1 p2 n (retry_actuator env d (n\<lparr>a_candidate := -1, a_pending_s := -1\<rparr>))"
    using retry_actuator_coil [of p1 p2 env "n\<lparr>a_candidate := -1, a_pending_s := -1\<rparr>" d] assms by (simp add: coil_ok_def)
  have r: "n_log (ripen now d n) = n_log n" "n_ircut_driven (ripen now d n) = n_ircut_driven n" by (simp_all add: ripen_def)
  have 3: "coil_ok p1 p2 n (auto_apply env d (ripen now d n))"
    using auto_apply_coil [of p1 p2 env "ripen now d n" d] assms r by (simp add: coil_ok_def)
  consider (first) "a_committed n < 0" | (same) "\<not> a_committed n < 0" "d = a_committed n"
    | (differs) "\<not> a_committed n < 0" "d \<noteq> a_committed n" by blast
  then show ?thesis
  proof cases
    case first then show ?thesis using 1 by (simp add: decide_def)
  next
    case same then show ?thesis using 2 by (simp add: decide_def)
  next
    case differs show ?thesis unfolding decide_ripen [OF differs] Let_def using 3 r by simp
  qed
qed

text \<open>The board's defaults do not change during a run.\<close>

definition same_defaults :: "night \<Rightarrow> night \<Rightarrow> bool" where
  "same_defaults n m \<longleftrightarrow> n_def_ircut_pin1 m = n_def_ircut_pin1 n \<and> n_def_ircut_pin2 m = n_def_ircut_pin2 n
     \<and> n_def_light_sensor_pin m = n_def_light_sensor_pin n"

lemma same_auto_defaults: "same_auto n m \<Longrightarrow> same_defaults n m"
  by (simp add: same_auto_def same_defaults_def)

lemma auto_apply_defaults: "same_defaults n (auto_apply env d n)"
proof -
  obtain e ae m where s: "set_night_locked env (d = 1) n = (e, ae, m)" by (metis prod_cases3)
  from set_night_locked_same [OF s] show ?thesis by (simp add: auto_apply_def s Let_def same_auto_def same_defaults_def)
qed

lemma retry_actuator_defaults: "same_defaults n (retry_actuator env d n)"
proof -
  obtain e ae m where s: "set_night_locked env (d = 1) n = (e, ae, m)" by (metis prod_cases3)
  from set_night_locked_same [OF s] show ?thesis by (simp add: retry_actuator_def s Let_def same_auto_def same_defaults_def)
qed

lemma decide_defaults: "same_defaults n (decide env now d n)"
  using auto_apply_defaults [of "n\<lparr>a_announced := True\<rparr>" env d] auto_apply_defaults [of n env d]
    auto_apply_defaults [of "n\<lparr>a_candidate := d, a_candidate_since_ms := now, a_switch_error := []\<rparr>" env d]
    retry_actuator_defaults [of "n\<lparr>a_candidate := -1, a_pending_s := -1\<rparr>" env "a_committed n"]
  by (simp add: decide_def same_defaults_def Let_def)

lemma night_step_defaults: "same_defaults n (night_step op n)"
proof (cases op)
  case (NTick env now)
  obtain d n1 where s: "sense env now n = (d, n1)" by (metis surj_pair)
  have "same_defaults n n1"
    using sense_auto [OF s] by (auto simp: auto_off_def same_auto_def same_defaults_def split: if_splits)
  then show ?thesis using NTick s decide_defaults [of n1 env now "the d"]
    by (cases d) (auto simp: night_tick_def same_defaults_def)
qed (use button_same_auto [of op n] same_auto_defaults in auto)

fun env_of_op :: "night_op \<Rightarrow> night_env" where
  "env_of_op (NTick env now) = env"
| "env_of_op (NSet env on) = env"
| "env_of_op (NToggle env) = env"
| "env_of_op (NIrcut env) = env"
| "env_of_op (NLight env) = env"
| "env_of_op (NReapply env) = env"

lemma night_step_coil:
  assumes "two_pin p1 p2 (env_of_op op) n" shows "coil_ok p1 p2 n (night_step op n)"
proof (cases op)
  case (NTick env now)
  obtain d n1 where s: "sense env now n = (d, n1)" by (metis surj_pair)
  have c: "coil_ok p1 p2 n n1" by (rule sense_coil [OF s])
  have "pins env n1 = pins env n"
    using sense_auto [OF s] by (intro pins_cong) (auto simp: auto_off_def same_auto_def split: if_splits)
  then have "two_pin p1 p2 env n1" using assms NTick by (simp add: two_pin_def)
  from decide_coil [OF this, of now "the d"] c NTick s show ?thesis
    by (cases d) (auto simp: night_tick_def intro: coil_ok_trans)
next
  case (NSet env on)
  obtain e ae m where "set_night_locked env on n = (e, ae, m)" by (metis prod_cases3)
  with set_night_locked_coil assms NSet show ?thesis by (simp add: set_night_def)
next
  case (NToggle env)
  obtain e ae m where "set_night_locked env (\<not> n_night n) n = (e, ae, m)" by (metis prod_cases3)
  with set_night_locked_coil assms NToggle show ?thesis by (simp add: toggle_night_def)
next
  case (NIrcut env)
  with drive_ircut_coil assms show ?thesis by (cases "drive_ircut env (\<not> n_ircut n) n") (simp add: toggle_ircut_def)
next
  case (NLight env)
  with drive_light_coil assms show ?thesis by (cases "drive_light env (\<not> n_light n) n") (simp add: toggle_light_def)
next
  case (NReapply env)
  with apply_running_mode_coil show ?thesis
    by (cases "apply_running_mode env (n_night n) n") (simp add: reapply_running_mode_def)
qed

lemma night_run_coil:
  "\<forall>op \<in> set ops. two_pin p1 p2 (env_of_op op) n \<Longrightarrow> night_run ops n = (h, n') \<Longrightarrow> coil_ok p1 p2 n n'"
proof (induction ops arbitrary: n h)
  case (Cons op ops)
  obtain h' where r: "night_run ops (night_step op n) = (h', n')" using Cons.prems(2) by (auto split: prod.splits)
  have "pins env (night_step op n) = pins env n" for env
    using night_step_defaults [of n op] by (intro pins_cong) (simp_all add: same_defaults_def)
  then have "\<forall>op' \<in> set ops. two_pin p1 p2 (env_of_op op') (night_step op n)" using Cons.prems(1) by (simp add: two_pin_def)
  from Cons.IH [OF this r] night_step_coil [of p1 p2 op n] Cons.prems(1) show ?case using coil_ok_trans by auto
qed simp

section \<open>Properties\<close>

text \<open>C14: The automation has patience. Whatever happened before, in any order of ticks and manual buttons: when a tick of an engaged automation
  changes the mode, the light had been reported as the new one at every reading from some moment on, and that moment lies back
  at least the configured delay for night or for day. Every flicker in between starts the wait again.\<close>

theorem auto_switch_needs_stable_light:
  assumes "night_run ops night_new = (h, n)" "0 \<le> a_committed n" "n_night (night_tick env now n) \<noteq> n_night n"
  shows "\<exists>d pre t0 post. h @ readings (NTick env now) n = pre @ (t0, d) # post \<and> (\<forall>e \<in> set post. snd e = d)
    \<and> d \<noteq> a_committed n \<and> n_night (night_tick env now n) = (d = 1)
    \<and> (if d \<noteq> 0 then np_auto_night_delay_s (pins env n) else np_auto_day_delay_s (pins env n)) * 1000 \<le> now - t0"
proof -
  have "cand_ok [] night_new" by (simp add: cand_ok_def night_new_def)
  from night_run_cand_ok [OF this assms(1)] have "cand_ok h n" by simp
  from tick_mode_change [OF this assms(2,3)] show ?thesis unfolding delay_ms_def by blast
qed

definition demo_night :: "(string \<times> string) list \<Rightarrow> (nat \<Rightarrow> result) \<Rightarrow> (nat \<Rightarrow> bool \<times> string) \<Rightarrow> bool \<Rightarrow> night_env" where
  "demo_night extra ans tune level =
     \<lparr>ne_get = (\<lambda>k. case map_of ([(''night.light_monitor'', ''true''), (''night.light_sensor_pin'', ''PC12'')] @ extra) k of
                  None \<Rightarrow> [] | Some v \<Rightarrow> v),
      ne_gpio = True, ne_name_of = None, ne_resolve = (\<lambda>_. None), ne_answer = ans, ne_tune = tune, ne_level = level,
      ne_atoi_overflow = (\<lambda>_. 0)\<rparr>"

definition willing :: "bool \<Rightarrow> night_env" where
  "willing = demo_night [] (\<lambda>_. result_ok) (\<lambda>_. (True, []))"

theorem auto_switch_needs_stable_light_witness:
  "let (h, n) = night_run [NTick (willing False) 0, NTick (willing True) 1000] night_new
   in 0 \<le> a_committed n \<and> n_night (night_tick (willing True) 4000 n) \<noteq> n_night n
      \<and> (\<exists>d pre t0 post. h @ readings (NTick (willing True) 4000) n = pre @ (t0, d) # post \<and> d \<noteq> a_committed n)"
proof -
  let ?r = "night_run [NTick (willing False) 0, NTick (willing True) 1000] night_new"
  have e: "?r = (fst ?r, snd ?r)" by simp
  have c: "0 \<le> a_committed (snd ?r)" and d: "n_night (night_tick (willing True) 4000 (snd ?r)) \<noteq> n_night (snd ?r)" by code_simp+
  from auto_switch_needs_stable_light [OF e c d] c d show ?thesis unfolding case_prod_beta Let_def by blast
qed


definition unwilling :: "bool \<Rightarrow> night_env" where
  "unwilling = demo_night [] (\<lambda>_. result_ok) (\<lambda>_. (False, ''no ISP yet''))"


text \<open>A broken actuator is not retried all night. From any state the service can be in, however many ticks follow that read the light as
  committed (or read nothing), the mode is asked for at most five more times.\<close>

theorem actuator_retries_bounded:
  assumes "night_run ops night_new = (h, n)" "0 \<le> a_committed n"
    and "\<forall>(env, t) \<in> set ts. ne_get env ''night.light_monitor'' = ''true''"
    and "night_run (map (\<lambda>(env, t). NTick env t) ts) n = (h', n')" "\<forall>r \<in> set h'. snd r = a_committed n"
  shows "length (filter is_mode_call (n_log n')) \<le> length (filter is_mode_call (n_log n)) + 5"
proof -
  have "tries_ok night_new" by (simp add: tries_ok_def night_new_def)
  then have ok: "tries_ok n" using night_run_tries assms(1) by blast
  then have "tries_left n \<le> 5" by (auto simp: tries_left_def tries_ok_def)
  with ticks_same_light [OF ok assms(2-5)] show ?thesis by linarith
qed

definition light_only :: "bool \<Rightarrow> night_env" where
  "light_only = demo_night [(''night.backlight'', ''true''), (''night.backlight_pin'', ''PB9'')]
     (\<lambda>k. if k = 0 \<or> k = 1 then result_ok else result_busy) (\<lambda>_. (True, []))"

theorem actuator_retries_bounded_witness:
  "let n = snd (night_run [NTick (light_only True) 0] night_new);
       n' = snd (night_run (map (\<lambda>(env, t). NTick env t) [(light_only True, 2000), (light_only True, 4000)]) n)
   in 0 \<le> a_committed n \<and> length (filter is_mode_call (n_log n')) \<le> length (filter is_mode_call (n_log n)) + 5"
proof -
  let ?r = "night_run [NTick (light_only True) 0] night_new"
  let ?q = "night_run (map (\<lambda>(env, t). NTick env t) [(light_only True, 2000), (light_only True, 4000)]) (snd ?r)"
  have e: "?r = (fst ?r, snd ?r)" "?q = (fst ?q, snd ?q)" by simp_all
  have c: "0 \<le> a_committed (snd ?r)" by code_simp
  have g: "\<forall>(env, t) \<in> set [(light_only True, 2000), (light_only True, 4000)]. ne_get env ''night.light_monitor'' = ''true''"
    by (simp add: light_only_def demo_night_def)
  have h: "\<forall>r \<in> set (fst ?q). snd r = a_committed (snd ?r)" by code_simp
  from actuator_retries_bounded [OF e(1) c g e(2) h] c show ?thesis unfolding Let_def by blast
qed


definition coil_env :: "bool \<Rightarrow> night_env" where
  "coil_env = demo_night [(''night.ircut'', ''true''), (''night.ircut_pin1'', ''PB17''), (''night.ircut_pin2'', ''PB18'')]
     (\<lambda>_. result_ok) (\<lambda>_. (True, []))"


text \<open>A follow-up on a failed actuator can mistake a refused mode for success. When the mode itself is refused during the follow-up, the
  actuators are not driven and their error stays empty, which the code reads as recovered: the error is erased and the follow-ups end, with
  the light still off.\<close>

theorem refused_mode_ends_follow_up:
  assumes "a_actuator_pending n" "n_night n" "fst (ne_tune env (length (n_log n))) = False"
  shows "\<not> a_actuator_pending (retry_actuator env 1 n) \<and> a_switch_error (retry_actuator env 1 n) = []
    \<and> n_light (retry_actuator env 1 n) = n_light n"
  using assms by (auto simp: retry_actuator_def set_night_locked_def apply_running_mode_def Let_def split: prod.splits)

text \<open>A pulse that failed counts as driven. The results of the three writes of a pulse are not looked at: a write that is refused leaves the filter
  where it was, yet the service records the new direction and reports success, and from then on every attempt in that direction is skipped.\<close>

theorem failed_pulse_counts_as_driven:
  assumes "n_ircut_driven n \<noteq> 1" "is_ok (ne_answer env (length (n_log n)))" "is_ok (ne_answer env (length (n_log n) + 1))"
    and "\<And>k. 2 \<le> k \<Longrightarrow> \<not> is_ok (ne_answer env (length (n_log n) + k))" "drive_coil env p1 p2 True n = (e, n')"
  shows "e = [] \<and> n_ircut n' \<and> (\<forall>env'. drive_coil env' p1 p2 True n' = ([], n'))"
  using assms by (auto simp: drive_coil_def answer_def Let_def)

end
