(* ===== verification/Modem_Ports.thy ===== *)
theory Modem_Ports
  imports Prelude "HOL-Library.List_Lexorder" "HOL-Library.Product_Lexorder" "HOL-Library.Char_ord"
begin

text \<open>
  Which serial port of the modem is which (\<^verbatim>\<open>core/cellular/modem_ports.cpp\<close>), from what a scan of sysfs finds in whatever order. Text is compared byte by byte, as the
  library's order on lists of characters does, and \<^verbatim>\<open>std::sort\<close> by the pair of interface number and device is \<open>sort_key\<close>: ports that the comparison cannot tell apart have the
  same number and device, so that their order does not matter below.
\<close>

record serial_port =
  sp_device :: string
  sp_vid :: string
  sp_pid :: string
  sp_interface :: int

record modem_ports =
  mp_present :: bool
  mp_mapped :: bool
  mp_at :: string
  mp_diag :: string
  mp_modem :: string
  mp_all :: "serial_port list"

record net_device =
  nd_name :: string
  nd_driver :: string
  nd_vid :: string
  nd_pid :: string

definition lower :: "char \<Rightarrow> char" where
  "lower c = (if CHR ''A'' \<le> c \<and> c \<le> CHR ''Z'' then char_of (of_char c + 32 :: nat) else c)"

definition iequal :: "string \<Rightarrow> string \<Rightarrow> bool" where
  "iequal a b \<longleftrightarrow> length a = length b \<and> list_all2 (\<lambda>x y. lower x = lower y) a b"

section \<open>Names from a link\<close>

text \<open>A component that looks like a USB interface: bus-port before the colon, config.interface behind it.\<close>

definition usb_component :: "string \<Rightarrow> (string \<times> string) option" where
  "usb_component x =
     (let dev = takeWhile (\<lambda>c. c \<noteq> CHR '':'') x; rest = dropWhile (\<lambda>c. c \<noteq> CHR '':'') x
      in if rest \<noteq> [] \<and> dev \<noteq> [] \<and> 1 < length rest \<and> CHR ''-'' \<in> set dev \<and> CHR ''.'' \<in> set rest then Some (x, dev) else None)"

text \<open>The components from the back; the argument is the part of the link before \<^verbatim>\<open>end\<close>, reversed.\<close>

function link_loop :: "string \<Rightarrow> (string \<times> string) option" where
  "link_loop r =
     (case dropWhile (\<lambda>c. c = CHR ''/'') r of
        [] \<Rightarrow> None
      | c # cs \<Rightarrow>
          (case usb_component (rev (takeWhile (\<lambda>c. c \<noteq> CHR ''/'') (c # cs))) of
             Some names \<Rightarrow> Some names
           | None \<Rightarrow> link_loop (drop 1 (dropWhile (\<lambda>c. c \<noteq> CHR ''/'') (c # cs)))))"
  by pat_completeness auto
termination
proof (relation "measure length", simp)
  fix r c cs assume "dropWhile (\<lambda>c. c = CHR ''/'') r = c # cs"
  then have "r = takeWhile (\<lambda>c. c = CHR ''/'') r @ c # cs" and c: "c \<noteq> CHR ''/''" unfolding dropWhile_eq_Cons_conv by simp_all
  then have "length r = length (takeWhile (\<lambda>c. c = CHR ''/'') r) + length (c # cs)" by (metis length_append)
  with c show "(drop 1 (dropWhile (\<lambda>c. c \<noteq> CHR ''/'') (c # cs)), r) \<in> measure length"
    using length_dropWhile_le [of "\<lambda>c. c \<noteq> CHR ''/''" cs] by auto
qed

declare link_loop.simps [simp del]

definition usb_names_from_tty_link :: "string \<Rightarrow> (string \<times> string) option" where
  "usb_names_from_tty_link link = link_loop (rev link)"

definition find_ecm_interface :: "net_device list \<Rightarrow> string \<Rightarrow> string \<Rightarrow> string" where
  "find_ecm_interface devices vid pid =
     (case find (\<lambda>d. iequal (nd_vid d) vid \<and> iequal (nd_pid d) pid \<and> (nd_driver d = ''cdc_ether'' \<or> nd_driver d = ''cdc_ncm'')) devices of
        None \<Rightarrow> [] | Some d \<Rightarrow> nd_name d)"

section \<open>Roles\<close>

definition ours :: "string \<Rightarrow> string \<Rightarrow> serial_port \<Rightarrow> bool" where
  "ours vid pid p \<longleftrightarrow> iequal (sp_vid p) vid \<and> iequal (sp_pid p) pid \<and> sp_device p \<noteq> []"

definition assign_role :: "serial_port \<Rightarrow> modem_ports \<Rightarrow> modem_ports" where
  "assign_role p m =
     (if sp_interface p = 2 then (if mp_diag m = [] then m\<lparr>mp_diag := sp_device p, mp_mapped := True\<rparr> else m)
      else if sp_interface p = 3 then (if mp_at m = [] then m\<lparr>mp_at := sp_device p, mp_mapped := True\<rparr> else m)
      else if sp_interface p = 4 then (if mp_modem m = [] then m\<lparr>mp_modem := sp_device p, mp_mapped := True\<rparr> else m)
      else m)"

definition map_modem_ports :: "serial_port list \<Rightarrow> string \<Rightarrow> string \<Rightarrow> modem_ports" where
  "map_modem_ports ports vid pid =
     (let all = filter (ours vid pid) ports; none = \<lparr>mp_present = False, mp_mapped = False, mp_at = [], mp_diag = [], mp_modem = [], mp_all = all\<rparr>
      in if all = [] then none
         else let all = sort_key (\<lambda>p. (sp_interface p, sp_device p)) all in fold assign_role all (none\<lparr>mp_present := True, mp_all := all\<rparr>))"

section \<open>What the roles are\<close>

text \<open>The devices of the modem on an interface, and the first of them by name.\<close>

definition devices_on :: "serial_port list \<Rightarrow> string \<Rightarrow> string \<Rightarrow> int \<Rightarrow> string set" where
  "devices_on ports vid pid k = sp_device ` {p \<in> set ports. ours vid pid p \<and> sp_interface p = k}"

definition first_name :: "string set \<Rightarrow> string" where
  "first_name ds = (if ds = {} then [] else Min ds)"

definition first_on :: "int \<Rightarrow> serial_port list \<Rightarrow> string" where
  "first_on k ps = (case filter (\<lambda>p. sp_interface p = k) ps of [] \<Rightarrow> [] | p # _ \<Rightarrow> sp_device p)"

lemma fold_assign_role:
  assumes "list_all (\<lambda>p. sp_device p \<noteq> []) ps"
  shows "mp_diag (fold assign_role ps m) = (if mp_diag m = [] then first_on 2 ps else mp_diag m)"
    "mp_at (fold assign_role ps m) = (if mp_at m = [] then first_on 3 ps else mp_at m)"
    "mp_modem (fold assign_role ps m) = (if mp_modem m = [] then first_on 4 ps else mp_modem m)"
    "mp_present (fold assign_role ps m) = mp_present m" "mp_all (fold assign_role ps m) = mp_all m"
  using assms by (induction ps arbitrary: m) (auto simp: assign_role_def first_on_def)

lemma first_on_sorted:
  assumes "sorted (map (\<lambda>p. (sp_interface p, sp_device p)) ps)"
  shows "first_on k ps = first_name (sp_device ` {p \<in> set ps. sp_interface p = k})"
proof (cases "filter (\<lambda>p. sp_interface p = k) ps")
  case Nil
  then have "{p \<in> set ps. sp_interface p = k} = {}" by (auto simp: filter_empty_conv)
  then show ?thesis using Nil by (simp add: first_on_def first_name_def)
next
  case (Cons q qs)
  have s: "{p \<in> set ps. sp_interface p = k} = set (q # qs)" using Cons by (metis set_filter)
  have "sorted (map (\<lambda>p. (sp_interface p, sp_device p)) (q # qs))" using sorted_filter [OF assms, of "\<lambda>p. sp_interface p = k"] Cons by simp
  moreover have "sp_interface p = k" if "p \<in> set (q # qs)" for p using that s by auto
  ultimately have "\<forall>p\<in>set (q # qs). sp_device q \<le> sp_device p" by auto
  then have "Min (sp_device ` set (q # qs)) = sp_device q" by (intro Min_eqI) auto
  then show ?thesis unfolding s by (simp add: first_on_def first_name_def Cons)
qed

lemma roles_of_ports:
  "mp_diag (map_modem_ports ports vid pid) = first_name (devices_on ports vid pid 2)"
  "mp_at (map_modem_ports ports vid pid) = first_name (devices_on ports vid pid 3)"
  "mp_modem (map_modem_ports ports vid pid) = first_name (devices_on ports vid pid 4)"
  "mp_present (map_modem_ports ports vid pid) \<longleftrightarrow> (\<exists>p\<in>set ports. ours vid pid p)"
proof -
  let ?all = "filter (ours vid pid) ports" and ?key = "\<lambda>p. (sp_interface p, sp_device p)"
  let ?s = "sort_key ?key ?all"
  have "list_all (\<lambda>p. sp_device p \<noteq> []) ?s" by (auto simp: list_all_iff ours_def)
  note f = fold_assign_role [OF this]
  have d: "sp_device ` {p \<in> set ?s. sp_interface p = k} = devices_on ports vid pid k" for k
    by (simp add: devices_on_def conj_assoc)
  have r: "first_on k ?s = first_name (devices_on ports vid pid k)" for k
    using first_on_sorted [of ?s k] by (simp only: sorted_sort_key d)
  define none where "none = \<lparr>mp_present = False, mp_mapped = False, mp_at = [], mp_diag = [], mp_modem = [], mp_all = ?all\<rparr>"
  have m: "map_modem_ports ports vid pid = (if ?all = [] then none else fold assign_role ?s (none\<lparr>mp_present := True, mp_all := ?s\<rparr>))"
    by (simp only: map_modem_ports_def Let_def none_def)
  have e: "first_name (devices_on ports vid pid k) = []" if "?all = []" for k using that by (auto simp: first_name_def devices_on_def filter_empty_conv)
  show "mp_diag (map_modem_ports ports vid pid) = first_name (devices_on ports vid pid 2)"
    "mp_at (map_modem_ports ports vid pid) = first_name (devices_on ports vid pid 3)"
    "mp_modem (map_modem_ports ports vid pid) = first_name (devices_on ports vid pid 4)"
    unfolding m if_distrib [of mp_diag] if_distrib [of mp_at] if_distrib [of mp_modem] f r using e by (simp_all add: none_def)
  show "mp_present (map_modem_ports ports vid pid) \<longleftrightarrow> (\<exists>p\<in>set ports. ours vid pid p)"
    unfolding m if_distrib [of mp_present] f by (auto simp: none_def filter_empty_conv)
qed

section \<open>Properties\<close>

text \<open>The roles of the modem's ports do not depend on the order in which the kernel lists them. The AT port is the first device, by name, that the modem has on interface 3, the data port
  the one on interface 4 and the diagnostic port the one on interface 2, whatever other ports there are and in whatever order; a role is empty exactly when the modem has no such port.\<close>

theorem modem_roles_by_interface:
  "let m = map_modem_ports ports vid pid in
   mp_at m = first_name (devices_on ports vid pid 3) \<and> mp_modem m = first_name (devices_on ports vid pid 4) \<and> mp_diag m = first_name (devices_on ports vid pid 2)
   \<and> (mp_at m = [] \<longleftrightarrow> devices_on ports vid pid 3 = {})"
proof -
  have "first_name ds = [] \<longleftrightarrow> ds = {}" if "finite ds" "[] \<notin> ds" for ds
  proof (cases "ds = {}")
    case False
    then have "Min ds \<in> ds" using that(1) by (rule Min_in [rotated])
    then show ?thesis using False that(2) by (auto simp: first_name_def)
  qed (simp add: first_name_def)
  moreover have "finite (devices_on ports vid pid 3)" "[] \<notin> devices_on ports vid pid 3" by (auto simp: devices_on_def ours_def)
  ultimately show ?thesis unfolding Let_def roles_of_ports by blast
qed

end
