(* ===== verification/Bit_Stream.thy ===== *)
theory Bit_Stream
  imports Prelude "HOL-Library.State_Monad"
begin

text \<open>
  The bit reader and writer of \<^verbatim>\<open>app/rtsp/h264_nal.cpp\<close> (\<^verbatim>\<open>BitReader\<close>, \<^verbatim>\<open>BitWriter\<close>). A reading program is a program in the state monad over the
  reader; that its result depends on the bits it has consumed only (\<open>local\<close>) is closed under the monad's operations, so that it holds of any parser built from
  them. Shown besides: the writer appends bits, and what \<^verbatim>\<open>ue\<close> writes, \<^verbatim>\<open>ue\<close> reads.
\<close>

unbundle bit_operations_syntax

section \<open>Definitions\<close>

text \<open>The bits of a buffer, most significant bit of each byte first.\<close>

definition bit_at :: "byte list \<Rightarrow> nat \<Rightarrow> bool" where
  "bit_at b i = bit (b ! (i div 8)) (7 - i mod 8)"

subsection \<open>Reader\<close>

record bit_reader =
  br_b :: "byte list"
  br_pos :: nat
  br_bad :: bool

type_synonym 'a reading = "(bit_reader, 'a) state"

definition reader_new :: "byte list \<Rightarrow> bit_reader" where
  "reader_new v = \<lparr>br_b = v, br_pos = 0, br_bad = False\<rparr>"

definition rd_bit :: "u32 reading" where
  "rd_bit = State (\<lambda>r. if length (br_b r) * 8 \<le> br_pos r then (0, r\<lparr>br_bad := True\<rparr>)
                       else (of_bool (bit_at (br_b r) (br_pos r)), r\<lparr>br_pos := br_pos r + 1\<rparr>))"

fun rd_u_loop :: "nat \<Rightarrow> u32 \<Rightarrow> u32 reading" where
  "rd_u_loop 0 v = State_Monad.return v"
| "rd_u_loop (Suc n) v = do {x \<leftarrow> rd_bit; rd_u_loop n (push_bit 1 v OR x)}"

definition rd_u :: "nat \<Rightarrow> u32 reading" where
  "rd_u n = rd_u_loop n 0"

text \<open>\<open>while (bit() == 0 && z < 32 && !bad) ++z;\<close>\<close>

definition rd_ok :: "bool reading" where
  "rd_ok = State (\<lambda>r. (\<not> br_bad r, r))"

function ue_zeros :: "nat \<Rightarrow> nat reading" where
  "ue_zeros z = do {x \<leftarrow> rd_bit; ok \<leftarrow> rd_ok;
     if x = 0 \<and> z < 32 \<and> ok then ue_zeros (z + 1) else State_Monad.return z}"
  by pat_completeness auto
termination by (relation "measure (\<lambda>z. 32 - z)") auto

declare ue_zeros.simps [simp del]

text \<open>\<open>for (int i = 0; i < z; ++i) v += bit() << (z - 1 - i);\<close>, with the number of bits to come.\<close>

fun ue_suffix :: "nat \<Rightarrow> u32 \<Rightarrow> u32 reading" where
  "ue_suffix 0 v = State_Monad.return v"
| "ue_suffix (Suc k) v = do {x \<leftarrow> rd_bit; ue_suffix k (v + push_bit k x)}"

definition rd_bad :: "unit reading" where
  "rd_bad = State (\<lambda>r. ((), r\<lparr>br_bad := True\<rparr>))"

definition rd_ue :: "u32 reading" where
  "rd_ue = do {z \<leftarrow> ue_zeros 0;
     if 32 \<le> z then do {_ \<leftarrow> rd_bad; State_Monad.return 0} else ue_suffix z (push_bit z 1 - 1)}"

text \<open>A signed value, in two's complement.\<close>

definition rd_se :: "u32 reading" where
  "rd_se = do {k \<leftarrow> rd_ue; State_Monad.return (if bit k 0 then (k + 1) div 2 else - (k div 2))}"

subsection \<open>Writer\<close>

record bit_writer =
  bw_b :: "byte list"
  bw_fill :: nat

definition writer_new :: bit_writer where
  "writer_new = \<lparr>bw_b = [], bw_fill = 0\<rparr>"

definition wr_bit :: "bool \<Rightarrow> bit_writer \<Rightarrow> bit_writer" where
  "wr_bit v w =
     (let b = (if bw_fill w = 0 then bw_b w @ [0] else bw_b w);
          b = (if v then butlast b @ [last b OR push_bit (7 - bw_fill w) 1] else b)
      in \<lparr>bw_b = b, bw_fill = (bw_fill w + 1) mod 8\<rparr>)"

text \<open>\<open>for (int i = n - 1; i >= 0; --i) bit((v >> i) & 1);\<close>\<close>

fun wr_u :: "u32 \<Rightarrow> nat \<Rightarrow> bit_writer \<Rightarrow> bit_writer" where
  "wr_u v 0 w = w"
| "wr_u v (Suc n) w = wr_u v n (wr_bit (bit v n) w)"

text \<open>\<open>for (uint32_t t = x; t > 1; t >>= 1) ++n;\<close>\<close>

function ue_len :: "u32 \<Rightarrow> nat" where
  "ue_len t = (if 1 < t then ue_len (drop_bit 1 t) + 1 else 0)"
  by pat_completeness auto
termination
proof (relation "measure unat")
  fix t :: u32 assume "1 < t"
  then have "1 < unat t" by (simp add: word_less_nat_alt)
  then show "(drop_bit 1 t, t) \<in> measure unat" by (simp add: drop_bit_eq_div unat_div)
qed simp

declare ue_len.simps [simp del]

definition wr_ue :: "u32 \<Rightarrow> bit_writer \<Rightarrow> bit_writer" where
  "wr_ue v w = (let x = v + 1; n = ue_len x in wr_u x (n + 1) ((wr_bit False ^^ n) w))"

text \<open>\<open>while (w.fill != 0) w.bit(0);\<close>\<close>

function wr_align :: "bit_writer \<Rightarrow> bit_writer" where
  "wr_align w = (if bw_fill w \<noteq> 0 then wr_align (wr_bit False w) else w)"
  by pat_completeness auto
termination
proof (relation "measure (\<lambda>w. if bw_fill w = 0 then 0 else if 8 \<le> bw_fill w then 9 else 8 - bw_fill w)")
  fix w :: bit_writer assume n: "bw_fill w \<noteq> 0"
  have f: "bw_fill (wr_bit False w) = (bw_fill w + 1) mod 8" by (simp add: wr_bit_def Let_def)
  show "(wr_bit False w, w) \<in> measure (\<lambda>w. if bw_fill w = 0 then 0 else if 8 \<le> bw_fill w then 9 else 8 - bw_fill w)"
  proof (cases "bw_fill w < 7")
    case True
    then have "(bw_fill w + 1) mod 8 = bw_fill w + 1" by simp
    then show ?thesis using n True f by simp
  next
    case False
    have "(bw_fill w + 1) mod 8 < 8" by simp
    moreover have "bw_fill w = 7 \<Longrightarrow> (bw_fill w + 1) mod 8 = 0" by simp
    ultimately show ?thesis using n False f by (cases "bw_fill w = 7") auto
  qed
qed simp

declare wr_align.simps [simp del]

section \<open>Reading depends on what was read\<close>

text \<open>Two buffers agree on their first \<open>n\<close> bits, and have them.\<close>

definition agree :: "nat \<Rightarrow> byte list \<Rightarrow> byte list \<Rightarrow> bool" where
  "agree n b c \<longleftrightarrow> n \<le> length b * 8 \<and> n \<le> length c * 8 \<and> (\<forall>i<n. bit_at b i = bit_at c i)"

definition local :: "'a reading \<Rightarrow> bool" where
  "local m \<longleftrightarrow> (\<forall>r x r'. run_state m r = (x, r') \<longrightarrow>
     br_b r' = br_b r \<and> (br_bad r \<longrightarrow> br_bad r') \<and> br_pos r \<le> br_pos r' \<and> (br_pos r \<le> length (br_b r) * 8 \<longrightarrow> br_pos r' \<le> length (br_b r) * 8) \<and>
     (\<not> br_bad r' \<longrightarrow> (\<forall>c. agree (br_pos r') (br_b r) c \<longrightarrow> run_state m (r\<lparr>br_b := c\<rparr>) = (x, r'\<lparr>br_b := c\<rparr>))))"

lemma localD:
  assumes "local m" "run_state m r = (x, r')"
  shows "br_b r' = br_b r" "br_bad r \<Longrightarrow> br_bad r'" "br_pos r \<le> br_pos r'"
    "br_pos r \<le> length (br_b r) * 8 \<Longrightarrow> br_pos r' \<le> length (br_b r) * 8"
    "\<not> br_bad r' \<Longrightarrow> agree (br_pos r') (br_b r) c \<Longrightarrow> run_state m (r\<lparr>br_b := c\<rparr>) = (x, r'\<lparr>br_b := c\<rparr>)"
  using assms unfolding local_def by blast+

named_theorems local_intros "reading programs that depend on what they read only"

lemma agree_mono: "agree n b c \<Longrightarrow> m \<le> n \<Longrightarrow> agree m b c"
  by (auto simp: agree_def)

lemma local_return [local_intros]: "local (State_Monad.return v)"
  by (simp add: local_def)

lemma local_bad [local_intros]: "local rd_bad"
  by (simp add: local_def rd_bad_def)

lemma local_bit [local_intros]: "local rd_bit"
  by (auto simp: local_def rd_bit_def agree_def)

lemma local_bind [local_intros]:
  assumes m: "local m" and f: "\<And>x. local (f x)"
  shows "local (m \<bind> f)"
  unfolding local_def
proof (intro allI impI)
  fix r y r' assume run: "run_state (m \<bind> f) r = (y, r')"
  obtain x k where k: "run_state m r = (x, k)" by (cases "run_state m r")
  with run have fk: "run_state (f x) k = (y, r')" by simp
  note M = localD [OF m k] and F = localD [OF f fk]
  have "run_state (m \<bind> f) (r\<lparr>br_b := c\<rparr>) = (y, r'\<lparr>br_b := c\<rparr>)" if "\<not> br_bad r'" "agree (br_pos r') (br_b r) c" for c
  proof -
    have kb: "\<not> br_bad k" using F(2) that(1) by blast
    have "run_state m (r\<lparr>br_b := c\<rparr>) = (x, k\<lparr>br_b := c\<rparr>)" using M(5) [OF kb] agree_mono [OF that(2) F(3)] by blast
    moreover have "run_state (f x) (k\<lparr>br_b := c\<rparr>) = (y, r'\<lparr>br_b := c\<rparr>)" using F(5) [OF that(1)] that(2) by (simp add: M(1))
    ultimately show ?thesis by simp
  qed
  then show "br_b r' = br_b r \<and> (br_bad r \<longrightarrow> br_bad r') \<and> br_pos r \<le> br_pos r'
    \<and> (br_pos r \<le> length (br_b r) * 8 \<longrightarrow> br_pos r' \<le> length (br_b r) * 8)
    \<and> (\<not> br_bad r' \<longrightarrow> (\<forall>c. agree (br_pos r') (br_b r) c \<longrightarrow> run_state (m \<bind> f) (r\<lparr>br_b := c\<rparr>) = (y, r'\<lparr>br_b := c\<rparr>)))"
    using M F by auto
qed

lemma local_if [local_intros]: "(c \<Longrightarrow> local m) \<Longrightarrow> (\<not> c \<Longrightarrow> local n) \<Longrightarrow> local (if c then m else n)"
  by simp

lemma local_u_loop [local_intros]: "local (rd_u_loop n v)"
  by (induction n arbitrary: v) (auto intro!: local_intros)

lemma local_u [local_intros]: "local (rd_u n)"
  by (simp add: rd_u_def local_intros)

lemma local_suffix [local_intros]: "local (ue_suffix k v)"
  by (induction k arbitrary: v) (auto intro!: local_intros)

lemma local_ok [local_intros]: "local rd_ok"
  by (simp add: local_def rd_ok_def)

lemma local_zeros [local_intros]: "local (ue_zeros z)"
proof (induction z rule: ue_zeros.induct)
  case (1 z)
  then show ?case unfolding ue_zeros.simps [of z] by (intro local_intros) blast+
qed

lemma local_ue [local_intros]: "local rd_ue"
  unfolding rd_ue_def by (intro local_intros)

lemma local_se [local_intros]: "local rd_se"
  unfolding rd_se_def by (intro local_intros)

section \<open>Writing appends\<close>

definition bits_of :: "byte list \<Rightarrow> bool list" where
  "bits_of b = map (bit_at b) [0..<length b * 8]"

definition writer_len :: "bit_writer \<Rightarrow> nat" where
  "writer_len w = length (bw_b w) * 8 - (if bw_fill w = 0 then 0 else 8 - bw_fill w)"

definition written :: "bit_writer \<Rightarrow> bool list" where
  "written w = take (writer_len w) (bits_of (bw_b w))"

text \<open>The last byte is used up to \<open>fill\<close> and zero from there.\<close>

definition writer_ok :: "bit_writer \<Rightarrow> bool" where
  "writer_ok w \<longleftrightarrow> bw_fill w < 8 \<and> (bw_fill w \<noteq> 0 \<longrightarrow> bw_b w \<noteq> [] \<and> (\<forall>k < 8 - bw_fill w. \<not> bit (last (bw_b w)) k))"

lemma bits_of_append: "bits_of (b @ c) = bits_of b @ bits_of c"
proof -
  have "bit_at (b @ c) i = (if i < length b * 8 then bit_at b i else bit_at c (i - length b * 8))" for i
  proof (cases "i < length b * 8")
    case False
    then obtain j where "i = length b * 8 + j" by (metis le_add_diff_inverse not_less)
    then show ?thesis by (simp add: bit_at_def nth_append)
  qed (simp add: bit_at_def nth_append less_mult_imp_div_less)
  then show ?thesis
    unfolding bits_of_def by (intro nth_equalityI) (auto simp: nth_append algebra_simps)
qed

lemma bits_of_Nil [simp]: "bits_of [] = []"
  by (simp add: bits_of_def)

lemma bits_of_single: "bits_of [x] = map (\<lambda>i. bit x (7 - i)) [0..<8]"
  by (simp add: bits_of_def bit_at_def)

lemma length_bits_of [simp]: "length (bits_of b) = length b * 8"
  by (simp add: bits_of_def)

lemma wr_bit_written:
  assumes "writer_ok w"
  shows "writer_ok (wr_bit v w) \<and> written (wr_bit v w) = written w @ [v]"
proof (cases "bw_fill w = 0")
  case True
  have x: "bits_of [if v then push_bit 7 1 else 0 :: byte] = v # replicate 7 False"
    by (simp add: bits_of_single upt_rec numeral_eq_Suc)
  have b: "wr_bit v w = \<lparr>bw_b = bw_b w @ [if v then push_bit 7 1 else 0], bw_fill = 1\<rparr>"
    using True by (simp add: wr_bit_def Let_def)
  have "\<not> bit (if v then push_bit 7 1 else 0 :: byte) k" if "k < 7" for k
    using that by (cases v) (simp_all only: bit_push_bit_iff if_True if_False, simp_all)
  then show ?thesis
    unfolding b by (simp add: written_def writer_len_def writer_ok_def True bits_of_append x del: push_bit_numeral)
next
  case False
  then obtain b x where b: "bw_b w = b @ [x]" using assms by (metis writer_ok_def append_butlast_last_id)
  define f where "f = bw_fill w"
  define y where "y = (if v then x OR push_bit (7 - f) 1 else x)"
  have f: "0 < f" "f < 8" "\<forall>k < 8 - f. \<not> bit x k" using assms False b by (auto simp: writer_ok_def f_def)
  have w: "wr_bit v w = \<lparr>bw_b = b @ [y], bw_fill = (f + 1) mod 8\<rparr>"
    using False by (simp add: wr_bit_def Let_def b f_def y_def)
  have yb: "bit y k = (if k = 7 - f then v else bit x k)" if "k < 8" for k
    using f that by (auto simp: y_def bit_simps)
  have "take (f + 1) (bits_of [y]) = take f (bits_of [x]) @ [v]"
    using f by (intro nth_equalityI) (auto simp: bits_of_single nth_append yb less_Suc_eq)
  moreover have "writer_len (wr_bit v w) = length b * 8 + (f + 1)"
    using f by (cases "f = 7") (auto simp: w writer_len_def)
  moreover have "writer_len w = length b * 8 + f" using f by (simp add: writer_len_def b f_def [symmetric])
  moreover have "writer_ok (wr_bit v w)"
    using f by (cases "f = 7") (auto simp: w writer_ok_def yb)
  ultimately show ?thesis by (simp add: written_def w b bits_of_append)
qed

lemma writer_new_ok: "writer_ok writer_new" "written writer_new = []"
  by (simp_all add: writer_ok_def writer_new_def written_def writer_len_def)

lemma wr_bits_written: "writer_ok w \<Longrightarrow> writer_ok (fold wr_bit vs w) \<and> written (fold wr_bit vs w) = written w @ vs"
  by (induction vs arbitrary: w) (simp_all add: wr_bit_written)

fun u_bits :: "u32 \<Rightarrow> nat \<Rightarrow> bool list" where
  "u_bits v 0 = []"
| "u_bits v (Suc n) = bit v n # u_bits v n"

definition ue_bits :: "u32 \<Rightarrow> bool list" where
  "ue_bits v = replicate (ue_len (v + 1)) False @ u_bits (v + 1) (ue_len (v + 1) + 1)"

lemma length_u_bits [simp]: "length (u_bits v n) = n"
  by (induction n) simp_all

lemma wr_u_fold: "wr_u v n w = fold wr_bit (u_bits v n) w"
  by (induction n arbitrary: w) simp_all

lemma wr_ue_fold: "wr_ue v w = fold wr_bit (ue_bits v) w"
  by (simp add: wr_ue_def wr_u_fold ue_bits_def Let_def)

text \<open>Aligning fills the last byte with zeros.\<close>

lemma wr_align_zeros:
  assumes "writer_ok w"
  shows "wr_align w = (wr_bit False ^^ ((8 - bw_fill w) mod 8)) w \<and> bw_fill (wr_align w) = 0"
  using assms
proof (induction w rule: wr_align.induct)
  case (1 w)
  show ?case
  proof (cases "bw_fill w = 0")
    case False
    have f: "bw_fill w < 8" using 1(2) by (simp add: writer_ok_def)
    have g: "bw_fill (wr_bit False w) = (bw_fill w + 1) mod 8" by (simp add: wr_bit_def Let_def)
    have n: "(8 - bw_fill w) mod 8 = Suc ((8 - (bw_fill w + 1) mod 8) mod 8)"
      using f False by (cases "bw_fill w = 7") simp_all
    from 1(1) [OF False] wr_bit_written [OF 1(2)] g
    have "wr_align (wr_bit False w) = (wr_bit False ^^ ((8 - (bw_fill w + 1) mod 8) mod 8)) (wr_bit False w)"
      "bw_fill (wr_align (wr_bit False w)) = 0" by auto
    then show ?thesis using False unfolding n funpow_Suc_right by (simp add: wr_align.simps [of w])
  qed (simp add: wr_align.simps [of w])
qed

section \<open>What is written is read\<close>

definition at_bits :: "bit_reader \<Rightarrow> bool list \<Rightarrow> bool" where
  "at_bits r bs \<longleftrightarrow> br_pos r + length bs \<le> length (br_b r) * 8 \<and> take (length bs) (drop (br_pos r) (bits_of (br_b r))) = bs"

lemma at_bits_append: "at_bits r (as @ bs) \<longleftrightarrow> at_bits r as \<and> at_bits (r\<lparr>br_pos := br_pos r + length as\<rparr>) bs"
proof -
  have "take (length as + length bs) xs = take (length as) xs @ take (length bs) (drop (length as) xs)" for xs :: "bool list"
    by (simp add: take_add)
  then show ?thesis
    by (auto simp: at_bits_def add.commute [of "br_pos r"] add.assoc append_eq_append_conv)
qed

lemma rd_bit_at:
  assumes "at_bits r (x # bs)"
  shows "run_state rd_bit r = (of_bool x, r\<lparr>br_pos := br_pos r + 1\<rparr>)" "at_bits (r\<lparr>br_pos := br_pos r + 1\<rparr>) bs"
proof -
  have "at_bits r [x]" "at_bits (r\<lparr>br_pos := br_pos r + 1\<rparr>) bs" using assms at_bits_append [of r "[x]" bs] by simp_all
  then show "run_state rd_bit r = (of_bool x, r\<lparr>br_pos := br_pos r + 1\<rparr>)" "at_bits (r\<lparr>br_pos := br_pos r + 1\<rparr>) bs"
    by (auto simp: at_bits_def rd_bit_def bits_of_def take_Suc hd_drop_conv_nth)
qed

lemma ue_zeros_at:
  assumes "at_bits r (replicate n False @ True # bs)" "z + n \<le> 32" "\<not> br_bad r"
  shows "run_state (ue_zeros z) r = (z + n, r\<lparr>br_pos := br_pos r + n + 1\<rparr>)"
  using assms
proof (induction n arbitrary: z r)
  case 0
  from rd_bit_at(1) [of r True bs] 0 show ?case by (simp add: ue_zeros.simps [of z] rd_ok_def)
next
  case (Suc n)
  let ?r = "r\<lparr>br_pos := br_pos r + 1\<rparr>"
  have b: "run_state rd_bit r = (0, ?r)" "at_bits ?r (replicate n False @ True # bs)"
    using rd_bit_at [of r False "replicate n False @ True # bs"] Suc.prems(1) by simp_all
  from Suc.IH [OF b(2), of "z + 1"] Suc.prems b(1) show ?case by (simp add: ue_zeros.simps [of z] rd_ok_def)
qed

lemma take_bit_Suc_top: "take_bit (Suc k) x = push_bit k (of_bool (bit x k)) + take_bit k x" for x :: u32
proof -
  have "push_bit k (of_bool (bit x k)) + take_bit k x = push_bit k (of_bool (bit x k)) OR take_bit k x"
    by (rule disjunctive_add) (auto simp: bit_simps)
  moreover have "take_bit (Suc k) x = push_bit k (of_bool (bit x k)) OR take_bit k x"
    by (rule bit_eqI) (auto simp: bit_simps less_Suc_eq)
  ultimately show ?thesis by simp
qed

lemma ue_suffix_at:
  assumes "at_bits r (u_bits x k)"
  shows "run_state (ue_suffix k v) r = (v + take_bit k x, r\<lparr>br_pos := br_pos r + k\<rparr>)"
  using assms
proof (induction k arbitrary: v r)
  case (Suc k)
  let ?r = "r\<lparr>br_pos := br_pos r + 1\<rparr>"
  have b: "run_state rd_bit r = (of_bool (bit x k), ?r)" "at_bits ?r (u_bits x k)"
    using rd_bit_at [of r "bit x k" "u_bits x k"] Suc.prems by simp_all
  from Suc.IH [OF b(2)] b(1) show ?case by (simp add: take_bit_Suc_top add.assoc)
qed simp

lemma ue_len_bound: "1 \<le> unat x \<Longrightarrow> 2 ^ ue_len x \<le> unat x \<and> unat x < 2 ^ (ue_len x + 1)"
proof (induction x rule: ue_len.induct)
  case (1 x)
  show ?case
  proof (cases "1 < x")
    case True
    then have x: "1 < unat x" by (simp add: word_less_nat_alt)
    have h: "unat (drop_bit 1 x) = unat x div 2" by (simp add: drop_bit_eq_div unat_div)
    have "2 ^ ue_len (drop_bit 1 x) \<le> unat x div 2 \<and> unat x div 2 < 2 ^ (ue_len (drop_bit 1 x) + 1)"
      using 1 True x h by simp
    then show ?thesis using True by (simp add: ue_len.simps [of x]) linarith
  next
    case False
    then have "unat x = 1" using 1(2) by (simp add: word_less_nat_alt)
    then show ?thesis using False by (simp add: ue_len.simps [of x])
  qed
qed

lemma ue_len_small:
  assumes "1 \<le> unat x" shows "ue_len x < 32"
proof (rule ccontr)
  assume "\<not> ue_len x < 32"
  then have "(2::nat) ^ 32 \<le> 2 ^ ue_len x" by (intro power_increasing) simp_all
  also have "\<dots> \<le> unat x" using ue_len_bound [OF assms] by blast
  finally show False using unsigned_less [of x, where ?'a = nat] by simp
qed

lemma ue_len_split:
  assumes "1 \<le> unat x"
  shows "bit x (ue_len x)" "x = push_bit (ue_len x) 1 + take_bit (ue_len x) x"
proof -
  let ?n = "ue_len x"
  have b: "2 ^ ?n \<le> unat x" "unat x < 2 ^ Suc ?n" using ue_len_bound [OF assms] by simp_all
  have t: "take_bit (Suc ?n) (unat x) = unat x" using b(2) by (simp add: take_bit_nat_eq_self_iff)
  have "unat x div 2 ^ ?n = 1" using b by (intro div_nat_eqI) simp_all
  then have n: "bit (unat x) ?n" by (simp add: bit_iff_odd)
  then show bit: "bit x ?n" by (simp add: bit_unsigned_iff)
  have "take_bit (Suc ?n) x = x" using t by (metis unsigned_take_bit_eq unsigned_word_eqI)
  then show "x = push_bit ?n 1 + take_bit ?n x"
    using bit take_bit_Suc_top [of ?n x] by simp
qed

text \<open>An unsigned Exp-Golomb code is read as the value it was written for, and reading ends behind it.\<close>

lemma rd_ue_at:
  assumes "at_bits r (ue_bits v)" "v \<noteq> - 1" "\<not> br_bad r"
  shows "run_state rd_ue r = (v, r\<lparr>br_pos := br_pos r + length (ue_bits v)\<rparr>)"
proof -
  define x where "x = v + 1"
  define n where "n = ue_len x"
  have x: "1 \<le> unat x" using assms(2) by (simp add: x_def unat_gt_0 Suc_le_eq) (metis add.commute add_eq_0_iff)
  have n: "n < 32" using ue_len_small [OF x] by (simp add: n_def)
  have bits: "ue_bits v = replicate n False @ True # u_bits x n"
    using ue_len_split(1) [OF x] by (simp add: ue_bits_def n_def x_def)
  have z: "run_state (ue_zeros 0) r = (n, r\<lparr>br_pos := br_pos r + n + 1\<rparr>)"
    using ue_zeros_at [of r n "u_bits x n" 0] assms n by (simp add: bits)
  have "at_bits (r\<lparr>br_pos := br_pos r + n + 1\<rparr>) (u_bits x n)"
    using assms(1) at_bits_append [of r "replicate n False @ [True]" "u_bits x n"] by (simp add: bits)
  from ue_suffix_at [OF this, of "push_bit n 1 - 1"] z n
  have "run_state rd_ue r = (push_bit n 1 - 1 + take_bit n x, r\<lparr>br_pos := br_pos r + (2 * n + 1)\<rparr>)"
    by (simp add: rd_ue_def)
  moreover have "push_bit n 1 - 1 + take_bit n x = v" using ue_len_split(2) [OF x] by (simp add: n_def x_def algebra_simps)
  ultimately show ?thesis by (simp add: bits)
qed

end
