(* ===== verification/H264_Nal.thy ===== *)
theory H264_Nal
  imports Bit_Stream
begin

text \<open>
  The H.264 helpers of the transports (\<^verbatim>\<open>app/rtsp/h264_nal.cpp\<close>): splitting an access unit into NAL units, finding the parameter sets, and the rewriting of
  a sequence parameter set so that it states how few frames a decoder has to hold back. The parser of the parameter set is a program in the state
  monad of \<open>Bit_Stream\<close>.
\<close>

unbundle bit_operations_syntax

section \<open>NAL units\<close>

text \<open>A unit is given by where it lies in the buffer.\<close>

record nal =
  nal_start :: nat
  nal_len :: nat
  nal_type :: byte

definition nal_of :: "byte list \<Rightarrow> nat \<Rightarrow> nat \<Rightarrow> nal" where
  "nal_of d start len = \<lparr>nal_start = start, nal_len = len, nal_type = d ! start AND 0x1f\<rparr>"

text \<open>The length of the start code at a position: 3, 4, or 0 when there is none.\<close>

definition start_code :: "byte list \<Rightarrow> nat \<Rightarrow> nat" where
  "start_code d i =
     (if d ! i = 0 \<and> d ! (i + 1) = 0 \<and> (d ! (i + 2) = 1 \<or> i + 4 \<le> length d \<and> d ! (i + 2) = 0 \<and> d ! (i + 3) = 1)
      then (if d ! (i + 2) = 1 then 3 else 4) else 0)"

text \<open>\<open>while (end > start && d[end-1] == 0) --end;\<close>\<close>

fun trim_end :: "byte list \<Rightarrow> nat \<Rightarrow> nat \<Rightarrow> nat" where
  "trim_end d start 0 = 0"
| "trim_end d start (Suc e) = (if start < Suc e \<and> d ! e = 0 then trim_end d start e else Suc e)"

definition close_nal :: "byte list \<Rightarrow> nat \<Rightarrow> nat option \<Rightarrow> nat \<Rightarrow> nal list \<Rightarrow> nal list" where
  "close_nal d mx start i out =
     (case start of
        None \<Rightarrow> out
      | Some s \<Rightarrow> let e = trim_end d s i in if length out < mx \<and> s < e then out @ [nal_of d s (e - s)] else out)"

function split_loop :: "byte list \<Rightarrow> nat \<Rightarrow> nat \<Rightarrow> nat option \<Rightarrow> nal list \<Rightarrow> nat option \<times> nal list" where
  "split_loop d mx i start out =
     (if i + 3 \<le> length d
      then (if start_code d i \<noteq> 0
            then split_loop d mx (i + start_code d i) (Some (i + start_code d i)) (close_nal d mx start i out)
            else split_loop d mx (i + 1) start out)
      else (start, out))"
  by pat_completeness auto
termination by (relation "measure (\<lambda>(d, mx, i, start, out). length d - i)") auto

declare split_loop.simps [simp del]

text \<open>The last unit goes to the end of the buffer.\<close>

definition split_end :: "byte list \<Rightarrow> nat \<Rightarrow> nat option \<times> nal list \<Rightarrow> nal list" where
  "split_end d mx r =
     (case r of
        (Some s, out) \<Rightarrow> if s < length d \<and> length out < mx then out @ [nal_of d s (length d - s)] else out
      | (None, out) \<Rightarrow> out)"

definition split_nals :: "byte list \<Rightarrow> nat \<Rightarrow> nal list" where
  "split_nals d mx = split_end d mx (split_loop d mx 0 None [])"

definition nal_bytes :: "byte list \<Rightarrow> nal \<Rightarrow> byte list" where
  "nal_bytes d u = take (nal_len u) (drop (nal_start u) d)"

text \<open>\<^verbatim>\<open>extract_params\<close>: the last parameter sets of the unit, kept where there is none.\<close>

definition extract_params :: "byte list \<Rightarrow> byte list \<Rightarrow> byte list \<Rightarrow> bool \<times> byte list \<times> byte list" where
  "extract_params d sps pps =
     (let us = split_nals d 32; s = filter (\<lambda>u. nal_type u = 7) us; p = filter (\<lambda>u. nal_type u = 8) us
      in (s \<noteq> [] \<and> p \<noteq> [], if s = [] then sps else nal_bytes d (last s), if p = [] then pps else nal_bytes d (last p)))"

section \<open>The sequence parameter set\<close>

text \<open>Emulation prevention: bytes 3 after two zero bytes are dropped for parsing and inserted again.\<close>

fun strip_emulation :: "byte option \<Rightarrow> byte option \<Rightarrow> byte list \<Rightarrow> byte list" where
  "strip_emulation a b [] = []"
| "strip_emulation a b (x # xs) = (if x = 3 \<and> b = Some 0 \<and> a = Some 0 then strip_emulation b (Some x) xs else x # strip_emulation b (Some x) xs)"

fun emulate :: "nat \<Rightarrow> byte list \<Rightarrow> byte list" where
  "emulate zeros [] = []"
| "emulate zeros (x # xs) =
     (if zeros = 2 \<and> x \<le> 3 then 3 # x # emulate (if x = 0 then 1 else 0) xs else x # emulate (if x = 0 then zeros + 1 else 0) xs)"

fun rd_times :: "nat \<Rightarrow> unit reading \<Rightarrow> unit reading" where
  "rd_times 0 m = State_Monad.return ()"
| "rd_times (Suc n) m = do {_ \<leftarrow> m; rd_times n m}"

text \<open>Fields whose value does not matter.\<close>

definition skip_u :: "nat \<Rightarrow> unit reading" where
  "skip_u n = do {_ \<leftarrow> rd_u n; State_Monad.return ()}"

definition skip_ue :: "unit reading" where
  "skip_ue = do {_ \<leftarrow> rd_ue; State_Monad.return ()}"

definition skip_se :: "unit reading" where
  "skip_se = do {_ \<leftarrow> rd_se; State_Monad.return ()}"

definition rd_when :: "bool \<Rightarrow> unit reading \<Rightarrow> unit reading" where
  "rd_when c m = (if c then m else State_Monad.return ())"

definition skip_hrd :: "unit reading" where
  "skip_hrd = do {
     cnt \<leftarrow> rd_ue; skip_u 4; skip_u 4;
     if 31 < cnt then rd_bad
     else do {rd_times (unat cnt + 1) (do {skip_ue; skip_ue; skip_u 1}); skip_u 5; skip_u 5; skip_u 5; skip_u 5}}"

text \<open>\<open>next = (last + se + 256) % 256\<close> on a signed 32-bit \<^verbatim>\<open>int\<close>, with the sign of the dividend.\<close>

definition next_scale :: "int \<Rightarrow> u32 \<Rightarrow> int" where
  "next_scale prev d = (let t = s32 (word_of_int (prev + s32 d + 256)) in sgn t * (\<bar>t\<bar> mod 256))"

fun skip_list :: "nat \<Rightarrow> int \<Rightarrow> int \<Rightarrow> unit reading" where
  "skip_list 0 prev next = State_Monad.return ()"
| "skip_list (Suc n) prev next =
     (if next \<noteq> 0
      then do {d \<leftarrow> rd_se; let nx = next_scale prev d; skip_list n (if nx \<noteq> 0 then nx else prev) nx}
      else skip_list n prev next)"

text \<open>\<open>for (int i = 0; i < cnt && !r.bad; ++i)\<close>, with the numbers of the lists still to come.\<close>

fun skip_lists :: "nat list \<Rightarrow> unit reading" where
  "skip_lists [] = State_Monad.return ()"
| "skip_lists (i # is) = do {
     ok \<leftarrow> rd_ok;
     if ok
     then do {present \<leftarrow> rd_u 1; rd_when (present \<noteq> 0) (skip_list (if i < 6 then 16 else 64) 8 8); skip_lists is}
     else State_Monad.return ()}"

definition high_profiles :: "u32 list" where
  "high_profiles = [100, 110, 122, 244, 44, 83, 86, 118, 128, 138, 139, 134, 135]"

definition skip_high :: "unit reading" where
  "skip_high = do {
     chroma \<leftarrow> rd_ue; rd_when (chroma = 3) (skip_u 1); skip_ue; skip_ue; skip_u 1;
     lists \<leftarrow> rd_u 1;
     rd_when (lists \<noteq> 0) (skip_lists [0..<if chroma \<noteq> 3 then 8 else 12])}"

text \<open>The picture order count; \<open>False\<close> ends the parse.\<close>

definition rd_poc :: "bool reading" where
  "rd_poc = do {
     poc \<leftarrow> rd_ue;
     if poc = 0 then do {skip_ue; State_Monad.return True}
     else if poc = 1
     then do {skip_u 1; skip_se; skip_se; n \<leftarrow> rd_ue;
              if 255 < n then State_Monad.return False else do {rd_times (unat n) skip_se; State_Monad.return True}}
     else State_Monad.return True}"

definition skip_frame :: "unit reading" where
  "skip_frame = do {
     skip_ue; skip_u 1; skip_ue; skip_ue;
     mbs_only \<leftarrow> rd_u 1; rd_when (mbs_only = 0) (skip_u 1); skip_u 1;
     crop \<leftarrow> rd_u 1; rd_when (crop \<noteq> 0) (do {skip_ue; skip_ue; skip_ue; skip_ue})}"

definition skip_vui :: "unit reading" where
  "skip_vui = do {
     aspect \<leftarrow> rd_u 1;
     rd_when (aspect \<noteq> 0) (do {ar \<leftarrow> rd_u 8; rd_when (ar = 255) (do {skip_u 16; skip_u 16})});
     overscan \<leftarrow> rd_u 1; rd_when (overscan \<noteq> 0) (skip_u 1);
     signal \<leftarrow> rd_u 1;
     rd_when (signal \<noteq> 0) (do {skip_u 3; skip_u 1; colour \<leftarrow> rd_u 1; rd_when (colour \<noteq> 0) (do {skip_u 8; skip_u 8; skip_u 8})});
     chroma_loc \<leftarrow> rd_u 1; rd_when (chroma_loc \<noteq> 0) (do {skip_ue; skip_ue});
     timing \<leftarrow> rd_u 1; rd_when (timing \<noteq> 0) (do {skip_u 32; skip_u 32; skip_u 1});
     nal_hrd \<leftarrow> rd_u 1; rd_when (nal_hrd \<noteq> 0) skip_hrd;
     vcl_hrd \<leftarrow> rd_u 1; rd_when (vcl_hrd \<noteq> 0) skip_hrd;
     rd_when (nal_hrd \<noteq> 0 \<or> vcl_hrd \<noteq> 0) (skip_u 1);
     skip_u 1}"

text \<open>From the header to the flag \<^verbatim>\<open>bitstream_restriction_flag\<close>; \<open>False\<close> when the parameter set is to be left as it is.\<close>

definition sps_body :: "u32 \<Rightarrow> bool reading" where
  "sps_body profile = do {
     skip_ue;
     rd_when (profile \<in> set high_profiles) skip_high;
     skip_ue; go \<leftarrow> rd_poc;
     if \<not> go then State_Monad.return False
     else do {
       skip_frame; vui \<leftarrow> rd_u 1;
       if vui = 0 then State_Monad.return False else do {skip_vui; State_Monad.return True}}}"

definition sps_to_flag :: "bool reading" where
  "sps_to_flag = do {skip_u 8; profile \<leftarrow> rd_u 8; skip_u 8; skip_u 8; sps_body profile}"

definition restriction_bits :: "u32 \<Rightarrow> u32 \<Rightarrow> bit_writer \<Rightarrow> bit_writer" where
  "restriction_bits reorder dpb w =
     wr_align (wr_bit True (wr_ue dpb (wr_ue reorder (wr_ue 16 (wr_ue 16 (wr_ue 0 (wr_ue 0 (wr_bit True (wr_bit True w)))))))))"

definition sps_with_bitstream_restriction :: "byte list \<Rightarrow> u32 \<Rightarrow> u32 \<Rightarrow> byte list" where
  "sps_with_bitstream_restriction sps reorder dpb =
     (if length sps < 5 \<or> sps ! 0 AND 0x1f \<noteq> 7 then sps
      else
        let rbsp = strip_emulation None None sps;
            (go, r) = run_state sps_to_flag (reader_new rbsp)
        in if \<not> go then sps
           else
             let (flag, r') = run_state rd_bit r
             in if br_bad r' \<or> flag = 1 then sps
                else
                  let w = restriction_bits reorder dpb (fold wr_bit (map (bit_at rbsp) [0..<br_pos r]) writer_new)
                  in hd (bw_b w) # emulate 0 (tl (bw_b w)))"

section \<open>Lemmas\<close>

lemma local_when [local_intros]: "(c \<Longrightarrow> local m) \<Longrightarrow> local (rd_when c m)"
  by (simp add: rd_when_def local_intros)

lemma local_skips [local_intros]: "local (skip_u n)" "local skip_ue" "local skip_se"
  unfolding skip_u_def skip_ue_def skip_se_def by (intro local_intros)+

lemma local_times [local_intros]: "local m \<Longrightarrow> local (rd_times n m)"
  by (induction n) (auto intro!: local_intros)

lemma local_hrd [local_intros]: "local skip_hrd"
  unfolding skip_hrd_def by (intro local_intros)

lemma local_list [local_intros]: "local (skip_list n a b)"
  by (induction n a b rule: skip_list.induct) (auto simp: Let_def intro!: local_intros)

lemma local_lists [local_intros]: "local (skip_lists is)"
  by (induction "is") (auto intro!: local_intros)

text \<open>The parser of the parameter set depends on the bits it has read only.\<close>

lemma local_body [local_intros]: "local (sps_body profile)"
  unfolding sps_body_def skip_high_def rd_poc_def skip_frame_def skip_vui_def by (intro local_intros)

lemma local_sps: "local sps_to_flag"
  unfolding sps_to_flag_def by (intro local_intros)

subsection \<open>Emulation prevention\<close>

text \<open>How many zeros a count stands for, given the two bytes before.\<close>

definition zeros_match :: "nat \<Rightarrow> byte option \<Rightarrow> byte option \<Rightarrow> bool" where
  "zeros_match z a b \<longleftrightarrow> (z = 0 \<and> b \<noteq> Some 0) \<or> (z = 1 \<and> b = Some 0 \<and> a \<noteq> Some 0) \<or> (z = 2 \<and> b = Some 0 \<and> a = Some 0)"

lemma strip_emulate: "zeros_match z a b \<Longrightarrow> strip_emulation a b (emulate z xs) = xs"
proof (induction xs arbitrary: z a b)
  case (Cons x xs)
  show ?case
  proof (cases "z = 2 \<and> x \<le> 3")
    case True
    then have "zeros_match (if x = 0 then 1 else 0) (Some 3) (Some x)" by (simp add: zeros_match_def)
    from Cons.IH [OF this] True Cons.prems show ?thesis by (auto simp: zeros_match_def)
  next
    case False
    then have "zeros_match (if x = 0 then z + 1 else 0) b (Some x)" using Cons.prems by (auto simp: zeros_match_def)
    from Cons.IH [OF this] False Cons.prems show ?thesis by (auto simp: zeros_match_def)
  qed
qed simp

text \<open>No byte that would start a code, or be taken for a prevention byte, stands after two zeros, except an inserted 3.\<close>

fun start_free :: "byte option \<Rightarrow> byte option \<Rightarrow> byte list \<Rightarrow> bool" where
  "start_free a b [] \<longleftrightarrow> True"
| "start_free a b (x # xs) \<longleftrightarrow> \<not> (a = Some 0 \<and> b = Some 0 \<and> x \<le> 2) \<and> start_free b (Some x) xs"

lemma emulate_start_free: "zeros_match z a b \<Longrightarrow> start_free a b (emulate z xs)"
proof (induction xs arbitrary: z a b)
  case (Cons x xs)
  show ?case
  proof (cases "z = 2 \<and> x \<le> 3")
    case True
    then have "zeros_match (if x = 0 then 1 else 0) (Some 3) (Some x)" by (simp add: zeros_match_def)
    from Cons.IH [OF this] True Cons.prems show ?thesis by (auto simp: zeros_match_def)
  next
    case False
    then have "zeros_match (if x = 0 then z + 1 else 0) b (Some x)" using Cons.prems by (auto simp: zeros_match_def)
    moreover have "\<not> (a = Some 0 \<and> b = Some 0 \<and> x \<le> 2)" using False Cons.prems by (auto simp: zeros_match_def word_le_nat_alt)
    ultimately show ?thesis using False Cons.IH by auto
  qed
qed simp

lemma emulate_length: "length xs \<le> length (emulate z xs)"
  by (induction z xs rule: emulate.induct) auto

subsection \<open>The rewritten parameter set\<close>

text \<open>A program that consumes at least \<open>n\<close> bits unless it fails.\<close>

definition takes :: "nat \<Rightarrow> 'a reading \<Rightarrow> bool" where
  "takes n m \<longleftrightarrow> (\<forall>r x r'. run_state m r = (x, r') \<longrightarrow> \<not> br_bad r' \<longrightarrow> br_pos r + n \<le> br_pos r')"

lemma takes_local: "local m \<Longrightarrow> takes 0 m"
  by (auto simp: takes_def dest: localD)

lemma takes_bind:
  assumes "takes a m" "\<And>x. takes b (f x)" "\<And>x. local (f x)"
  shows "takes (a + b) (m \<bind> f)"
  unfolding takes_def
proof (intro allI impI)
  fix r y r' assume run: "run_state (m \<bind> f) r = (y, r')" and ok: "\<not> br_bad r'"
  obtain x k where k: "run_state m r = (x, k)" by (cases "run_state m r")
  with run have fk: "run_state (f x) k = (y, r')" by simp
  have "\<not> br_bad k" using localD(2) [OF assms(3) fk] ok by blast
  then have "br_pos r + a \<le> br_pos k" using assms(1) k by (auto simp: takes_def)
  moreover have "br_pos k + b \<le> br_pos r'" using assms(2) fk ok unfolding takes_def by blast
  ultimately show "br_pos r + (a + b) \<le> br_pos r'" by simp
qed

lemma takes_bit: "takes 1 rd_bit"
  by (auto simp: takes_def rd_bit_def split: if_splits)

lemma takes_u_loop: "takes n (rd_u_loop n v)"
proof (induction n arbitrary: v)
  case (Suc n)
  show ?case using takes_bind [OF takes_bit Suc, of "\<lambda>x. push_bit 1 v OR x"] by (simp add: local_intros)
qed (simp add: takes_def)

lemma takes_skip_u: "takes n (skip_u n)"
  using takes_bind [OF takes_u_loop takes_local, of "\<lambda>_. State_Monad.return ()" n 0] by (simp add: skip_u_def rd_u_def local_intros)

text \<open>The four bytes of the header at least.\<close>

lemma sps_takes: "takes 32 sps_to_flag"
proof -
  have "takes (8 + (8 + (8 + (8 + 0)))) sps_to_flag"
    unfolding sps_to_flag_def rd_u_def
    by (intro takes_bind takes_skip_u takes_u_loop takes_local local_intros)
  then show ?thesis by simp
qed

lemma strip_hd: "xs \<noteq> [] \<Longrightarrow> strip_emulation None None xs \<noteq> [] \<and> strip_emulation None None xs ! 0 = xs ! 0"
  by (cases xs) auto

lemma bits_of_nth: "i < length b * 8 \<Longrightarrow> bits_of b ! i = bit_at b i"
  by (simp add: bits_of_def)

lemma agree_prefix:
  assumes "bits_of c = map (bit_at b) [0..<n] @ rest" "n \<le> length b * 8"
  shows "agree n b c"
proof -
  have l: "n \<le> length c * 8" using arg_cong [OF assms(1), of length] by simp
  have "bit_at b i = bit_at c i" if "i < n" for i
    using bits_of_nth [of i c] that l by (simp add: assms(1) nth_append)
  with l assms(2) show ?thesis by (simp add: agree_def)
qed

lemma agree_hd:
  assumes "agree n b c" "8 \<le> n" shows "b ! 0 = c ! 0"
proof (rule bit_eqI)
  fix k assume "possible_bit TYPE(8 word) k"
  then have "k < 8" by simp
  then have "bit_at b (7 - k) = bit_at c (7 - k)" using assms by (simp add: agree_def)
  then show "bit (b ! 0) k \<longleftrightarrow> bit (c ! 0) k" using \<open>k < 8\<close> by (simp add: bit_at_def)
qed

text \<open>The bits of the restriction, as they are written behind the copied prefix.\<close>

definition restriction_fields :: "u32 \<Rightarrow> u32 \<Rightarrow> bool list" where
  "restriction_fields reorder dpb =
     [True, True] @ ue_bits 0 @ ue_bits 0 @ ue_bits 16 @ ue_bits 16 @ ue_bits reorder @ ue_bits dpb @ [True]"

lemma restriction_written:
  assumes "w = restriction_bits reorder dpb (fold wr_bit bs writer_new)"
  shows "\<exists>n. bits_of (bw_b w) = bs @ restriction_fields reorder dpb @ replicate n False"
proof -
  define v where "v = fold wr_bit (bs @ restriction_fields reorder dpb) writer_new"
  have v: "writer_ok v" "written v = bs @ restriction_fields reorder dpb"
    using wr_bits_written [OF writer_new_ok(1), of "bs @ restriction_fields reorder dpb"] by (simp_all add: v_def writer_new_ok)
  have w: "w = wr_align v" by (simp add: assms v_def restriction_bits_def restriction_fields_def wr_ue_fold)
  define n where "n = (8 - bw_fill v) mod 8"
  have "w = (wr_bit False ^^ n) v" "bw_fill w = 0" using wr_align_zeros [OF v(1)] unfolding w n_def by blast+
  then have a: "w = fold wr_bit (replicate n False) v" "bw_fill w = 0" by simp_all
  then have "written w = bs @ restriction_fields reorder dpb @ replicate n False"
    using wr_bits_written [OF v(1), of "replicate n False"] v(2) by simp
  moreover have "written w = bits_of (bw_b w)" using a(2) by (simp add: written_def writer_len_def)
  ultimately show ?thesis by auto
qed

text \<open>The parameter sets that are returned as they are: not one, not parseable, without usability information, or restricted already.\<close>

definition sps_kept :: "byte list \<Rightarrow> bool" where
  "sps_kept sps \<longleftrightarrow> length sps < 5 \<or> sps ! 0 AND 0x1f \<noteq> 7 \<or>
     (let (go, r) = run_state sps_to_flag (reader_new (strip_emulation None None sps)); (flag, r') = run_state rd_bit r
      in \<not> go \<or> br_bad r' \<or> flag = 1)"

lemma sps_kept_same: "sps_kept sps \<Longrightarrow> sps_with_bitstream_restriction sps reorder dpb = sps"
  by (auto simp: sps_kept_def sps_with_bitstream_restriction_def Let_def case_prod_beta)

text \<open>What any other has become.\<close>

lemma sps_rewritten:
  assumes "\<not> sps_kept sps"
  obtains b r n where
    "sps_with_bitstream_restriction sps reorder dpb = hd b # emulate 0 (tl b)"
    "run_state sps_to_flag (reader_new (strip_emulation None None sps)) = (True, r)" "\<not> br_bad r"
    "bits_of b = map (bit_at (strip_emulation None None sps)) [0..<br_pos r] @ restriction_fields reorder dpb @ replicate n False"
    "agree (br_pos r) (strip_emulation None None sps) b" "32 \<le> br_pos r" "5 \<le> length b" "b ! 0 = sps ! 0" "b ! 0 AND 0x1f = 7"
proof -
  let ?rbsp = "strip_emulation None None sps"
  obtain go r where r: "run_state sps_to_flag (reader_new ?rbsp) = (go, r)" by (cases "run_state sps_to_flag (reader_new ?rbsp)")
  obtain flag r' where f: "run_state rd_bit r = (flag, r')" by (cases "run_state rd_bit r")
  define w where "w = restriction_bits reorder dpb (fold wr_bit (map (bit_at ?rbsp) [0..<br_pos r]) writer_new)"
  have c: "\<not> length sps < 5" "sps ! 0 AND 0x1f = 7" "go" "\<not> br_bad r'"
    and e: "sps_with_bitstream_restriction sps reorder dpb = hd (bw_b w) # emulate 0 (tl (bw_b w))"
    using assms by (auto simp: sps_kept_def sps_with_bitstream_restriction_def r f w_def Let_def)
  have ok: "\<not> br_bad r" using localD(2) [OF local_bit f] c(4) by blast
  have len: "br_pos r \<le> length ?rbsp * 8" using localD(4) [OF local_sps r] by (simp add: reader_new_def)
  have p: "32 \<le> br_pos r" using sps_takes r ok unfolding takes_def by (fastforce simp: reader_new_def)
  obtain n where bits: "bits_of (bw_b w) = map (bit_at ?rbsp) [0..<br_pos r] @ restriction_fields reorder dpb @ replicate n False"
    using restriction_written [OF w_def] by blast
  have a: "agree (br_pos r) ?rbsp (bw_b w)" using agree_prefix [OF bits len] .
  have "length (bw_b w) * 8 \<ge> br_pos r + 2" using arg_cong [OF bits, of length] by (simp add: restriction_fields_def)
  then have "5 \<le> length (bw_b w)" using p by simp
  moreover have "bw_b w ! 0 = sps ! 0" using agree_hd [OF a] p strip_hd [of sps] c(1) by (cases sps) simp_all
  ultimately show ?thesis using that [OF e _ ok bits a p] r c by simp
qed

lemma rewritten_stripped:
  assumes "b ! 0 AND 0x1f = 7" "5 \<le> length b"
  shows "strip_emulation None None (hd b # emulate 0 (tl b)) = b"
proof -
  obtain x xs where b: "b = x # xs" using assms(2) by (cases b) auto
  then have "x \<noteq> 0" using assms(1) by auto
  then have "zeros_match 0 None (Some x)" by (simp add: zeros_match_def)
  from strip_emulate [OF this] b show ?thesis by simp
qed

subsection \<open>Splitting\<close>

text \<open>A unit as an encoder makes it: not empty, not ending in a zero byte, and without the pattern of a start code.\<close>

definition unit_ok :: "byte list \<Rightarrow> bool" where
  "unit_ok x \<longleftrightarrow> x \<noteq> [] \<and> last x \<noteq> 0 \<and> list_all (\<lambda>i. \<not> (x ! i = 0 \<and> x ! (i + 1) = 0 \<and> x ! (i + 2) \<le> 1)) [0..<length x - 2]"

definition code :: "bool \<Rightarrow> byte list" where
  "code long = (if long then [0, 0, 0, 1] else [0, 0, 1])"

definition annexb :: "(bool \<times> byte list) list \<Rightarrow> byte list" where
  "annexb us = concat (map (\<lambda>(long, x). code long @ x) us)"

lemma start_code_inside:
  assumes "unit_ok x" "k < length x" shows "start_code (pre @ x @ post) (length pre + k) = 0"
proof (rule ccontr)
  let ?d = "pre @ x @ post"
  assume "start_code ?d (length pre + k) \<noteq> 0"
  then have z: "?d ! (length pre + k) = 0" "?d ! (length pre + k + 1) = 0" "?d ! (length pre + k + 2) = 1 \<or> ?d ! (length pre + k + 2) = 0"
    by (auto simp: start_code_def split: if_splits)
  have at: "?d ! (length pre + j) = x ! j" if "j < length x" for j using that by (simp add: nth_append)
  have last: "x ! (length x - 1) \<noteq> 0" using assms(1) by (auto simp: unit_ok_def last_conv_nth)
  consider "k = length x - 1" | "k + 1 = length x - 1" | "k < length x - 2" using assms(2) by linarith
  then show False
  proof cases
    case 1 then show ?thesis using z(1) at [of k] assms(2) last by simp
  next
    case 2
    then have "k + 1 < length x" by simp
    from at [OF this] z(2) 2 last show ?thesis by (simp add: add.assoc)
  next
    case 3
    then have "x ! k = 0" "x ! (k + 1) = 0" "x ! (k + 2) = 1 \<or> x ! (k + 2) = 0" using z at [of k] at [of "k + 1"] at [of "k + 2"] by simp_all
    moreover have "\<not> (x ! k = 0 \<and> x ! (k + 1) = 0 \<and> x ! (k + 2) \<le> 1)" using assms(1) 3 by (auto simp: unit_ok_def list_all_iff)
    ultimately show ?thesis by auto
  qed
qed

lemma split_loop_skip:
  "(\<And>k. k < m \<Longrightarrow> start_code d (i + k) = 0) \<Longrightarrow> split_loop d mx i st out = split_loop d mx (i + m) st out"
proof (induction m arbitrary: i)
  case (Suc m)
  have "start_code d i = 0" using Suc.prems [of 0] by simp
  then have "split_loop d mx i st out = split_loop d mx (i + 1) st out" if "i + 3 \<le> length d" using that by (simp add: split_loop.simps [of d mx i])
  moreover have "split_loop d mx i st out = (st, out)" "split_loop d mx (i + Suc m) st out = (st, out)" if "\<not> i + 3 \<le> length d"
    using that by (simp_all add: split_loop.simps)
  moreover have "split_loop d mx (i + 1) st out = split_loop d mx (i + 1 + m) st out"
    using Suc.prems [of "Suc _"] by (intro Suc.IH) simp
  ultimately show ?case by (cases "i + 3 \<le> length d") simp_all
qed simp

lemma start_code_at: "start_code (pre @ code long @ post) (length pre) = length (code long)"
  by (simp add: start_code_def code_def nth_append)

lemma trim_end_unit:
  assumes "unit_ok x" "d = pre @ x @ post" shows "trim_end d (length pre) (length pre + length x) = length pre + length x"
proof -
  obtain n where n: "length x = Suc n" using assms(1) by (cases x) (auto simp: unit_ok_def)
  have "d ! (length pre + n) = x ! n" using n by (simp add: assms(2) nth_append)
  moreover have "x ! n \<noteq> 0" using assms(1) n by (auto simp: unit_ok_def last_conv_nth)
  ultimately show ?thesis by (simp add: n)
qed

lemma split_units:
  assumes "unit_ok x" "list_all (\<lambda>(long, x). unit_ok x) us" "d = pre @ x @ annexb us" "length out \<le> mx"
  shows "map (nal_bytes d) (split_end d mx (split_loop d mx (length pre) (Some (length pre)) out))
    = map (nal_bytes d) out @ take (mx - length out) (x # map snd us)"
  using assms
proof (induction us arbitrary: x pre out)
  case Nil
  have skip: "split_loop d mx (length pre) (Some (length pre)) out = split_loop d mx (length pre + length x) (Some (length pre)) out"
    using start_code_inside [OF Nil(1), of _ pre "[]"] Nil(3) by (intro split_loop_skip) (simp add: annexb_def)
  have "nal_bytes d (nal_of d (length pre) (length d - length pre)) = x" "length pre < length d"
    using Nil by (simp_all add: nal_bytes_def nal_of_def annexb_def unit_ok_def)
  then show ?case
    using Nil(3,4) unfolding skip by (cases "length out < mx") (auto simp: split_loop.simps split_end_def annexb_def take_Cons')
next
  case (Cons u us)
  obtain long y where u: "u = (long, y)" by (cases u)
  let ?p = "length pre + length x" and ?n = "nal_of d (length pre) (length x)"
  define out' where "out' = (if length out < mx then out @ [?n] else out)"
  have d: "d = pre @ x @ code long @ y @ annexb us" using Cons.prems(3) by (simp add: u annexb_def)
  have "split_loop d mx (length pre) (Some (length pre)) out = split_loop d mx ?p (Some (length pre)) out"
    using start_code_inside [OF Cons.prems(1), of _ pre "code long @ y @ annexb us"] by (intro split_loop_skip) (simp add: d)
  also have "\<dots> = split_loop d mx (?p + length (code long)) (Some (?p + length (code long))) out'"
  proof -
    have "start_code d ?p = length (code long)" using start_code_at [of "pre @ x"] by (simp add: d)
    moreover have "?p + 3 \<le> length d" by (simp add: d code_def)
    moreover have "close_nal d mx (Some (length pre)) ?p out = out'"
      using trim_end_unit [OF Cons.prems(1) d] Cons.prems(1) by (auto simp: close_nal_def out'_def unit_ok_def)
    moreover have "length (code long) \<noteq> 0" by (simp add: code_def)
    ultimately show ?thesis by (subst split_loop.simps) (simp only: if_True if_False simp_thms)
  qed
  also have "?p + length (code long) = length (pre @ x @ code long)" by simp
  finally have run: "split_loop d mx (length pre) (Some (length pre)) out
    = split_loop d mx (length (pre @ x @ code long)) (Some (length (pre @ x @ code long))) out'" .
  have "nal_bytes d ?n = x" by (simp add: d nal_bytes_def nal_of_def)
  moreover have "length out' \<le> mx" using Cons.prems(4) by (simp add: out'_def)
  ultimately show ?case
    unfolding run using Cons.IH [of y "pre @ x @ code long" out'] Cons.prems
    by (auto simp: u d out'_def take_Cons')
qed

lemma split_units_all:
  assumes "list_all (\<lambda>(long, x). unit_ok x) us"
  shows "map (nal_bytes (annexb us)) (split_nals (annexb us) mx) = take mx (map snd us)"
proof (cases us)
  case Nil
  then show ?thesis by (simp add: annexb_def split_nals_def split_end_def split_loop.simps)
next
  case (Cons u vs)
  obtain long y where u: "u = (long, y)" by (cases u)
  have d: "annexb us = code long @ y @ annexb vs" by (simp add: Cons u annexb_def)
  have "start_code (annexb us) 0 = length (code long)" using start_code_at [of "[]"] by (simp add: d)
  moreover have "length (code long) \<noteq> 0" "3 \<le> length (annexb us)" by (simp_all add: code_def d)
  ultimately have "split_loop (annexb us) mx 0 None [] = split_loop (annexb us) mx (length (code long)) (Some (length (code long))) []"
    by (subst split_loop.simps) (simp add: close_nal_def)
  then show ?thesis
    using split_units [OF _ _ d, of "[]" mx] assms by (simp add: split_nals_def) (simp add: Cons u)
qed

section \<open>Properties\<close>

text \<open>Splitting an access unit gives back its units. However they are put together, with short or long start codes, the units found are the ones that were put
  in, in their order, up to the room there is for them.\<close>

theorem split_finds_units:
  assumes "list_all (\<lambda>(long, x). unit_ok x) us"
  shows "map (nal_bytes (annexb us)) (split_nals (annexb us) mx) = take mx (map snd us)"
  using assms by (rule split_units_all)

theorem split_finds_units_witness:
  "map (nal_bytes (annexb [(True, [0x67, 0x42]), (False, [0x68, 0xce]), (False, [0x65, 0, 0, 3, 1])]))
     (split_nals (annexb [(True, [0x67, 0x42]), (False, [0x68, 0xce]), (False, [0x65, 0, 0, 3, 1])]) 32)
   = [[0x67, 0x42], [0x68, 0xce], [0x65, 0, 0, 3, 1]]"
proof -
  let ?us = "[(True, [0x67, 0x42]), (False, [0x68, 0xce]), (False, [0x65, 0, 0, 3, 1 :: byte])]"
  have "list_all (\<lambda>(long, x). unit_ok x) ?us" by code_simp
  from split_finds_units [OF this, of 32] show ?thesis by simp
qed

text \<open>A parameter set is rewritten once. Whatever bytes come from the encoder and whatever bounds are asked for: applying the rewriting to its own result changes
  nothing, so that the transports may apply it wherever a parameter set passes.\<close>

theorem sps_rewrite_idempotent:
  "sps_with_bitstream_restriction (sps_with_bitstream_restriction sps a b) c d = sps_with_bitstream_restriction sps a b"
proof (cases "sps_kept sps")
  case True
  then show ?thesis by (simp add: sps_kept_same)
next
  case False
  then obtain w r n where w: "sps_with_bitstream_restriction sps a b = hd w # emulate 0 (tl w)"
    and r: "run_state sps_to_flag (reader_new (strip_emulation None None sps)) = (True, r)" "\<not> br_bad r"
    and bits: "bits_of w = map (bit_at (strip_emulation None None sps)) [0..<br_pos r] @ restriction_fields a b @ replicate n False"
    and a: "agree (br_pos r) (strip_emulation None None sps) w" and l: "5 \<le> length w" "w ! 0 AND 0x1f = 7"
    by (rule sps_rewritten)
  define s where "s = hd w # emulate 0 (tl w)"
  have strip: "strip_emulation None None s = w" unfolding s_def using rewritten_stripped l by blast
  have "run_state sps_to_flag (reader_new w) = (True, r\<lparr>br_b := w\<rparr>)"
    using localD(5) [OF local_sps r(1) r(2), of w] a by (simp add: reader_new_def)
  moreover have "length w * 8 = br_pos r + (length (restriction_fields a b) + n)" using arg_cong [OF bits, of length] by simp
  then have "at_bits (r\<lparr>br_b := w\<rparr>) (True # [])" by (simp add: at_bits_def bits restriction_fields_def)
  from rd_bit_at(1) [OF this] have "fst (run_state rd_bit (r\<lparr>br_b := w\<rparr>)) = 1" by simp
  ultimately have "sps_kept s" by (simp add: sps_kept_def strip case_prod_beta Let_def)
  then show ?thesis by (simp add: w s_def [symmetric] sps_kept_same)
qed

text \<open>A reader of the restriction: the flag, the motion vector flag and six codes.\<close>

definition rd_restriction :: "u32 list reading" where
  "rd_restriction = do {f \<leftarrow> rd_bit; m \<leftarrow> rd_bit; a \<leftarrow> rd_ue; b \<leftarrow> rd_ue; c \<leftarrow> rd_ue; d \<leftarrow> rd_ue; e \<leftarrow> rd_ue; g \<leftarrow> rd_ue;
     State_Monad.return [f, m, a, b, c, d, e, g]}"

lemma rd_restriction_at:
  assumes "at_bits r (restriction_fields reorder dpb)" "reorder \<noteq> - 1" "dpb \<noteq> - 1" "\<not> br_bad r"
  shows "fst (run_state rd_restriction r) = [1, 1, 0, 0, 16, 16, reorder, dpb]"
proof -
  define q where "q k = r\<lparr>br_pos := br_pos r + k\<rparr>" for k
  have q: "br_pos (q k) = br_pos r + k" "\<not> br_bad (q k)" "(q k)\<lparr>br_pos := br_pos (q k) + m\<rparr> = q (k + m)" for k m
    using assms(4) by (simp_all add: q_def)
  have bit: "run_state rd_bit (q k) = (of_bool x, q (k + 1))" "at_bits (q (k + 1)) bs" if "at_bits (q k) (x # bs)" for k x bs
    using rd_bit_at [OF that] q(3) [of k 1] by simp_all
  have ue: "run_state rd_ue (q k) = (v, q (k + length (ue_bits v)))" "at_bits (q (k + length (ue_bits v))) bs"
    if "at_bits (q k) (ue_bits v @ bs)" "v \<noteq> - 1" for k v bs
    using that rd_ue_at [of "q k" v] q by (simp_all add: at_bits_append)
  have "at_bits (q 0) (True # True # ue_bits 0 @ ue_bits 0 @ ue_bits 16 @ ue_bits 16 @ ue_bits reorder @ ue_bits dpb @ [True])"
    using assms(1) by (simp add: q_def restriction_fields_def)
  note b1 = bit [OF this] note b2 = bit [OF b1(2)]
  note u1 = ue [OF b2(2)] note u2 = ue [OF u1(2)] note u3 = ue [OF u2(2)] note u4 = ue [OF u3(2)]
  note u5 = ue [OF u4(2) assms(2)] note u6 = ue [OF u5(2) assms(3)]
  show ?thesis using b1(1) b2(1) u1(1) u2(1) u3(1) u4(1) u5(1) u6(1) by (simp add: rd_restriction_def q_def)
qed

text \<open>C36: A rewritten parameter set says what was asked for and nothing else has changed. Read back, every bit up to the flag is the encoder's, the header byte
  included, and behind it stand the two requested bounds; no byte sequence that would start a new unit has come in.\<close>

theorem sps_restriction_stated:
  assumes "sps' = sps_with_bitstream_restriction sps reorder dpb" "sps' \<noteq> sps" "reorder \<noteq> - 1" "dpb \<noteq> - 1"
  shows "\<exists>r. run_state sps_to_flag (reader_new (strip_emulation None None sps)) = (True, r)
    \<and> agree (br_pos r) (strip_emulation None None sps) (strip_emulation None None sps')
    \<and> fst (run_state rd_restriction (r\<lparr>br_b := strip_emulation None None sps'\<rparr>)) = [1, 1, 0, 0, 16, 16, reorder, dpb]
    \<and> sps' ! 0 = sps ! 0 \<and> start_free None None sps'"
proof -
  have "\<not> sps_kept sps" using assms(1,2) sps_kept_same by blast
  then obtain w r n where w: "sps' = hd w # emulate 0 (tl w)"
    and r: "run_state sps_to_flag (reader_new (strip_emulation None None sps)) = (True, r)" "\<not> br_bad r"
    and bits: "bits_of w = map (bit_at (strip_emulation None None sps)) [0..<br_pos r] @ restriction_fields reorder dpb @ replicate n False"
    and a: "agree (br_pos r) (strip_emulation None None sps) w" and l: "5 \<le> length w" "w ! 0 = sps ! 0" "w ! 0 AND 0x1f = 7"
    unfolding assms(1) by (rule sps_rewritten)
  have s: "strip_emulation None None sps' = w" unfolding w using rewritten_stripped l by blast
  have "length w * 8 = br_pos r + (length (restriction_fields reorder dpb) + n)" using arg_cong [OF bits, of length] by simp
  then have at: "at_bits (r\<lparr>br_b := w\<rparr>) (restriction_fields reorder dpb)" by (simp add: at_bits_def bits)
  obtain x xs where x: "w = x # xs" using l(1) by (cases w) auto
  then have "x \<noteq> 0" using l(3) by auto
  then have "start_free None (Some x) (emulate 0 xs)" by (intro emulate_start_free) (simp add: zeros_match_def)
  then show ?thesis using r(1) a s rd_restriction_at [OF at assms(3,4)] r(2) l x by (simp add: w)
qed

text \<open>The parameter set of the camera's encoder, as captured.\<close>

definition camera_sps :: "byte list" where
  "camera_sps = [0x27, 0x64, 0, 0x33, 0xad, 0, 0xce, 0x80, 0x78, 2, 0x27, 0xe5, 0x9a, 0x80, 0x80, 0x80, 0xf8, 0, 0, 3, 0, 8, 0, 0, 3, 1, 0x41, 0x81,
     0, 0, 0xb7, 0x1b, 0, 0, 0x44, 0xaa, 0x3f, 0xff, 0xe0, 0x50]"

theorem sps_restriction_stated_witness:
  "sps_with_bitstream_restriction camera_sps 0 1 \<noteq> camera_sps
   \<and> (\<exists>r. run_state sps_to_flag (reader_new (strip_emulation None None camera_sps)) = (True, r)
      \<and> fst (run_state rd_restriction (r\<lparr>br_b := strip_emulation None None (sps_with_bitstream_restriction camera_sps 0 1)\<rparr>)) = [1, 1, 0, 0, 16, 16, 0, 1])"
proof -
  have "sps_with_bitstream_restriction camera_sps 0 1 \<noteq> camera_sps" by code_simp
  with sps_restriction_stated [OF refl this] show ?thesis by auto
qed

end
