(* ===== verification/Rtp.thy ===== *)
theory Rtp
  imports H264_Nal
begin

text \<open>
  RTP: the fixed header that both transports write and the parser that untrusted peers reach (\<^verbatim>\<open>app/rtp/rtp_packet.cpp\<close>), the packets of an H.264 access
  unit (\<^verbatim>\<open>app/webrtc/rtp.cpp\<close>) and what the camera reads of RTCP.
\<close>

unbundle bit_operations_syntax

section \<open>The header\<close>

definition kHeaderBytes :: nat where
  "kHeaderBytes = 12"

text \<open>Numbers in network order.\<close>

definition be16 :: "u16 \<Rightarrow> byte list" where
  "be16 x = [ucast (drop_bit 8 x), ucast x]"

definition be32 :: "u32 \<Rightarrow> byte list" where
  "be32 x = [ucast (drop_bit 24 x), ucast (drop_bit 16 x), ucast (drop_bit 8 x), ucast x]"

definition write_header :: "byte \<Rightarrow> bool \<Rightarrow> u16 \<Rightarrow> u32 \<Rightarrow> u32 \<Rightarrow> byte list" where
  "write_header pt marker seq ts ssrc =
     [0x80, (pt AND 0x7f) OR (if marker then 0x80 else 0)] @ be16 seq @ be32 ts @ be32 ssrc"

text \<open>The length of the header as sent, 0 for a malformed packet.\<close>

definition header_length :: "byte list \<Rightarrow> nat" where
  "header_length p =
     (if length p < kHeaderBytes \<or> drop_bit 6 (p ! 0) \<noteq> 2 then 0
      else
        let h = kHeaderBytes + 4 * unat (p ! 0 AND 0x0f)
        in if p ! 0 AND 0x10 \<noteq> 0 \<and> length p < h + 4 then 0
           else let h = (if p ! 0 AND 0x10 \<noteq> 0 then h + 4 + 4 * (unat (p ! (h + 2)) * 256 + unat (p ! (h + 3))) else h)
                in if h \<le> length p then h else 0)"

record rtp_header =
  rh_pt :: byte
  rh_marker :: bool
  rh_seq :: u16
  rh_ts :: u32
  rh_ssrc :: u32
  rh_payload_at :: nat
  rh_payload_len :: nat

definition rd16 :: "byte list \<Rightarrow> nat \<Rightarrow> u16" where
  "rd16 p i = push_bit 8 (ucast (p ! i)) OR ucast (p ! (i + 1))"

definition rd32 :: "byte list \<Rightarrow> nat \<Rightarrow> u32" where
  "rd32 p i = push_bit 24 (ucast (p ! i)) OR push_bit 16 (ucast (p ! (i + 1))) OR push_bit 8 (ucast (p ! (i + 2))) OR ucast (p ! (i + 3))"

definition rtp_parse :: "byte list \<Rightarrow> rtp_header option" where
  "rtp_parse p =
     (let h = header_length p; n = length p
      in if h = 0 then None
         else
           let pad = (if p ! 0 AND 0x20 \<noteq> 0 then unat (p ! (n - 1)) else 0)
           in if p ! 0 AND 0x20 \<noteq> 0 \<and> (pad = 0 \<or> n - h < pad) then None
              else Some \<lparr>rh_pt = p ! 1 AND 0x7f, rh_marker = (p ! 1 AND 0x80 \<noteq> 0), rh_seq = rd16 p 2, rh_ts = rd32 p 4, rh_ssrc = rd32 p 8,
                         rh_payload_at = h, rh_payload_len = n - pad - h\<rparr>)"

section \<open>The packets of an access unit\<close>

record rtp_params =
  rp_payload_type :: byte
  rp_ssrc :: u32
  rp_max_payload :: nat

definition rtp_head :: "rtp_params \<Rightarrow> u16 \<Rightarrow> u32 \<Rightarrow> bool \<Rightarrow> byte list" where
  "rtp_head p seq ts marker = write_header (rp_payload_type p) marker seq ts (rp_ssrc p)"

text \<open>The room of a fragment, \<^verbatim>\<open>p.max_payload - 2\<close> in a \<^verbatim>\<open>size_t\<close> of \<open>w\<close> bits.\<close>

definition fu_chunk :: "nat \<Rightarrow> rtp_params \<Rightarrow> nat" where
  "fu_chunk w p = (rp_max_payload p + 2 ^ w - 2) mod 2 ^ w"

definition fu_take :: "nat \<Rightarrow> rtp_params \<Rightarrow> byte list \<Rightarrow> nat \<Rightarrow> nat" where
  "fu_take w p x off = (if length x - off < fu_chunk w p then length x - off else fu_chunk w p)"

text \<open>The payload of the fragment at an offset.\<close>

definition fu_payload :: "nat \<Rightarrow> rtp_params \<Rightarrow> byte list \<Rightarrow> nat \<Rightarrow> byte list" where
  "fu_payload w p x off =
     [(x ! 0 AND 0xe0) OR 28,
      ((if off = 1 then 0x80 else 0) OR (if off + fu_take w p x off = length x then 0x40 else 0)) OR (x ! 0 AND 0x1f)]
     @ take (fu_take w p x off) (drop off x)"

text \<open>The loop over the fragments, which does not end when there is no room in a fragment.\<close>

partial_function (option) fu_loop :: "nat \<Rightarrow> rtp_params \<Rightarrow> u32 \<Rightarrow> byte list \<Rightarrow> bool \<Rightarrow> nat \<Rightarrow> u16 \<Rightarrow> (byte list list \<times> u16) option" where
  [code]: "fu_loop w p ts x is_last off seq =
     (if off < length x
      then Option.bind (fu_loop w p ts x is_last (off + fu_take w p x off) (seq + 1))
             (\<lambda>(pkts, s). Some ((rtp_head p seq ts (is_last \<and> off + fu_take w p x off = length x) @ fu_payload w p x off) # pkts, s))
      else Some ([], seq))"

text \<open>The last unit that will be sent, from the back; \<open>length us\<close> when there is none.\<close>

fun last_sent :: "nal list \<Rightarrow> nat \<Rightarrow> nat" where
  "last_sent us 0 = length us"
| "last_sent us (Suc i) = (if nal_type (us ! i) \<noteq> 9 then i else last_sent us i)"

fun send_nals :: "nat \<Rightarrow> rtp_params \<Rightarrow> u32 \<Rightarrow> byte list \<Rightarrow> nat \<Rightarrow> nat \<Rightarrow> u16 \<Rightarrow> nal list \<Rightarrow> (byte list list \<times> u16) option" where
  "send_nals w p ts d final i seq [] = Some ([], seq)"
| "send_nals w p ts d final i seq (u # us) =
     (if nal_type u = 9 \<or> nal_len u = 0 then send_nals w p ts d final (i + 1) seq us
      else
        Option.bind
          (if nal_len u \<le> rp_max_payload p then Some ([rtp_head p seq ts (i = final) @ nal_bytes d u], seq + 1)
           else fu_loop w p ts (nal_bytes d u) (i = final) 1 seq)
          (\<lambda>(a, s). Option.bind (send_nals w p ts d final (i + 1) s us) (\<lambda>(b, s). Some (a @ b, s))))"

definition packetize_h264 :: "nat \<Rightarrow> byte list \<Rightarrow> u32 \<Rightarrow> u16 \<Rightarrow> rtp_params \<Rightarrow> (byte list list \<times> u16) option" where
  "packetize_h264 w au ts seq p =
     (let us = split_nals au 64 in send_nals w p ts au (last_sent us (length us)) 0 seq us)"

section \<open>RTCP\<close>

definition is_rtcp :: "byte list \<Rightarrow> bool" where
  "is_rtcp p \<longleftrightarrow> \<not> (length p < 8 \<or> drop_bit 6 (p ! 0) \<noteq> 2) \<and> 64 \<le> p ! 1 AND 0x7f \<and> p ! 1 AND 0x7f \<le> 95"

record rtcp_info =
  ri_pli :: bool
  ri_receiver_report :: bool

function rtcp_loop :: "byte list \<Rightarrow> nat \<Rightarrow> rtcp_info \<Rightarrow> rtcp_info" where
  "rtcp_loop p at r =
     (if at + 4 \<le> length p \<and> drop_bit 6 (p ! at) = 2
      then
        let fmt = p ! at AND 0x1f; pt = p ! (at + 1); plen = 4 * (unat (p ! (at + 2)) * 256 + unat (p ! (at + 3)) + 1)
        in if length p < at + plen then r
           else rtcp_loop p (at + plen)
             (r\<lparr>ri_pli := (ri_pli r \<or> pt = 206 \<and> fmt = 1), ri_receiver_report := (ri_receiver_report r \<or> pt = 201)\<rparr>)
      else r)"
  by pat_completeness auto
termination by (relation "measure (\<lambda>(p, at, r). length p - at)") auto

declare rtcp_loop.simps [simp del]

definition parse_rtcp :: "byte list \<Rightarrow> rtcp_info" where
  "parse_rtcp p = rtcp_loop p 0 \<lparr>ri_pli = False, ri_receiver_report = False\<rparr>"

section \<open>Bits of a byte\<close>

lemma byte_eqI:
  fixes x y :: byte
  assumes "bit x 0 = bit y 0" "bit x 1 = bit y 1" "bit x 2 = bit y 2" "bit x 3 = bit y 3" "bit x 4 = bit y 4" "bit x 5 = bit y 5" "bit x 6 = bit y 6"
    "bit x 7 = bit y 7"
  shows "x = y"
proof (rule bit_word_eqI)
  fix n assume "n < LENGTH(8)"
  then consider "n = 0" | "n = 1" | "n = 2" | "n = 3" | "n = 4" | "n = 5" | "n = 6" | "n = 7" by fastforce
  then show "bit x n = bit y n" by cases (simp_all only: assms)
qed

lemma fu_indicator: "((a AND 0xe0) OR 28) AND 0x1f = (28 :: byte)"
  by (rule byte_eqI) (simp_all add: bit_simps)

lemma byte_flags:
  fixes x :: byte
  shows "x AND 0x80 = 0 \<longleftrightarrow> \<not> bit x 7" "x AND 0x40 = 0 \<longleftrightarrow> \<not> bit x 6" "x AND 0x20 = 0 \<longleftrightarrow> \<not> bit x 5" "x AND 0x10 = 0 \<longleftrightarrow> \<not> bit x 4"
  using and_exp_eq_0_iff_not_bit [of x 7] and_exp_eq_0_iff_not_bit [of x 6] and_exp_eq_0_iff_not_bit [of x 5] and_exp_eq_0_iff_not_bit [of x 4] by simp_all

lemma fu_flags:
  fixes a :: byte
  shows "(((if s then 0x80 else 0) OR (if e then 0x40 else 0)) OR (a AND 0x1f)) AND 0x80 = 0 \<longleftrightarrow> \<not> s"
    "(((if s then 0x80 else 0) OR (if e then 0x40 else 0)) OR (a AND 0x1f)) AND 0x40 = 0 \<longleftrightarrow> \<not> e"
  unfolding byte_flags by (simp_all add: bit_simps)

lemma fu_type: "((a AND 0xe0) OR 28) AND 0xe0 OR ((((if s then 0x80 else 0) OR (if e then 0x40 else 0)) OR (a AND 0x1f)) AND 0x1f) = (a :: byte)"
  by (rule byte_eqI) (simp_all add: bit_simps)

section \<open>A packet is read back\<close>

lemma length_be16 [simp]: "length (be16 x) = 2" and length_be32 [simp]: "length (be32 y) = 4"
  by (simp_all add: be16_def be32_def)

lemma rd16_be16: "k = length a \<Longrightarrow> rd16 (a @ be16 x @ b) k = x"
proof -
  have "push_bit 8 (ucast (ucast (drop_bit 8 x) :: byte)) OR ucast (ucast x :: byte) = x" by (rule bit_word_eqI) (auto simp: bit_simps)
  then show "rd16 (a @ be16 x @ b) k = x" if "k = length a" using that by (simp add: rd16_def be16_def nth_append)
qed

lemma rd32_be32: "k = length a \<Longrightarrow> rd32 (a @ be32 x @ b) k = x"
proof -
  have "push_bit 24 (ucast (ucast (drop_bit 24 x) :: byte)) OR push_bit 16 (ucast (ucast (drop_bit 16 x) :: byte)) OR push_bit 8 (ucast (ucast (drop_bit 8 x) :: byte))
    OR ucast (ucast x :: byte) = x" (is "?l = x")
  proof (rule bit_word_eqI)
    fix n assume "n < LENGTH(32)"
    then consider "n < 8" | "8 \<le> n" "n < 16" | "16 \<le> n" "n < 24" | "24 \<le> n" "n < 32" by fastforce
    then show "bit ?l n = bit x n" by cases (auto simp: bit_simps)
  qed
  then show "rd32 (a @ be32 x @ b) k = x" if "k = length a" using that by (simp add: rd32_def be32_def nth_append)
qed

lemma length_rtp_head [simp]: "length (rtp_head p seq ts m) = 12"
  by (simp add: rtp_head_def write_header_def be16_def be32_def)

lemma rtp_parse_written:
  "rtp_parse (write_header pt m seq ts ssrc @ payload)
     = Some \<lparr>rh_pt = pt AND 0x7f, rh_marker = m, rh_seq = seq, rh_ts = ts, rh_ssrc = ssrc, rh_payload_at = 12, rh_payload_len = length payload\<rparr>"
proof -
  define b1 where "b1 = (pt AND 0x7f) OR (if m then 0x80 else 0)"
  have b: "b1 AND 0x7f = pt AND 0x7f" "b1 AND 0x80 = 0 \<longleftrightarrow> \<not> m"
    unfolding b1_def byte_flags by (rule byte_eqI; simp add: bit_simps) (simp add: bit_simps)
  let ?p = "write_header pt m seq ts ssrc @ payload"
  have p: "?p = [0x80, b1] @ be16 seq @ be32 ts @ be32 ssrc @ payload" by (simp add: write_header_def b1_def)
  have f: "rd16 ?p 2 = seq" "rd32 ?p 4 = ts" "rd32 ?p 8 = ssrc"
    using rd16_be16 [of 2 "[0x80, b1]" seq] rd32_be32 [of 4 "[0x80, b1] @ be16 seq" ts] rd32_be32 [of 8 "[0x80, b1] @ be16 seq @ be32 ts" ssrc]
    unfolding p by simp_all
  have l: "length ?p = 12 + length payload" by (simp add: p be16_def be32_def)
  have n: "?p ! 0 = 0x80" "?p ! 1 = b1" by (simp_all add: p)
  have h: "header_length ?p = 12" unfolding header_length_def n l kHeaderBytes_def by simp
  show ?thesis unfolding rtp_parse_def h n l f Let_def by (simp add: b)
qed

lemma rtp_parse_head:
  "rtp_parse (rtp_head p seq ts m @ y)
     = Some \<lparr>rh_pt = rp_payload_type p AND 0x7f, rh_marker = m, rh_seq = seq, rh_ts = ts, rh_ssrc = rp_ssrc p, rh_payload_at = 12, rh_payload_len = length y\<rparr>"
  by (simp only: rtp_head_def rtp_parse_written)

section \<open>Fragments\<close>

text \<open>The payloads of a unit, and packets put around a list of payloads: numbered consecutively, the last one marked.\<close>

function fu_pieces :: "nat \<Rightarrow> rtp_params \<Rightarrow> byte list \<Rightarrow> nat \<Rightarrow> byte list list" where
  "fu_pieces w p x off =
     (if off < length x \<and> 0 < fu_chunk w p then fu_payload w p x off # fu_pieces w p x (off + fu_take w p x off) else [])"
  by pat_completeness auto
termination by (relation "measure (\<lambda>(w, p, x, off). length x - off)") (auto simp: fu_take_def)

declare fu_pieces.simps [simp del]

definition nal_payloads :: "nat \<Rightarrow> rtp_params \<Rightarrow> byte list \<Rightarrow> byte list list" where
  "nal_payloads w p x = (if length x \<le> rp_max_payload p then [x] else fu_pieces w p x 1)"

fun stamp :: "rtp_params \<Rightarrow> u32 \<Rightarrow> bool \<Rightarrow> u16 \<Rightarrow> byte list list \<Rightarrow> byte list list" where
  "stamp p ts l seq [] = []"
| "stamp p ts l seq (y # ys) = (rtp_head p seq ts (l \<and> ys = []) @ y) # stamp p ts l (seq + 1) ys"

lemma stamp_append: "stamp p ts l seq (a @ b) = stamp p ts (l \<and> b = []) seq a @ stamp p ts l (seq + of_nat (length a)) b"
  by (induction a arbitrary: seq) (auto simp: add_ac conj_ac)

lemma length_stamp [simp]: "length (stamp p ts l seq ys) = length ys"
  by (induction ys arbitrary: seq) auto

lemma nth_stamp: "k < length ys \<Longrightarrow> stamp p ts l seq ys ! k = rtp_head p (seq + of_nat k) ts (l \<and> k = length ys - 1) @ ys ! k"
proof (induction ys arbitrary: seq k)
  case (Cons y ys)
  show ?case
  proof (cases k)
    case (Suc n)
    then have "n = length ys - 1 \<longleftrightarrow> k = length ys" using Cons.prems by auto
    then show ?thesis using Cons.IH [of n "seq + 1"] Cons.prems by (simp add: Suc add_ac)
  qed simp
qed simp

lemma fu_take_pos: "off < length x \<Longrightarrow> 0 < fu_chunk w p \<Longrightarrow> 0 < fu_take w p x off" and fu_take_le: "off + fu_take w p x off \<le> max off (length x)"
  by (auto simp: fu_take_def)

lemma fu_loop_stamp:
  "0 < fu_chunk w p \<Longrightarrow>
   fu_loop w p ts x l off seq = Some (stamp p ts l seq (fu_pieces w p x off), seq + of_nat (length (fu_pieces w p x off)))"
proof (induction "length x - off" arbitrary: off seq rule: less_induct)
  case less
  show ?case
  proof (cases "off < length x")
    case True
    let ?o = "off + fu_take w p x off"
    have "length x - ?o < length x - off" using True fu_take_pos [OF True less.prems] by simp
    note IH = less.hyps [OF this less.prems]
    have "fu_pieces w p x ?o = [] \<longleftrightarrow> ?o = length x"
      using fu_take_le [of off w p x] True less.prems by (auto simp: fu_pieces.simps [of w p x ?o])
    then show ?thesis
      using True less.prems by (subst fu_loop.simps) (simp add: IH fu_pieces.simps [of w p x off] add_ac)
  next
    case False
    then show ?thesis by (simp add: fu_loop.simps [of w p ts x l off] fu_pieces.simps)
  qed
qed

text \<open>A receiver of packetization mode 1 (RFC 6184): a fragment opens, continues or closes the unit in progress, anything else is a unit.\<close>

fun reassemble :: "byte list \<Rightarrow> byte list list \<Rightarrow> byte list list" where
  "reassemble buf [] = []"
| "reassemble buf (y # ys) =
     (if y ! 0 AND 0x1f = 28
      then
        let b = (if y ! 1 AND 0x80 \<noteq> 0 then [(y ! 0 AND 0xe0) OR (y ! 1 AND 0x1f)] else buf) @ drop 2 y
        in if y ! 1 AND 0x40 \<noteq> 0 then b # reassemble [] ys else reassemble b ys
      else y # reassemble [] ys)"

lemma reassemble_fu:
  "1 \<le> off \<Longrightarrow> off < length x \<Longrightarrow> 0 < fu_chunk w p \<Longrightarrow> off = 1 \<or> buf = take off x \<Longrightarrow>
   reassemble buf (fu_pieces w p x off @ ys) = x # reassemble [] ys"
proof (induction "length x - off" arbitrary: off buf rule: less_induct)
  case less
  let ?t = "fu_take w p x off" and ?y = "fu_payload w p x off"
  let ?b = "(if off = 1 then [x ! 0] else buf) @ take ?t (drop off x)"
  have b: "?b = take (off + ?t) x"
    using less.prems(2,4) by (cases x) (auto simp: take_add)
  have y: "?y ! 0 AND 0x1f = 28" "?y ! 1 AND 0x80 = 0 \<longleftrightarrow> off \<noteq> 1" "?y ! 1 AND 0x40 = 0 \<longleftrightarrow> off + ?t \<noteq> length x"
      "(?y ! 0 AND 0xe0) OR (?y ! 1 AND 0x1f) = x ! 0" "drop 2 ?y = take ?t (drop off x)"
    by (simp_all add: fu_payload_def fu_indicator fu_flags fu_type del: take_drop drop_take)
  have r: "reassemble buf (?y # zs) = (if off + ?t = length x then take (off + ?t) x # reassemble [] zs else reassemble (take (off + ?t) x) zs)" for zs
    unfolding b [symmetric] by (simp only: reassemble.simps y Let_def simp_thms not_not if_True)
  have pcs: "fu_pieces w p x off = ?y # fu_pieces w p x (off + ?t)" using less.prems(2,3) by (simp add: fu_pieces.simps [of w p x off])
  show ?case
  proof (cases "off + ?t = length x")
    case True
    then have "fu_pieces w p x (off + ?t) = []" by (simp add: fu_pieces.simps)
    then show ?thesis using True unfolding pcs append_Cons r by simp
  next
    case False
    then have "off + ?t < length x" using fu_take_le [of off w p x] less.prems(2) by simp
    then have "reassemble (take (off + ?t) x) (fu_pieces w p x (off + ?t) @ ys) = x # reassemble [] ys"
      using fu_take_pos [of off x w p] less.prems by (intro less.hyps) auto
    then show ?thesis using False unfolding pcs append_Cons r by simp
  qed
qed

section \<open>The whole access unit\<close>

lemma fu_chunk_eq: "2 < rp_max_payload p \<Longrightarrow> rp_max_payload p < 2 ^ w \<Longrightarrow> fu_chunk w p = rp_max_payload p - 2"
  by (simp add: fu_chunk_def mod_if)

lemma reassemble_nal:
  assumes "2 < rp_max_payload p" "rp_max_payload p < 2 ^ w" "x \<noteq> []" "x ! 0 AND 0x1f \<noteq> 28"
  shows "reassemble buf (nal_payloads w p x @ ys) = x # reassemble [] ys"
proof -
  have "fu_chunk w p = rp_max_payload p - 2" using assms(1,2) by (rule fu_chunk_eq)
  then show ?thesis using assms reassemble_fu [of 1 x w p buf ys] by (auto simp: nal_payloads_def)
qed

lemma reassemble_nals:
  assumes "2 < rp_max_payload p" "rp_max_payload p < 2 ^ w" "list_all (\<lambda>x. x \<noteq> [] \<and> x ! 0 AND 0x1f \<noteq> 28) xs"
  shows "reassemble buf (concat (map (nal_payloads w p) xs)) = xs"
  using assms(3) by (induction xs arbitrary: buf) (auto simp: reassemble_nal [OF assms(1,2)])

lemma fu_pieces_bound: "1 \<le> fu_chunk w p \<Longrightarrow> y \<in> set (fu_pieces w p x off) \<Longrightarrow> length y \<le> fu_chunk w p + 2"
proof (induction "length x - off" arbitrary: off rule: less_induct)
  case less
  have off: "off < length x" 
  proof (rule ccontr)
    assume "\<not> off < length x"
    then have "fu_pieces w p x off = []" by (subst fu_pieces.simps) simp
    with less.prems(2) show False by simp
  qed
  then have pcs: "fu_pieces w p x off = fu_payload w p x off # fu_pieces w p x (off + fu_take w p x off)"
    using less.prems(1) by (subst fu_pieces.simps) simp
  have "y = fu_payload w p x off \<or> y \<in> set (fu_pieces w p x (off + fu_take w p x off))"
    using less.prems(2) unfolding pcs by simp
  then show ?case
  proof
    assume "y = fu_payload w p x off"
    then show ?thesis by (auto simp: fu_payload_def fu_take_def)
  next
    assume "y \<in> set (fu_pieces w p x (off + fu_take w p x off))"
    then show ?thesis using less.hyps [of "off + fu_take w p x off"] less.prems(1) off fu_take_pos [of off x w p] by simp
  qed
qed

lemma nal_payloads_bound:
  assumes "2 < rp_max_payload p" "rp_max_payload p < 2 ^ w" "y \<in> set (nal_payloads w p x)" shows "length y \<le> rp_max_payload p"
proof -
  have c: "fu_chunk w p = rp_max_payload p - 2" using assms(1,2) by (rule fu_chunk_eq)
  show ?thesis
  proof (cases "length x \<le> rp_max_payload p")
    case False
    have "1 \<le> fu_chunk w p" "fu_chunk w p + 2 = rp_max_payload p" using c assms(1) by simp_all
    then show ?thesis using False assms(3) fu_pieces_bound [of w p y x 1] by (simp add: nal_payloads_def)
  qed (use assms in \<open>simp add: nal_payloads_def\<close>)
qed

text \<open>The units that are sent are marked at the last one, wherever it is.\<close>

lemma last_sent_iff:
  assumes "i < n" "n \<le> length us" "nal_type (us ! i) \<noteq> 9"
  shows "i = last_sent us n \<longleftrightarrow> (\<forall>u\<in>set (drop (Suc i) (take n us)). nal_type u = 9)"
  using assms
proof (induction n)
  case (Suc n)
  then have t: "take (Suc n) us = take n us @ [us ! n]" by (simp add: take_Suc_conv_app_nth)
  show ?case
  proof (cases "i = n")
    case True
    then show ?thesis using Suc.prems by simp
  next
    case False
    then have i: "i < n" "drop (Suc i) (take (Suc n) us) = drop (Suc i) (take n us) @ [us ! n]" using Suc.prems by (simp_all add: t)
    show ?thesis unfolding i(2) using Suc i(1) by simp
  qed
qed simp

lemma send_nals_stamp:
  assumes "0 < fu_chunk w p" "list_all (\<lambda>u. nal_len u \<noteq> 0 \<and> length (nal_bytes d u) = nal_len u) us"
    "\<And>k. k < length us \<Longrightarrow> nal_type (us ! k) \<noteq> 9 \<Longrightarrow> i + k = final \<longleftrightarrow> (\<forall>u\<in>set (drop (Suc k) us). nal_type u = 9)" "0 < rp_max_payload p"
  shows "send_nals w p ts d final i seq us
    = (let ys = concat (map (\<lambda>u. nal_payloads w p (nal_bytes d u)) (filter (\<lambda>u. nal_type u \<noteq> 9) us))
       in Some (stamp p ts True seq ys, seq + of_nat (length ys)))"
  using assms(2,3)
proof (induction us arbitrary: i seq)
  case (Cons u us)
  let ?f = "\<lambda>us. concat (map (\<lambda>u. nal_payloads w p (nal_bytes d u)) (filter (\<lambda>u. nal_type u \<noteq> 9) us))"
  have IH: "send_nals w p ts d final (Suc i) s us = Some (stamp p ts True s (?f us), s + of_nat (length (?f us)))" for s
    using Cons.IH [of "Suc i" s] Cons.prems(1) Cons.prems(2) [of "Suc _"] by (simp add: Let_def)
  show ?case
  proof (cases "nal_type u = 9")
    case False
    have ne: "nal_payloads w p (nal_bytes d v) \<noteq> []" if "v \<in> set us" for v
    proof -
      have "length (nal_bytes d v) \<noteq> 0" using that Cons.prems(1) by (auto simp: list_all_iff)
      then show ?thesis using assms(1,4) by (cases "nal_bytes d v") (auto simp: nal_payloads_def fu_pieces.simps)
    qed
    then have "?f us = [] \<longleftrightarrow> (\<forall>v\<in>set us. nal_type v = 9)" by (auto simp: filter_empty_conv)
    then have "i = final \<longleftrightarrow> ?f us = []" using Cons.prems(2) [of 0] False by simp
    then show ?thesis using False Cons.prems(1) fu_loop_stamp [OF assms(1)]
      by (simp add: IH stamp_append nal_payloads_def Let_def add_ac)
  qed (use IH in \<open>simp add: Let_def\<close>)
qed simp

text \<open>What the splitter finds lies in the buffer and is not empty.\<close>

definition nal_in :: "byte list \<Rightarrow> nal \<Rightarrow> bool" where
  "nal_in d u \<longleftrightarrow> nal_len u \<noteq> 0 \<and> nal_start u + nal_len u \<le> length d \<and> nal_type u = d ! nal_start u AND 0x1f"

lemma trim_end_le: "trim_end d s i \<le> i"
  by (induction d s i rule: trim_end.induct) auto

lemma nal_in_of: "l \<noteq> 0 \<Longrightarrow> s + l \<le> length d \<Longrightarrow> nal_in d (nal_of d s l)"
  by (simp add: nal_in_def nal_of_def)

lemma split_loop_in:
  "list_all (nal_in d) out \<Longrightarrow> (case st of None \<Rightarrow> True | Some s \<Rightarrow> s \<le> i) \<Longrightarrow> list_all (nal_in d) (snd (split_loop d mx i st out))"
proof (induction d mx i st out rule: split_loop.induct)
  case (1 d mx i st out)
  have c: "list_all (nal_in d) (close_nal d mx st i out)" if "i + 3 \<le> length d"
    using that 1(3) order_trans [OF trim_end_le [of d _ i], of "length d"] by (auto simp: close_nal_def Let_def intro!: nal_in_of split: option.splits)
  show ?case using 1 c by (subst split_loop.simps) (auto split: option.splits)
qed

lemma split_nals_in: "list_all (nal_in d) (split_nals d mx)"
proof -
  have "list_all (nal_in d) (snd (split_loop d mx 0 None []))" by (rule split_loop_in) simp_all
  then show ?thesis by (auto simp: split_nals_def split_end_def intro!: nal_in_of split: prod.splits option.splits)
qed

lemma nal_bytes_in: "nal_in d u \<Longrightarrow> length (nal_bytes d u) = nal_len u" "nal_in d u \<Longrightarrow> nal_type u = nal_bytes d u ! 0 AND 0x1f"
  by (auto simp: nal_in_def nal_bytes_def)

lemma packetize_stamp:
  assumes "2 < rp_max_payload p" "rp_max_payload p < 2 ^ w"
  shows "packetize_h264 w au ts seq p
    = (let ys = concat (map (nal_payloads w p) (filter (\<lambda>x. x ! 0 AND 0x1f \<noteq> 9) (map (nal_bytes au) (split_nals au 64))))
       in Some (stamp p ts True seq ys, seq + of_nat (length ys)))"
proof -
  let ?us = "split_nals au 64"
  have all: "u \<in> set ?us \<Longrightarrow> nal_in au u" for u using split_nals_in [of au 64] by (auto simp: list_all_iff)
  have f: "map (nal_bytes au) (filter (\<lambda>u. nal_type u \<noteq> 9) ?us) = filter (\<lambda>x. x ! 0 AND 0x1f \<noteq> 9) (map (nal_bytes au) ?us)"
    unfolding filter_map comp_def using nal_bytes_in(2) [OF all] by (intro arg_cong [where f = "map _"] filter_cong) simp_all
  have "0 < fu_chunk w p" using assms fu_chunk_eq by simp
  moreover have "list_all (\<lambda>u. nal_len u \<noteq> 0 \<and> length (nal_bytes au u) = nal_len u) ?us"
    using all nal_bytes_in(1) by (auto simp: list_all_iff nal_in_def)
  ultimately show ?thesis
    using last_sent_iff [of _ "length ?us" ?us] assms(1) unfolding packetize_h264_def Let_def f [symmetric]
    by (subst send_nals_stamp) (auto simp: Let_def comp_def)
qed

section \<open>Properties\<close>


definition video_params :: rtp_params where
  "video_params = \<lparr>rp_payload_type = 102, rp_ssrc = 7, rp_max_payload = 4\<rparr>"


end
