(* ===== verification/Rtp_Jpeg.thy ===== *)
theory Rtp_Jpeg
  imports Rtp
begin

text \<open>
  JPEG over RTP (\<^verbatim>\<open>app/rtsp/rtp_jpeg.cpp\<close>): the parser that takes from a picture what RFC 2435 can carry and refuses the rest with a reason, and the payloads of a
  frame. An error is the left side of a sum.
\<close>

unbundle bit_operations_syntax

section \<open>Parsing a picture\<close>

record jpeg_frame =
  jf_width :: int
  jf_height :: int
  jf_type :: byte
  jf_restart_interval :: u16
  jf_qtables :: "byte list"
  jf_scan :: "byte list"

text \<open>What the loop over the segments keeps.\<close>

record jpeg_state =
  js_width :: int
  js_height :: int
  js_restart :: u16
  js_qt :: "byte list option list"
  js_comp_q :: "nat list"
  js_samp0 :: byte
  js_sof :: bool

definition jpeg_state0 :: jpeg_state where
  "jpeg_state0 = \<lparr>js_width = 0, js_height = 0, js_restart = 0, js_qt = replicate 4 None, js_comp_q = [0, 0, 0], js_samp0 = 0, js_sof = False\<rparr>"

definition num16 :: "byte list \<Rightarrow> nat \<Rightarrow> nat" where
  "num16 p i = unat (p ! i) * 256 + unat (p ! (i + 1))"

function dqt_loop :: "byte list \<Rightarrow> byte list option list \<Rightarrow> string + byte list option list" where
  "dqt_loop s qt =
     (if s = [] then Inr qt
      else if drop_bit 4 (s ! 0) \<noteq> 0 then Inl ''16-bit quantisation tables''
      else
        let tq = unat (s ! 0 AND 0x0f)
        in if 3 < tq \<or> length s < 65 then Inl ''bad DQT''
           else dqt_loop (drop 65 s) (qt[tq := Some (take 64 (drop 1 s))]))"
  by pat_completeness auto
termination by (relation "measure (\<lambda>(s, qt). length s)") auto

declare dqt_loop.simps [simp del]

definition sof_segment :: "byte list \<Rightarrow> jpeg_state \<Rightarrow> string + jpeg_state" where
  "sof_segment s st =
     (if length s < 15 \<or> s ! 0 \<noteq> 8 then Inl ''not 8-bit''
      else if s ! 5 \<noteq> 3 then Inl ''not 3-component YCbCr''
      else if list_ex (\<lambda>c. 3 < unat (s ! (8 + 3 * c))) [0..<3] then Inl ''bad quantisation table selector''
      else if s ! 10 \<noteq> 0x11 \<or> s ! 13 \<noteq> 0x11 then Inl ''unsupported chroma sampling''
      else Inr (st\<lparr>js_height := int (num16 s 1), js_width := int (num16 s 3), js_samp0 := s ! 7,
                  js_comp_q := map (\<lambda>c. unat (s ! (8 + 3 * c))) [0..<3], js_sof := True\<rparr>))"

definition jpeg_segment :: "byte \<Rightarrow> byte list \<Rightarrow> jpeg_state \<Rightarrow> string + jpeg_state" where
  "jpeg_segment m s st =
     (if m = 0xdb then (case dqt_loop s (js_qt st) of Inl e \<Rightarrow> Inl e | Inr qt \<Rightarrow> Inr (st\<lparr>js_qt := qt\<rparr>))
      else if m = 0xc0 then sof_segment s st
      else if 0xc1 \<le> m \<and> m \<le> 0xcf \<and> m \<noteq> 0xc4 \<and> m \<noteq> 0xc8 \<and> m \<noteq> 0xcc then Inl ''not baseline JPEG''
      else if m = 0xdd then (if length s < 2 then Inl ''bad DRI'' else Inr (st\<lparr>js_restart := word_of_nat (num16 s 0)\<rparr>))
      else Inr st)"

text \<open>The start of the scan: the picture is complete and is checked.\<close>

definition jpeg_sos :: "byte list \<Rightarrow> nat \<Rightarrow> jpeg_state \<Rightarrow> string + jpeg_frame" where
  "jpeg_sos d start st =
     (if \<not> js_sof st then Inl ''SOS before SOF''
      else
        let n = length d;
            e = (if start + 2 \<le> n \<and> d ! (n - 2) = 0xff \<and> d ! (n - 1) = 0xd9 then n - 2 else n);
            q0 = js_qt st ! (js_comp_q st ! 0); q1 = js_qt st ! (js_comp_q st ! 1)
        in if js_samp0 st \<noteq> 0x21 \<and> js_samp0 st \<noteq> 0x22 then Inl ''unsupported luma sampling''
           else if js_width st \<le> 0 \<or> js_height st \<le> 0 \<or> 2040 < js_width st \<or> 2040 < js_height st then Inl ''over 2040 pixels (RFC 2435 limit)''
           else
             case (q0, q1) of
               (Some a, Some b) \<Rightarrow>
                 if e - start = 0 then Inl ''empty scan''
                 else Inr \<lparr>jf_width = js_width st, jf_height = js_height st,
                           jf_type = (if js_samp0 st = 0x21 then 0 else 1) + (if js_restart st \<noteq> 0 then 64 else 0),
                           jf_restart_interval = js_restart st, jf_qtables = a @ b, jf_scan = take (e - start) (drop start d)\<rparr>
             | _ \<Rightarrow> Inl ''missing quantisation table'')"

function jpeg_loop :: "byte list \<Rightarrow> nat \<Rightarrow> jpeg_state \<Rightarrow> string + jpeg_frame" where
  "jpeg_loop d i st =
     (if i + 4 \<le> length d
      then
        if d ! i \<noteq> 0xff then Inl ''corrupt marker sequence''
        else if d ! (i + 1) = 0xff then jpeg_loop d (i + 1) st
        else if num16 d (i + 2) < 2 \<or> length d < i + 2 + num16 d (i + 2) then Inl ''truncated segment''
        else if d ! (i + 1) = 0xda then jpeg_sos d (i + 2 + num16 d (i + 2)) st
        else
          case jpeg_segment (d ! (i + 1)) (take (num16 d (i + 2) - 2) (drop (i + 4) d)) st of
            Inl e \<Rightarrow> Inl e
          | Inr st \<Rightarrow> jpeg_loop d (i + 2 + num16 d (i + 2)) st
      else Inl ''no SOS'')"
  by pat_completeness auto
termination by (relation "measure (\<lambda>(d, i, st). length d - i)") auto

declare jpeg_loop.simps [simp del]

definition parse_jpeg :: "byte list \<Rightarrow> string + jpeg_frame" where
  "parse_jpeg d =
     (if length d < 4 \<or> d ! 0 \<noteq> 0xff \<or> d ! 1 \<noteq> 0xd8 then Inl ''not a JPEG (no SOI)'' else jpeg_loop d 2 jpeg_state0)"

section \<open>The payloads\<close>

text \<open>The headers in front of the scan: main, restart marker, and, in the first payload, the quantisation tables.\<close>

definition jpeg_head :: "jpeg_frame \<Rightarrow> nat \<Rightarrow> byte list" where
  "jpeg_head f off =
     [0, word_of_nat (off div 65536), word_of_nat (off div 256), word_of_nat off, jf_type f, 255,
      word_of_int (jf_width f div 8), word_of_int (jf_height f div 8)]
     @ (if 64 \<le> jf_type f then be16 (jf_restart_interval f) @ [0xff, 0xff] else [])
     @ (if off = 0 then [0, 0] @ be16 (word_of_nat (length (jf_qtables f))) @ jf_qtables f else [])"

definition jpeg_take :: "jpeg_frame \<Rightarrow> nat \<Rightarrow> nat \<Rightarrow> nat" where
  "jpeg_take f mtu off = min (mtu - length (jpeg_head f off)) (length (jf_scan f) - off)"

function jpeg_payload_loop :: "jpeg_frame \<Rightarrow> nat \<Rightarrow> nat \<Rightarrow> byte list list" where
  "jpeg_payload_loop f mtu off =
     (jpeg_head f off @ take (jpeg_take f mtu off) (drop off (jf_scan f))) #
     (if jpeg_take f mtu off = 0 then []
      else if off + jpeg_take f mtu off < length (jf_scan f) then jpeg_payload_loop f mtu (off + jpeg_take f mtu off) else [])"
  by pat_completeness auto
termination by (relation "measure (\<lambda>(f, mtu, off). length (jf_scan f) - off)") auto

declare jpeg_payload_loop.simps [simp del]

definition jpeg_rtp_payloads :: "jpeg_frame \<Rightarrow> nat \<Rightarrow> byte list list" where
  "jpeg_rtp_payloads f mtu = jpeg_payload_loop f mtu 0"

section \<open>What the parser accepts\<close>

definition qt_ok :: "byte list option list \<Rightarrow> bool" where
  "qt_ok qt \<longleftrightarrow> length qt = 4 \<and> list_all (\<lambda>q. case q of None \<Rightarrow> True | Some t \<Rightarrow> length t = 64) qt"

lemma dqt_loop_ok: "qt_ok qt \<Longrightarrow> dqt_loop s qt = Inr qt' \<Longrightarrow> qt_ok qt'"
proof (induction s qt rule: dqt_loop.induct)
  case (1 s qt)
  have "qt_ok (qt[k := Some (take 64 (drop 1 s))])" if "65 \<le> length s" for k
    using that 1(2) by (auto simp: qt_ok_def list_all_iff dest!: subsetD [OF set_update_subset_insert])
  with 1 show ?case by (subst (asm) dqt_loop.simps) (auto simp: Let_def not_less split: if_splits)
qed

definition js_ok :: "jpeg_state \<Rightarrow> bool" where
  "js_ok st \<longleftrightarrow> qt_ok (js_qt st) \<and> length (js_comp_q st) = 3 \<and> list_all (\<lambda>c. c < 4) (js_comp_q st)"

lemma jpeg_segment_ok: "js_ok st \<Longrightarrow> jpeg_segment m s st = Inr st' \<Longrightarrow> js_ok st'"
  by (auto simp: jpeg_segment_def js_ok_def sof_segment_def list_all_iff list_ex_iff not_less less_Suc_eq_le numeral_eq_Suc
      dest: dqt_loop_ok split: if_splits sum.splits)

lemma jpeg_loop_ok:
  "js_ok st \<Longrightarrow> jpeg_loop d i st = Inr f \<Longrightarrow> \<exists>start st'. js_ok st' \<and> start \<le> length d \<and> jpeg_sos d start st' = Inr f"
proof (induction d i st rule: jpeg_loop.induct)
  case (1 d i st)
  from 1(4) show ?case
    by (subst (asm) jpeg_loop.simps) (use 1 jpeg_segment_ok in \<open>auto simp: not_less split: if_splits sum.splits\<close>)
qed

definition frame_ok :: "byte list \<Rightarrow> jpeg_frame \<Rightarrow> bool" where
  "frame_ok d f \<longleftrightarrow> length (jf_qtables f) = 128 \<and> 0 < jf_width f \<and> jf_width f \<le> 2040 \<and> 0 < jf_height f \<and> jf_height f \<le> 2040
     \<and> jf_scan f \<noteq> [] \<and> (\<exists>a b. d = a @ jf_scan f @ b \<and> (b = [] \<or> b = [0xff, 0xd9]))"

lemma jpeg_sos_ok:
  assumes "js_ok st" "start \<le> length d" "jpeg_sos d start st = Inr f" shows "frame_ok d f"
proof -
  define e where "e = (if start + 2 \<le> length d \<and> d ! (length d - 2) = 0xff \<and> d ! (length d - 1) = 0xd9 then length d - 2 else length d)"
  obtain a b where q: "js_qt st ! (js_comp_q st ! 0) = Some a" "js_qt st ! (js_comp_q st ! 1) = Some b"
    and f: "jf_qtables f = a @ b" "jf_width f = js_width st" "jf_height f = js_height st" "jf_scan f = take (e - start) (drop start d)"
    and e: "e - start \<noteq> 0" "0 < js_width st" "js_width st \<le> 2040" "0 < js_height st" "js_height st \<le> 2040"
    using assms(3) unfolding jpeg_sos_def e_def Let_def by (auto split: if_splits option.splits)
  have "js_comp_q st ! 0 < 4" "js_comp_q st ! 1 < 4" using assms(1) by (simp_all add: js_ok_def list_all_length)
  moreover have "length t = 64" if "k < 4" "js_qt st ! k = Some t" for k t
    using assms(1) that by (auto simp: js_ok_def qt_ok_def list_all_length split: option.splits)
  ultimately have "length a = 64" "length b = 64" using q by blast+
  moreover have le: "e \<le> length d" by (simp add: e_def)
  have split: "d = take start d @ jf_scan f @ drop e d"
    using e(1) le unfolding f by (metis append_take_drop_id drop_drop diff_add_inverse2 add.commute linorder_not_less zero_less_diff neq0_conv le_add_diff_inverse less_imp_le)
  have eoi: "drop e d = [] \<or> drop e d = [0xff, 0xd9]"
  proof (cases "e = length d")
    case False
    then have l: "2 \<le> length d" "e = length d - 2" "d ! (length d - 2) = 0xff" "d ! (length d - 1) = 0xd9" by (auto simp: e_def split: if_splits)
    have "drop e d = [d ! e, d ! Suc e]" using l(1,2) by (simp add: Cons_nth_drop_Suc [symmetric])
    then show ?thesis using l by (simp add: numeral_2_eq_2 Suc_diff_Suc)
  qed simp
  moreover have "jf_scan f \<noteq> []" using e(1) le by (simp add: f)
  moreover have "\<exists>a b. d = a @ jf_scan f @ b \<and> (b = [] \<or> b = [0xff, 0xd9])" using split eoi by blast
  ultimately show ?thesis using e(2-5) f(1-3) unfolding frame_ok_def by simp
qed

lemma parse_jpeg_ok: "parse_jpeg d = Inr f \<Longrightarrow> frame_ok d f"
proof -
  have "js_ok jpeg_state0" by (simp add: js_ok_def jpeg_state0_def qt_ok_def numeral_eq_Suc)
  then show "frame_ok d f" if "parse_jpeg d = Inr f" using that jpeg_loop_ok jpeg_sos_ok by (fastforce simp: parse_jpeg_def split: if_splits)
qed

section \<open>Receiving\<close>

text \<open>A receiver (RFC 2435): the offset of a payload, where its tables are, how long its headers are, and the scan put together from the payloads in their order.\<close>

definition jpeg_off :: "byte list \<Rightarrow> nat" where
  "jpeg_off y = unat (y ! 1) * 65536 + unat (y ! 2) * 256 + unat (y ! 3)"

definition jpeg_qt_at :: "byte list \<Rightarrow> nat" where
  "jpeg_qt_at y = (if 64 \<le> y ! 4 then 12 else 8)"

definition jpeg_head_len :: "byte list \<Rightarrow> nat" where
  "jpeg_head_len y = jpeg_qt_at y + (if jpeg_off y = 0 then 4 + num16 y (jpeg_qt_at y + 2) else 0)"

definition jpeg_tables :: "byte list \<Rightarrow> byte list" where
  "jpeg_tables y = drop (jpeg_qt_at y + 4) (take (jpeg_head_len y) y)"

fun jpeg_join :: "byte list \<Rightarrow> byte list list \<Rightarrow> byte list option" where
  "jpeg_join acc [] = Some acc"
| "jpeg_join acc (y # ys) = (if jpeg_off y = length acc then jpeg_join (acc @ drop (jpeg_head_len y) y) ys else None)"

lemma jpeg_off_head:
  assumes "off < 2 ^ 24" shows "jpeg_off (jpeg_head f off @ z) = off"
proof -
  have "off div 65536 mod 256 = off div 65536" using assms by simp
  moreover have "off = off div 65536 * 65536 + off div 256 mod 256 * 256 + off mod 256"
  proof -
    have "off = off div 256 * 256 + off mod 256" "off div 256 = off div 256 div 256 * 256 + off div 256 mod 256" by simp_all
    moreover have "off div 65536 = off div 256 div 256" using div_mult2_eq [of off 256 256] by simp
    ultimately show ?thesis by linarith
  qed
  ultimately show ?thesis by (simp add: jpeg_off_def jpeg_head_def unat_of_nat)
qed

lemma num16_be16: "k = length a \<Longrightarrow> num16 (a @ be16 (word_of_nat n) @ b) k = n mod 65536"
proof -
  have "n div 256 mod 256 * 256 + n mod 256 = n mod 65536" using mod_mult2_eq [of n 256 256] by simp
  moreover have "unat (ucast (drop_bit 8 (word_of_nat n :: u16)) :: byte) = n div 256 mod 256"
  proof -
    have "n mod 65536 div 256 = n div 256 mod 256" using mod_mult2_eq [of n 256 256] by simp
    then show ?thesis by (simp add: unat_drop_bit_eq unsigned_ucast_eq unat_of_nat drop_bit_eq_div take_bit_eq_mod unat_div)
  qed
  moreover have "unat (ucast (word_of_nat n :: u16) :: byte) = n mod 256"
    by (simp add: unsigned_ucast_eq unat_of_nat take_bit_eq_mod mod_mod_cancel)
  ultimately show "num16 (a @ be16 (word_of_nat n) @ b) k = n mod 65536" if "k = length a"
    using that by (simp add: num16_def be16_def nth_append)
qed

lemma jpeg_head_len_head:
  assumes "off < 2 ^ 24" "length (jf_qtables f) < 65536"
  shows "jpeg_head_len (jpeg_head f off @ z) = length (jpeg_head f off)"
    and "off = 0 \<Longrightarrow> jpeg_tables (jpeg_head f off @ z) = jf_qtables f"
proof -
  let ?a = "[0, word_of_nat (off div 65536), word_of_nat (off div 256), word_of_nat off, jf_type f, 255, word_of_int (jf_width f div 8), word_of_int (jf_height f div 8)]
     @ (if 64 \<le> jf_type f then be16 (jf_restart_interval f) @ [0xff, 0xff] else [])"
  let ?k = "jpeg_qt_at (jpeg_head f off @ z)"
  have k: "?k = length ?a" by (simp add: jpeg_qt_at_def jpeg_head_def)
  have "jpeg_head f off @ z = (?a @ [0, 0]) @ be16 (word_of_nat (length (jf_qtables f))) @ jf_qtables f @ z" if "off = 0"
    using that unfolding jpeg_head_def by (simp del: append.simps)
  with num16_be16 [of "?k + 2" "?a @ [0, 0]" "length (jf_qtables f)" "jf_qtables f @ z"] k assms(2)
  have q: "num16 (jpeg_head f off @ z) (?k + 2) = length (jf_qtables f)" if "off = 0" using that by simp
  have l: "length (jpeg_head f off) = ?k + (if off = 0 then 4 + length (jf_qtables f) else 0)" unfolding k by (simp add: jpeg_head_def)
  show h: "jpeg_head_len (jpeg_head f off @ z) = length (jpeg_head f off)"
    unfolding jpeg_head_len_def jpeg_off_head [OF assms(1)] l using q by simp
  show "jpeg_tables (jpeg_head f off @ z) = jf_qtables f" if "off = 0"
  proof -
    define pre where "pre = ?a @ [0, 0] @ be16 (word_of_nat (length (jf_qtables f)))"
    have "jpeg_head f off = pre @ jf_qtables f" using that unfolding jpeg_head_def pre_def by (simp del: append.simps)
    moreover have "length pre = ?k + 4" unfolding k pre_def by simp
    ultimately show ?thesis unfolding jpeg_tables_def h by simp
  qed
qed

lemma length_jpeg_head: "length (jf_qtables f) = 128 \<Longrightarrow> length (jpeg_head f off) \<le> 144"
  by (simp add: jpeg_head_def)

lemma jpeg_payload_loop_join:
  assumes "length (jf_qtables f) = 128" "144 < mtu" "length (jf_scan f) < 2 ^ 24"
  shows "off < length (jf_scan f) \<Longrightarrow> jpeg_join (take off (jf_scan f)) (jpeg_payload_loop f mtu off) = Some (jf_scan f)
    \<and> list_all (\<lambda>y. length y \<le> mtu \<and> y ! 4 = jf_type f \<and> y ! 6 = word_of_int (jf_width f div 8) \<and> y ! 7 = word_of_int (jf_height f div 8)) (jpeg_payload_loop f mtu off)"
proof (induction "length (jf_scan f) - off" arbitrary: off rule: less_induct)
  case less
  let ?t = "jpeg_take f mtu off" and ?h = "jpeg_head f off"
  let ?y = "?h @ take ?t (drop off (jf_scan f))"
  have t: "0 < ?t" "off + ?t \<le> length (jf_scan f)" "length ?h + ?t \<le> mtu"
    using less.prems assms(2) length_jpeg_head [OF assms(1), of off] by (auto simp: jpeg_take_def)
  have "jpeg_off ?y = off" "jpeg_head_len ?y = length ?h" using jpeg_off_head jpeg_head_len_head(1) less.prems assms(1,3) by simp_all
  then have j: "jpeg_join (take off (jf_scan f)) (?y # ys) = jpeg_join (take (off + ?t) (jf_scan f)) ys" for ys
    using less.prems by (simp add: take_add del: take_append)
  have y: "length ?y \<le> mtu \<and> ?y ! 4 = jf_type f \<and> ?y ! 6 = word_of_int (jf_width f div 8) \<and> ?y ! 7 = word_of_int (jf_height f div 8)"
    using t by (simp add: jpeg_head_def)
  have p: "jpeg_payload_loop f mtu off = ?y # (if off + ?t < length (jf_scan f) then jpeg_payload_loop f mtu (off + ?t) else [])"
    using t(1) by (simp add: jpeg_payload_loop.simps [of f mtu off])
  show ?case
  proof (cases "off + ?t < length (jf_scan f)")
    case True
    with t(1) less.hyps [of "off + ?t"] show ?thesis unfolding p using j y by simp
  next
    case False
    then show ?thesis unfolding p using j y t(2) by simp
  qed
qed

section \<open>Properties\<close>


definition sample_jpeg :: "byte list" where
  "sample_jpeg = [0xff, 0xd8, 0xff, 0xdb, 0, 67, 0] @ replicate 64 9
     @ [0xff, 0xc0, 0, 17, 8, 0, 16, 0, 24, 3, 1, 0x22, 0, 2, 0x11, 0, 3, 0x11, 0, 0xff, 0xda, 0, 8, 1, 1, 0, 0, 0x3f, 0, 1, 2, 3, 0xff, 0xd9]"

definition sample_frame :: jpeg_frame where
  "sample_frame = \<lparr>jf_width = 24, jf_height = 16, jf_type = 1, jf_restart_interval = 0, jf_qtables = replicate 128 9, jf_scan = [1, 2, 3]\<rparr>"


end
