(* ===== verification/G711.thy ===== *)
theory G711
  imports Prelude
begin

text \<open>
  G.711 (\<^verbatim>\<open>core/audio/g711.cpp\<close>), the audio codec of every transport, and its use on a received packet (\<^verbatim>\<open>app/rtp/rtp_packet.cpp\<close>). A sample is a 16-bit word; the code computes on
  \<^verbatim>\<open>int\<close>, whose 32 bits it never leaves, so here too.
\<close>

unbundle bit_operations_syntax

type_synonym pcm = "16 word"

definition kBias :: int where "kBias = 0x84"
definition kClip :: int where "kClip = 32635"

section \<open>Encoding\<close>

text \<open>\<open>for (int m = 0x4000; (s & m) == 0 && exp > 0; m >>= 1) --exp;\<close>\<close>

fun exp_loop :: "int \<Rightarrow> int \<Rightarrow> nat \<Rightarrow> nat" where
  "exp_loop s m 0 = 0"
| "exp_loop s m (Suc e) = (if s AND m = 0 then exp_loop s (drop_bit 1 m) e else Suc e)"

definition ulaw_encode :: "pcm \<Rightarrow> byte" where
  "ulaw_encode pcm =
     (let s = sint pcm; sign = drop_bit 8 s AND 0x80;
          s = (if sign \<noteq> 0 then - s else s);
          s = (if kClip < s then kClip else s) + kBias;
          e = exp_loop s 0x4000 7;
          mant = drop_bit (e + 3) s AND 0x0F
      in word_of_int (NOT (sign OR push_bit 4 (int e) OR mant)))"

definition alaw_encode :: "pcm \<Rightarrow> byte" where
  "alaw_encode pcm =
     (let s = sint pcm; sign = drop_bit 8 (NOT s) AND 0x80;
          s = (if sign = 0 then - s else s);
          s = (if kClip < s then kClip else s)
      in if 256 \<le> s
         then
           let e = exp_loop s 0x4000 7; mant = drop_bit (e + 3) s AND 0x0F
           in word_of_int ((sign OR push_bit 4 (int e) OR mant) XOR 0x55)
         else word_of_int ((sign OR drop_bit 4 s) XOR 0x55))"

section \<open>Decoding\<close>

definition ulaw_decode :: "byte \<Rightarrow> pcm" where
  "ulaw_decode c =
     (let u = uint (NOT c); t = push_bit 3 (u AND 0x0F) + kBias;
          t = push_bit (nat (drop_bit 4 (u AND 0x70))) t
      in word_of_int (if u AND 0x80 \<noteq> 0 then kBias - t else t - kBias))"

definition alaw_decode :: "byte \<Rightarrow> pcm" where
  "alaw_decode c =
     (let a = uint (c XOR 0x55); t = push_bit 4 (a AND 0x0F); seg = nat (drop_bit 4 (a AND 0x70));
          t = (if seg = 0 then t + 8 else if seg = 1 then t + 0x108 else push_bit (seg - 1) (t + 0x108))
      in word_of_int (if a AND 0x80 \<noteq> 0 then t else - t))"

text \<open>The overloads on buffers, and a received payload: PCMU is type 0 and PCMA type 8, anything else is refused.\<close>

definition kPayloadPcmu :: byte where "kPayloadPcmu = 0"
definition kPayloadPcma :: byte where "kPayloadPcma = 8"

definition decode_g711 :: "byte \<Rightarrow> byte list \<Rightarrow> pcm list \<Rightarrow> pcm list option" where
  "decode_g711 pt p out =
     (if pt \<noteq> kPayloadPcmu \<and> pt \<noteq> kPayloadPcma then None
      else Some (out @ (if pt = kPayloadPcma then map alaw_decode p else map ulaw_decode p)))"

section \<open>Segments\<close>

lemma highest_bit: "0 \<le> s \<Longrightarrow> s < 2 ^ Suc k \<Longrightarrow> bit s k \<longleftrightarrow> 2 ^ k \<le> s" for s :: int
  by (cases "2 ^ k \<le> s") (auto simp: bit_iff_odd div_pos_geq div_pos_pos_trivial)

text \<open>The loop finds the segment of a magnitude: the position of its highest bit, from 8 on.\<close>

lemma exp_loop_bounds:
  "0 \<le> s \<Longrightarrow> s < 2 ^ (e + 8) \<Longrightarrow>
   exp_loop s (2 ^ (e + 7)) e \<le> e \<and> s < 2 ^ (exp_loop s (2 ^ (e + 7)) e + 8) \<and> (exp_loop s (2 ^ (e + 7)) e \<noteq> 0 \<longrightarrow> 2 ^ (exp_loop s (2 ^ (e + 7)) e + 7) \<le> s)"
proof (induction e)
  case (Suc e)
  have d: "drop_bit 1 (2 ^ (Suc e + 7)) = (2 ^ (e + 7) :: int)" by (simp add: drop_bit_eq_div power_add)
  have b: "s AND 2 ^ (Suc e + 7) = 0 \<longleftrightarrow> s < 2 ^ (e + 8)"
    using highest_bit [of s "Suc e + 7"] Suc.prems by (simp add: and_exp_eq_0_iff_not_bit not_le add.commute [of 8])
  show ?case
  proof (cases "s < 2 ^ (e + 8)")
    case True
    then have "exp_loop s (2 ^ (Suc e + 7)) (Suc e) = exp_loop s (2 ^ (e + 7)) e" using b d by simp
    then show ?thesis using Suc.IH [OF Suc.prems(1) True] by (metis le_Suc_eq)
  next
    case False
    then have l: "exp_loop s (2 ^ (Suc e + 7)) (Suc e) = Suc e" using b by simp
    show ?thesis unfolding l using False Suc.prems by (simp add: add.commute [of 8])
  qed
qed simp

text \<open>The segment of a magnitude and the step within it.\<close>

abbreviation seg :: "int \<Rightarrow> nat" where
  "seg s \<equiv> exp_loop s 0x4000 7"

lemma seg_bounds:
  assumes "0 \<le> s" "s < 32768" shows "seg s \<le> 7" "s < 2 ^ (seg s + 8)" "seg s \<noteq> 0 \<Longrightarrow> 2 ^ (seg s + 7) \<le> s"
  using exp_loop_bounds [of s 7] assms by simp_all

lemma div_range:
  fixes s :: int assumes "0 < b" "k * b \<le> s" "s < l * b" shows "k \<le> s div b" "s div b < l"
proof -
  show "k \<le> s div b" using zdiv_mono1 [OF assms(2,1)] assms(1) by simp
  show "s div b < l"
  proof (rule ccontr)
    assume "\<not> s div b < l"
    then have "l * b \<le> s div b * b" using assms(1) by (simp add: mult_right_mono)
    also have "\<dots> \<le> s" using div_mult_mod_eq [of s b] pos_mod_sign [OF assms(1), of s] by linarith
    finally show False using assms(3) by simp
  qed
qed

lemma and_masks: "x AND 0x0F = x mod 16" "drop_bit 4 (x AND 0x70) = x div 16 mod 8" "x AND 0x80 \<noteq> 0 \<longleftrightarrow> odd (x div 128)" for x :: int
proof -
  show "x AND 0x0F = x mod 16" using take_bit_eq_mask [of 4 x] by (simp add: take_bit_eq_mod mask_eq_exp_minus_1)
  have "drop_bit 4 (x AND 0x70) = take_bit 3 (drop_bit 4 x)"
  proof (rule bit_eqI)
    fix n
    have "push_bit 4 (mask 3) = (0x70 :: int)" by (simp add: mask_eq_exp_minus_1 push_bit_eq_mult)
    moreover have "bit (push_bit 4 (mask 3) :: int) (4 + n) \<longleftrightarrow> n < 3" by (auto simp: bit_simps)
    ultimately have "bit (0x70 :: int) (4 + n) \<longleftrightarrow> n < 3" by (simp only:)
    then show "bit (drop_bit 4 (x AND 0x70)) n = bit (take_bit 3 (drop_bit 4 x)) n"
      unfolding bit_drop_bit_eq bit_and_iff bit_take_bit_iff comp_def by blast
  qed
  then show "drop_bit 4 (x AND 0x70) = x div 16 mod 8" by (simp add: take_bit_eq_mod drop_bit_eq_div)
  show "x AND 0x80 \<noteq> 0 \<longleftrightarrow> odd (x div 128)" using and_exp_eq_0_iff_not_bit [of x 7] by (simp add: bit_iff_odd)
qed

lemma mant_bounds:
  assumes "0 \<le> s" "s < 32768" "2 ^ (seg s + 7) \<le> s"
  shows "drop_bit (seg s + 3) s AND 0x0F = s div 2 ^ (seg s + 3) - 16" "16 \<le> s div 2 ^ (seg s + 3)" "s div 2 ^ (seg s + 3) < 32"
proof -
  have "16 * 2 ^ (seg s + 3) \<le> s" "s < 32 * 2 ^ (seg s + 3)" using assms(3) seg_bounds(2) [OF assms(1,2)] by (simp_all add: power_add)
  then show q: "16 \<le> s div 2 ^ (seg s + 3)" "s div 2 ^ (seg s + 3) < 32" using div_range [of "2 ^ (seg s + 3)" 16 s 32] by simp_all
  have "x mod 16 = x - 16" if "16 \<le> x" "x < 32" for x :: int using that by presburger
  then have "(s div 2 ^ (seg s + 3)) mod 16 = s div 2 ^ (seg s + 3) - 16" using q by blast
  then show "drop_bit (seg s + 3) s AND 0x0F = s div 2 ^ (seg s + 3) - 16" unfolding and_masks by (simp add: drop_bit_eq_div)
qed

text \<open>The middle of a step is at most half a step away.\<close>

lemma step_error:
  assumes "0 \<le> s" "s < 32768" "2 ^ (seg s + 7) \<le> s"
  shows "32 * \<bar>(2 * (s div 2 ^ (seg s + 3)) + 1) * 2 ^ (seg s + 2) - s\<bar> \<le> s"
proof -
  define h q where "h = (2 ^ (seg s + 2) :: int)" and "q = s div 2 ^ (seg s + 3)"
  have b: "2 ^ (seg s + 3) = 2 * h" "2 ^ (seg s + 7) = 32 * h" by (simp_all add: h_def power_add)
  have "s = q * (2 * h) + s mod (2 * h)" "0 \<le> s mod (2 * h)" "s mod (2 * h) < 2 * h"
    unfolding q_def b using div_mult_mod_eq [of s "2 * h"] by (simp_all add: h_def)
  moreover have "(2 * q + 1) * h = q * (2 * h) + h" by (simp add: algebra_simps)
  ultimately have "\<bar>(2 * q + 1) * h - s\<bar> \<le> h" by linarith
  then have "32 * \<bar>(2 * q + 1) * h - s\<bar> \<le> 32 * h" by (intro mult_left_mono) simp_all
  then show ?thesis using assms(3) [unfolded b(2)] unfolding q_def [symmetric] h_def [symmetric] by (rule order_trans)
qed

text \<open>The three fields of a code.\<close>

lemma code_fields:
  fixes m sg :: int
  assumes "sg = 0 \<or> sg = 0x80" "e \<le> 7" "0 \<le> m" "m < 16" and v: "v = sg OR push_bit 4 (int e) OR m"
  shows "v AND 0x0F = m" "nat (drop_bit 4 (v AND 0x70)) = e" "v AND 0x80 \<noteq> 0 \<longleftrightarrow> sg = 0x80" "uint (word_of_int v :: byte) = v"
proof -
  have m: "take_bit 4 m = m" "drop_bit 4 m = 0" using assms(3,4) by (simp_all add: take_bit_int_eq_self drop_bit_eq_div)
  have e: "take_bit 3 (drop_bit 4 (push_bit 4 (int e))) = int e" using assms(2) by (simp add: take_bit_int_eq_self drop_bit_eq_div push_bit_eq_mult)
  have s: "take_bit 4 sg = 0" "take_bit 3 (drop_bit 4 sg) = 0" "take_bit 8 sg = sg" using assms(1) by auto
  have "take_bit 4 v = m" unfolding v by (simp add: take_bit_or s m take_bit_push_bit)
  then show "v AND 0x0F = m" by (simp add: and_masks take_bit_eq_mod)
  have "take_bit 3 (drop_bit 4 v) = int e" unfolding v by (simp add: drop_bit_or take_bit_or s m e)
  then show "nat (drop_bit 4 (v AND 0x70)) = e" unfolding and_masks by (simp add: take_bit_eq_mod drop_bit_eq_div)
  have e3: "take_bit 3 (int e) = int e" using assms(2) by (simp add: take_bit_int_eq_self)
  have "bit v 7 \<longleftrightarrow> sg = 0x80"
  proof -
    have "bit m 7 \<longleftrightarrow> bit (take_bit 4 m) 7" "bit (int e) 3 \<longleftrightarrow> bit (take_bit 3 (int e)) 3" by (simp_all only: m(1) e3)
    then have "\<not> bit m 7" "\<not> bit (int e) 3" by (simp_all add: bit_take_bit_iff)
    moreover have "bit sg 7 \<longleftrightarrow> sg = 0x80" using assms(1) by auto
    ultimately show ?thesis unfolding v by (simp add: bit_simps)
  qed
  then show "v AND 0x80 \<noteq> 0 \<longleftrightarrow> sg = 0x80" using and_exp_eq_0_iff_not_bit [of v 7] by simp
  have "take_bit 8 m = m" "take_bit 8 (push_bit 4 (int e)) = push_bit 4 (int e)" using assms(2-4) by (simp_all add: take_bit_int_eq_self push_bit_eq_mult)
  then have "take_bit 8 v = v" unfolding v by (simp add: take_bit_or s)
  then show "uint (word_of_int v :: byte) = v" by (simp add: uint_word_of_int_eq)
qed

lemma sint_small: "- 32768 \<le> y \<Longrightarrow> y < 32768 \<Longrightarrow> sint (word_of_int y :: pcm) = y"
  by (simp add: sint_sbintrunc' signed_take_bit_int_eq_self)

lemma sint_pcm: "- 32768 \<le> sint x" "sint x < 32768" for x :: pcm
  using sint_ge [of x] sint_lt [of x] by simp_all

lemma and_80: "x AND 0x80 = (if odd (x div 128) then 0x80 else 0)" for x :: int
proof (rule bit_eqI)
  fix n
  have "bit (0x80 :: int) n \<longleftrightarrow> n = 7" using bit_exp_iff [where 'a = int, of 7 n] by auto
  moreover have "odd (x div 128) \<longleftrightarrow> bit x 7" by (simp add: bit_iff_odd)
  ultimately show "bit (x AND 0x80) n = bit (if odd (x div 128) then 0x80 else 0 :: int) n" unfolding bit_and_iff by auto
qed

lemma sign_bit: "- 32768 \<le> a \<Longrightarrow> a < 32768 \<Longrightarrow> drop_bit 8 a AND 0x80 = (if a < 0 then 0x80 else 0)" for a :: int
proof -
  assume "- 32768 \<le> a" "a < 32768"
  then have "a div 32768 = (if a < 0 then - 1 else 0)" using div_range [of 32768 "- 1" a 0] div_range [of 32768 0 a 1] by (auto simp: not_less)
  then have "a div 256 div 128 = (if a < 0 then - 1 else 0)" using zdiv_zmult2_eq [of 128 a 256] by simp
  then show "drop_bit 8 a AND 0x80 = (if a < 0 then 0x80 else 0)" unfolding and_80 by (simp add: drop_bit_eq_div)
qed

section \<open>Errors\<close>

lemma ulaw_of_magnitude:
  assumes "0 \<le> s" "s \<le> 32767" "132 \<le> s" "sg = 0 \<or> sg = 0x80"
  defines "t \<equiv> (2 * (s div 2 ^ (seg s + 3)) + 1) * 2 ^ (seg s + 2)"
  shows "sint (ulaw_decode (word_of_int (NOT (sg OR push_bit 4 (int (seg s)) OR (drop_bit (seg s + 3) s AND 0x0F))))) = (if sg = 0x80 then kBias - t else t - kBias)"
    and "t < 32768"
proof -
  let ?m = "drop_bit (seg s + 3) s AND 0x0F" and ?q = "s div 2 ^ (seg s + 3)"
  have s: "s < 32768" using assms(2) by simp
  have "2 ^ (seg s + 7) \<le> s" using seg_bounds(3) [OF assms(1) s] assms(3) by (cases "seg s = 0") simp_all
  note mant = mant_bounds [OF assms(1) s this] and e = seg_bounds(1) [OF assms(1) s]
  have m: "0 \<le> ?m" "?m < 16" using mant by simp_all
  note fields = code_fields [OF assms(4) e m refl]
  have t: "push_bit (seg s) (push_bit 3 ?m + kBias) = t"
    unfolding mant(1) t_def by (simp add: push_bit_eq_mult kBias_def power_add algebra_simps)
  have "NOT (word_of_int (NOT v)) = (word_of_int v :: byte)" for v :: int by (rule bit_word_eqI) (simp add: bit_simps)
  then have dec: "ulaw_decode (word_of_int (NOT v)) = (let u = uint (word_of_int v :: byte); t = push_bit (nat (drop_bit 4 (u AND 0x70))) (push_bit 3 (u AND 0x0F) + kBias)
      in word_of_int (if u AND 0x80 \<noteq> 0 then kBias - t else t - kBias))" for v by (simp add: ulaw_decode_def Let_def)
  have le: "t \<le> (2 * 31 + 1) * 2 ^ 9" unfolding t_def using mant e by (intro mult_mono power_increasing) auto
  moreover have "0 \<le> t" unfolding t_def using mant by simp
  ultimately have "sint (word_of_int (kBias - t) :: pcm) = kBias - t" "sint (word_of_int (t - kBias) :: pcm) = t - kBias"
    unfolding kBias_def by - (rule sint_small; simp)+
  then show "sint (ulaw_decode (word_of_int (NOT (sg OR push_bit 4 (int (seg s)) OR ?m)))) = (if sg = 0x80 then kBias - t else t - kBias)"
    unfolding dec Let_def fields t by simp
  show "t < 32768" using le by simp
qed

lemma ulaw_error: "32 * \<bar>sint (ulaw_decode (ulaw_encode x)) - sint x\<bar> \<le> \<bar>sint x\<bar> + 132"
proof -
  define a where "a = sint x"
  define s where "s = (if kClip < \<bar>a\<bar> then kClip else \<bar>a\<bar>) + kBias"
  define sg where "sg = (if a < 0 then 0x80 else 0 :: int)"
  define t where "t = (2 * (s div 2 ^ (seg s + 3)) + 1) * 2 ^ (seg s + 2)"
  have sg: "sg = 0 \<or> sg = 0x80" "sg = 0x80 \<longleftrightarrow> a < 0" by (auto simp: sg_def)
  have s: "0 \<le> s" "s \<le> 32767" "132 \<le> s" by (auto simp: s_def kClip_def kBias_def)
  have "ulaw_encode x = word_of_int (NOT (sg OR push_bit 4 (int (seg s)) OR (drop_bit (seg s + 3) s AND 0x0F)))"
  proof -
    have "drop_bit 8 a AND 0x80 = sg" unfolding sg_def using sign_bit sint_pcm unfolding a_def by blast
    moreover have "(if (if sg \<noteq> 0 then - a else a) > kClip then kClip else if sg \<noteq> 0 then - a else a) + kBias = s" by (auto simp: s_def sg_def)
    ultimately show ?thesis unfolding ulaw_encode_def Let_def a_def [symmetric] by (simp only:)
  qed
  then have d: "sint (ulaw_decode (ulaw_encode x)) = (if a < 0 then kBias - t else t - kBias)"
    using ulaw_of_magnitude(1) [OF s sg(1)] sg(2) unfolding t_def by simp
  show ?thesis
  proof (cases "kClip < \<bar>a\<bar>")
    case True
    then have "s = 32767" by (simp add: s_def kClip_def kBias_def)
    moreover have "seg 32767 = 7" by code_simp
    ultimately have "t = 32256" by (simp add: t_def)
    then show ?thesis using True sint_pcm [of x] unfolding d a_def [symmetric] by (auto simp: kClip_def kBias_def)
  next
    case False
    have "2 ^ (seg s + 7) \<le> s" using seg_bounds(3) [of s] s by (cases "seg s = 0") simp_all
    from step_error [OF _ _ this] s have "32 * \<bar>t - s\<bar> \<le> s" by (simp add: t_def)
    then show ?thesis using False unfolding d a_def [symmetric] by (auto simp: s_def kBias_def abs_if split: if_splits)
  qed
qed

lemma alaw_decode_fields:
  assumes "sg = 0 \<or> sg = 0x80" "e \<le> 7" "0 \<le> m" "m < 16"
  defines "t \<equiv> (if e = 0 then 16 * m + 8 else (2 * m + 33) * 2 ^ (e + 2))"
  shows "sint (alaw_decode (word_of_int ((sg OR push_bit 4 (int e) OR m) XOR 0x55))) = (if sg = 0x80 then t else - t)"
proof -
  note fields = code_fields [OF assms(1-4) refl]
  have "word_of_int (v XOR 0x55) XOR 0x55 = (word_of_int v :: byte)" for v :: int by (rule bit_word_eqI) (auto simp: bit_simps)
  then have dec: "alaw_decode (word_of_int (v XOR 0x55)) = (let a = uint (word_of_int v :: byte); t = push_bit 4 (a AND 0x0F); seg = nat (drop_bit 4 (a AND 0x70));
          t = (if seg = 0 then t + 8 else if seg = 1 then t + 0x108 else push_bit (seg - 1) (t + 0x108))
      in word_of_int (if a AND 0x80 \<noteq> 0 then t else - t))" for v :: int by (simp add: alaw_decode_def Let_def)
  have t: "(if e = 0 then push_bit 4 m + 8 else if e = 1 then push_bit 4 m + 0x108 else push_bit (e - 1) (push_bit 4 m + 0x108)) = t"
    unfolding t_def by (cases e) (auto simp: push_bit_eq_mult power_add algebra_simps)
  have "(2 * m + 33) * 2 ^ (e + 2) \<le> (2 * 15 + 33) * 2 ^ 9" using assms(2-4) by (intro mult_mono power_increasing) auto
  then have "0 \<le> t" "t < 32768" using assms(3,4) by (auto simp: t_def)
  then have "sint (word_of_int t :: pcm) = t" "sint (word_of_int (- t) :: pcm) = - t" by - (rule sint_small; linarith)+
  then show ?thesis unfolding dec Let_def fields t by simp
qed

lemma alaw_error: "32 * \<bar>sint (alaw_decode (alaw_encode x)) - sint x\<bar> \<le> max 256 \<bar>sint x\<bar>"
proof -
  define a where "a = sint x"
  define s where "s = (if kClip < \<bar>a\<bar> then kClip else \<bar>a\<bar>)"
  define sg where "sg = (if 0 \<le> a then 0x80 else 0 :: int)"
  have sg: "sg = 0 \<or> sg = 0x80" "sg = 0x80 \<longleftrightarrow> 0 \<le> a" by (auto simp: sg_def)
  have s: "0 \<le> s" "s < 32768" by (auto simp: s_def kClip_def)
  have enc: "alaw_encode x = (if 256 \<le> s then word_of_int ((sg OR push_bit 4 (int (seg s)) OR (drop_bit (seg s + 3) s AND 0x0F)) XOR 0x55)
      else word_of_int ((sg OR drop_bit 4 s) XOR 0x55))"
  proof -
    have "drop_bit 8 (NOT a) AND 0x80 = sg" unfolding sg_def using sign_bit [of "NOT a"] sint_pcm [of x] by (auto simp: a_def not_int_def)
    moreover have "(if kClip < (if sg = 0 then - a else a) then kClip else if sg = 0 then - a else a) = s" by (auto simp: s_def sg_def)
    ultimately show ?thesis unfolding alaw_encode_def Let_def a_def [symmetric] by (simp only:)
  qed
  show ?thesis
  proof (cases "256 \<le> s")
    case True
    define t where "t = (2 * (s div 2 ^ (seg s + 3)) + 1) * 2 ^ (seg s + 2)"
    have e: "seg s \<noteq> 0" using seg_bounds(2) [OF s] True by (cases "seg s = 0") auto
    note mant = mant_bounds [OF s seg_bounds(3) [OF s e]]
    have "(2 * (drop_bit (seg s + 3) s AND 0x0F) + 33) * 2 ^ (seg s + 2) = t" unfolding mant(1) t_def by (simp add: algebra_simps)
    then have d: "sint (alaw_decode (alaw_encode x)) = (if 0 \<le> a then t else - t)"
      unfolding enc using True e alaw_decode_fields [OF sg(1) seg_bounds(1) [OF s], of "drop_bit (seg s + 3) s AND 0x0F"] mant sg(2) by simp
    show ?thesis
    proof (cases "kClip < \<bar>a\<bar>")
      case True
      then have "s = 32635" by (simp add: s_def kClip_def)
      moreover have "seg 32635 = 7" by code_simp
      ultimately have "t = 32256" by (simp add: t_def)
      then show ?thesis using True sint_pcm [of x] unfolding d a_def [symmetric] by (auto simp: kClip_def abs_if split: if_splits)
    next
      case False
      then show ?thesis using step_error [OF s seg_bounds(3) [OF s e]] unfolding d a_def [symmetric] by (auto simp: s_def t_def abs_if split: if_splits)
    qed
  next
    case False
    then have c: "\<bar>a\<bar> = s" by (auto simp: s_def kClip_def split: if_splits)
    have "0 \<le> s div 16" "s div 16 < 16" using div_range [of 16 0 s 16] False s by simp_all
    from alaw_decode_fields [OF sg(1) _ this, of 0] have "sint (alaw_decode (alaw_encode x)) = (if 0 \<le> a then 16 * (s div 16) + 8 else - (16 * (s div 16) + 8))"
      unfolding enc using False sg(2) by (simp add: drop_bit_eq_div)
    moreover have "s = 16 * (s div 16) + s mod 16" "0 \<le> s mod 16" "s mod 16 < 16" by simp_all
    ultimately have "\<bar>sint (alaw_decode (alaw_encode x)) - a\<bar> \<le> 8" using c by (auto simp: abs_if split: if_splits)
    then have "32 * \<bar>sint (alaw_decode (alaw_encode x)) - a\<bar> \<le> 32 * 8" by (intro mult_left_mono) simp_all
    then show ?thesis unfolding a_def by (rule order_trans) simp
  qed
qed

section \<open>Properties\<close>

text \<open>The error of the codec is relative. For each of the 65536 samples \<open>x\<close>, the clipped ones included, what a listener hears differs from it by at most
  \<open>(|x| + 132) / 32\<close> for mu-law, and for A-law by at most \<open>|x| / 32\<close> or 8, whichever is larger.\<close>

theorem g711_error_bounded:
  "32 * \<bar>sint (ulaw_decode (ulaw_encode x)) - sint x\<bar> \<le> \<bar>sint x\<bar> + 132 \<and>
   32 * \<bar>sint (alaw_decode (alaw_encode x)) - sint x\<bar> \<le> max 256 \<bar>sint x\<bar>"
  using ulaw_error alaw_error by blast

end
