(* ===== verification/Base64.thy ===== *)
theory Base64
  imports Prelude
begin

text \<open>
  Base64 as the daemon writes it (\<^verbatim>\<open>ws::base64\<close> in \<^verbatim>\<open>app/http/websocket.cpp\<close>; \<^verbatim>\<open>h264::base64\<close> is the same loop) and reads it (\<^verbatim>\<open>b64_decode\<close> in
  \<^verbatim>\<open>app/http/session.cpp\<close>). The decoder shifts a signed 32-bit accumulator without masking it; it is modelled as a word, whose high bits are lost, as on
  the target's compiler.
\<close>

unbundle bit_operations_syntax

section \<open>Definitions\<close>

definition b64_table :: string where
  "b64_table = ''ABCDEFGHIJKLMNOPQRSTUVWXYZabcdefghijklmnopqrstuvwxyz0123456789+/''"

definition b64_char :: "u32 \<Rightarrow> char" where
  "b64_char v = b64_table ! unat (v AND 63)"

text \<open>One round of the loop over three bytes; the last may have one or two.\<close>

fun base64 :: "byte list \<Rightarrow> string" where
  "base64 [] = []"
| "base64 [a] = (let v = push_bit 16 (ucast a :: u32) in [b64_char (drop_bit 18 v), b64_char (drop_bit 12 v), CHR ''='', CHR ''=''])"
| "base64 [a, b] = (let v = push_bit 16 (ucast a :: u32) OR push_bit 8 (ucast b)
     in [b64_char (drop_bit 18 v), b64_char (drop_bit 12 v), b64_char (drop_bit 6 v), CHR ''=''])"
| "base64 (a # b # c # xs) = (let v = push_bit 16 (ucast a :: u32) OR push_bit 8 (ucast b) OR ucast c
     in b64_char (drop_bit 18 v) # b64_char (drop_bit 12 v) # b64_char (drop_bit 6 v) # b64_char v # base64 xs)"

definition b64_val :: "char \<Rightarrow> nat option" where
  "b64_val c =
     (let n = of_char c :: nat
      in if 65 \<le> n \<and> n \<le> 90 then Some (n - 65)
         else if 97 \<le> n \<and> n \<le> 122 then Some (n - 97 + 26)
         else if 48 \<le> n \<and> n \<le> 57 then Some (n - 48 + 52)
         else if c = CHR ''+'' then Some 62 else if c = CHR ''/'' then Some 63 else None)"

fun b64_loop :: "string \<Rightarrow> u32 \<Rightarrow> nat \<Rightarrow> byte list \<Rightarrow> byte list option" where
  "b64_loop [] buf bits out = Some out"
| "b64_loop (c # cs) buf bits out =
     (if c = CHR ''='' then Some out
      else case b64_val c of
             None \<Rightarrow> None
           | Some v \<Rightarrow>
               let buf = push_bit 6 buf OR of_nat v; bits = bits + 6
               in if 8 \<le> bits then b64_loop cs buf (bits - 8) (out @ [ucast (drop_bit (bits - 8) buf)]) else b64_loop cs buf bits out)"

definition b64_decode :: "string \<Rightarrow> byte list option" where
  "b64_decode s = b64_loop s 0 0 []"

section \<open>Lemmas\<close>

lemma b64_table_vals: "map b64_val b64_table = map Some [0..<64]" "CHR ''='' \<notin> set b64_table"
  by (simp_all add: b64_table_def b64_val_def Let_def upt_rec)

lemma b64_val_char: "b64_val (b64_char v) = Some (unat (v AND 63)) \<and> b64_char v \<noteq> CHR ''=''"
proof -
  have "v AND 63 = take_bit 6 v" by (simp add: take_bit_eq_mask mask_eq_exp_minus_1)
  then have n: "unat (v AND 63) < 64" using take_bit_nat_less_exp [of 6 "unat v"] by (simp add: unsigned_take_bit_eq)
  have l: "length b64_table = 64" by (simp add: b64_table_def)
  have "map b64_val b64_table ! unat (v AND 63) = Some (unat (v AND 63))" using n unfolding b64_table_vals(1) by simp
  then have "b64_val (b64_char v) = Some (unat (v AND 63))" using n l by (simp add: b64_char_def)
  moreover have "b64_char v \<in> set b64_table" using n l by (simp add: b64_char_def)
  ultimately show ?thesis using b64_table_vals(2) by auto
qed

lemma b64_step:
  "b64_loop (b64_char v # cs) buf bits out =
     (let buf = push_bit 6 buf OR (v AND 63); bits = bits + 6
      in if 8 \<le> bits then b64_loop cs buf (bits - 8) (out @ [ucast (drop_bit (bits - 8) buf)]) else b64_loop cs buf bits out)"
  using b64_val_char [of v] by (simp add: Let_def)

lemma b64_bytes:
  fixes a b c :: byte and buf w x y z :: u32
  defines "w \<equiv> push_bit 16 (ucast a) OR push_bit 8 (ucast b) OR ucast c"
  defines "x \<equiv> push_bit 6 buf OR (drop_bit 18 w AND 63)"
  defines "y \<equiv> push_bit 6 x OR (drop_bit 12 w AND 63)"
  defines "z \<equiv> push_bit 6 y OR (drop_bit 6 w AND 63)"
  shows "ucast (drop_bit 4 y) = a" "ucast (drop_bit 2 z) = b" "ucast (push_bit 6 z OR (w AND 63)) = c"
proof -
  have m: "bit (u AND 63) k \<longleftrightarrow> k < 6 \<and> bit u k" for u :: u32 and k
  proof -
    have "u AND 63 = take_bit 6 u" by (simp add: take_bit_eq_mask mask_eq_exp_minus_1)
    then show ?thesis by (simp add: bit_take_bit_iff)
  qed
  have "k < 8 \<Longrightarrow> k = 0 \<or> k = 1 \<or> k = 2 \<or> k = 3 \<or> k = 4 \<or> k = 5 \<or> k = 6 \<or> k = 7" for k :: nat by arith
  then have c: "P 0 \<Longrightarrow> P 1 \<Longrightarrow> P 2 \<Longrightarrow> P 3 \<Longrightarrow> P 4 \<Longrightarrow> P 5 \<Longrightarrow> P 6 \<Longrightarrow> P 7 \<Longrightarrow> k < 8 \<Longrightarrow> P k" for P and k :: nat
    by blast
  have eq: "u = v" if "\<And>k. k < 8 \<Longrightarrow> bit u k = bit v k" for u v :: byte
    using that by (intro bit_eqI) simp
  have hi: "\<not> bit u k" if "8 \<le> k" for u :: byte and k using that bit_imp_le_length [of u k] by auto
  note bits = bit_simps m hi w_def x_def y_def z_def
  show "ucast (drop_bit 4 y) = a" by (rule eq, erule c [rotated -1]) (simp_all add: bits)
  show "ucast (drop_bit 2 z) = b" by (rule eq, erule c [rotated -1]) (simp_all add: bits)
  show "ucast (push_bit 6 z OR (w AND 63)) = c" by (rule eq, erule c [rotated -1]) (simp_all add: bits)
qed

lemma b64_loop_base64: "b64_loop (base64 xs) buf 0 out = Some (out @ xs)"
proof (induction xs arbitrary: buf out rule: base64.induct)
  case (2 a)
  show ?case using b64_bytes(1) [of buf a 0 0] by (simp add: b64_step Let_def del: b64_loop.simps(2)) simp
next
  case (3 a b)
  show ?case using b64_bytes(1,2) [of buf a b 0] by (simp add: b64_step Let_def del: b64_loop.simps(2)) simp
next
  case (4 a b c xs)
  show ?case using b64_bytes [of buf a b c] 4 by (simp add: b64_step Let_def del: b64_loop.simps(2))
qed simp

section \<open>Properties\<close>

text \<open>Base64 text is read back as the bytes it was written from, whatever their number.\<close>

theorem base64_roundtrip: "b64_decode (base64 xs) = Some xs"
  by (simp add: b64_decode_def b64_loop_base64)

end
