(* ===== verification/Session_Gate.thy ===== *)
theory Session_Gate
  imports Base64
begin

text \<open>
  Who may use the front door (\<^verbatim>\<open>app/http/session.cpp\<close>, \<^verbatim>\<open>core/random.cpp\<close>): sessions by cookie, basic authentication, and the forms they come in. The
  credential check is the callback of the source; what \<^verbatim>\<open>/dev/urandom\<close> gave is an argument of the operations that mint a token. The table of sessions is a list in
  the order of the container, which only decides which of two equally old sessions is dropped. Shown: whom the gate lets in, an ideal table without bound lets in too,
  and that takes a checked login of root; and the table stays bounded.
\<close>

unbundle bit_operations_syntax

section \<open>Definitions\<close>

definition is_public :: "string \<Rightarrow> string \<Rightarrow> bool" where
  "is_public method path \<longleftrightarrow>
     method = ''GET'' \<and> (path = ''/login.html'' \<or> path = ''/favicon.ico'') \<or> method = ''POST'' \<and> path = ''/login''"

definition is_local_peer :: "string \<Rightarrow> bool" where
  "is_local_peer peer \<longleftrightarrow> take 4 peer = ''127.'' \<or> take 3 peer = ''::1''"

type_synonym check_fn = "(string \<Rightarrow> string \<Rightarrow> bool) option"

definition checks :: "check_fn \<Rightarrow> string \<Rightarrow> string \<Rightarrow> bool" where
  "checks check user pass \<longleftrightarrow> (case check of None \<Rightarrow> False | Some f \<Rightarrow> f user pass)"

definition bytes_text :: "byte list \<Rightarrow> string" where
  "bytes_text bs = map (\<lambda>b. char_of (unat b)) bs"

definition authed_basic :: "check_fn \<Rightarrow> string \<Rightarrow> bool" where
  "authed_basic check hdr \<longleftrightarrow>
     take 6 hdr = ''Basic '' \<and>
     (case b64_decode (drop 6 hdr) of
        None \<Rightarrow> False
      | Some bs \<Rightarrow>
          let plain = bytes_text bs; user = takeWhile (\<lambda>c. c \<noteq> CHR '':'') plain
          in CHR '':'' \<in> set plain \<and> user = ''root'' \<and> checks check user (drop (length user + 1) plain))"

subsection \<open>Forms and cookies\<close>

definition hexval :: "char \<Rightarrow> nat option" where
  "hexval c =
     (let n = of_char c :: nat
      in if 48 \<le> n \<and> n \<le> 57 then Some (n - 48)
         else if 97 \<le> n \<and> n \<le> 102 then Some (n - 97 + 10)
         else if 65 \<le> n \<and> n \<le> 70 then Some (n - 65 + 10) else None)"

fun url_decode :: "string \<Rightarrow> string" where
  "url_decode [] = []"
| "url_decode (c # h # l # cs) =
     (if c = CHR ''+'' then CHR '' '' # url_decode (h # l # cs)
      else if c = CHR ''%'' then
        (case (hexval h, hexval l) of (Some x, Some y) \<Rightarrow> char_of (x * 16 + y) # url_decode cs | _ \<Rightarrow> c # url_decode (h # l # cs))
      else c # url_decode (h # l # cs))"
| "url_decode (c # cs) = (if c = CHR ''+'' then CHR '' '' else c) # url_decode cs"

text \<open>The next piece up to a separator, and what follows it.\<close>

definition piece :: "char \<Rightarrow> string \<Rightarrow> string" where
  "piece sep s = takeWhile (\<lambda>c. c \<noteq> sep) s"

definition beyond :: "char \<Rightarrow> string \<Rightarrow> string" where
  "beyond sep s = drop (length (piece sep s) + 1) s"

definition names :: "string \<Rightarrow> string \<Rightarrow> bool" where
  "names key seg \<longleftrightarrow> CHR ''='' \<in> set seg \<and> piece (CHR ''='') seg = key"

function form_value :: "string \<Rightarrow> string \<Rightarrow> string" where
  "form_value body key =
     (if body = [] then []
      else let seg = piece (CHR ''&'') body
           in if names key seg then url_decode (beyond (CHR ''='') seg) else form_value (beyond (CHR ''&'') body) key)"
  by pat_completeness auto
termination by (relation "measure (\<lambda>(b, k). length b)") (auto simp: beyond_def)

declare form_value.simps [simp del]

function cookie_value :: "string \<Rightarrow> string \<Rightarrow> string" where
  "cookie_value hdr name =
     (if hdr = [] then []
      else let rest = dropWhile (\<lambda>c. c = CHR '' '' \<or> c = CHR '';'') hdr; seg = piece (CHR '';'') rest
           in if names name seg then beyond (CHR ''='') seg else cookie_value (beyond (CHR '';'') rest) name)"
  by pat_completeness auto
termination
proof (relation "measure (\<lambda>(h, n). length h)")
  fix hdr name :: string and rest seg
  assume "hdr \<noteq> []" "rest = dropWhile (\<lambda>c. c = CHR '' '' \<or> c = CHR '';'') hdr"
  then show "((beyond (CHR '';'') rest, name), hdr, name) \<in> measure (\<lambda>(h, n). length h)"
    using length_dropWhile_le [of "\<lambda>c. c = CHR '' '' \<or> c = CHR '';''" hdr] by (cases hdr) (auto simp: beyond_def)
qed simp

declare cookie_value.simps [simp del]

subsection \<open>Sessions\<close>

definition SESSION_MS :: int where "SESSION_MS = 12 * 3600 * 1000"
definition REMEMBER_MS :: int where "REMEMBER_MS = 30 * 24 * 3600 * 1000"
definition MAX_SESSIONS :: nat where "MAX_SESSIONS = 32"

type_synonym tokens = "(string \<times> int) list"

text \<open>\<^verbatim>\<open>secure_hex\<close>: the text of so many random bytes, empty when there are not enough.\<close>

definition hex_nibble :: "byte \<Rightarrow> char" where
  "hex_nibble b = ''0123456789abcdef'' ! unat (b AND 15)"

definition secure_hex :: "byte list option \<Rightarrow> nat \<Rightarrow> string" where
  "secure_hex random n =
     (if n = 0 \<or> 64 < n then []
      else case random of
             None \<Rightarrow> []
           | Some bs \<Rightarrow> if length bs = n then concat (map (\<lambda>b. [hex_nibble (drop_bit 4 b), hex_nibble b]) bs) else [])"

definition new_token :: "byte list option \<Rightarrow> string" where
  "new_token random = secure_hex random 16"

definition erase :: "string \<Rightarrow> tokens \<Rightarrow> tokens" where
  "erase k ts = filter (\<lambda>e. fst e \<noteq> k) ts"

text \<open>\<open>tokens_[k] = v\<close>\<close>

definition put :: "string \<Rightarrow> int \<Rightarrow> tokens \<Rightarrow> tokens" where
  "put k v ts = (k, v) # erase k ts"

definition authed :: "string \<Rightarrow> int \<Rightarrow> tokens \<Rightarrow> bool \<times> tokens" where
  "authed hdr now ts =
     (let tok = cookie_value hdr ''session''
      in if tok = [] then (False, ts)
         else case map_of ts tok of
                None \<Rightarrow> (False, ts)
              | Some e \<Rightarrow> if e < now then (False, erase tok ts) else (True, ts))"

text \<open>The entry with the earliest expiry, the first of them.\<close>

definition oldest :: "tokens \<Rightarrow> string \<times> int" where
  "oldest ts = foldl (\<lambda>a e. if snd e < snd a then e else a) (hd ts) ts"

lemma oldest_mem:
  assumes "ts \<noteq> []" shows "oldest ts \<in> set ts"
proof -
  have "foldl (\<lambda>a e. if snd e < snd a then e else a) x xs = x \<or> foldl (\<lambda>a e. if snd e < snd a then e else a) x xs \<in> set xs"
    for x :: "string \<times> int" and xs
  proof (induction xs arbitrary: x)
    case (Cons y xs)
    from Cons [of "if snd y < snd x then y else x"] show ?case by (auto split: if_splits)
  qed simp
  from this [of "hd ts" ts] show ?thesis using assms by (auto simp: oldest_def)
qed

lemma erase_oldest: "ts \<noteq> [] \<Longrightarrow> length (erase (fst (oldest ts)) ts) < length ts"
  unfolding erase_def by (rule length_filter_less [OF oldest_mem]) simp_all

function make_room :: "tokens \<Rightarrow> tokens" where
  "make_room ts = (if MAX_SESSIONS \<le> length ts then make_room (erase (fst (oldest ts)) ts) else ts)"
  by pat_completeness auto
termination
proof (relation "measure length")
  fix ts :: tokens assume "MAX_SESSIONS \<le> length ts"
  then have "ts \<noteq> []" by (auto simp: MAX_SESSIONS_def)
  then show "(erase (fst (oldest ts)) ts, ts) \<in> measure length" by (simp add: erase_oldest)
qed simp

declare make_room.simps [simp del]

definition evict :: "int \<Rightarrow> tokens \<Rightarrow> tokens" where
  "evict now ts = make_room (filter (\<lambda>e. \<not> snd e < now) ts)"

definition set_cookie :: "string \<Rightarrow> bool \<Rightarrow> string" where
  "set_cookie tok remember = ''Set-Cookie: session='' @ tok @ ''; Path=/; HttpOnly; SameSite=Strict''
     @ (if remember then ''; Max-Age=2592000'' else []) @ [CHR 0x0D, CHR 0x0A]"

text \<open>Status and cookie line of the answer, and the table.\<close>

definition login :: "check_fn \<Rightarrow> byte list option \<Rightarrow> string \<Rightarrow> int \<Rightarrow> tokens \<Rightarrow> int \<times> string \<times> tokens" where
  "login check random body now ts =
     (let user = form_value body ''username''; pass = form_value body ''password''; remember = (form_value body ''remember'' = ''1'')
      in if user = [] then (400, [], ts)
         else if user \<noteq> ''root'' then (403, [], ts)
         else if \<not> checks check user pass then (403, [], ts)
         else
           let ts = evict now ts; tok = new_token random
           in if tok = [] then (500, [], ts)
              else (200, set_cookie tok remember, put tok (now + (if remember then REMEMBER_MS else SESSION_MS)) ts))"

definition mint :: "byte list option \<Rightarrow> int \<Rightarrow> tokens \<Rightarrow> string \<times> tokens" where
  "mint random now ts =
     (let ts = evict now ts; tok = new_token random
      in if tok = [] then ([], ts) else (set_cookie tok False, put tok (now + SESSION_MS) ts))"

definition logout :: "string \<Rightarrow> tokens \<Rightarrow> tokens" where
  "logout hdr ts = (let tok = cookie_value hdr ''session'' in if tok \<noteq> [] then erase tok ts else ts)"

definition clear_cookie :: string where
  "clear_cookie = ''Set-Cookie: session=; Path=/; Max-Age=0'' @ [CHR 0x0D, CHR 0x0A]"

section \<open>Runs\<close>

datatype gate_op = Login "byte list option" string int | Mint "byte list option" int | Logout string | Ask string int

fun gate_step :: "check_fn \<Rightarrow> gate_op \<Rightarrow> tokens \<Rightarrow> tokens" where
  "gate_step check (Login r body now) ts = snd (snd (login check r body now ts))"
| "gate_step check (Mint r now) ts = snd (mint r now ts)"
| "gate_step check (Logout h) ts = logout h ts"
| "gate_step check (Ask h now) ts = snd (authed h now ts)"

text \<open>The ideal table: every token a checked login of root, or the setup, was given, until when it is good, and nothing a logout has taken back. It knows no
  bound and forgets nothing.\<close>

definition granted :: "check_fn \<Rightarrow> byte list option \<Rightarrow> string \<Rightarrow> bool" where
  "granted check r body \<longleftrightarrow> form_value body ''username'' = ''root'' \<and> checks check ''root'' (form_value body ''password'') \<and> new_token r \<noteq> []"

fun ideal_step :: "check_fn \<Rightarrow> gate_op \<Rightarrow> (string \<rightharpoonup> int) \<Rightarrow> string \<rightharpoonup> int" where
  "ideal_step check (Login r body now) m =
     (if granted check r body then m(new_token r \<mapsto> now + (if form_value body ''remember'' = ''1'' then REMEMBER_MS else SESSION_MS)) else m)"
| "ideal_step check (Mint r now) m = (if new_token r = [] then m else m(new_token r \<mapsto> now + SESSION_MS))"
| "ideal_step check (Logout h) m = (let tok = cookie_value h ''session'' in if tok = [] then m else m(tok := None))"
| "ideal_step check (Ask h now) m = m"

section \<open>Lemmas\<close>

definition gate_ok :: "(string \<rightharpoonup> int) \<Rightarrow> tokens \<Rightarrow> bool" where
  "gate_ok m ts \<longleftrightarrow> length ts \<le> MAX_SESSIONS \<and> distinct (map fst ts) \<and> map_of ts \<subseteq>\<^sub>m m"

lemma map_of_filter_le: "distinct (map fst ts) \<Longrightarrow> map_of (filter P ts) \<subseteq>\<^sub>m map_of ts"
proof (unfold map_le_def, intro ballI)
  fix k assume d: "distinct (map fst ts)" and "k \<in> dom (map_of (filter P ts))"
  then obtain v where v: "map_of (filter P ts) k = Some v" by auto
  then have "(k, v) \<in> set ts" using map_of_SomeD by fastforce
  with d have "map_of ts k = Some v" by (rule map_of_is_SomeI)
  with v show "map_of (filter P ts) k = map_of ts k" by simp
qed

lemma filter_ok: "gate_ok m ts \<Longrightarrow> gate_ok m (filter P ts)"
  unfolding gate_ok_def
  by (auto intro: map_le_trans [OF map_of_filter_le] simp: distinct_map_filter le_trans [OF length_filter_le])

lemma erase_ok: "gate_ok m ts \<Longrightarrow> gate_ok m (erase k ts)"
  by (simp add: erase_def filter_ok)

lemma make_room_ok: "gate_ok m ts \<Longrightarrow> gate_ok m (make_room ts) \<and> length (make_room ts) < MAX_SESSIONS"
proof (induction ts rule: make_room.induct)
  case (1 ts)
  then show ?case by (cases "MAX_SESSIONS \<le> length ts") (simp_all add: make_room.simps [of ts] erase_ok)
qed

lemma evict_ok: "gate_ok m ts \<Longrightarrow> gate_ok m (evict now ts) \<and> length (evict now ts) < MAX_SESSIONS"
  unfolding evict_def by (intro make_room_ok filter_ok)

lemma map_of_erase: "map_of (erase k ts) = (map_of ts)(k := None)"
  by (rule ext) (induction ts, auto simp: erase_def)

lemma put_ok:
  assumes "gate_ok m ts" "length ts < MAX_SESSIONS" shows "gate_ok (m(k \<mapsto> v)) (put k v ts)"
proof -
  have "length (erase k ts) \<le> length ts" by (simp add: erase_def)
  moreover have "distinct (map fst (erase k ts))" "k \<notin> fst ` set (erase k ts)"
    using assms(1) by (auto simp: erase_def gate_ok_def distinct_map_filter)
  moreover have "(map_of ts)(k \<mapsto> v) \<subseteq>\<^sub>m m(k \<mapsto> v)" using assms(1) by (auto simp: gate_ok_def map_le_def)
  ultimately show ?thesis using assms(2) by (auto simp: gate_ok_def put_def map_of_erase)
qed

lemma gate_step_ok: "gate_ok m ts \<Longrightarrow> gate_ok (ideal_step check op m) (gate_step check op ts)"
proof (cases op)
  case (Login r body now)
  assume "gate_ok m ts"
  note e = evict_ok [OF this, of now]
  show ?thesis using \<open>gate_ok m ts\<close> e
    by (auto simp: Login login_def granted_def Let_def put_ok)
next
  case (Mint r now)
  assume "gate_ok m ts"
  note e = evict_ok [OF this, of now]
  then show ?thesis by (auto simp: Mint mint_def Let_def put_ok)
next
  case (Logout h)
  assume "gate_ok m ts"
  then have "gate_ok (m(k := None)) (erase k ts)" for k
    using erase_ok [of m ts k] by (auto simp: gate_ok_def map_of_erase map_le_def)
  with \<open>gate_ok m ts\<close> show ?thesis by (simp add: Logout logout_def Let_def)
next
  case (Ask h now)
  assume "gate_ok m ts"
  then show ?thesis by (auto simp: Ask authed_def Let_def erase_ok split: option.split)
qed

lemma gate_run_ok: "gate_ok m ts \<Longrightarrow> gate_ok (fold (ideal_step check) ops m) (fold (gate_step check) ops ts)"
  by (induction ops arbitrary: m ts) (simp_all add: gate_step_ok)

lemma set_cookie_read: "CHR '';'' \<notin> set tok \<Longrightarrow> cookie_value (''session='' @ tok) ''session'' = tok"
proof -
  assume t: "CHR '';'' \<notin> set tok"
  have "takeWhile (\<lambda>c. c \<noteq> CHR '';'') (''session='' @ tok) = ''session='' @ tok" using t by (simp add: takeWhile_eq_all_conv) blast
  then show ?thesis by (simp add: cookie_value.simps names_def piece_def beyond_def Let_def)
qed

lemma token_chars: "CHR '';'' \<notin> set (new_token r)"
proof -
  have "hex_nibble b \<in> set ''0123456789abcdef''" for b
  proof -
    have "b AND 15 = take_bit 4 b" by (simp add: take_bit_eq_mask mask_eq_exp_minus_1)
    then have "unat (b AND 15) < 16" using take_bit_nat_less_exp [of 4 "unat b"] by (simp add: unsigned_take_bit_eq)
    then show ?thesis unfolding hex_nibble_def by (intro nth_mem) simp
  qed
  moreover have "CHR '';'' \<notin> set ''0123456789abcdef''" by simp
  ultimately have "CHR '';'' \<noteq> hex_nibble b" for b by metis
  then show ?thesis by (auto simp: new_token_def secure_hex_def split: option.split)
qed

section \<open>Properties\<close>


definition only_secret :: check_fn where
  "only_secret = Some (\<lambda>u p. u = ''root'' \<and> p = ''secret'')"

definition some_random :: "byte list option" where
  "some_random = Some (map word_of_nat [0..<16])"


text \<open>Who logs in is in. The token of a login that was answered with 200 is accepted until it expires, whatever the table held before.\<close>

theorem login_signs_in:
  assumes "login check r body now ts = (200, c, ts')" "now \<le> later"
    "later \<le> now + (if form_value body ''remember'' = ''1'' then REMEMBER_MS else SESSION_MS)"
  shows "fst (authed (''session='' @ new_token r) later ts')"
proof -
  have "new_token r \<noteq> []" "map_of ts' (new_token r) = Some (now + (if form_value body ''remember'' = ''1'' then REMEMBER_MS else SESSION_MS))"
    using assms(1) by (auto simp: login_def put_def Let_def split: if_splits)
  then show ?thesis using assms(3) unfolding authed_def set_cookie_read [OF token_chars] by simp
qed

end
