(* ===== verification/Rtsp_Auth.thy ===== *)
theory Rtsp_Auth
  imports Session_Gate Modem_Ports At_Parse
begin

text \<open>
  Who may watch over RTSP (\<^verbatim>\<open>app/rtsp/rtsp_auth.cpp\<close>, the authorisation in \<^verbatim>\<open>app/rtsp/rtsp_server.cpp\<close>), and what travels on the connection between the requests
  (\<^verbatim>\<open>app/rtsp/rtp_audio.cpp\<close>). The hash is the library's and an argument, as are the credential check, the stored secrets and the random bytes of a nonce.
\<close>

record rtsp_auth_config =
  rc_enabled :: bool
  rc_offer_basic :: bool
  rc_offer_digest :: bool
  rc_realm :: string
  rc_nonce_lifetime_s :: int

text \<open>A missing function is \<open>None\<close>; of the claim only its answer matters.\<close>

record rtsp_auth =
  ra_cfg :: rtsp_auth_config
  ra_check :: check_fn
  ra_ha1 :: "(string \<Rightarrow> string \<Rightarrow> string) option"
  ra_claim :: "bool option"
  ra_unsafe :: bool

record auth_ctx =
  cx_nonce :: string
  cx_issued_ms :: int
  cx_authed :: bool

definition auth_ctx0 :: auth_ctx where
  "auth_ctx0 = \<lparr>cx_nonce = [], cx_issued_ms = 0, cx_authed = False\<rparr>"

datatype verdict = VOk | VMissing | VBad | VStale

definition claimed :: "rtsp_auth \<Rightarrow> bool" where
  "claimed a \<longleftrightarrow> (case ra_claim a of None \<Rightarrow> True | Some c \<Rightarrow> c)"

definition digest_usable :: "rtsp_auth \<Rightarrow> bool" where
  "digest_usable a \<longleftrightarrow> rc_offer_digest (ra_cfg a) \<and> ra_ha1 a \<noteq> None"

definition auth_required :: "rtsp_auth \<Rightarrow> bool" where
  "auth_required a \<longleftrightarrow>
     (if ra_unsafe a then False else if \<not> claimed a then True
      else rc_enabled (ra_cfg a) \<and> (digest_usable a \<or> rc_offer_basic (ra_cfg a)))"

section \<open>Text\<close>

definition md5_hex :: "(string \<Rightarrow> byte list) \<Rightarrow> string \<Rightarrow> string" where
  "md5_hex md5 s = concat (map (\<lambda>b. [hex_nibble (drop_bit 4 b), hex_nibble b]) (md5 s))"

text \<open>The decoder of this file: padding, line ends and spaces are skipped wherever they stand. Of the accumulator only the low bits are read.\<close>

fun rtsp_b64_loop :: "string \<Rightarrow> u32 \<Rightarrow> nat \<Rightarrow> byte list \<Rightarrow> byte list option" where
  "rtsp_b64_loop [] acc bits out = Some out"
| "rtsp_b64_loop (c # cs) acc bits out =
     (if c = CHR ''='' \<or> c = CHR 0x0D \<or> c = CHR 0x0A \<or> c = CHR '' '' then rtsp_b64_loop cs acc bits out
      else case b64_val c of
             None \<Rightarrow> None
           | Some v \<Rightarrow>
               let acc = push_bit 6 acc OR of_nat v; bits = bits + 6
               in if 8 \<le> bits then rtsp_b64_loop cs acc (bits - 8) (out @ [ucast (drop_bit (bits - 8) acc)]) else rtsp_b64_loop cs acc bits out)"

definition starts_ci :: "string \<Rightarrow> string \<Rightarrow> bool" where
  "starts_ci s p \<longleftrightarrow> length p \<le> length s \<and> list_all2 (\<lambda>x y. lower x = lower y) (take (length p) s) p"

definition same :: "string \<Rightarrow> string \<Rightarrow> bool" where
  "same a b \<longleftrightarrow> length a = length b \<and> fold (\<lambda>(x, y) d. d OR (of_char x XOR of_char y)) (zip a b) (0 :: byte) = 0"

text \<open>
  The search for a parameter: \<open>prev\<close> is the character in front of the text that is left. The result is the text behind the name and the equals sign.
\<close>

function auth_find :: "string \<Rightarrow> char option \<Rightarrow> string \<Rightarrow> string option" where
  "auth_find name prev s =
     (if take (length name + 1) s = name @ ''=''
      then if prev = None \<or> prev = Some (CHR '','') \<or> prev = Some (CHR '' '') then Some (drop (length name + 1) s)
           else auth_find name (Some (CHR ''='')) (drop (length name + 1) s)
      else case s of [] \<Rightarrow> None | c # cs \<Rightarrow> auth_find name (Some c) cs)"
  by pat_completeness auto
termination
  by (relation "measure (\<lambda>(_, _, s). length s)") (auto simp: min_def dest!: arg_cong [of _ _ length] split: if_splits)

declare auth_find.simps [simp del]

definition param_value :: "string \<Rightarrow> string" where
  "param_value s =
     (if s \<noteq> [] \<and> hd s = CHR 0x22
      then if CHR 0x22 \<in> set (tl s) then takeWhile (\<lambda>c. c \<noteq> CHR 0x22) (tl s) else []
      else takeWhile (\<lambda>c. c \<notin> {CHR '','', CHR '' '', CHR 0x09, CHR 0x0D, CHR 0x0A}) s)"

definition auth_param :: "string \<Rightarrow> string \<Rightarrow> string" where
  "auth_param header name = (case auth_find name None header of None \<Rightarrow> [] | Some s \<Rightarrow> param_value s)"

section \<open>Checking a request\<close>

definition ha1_hex :: "(string \<Rightarrow> byte list) \<Rightarrow> string \<Rightarrow> string \<Rightarrow> string \<Rightarrow> string" where
  "ha1_hex md5 user realm password = md5_hex md5 (user @ '':'' @ realm @ '':'' @ password)"

text \<open>The last argument holds the counter, the client's nonce and the quality of protection.\<close>

type_synonym md5_fn = "string \<Rightarrow> byte list"

definition digest_response :: "md5_fn \<Rightarrow> string \<Rightarrow> string \<Rightarrow> string \<Rightarrow> string \<Rightarrow> string \<Rightarrow> string \<Rightarrow> string \<times> string \<times> string \<Rightarrow> string" where
  "digest_response md5 user pass realm nonce method uri q =
     (let (nc, cnonce, qop) = q; ha1 = ha1_hex md5 user realm pass; ha2 = md5_hex md5 (method @ '':'' @ uri)
      in if qop = [] then md5_hex md5 (ha1 @ '':'' @ nonce @ '':'' @ ha2)
         else md5_hex md5 (ha1 @ '':'' @ nonce @ '':'' @ nc @ '':'' @ cnonce @ '':'' @ qop @ '':'' @ ha2))"

text \<open>What the digest of a request has to be, from the parameters of its header.\<close>

definition digest_want :: "(string \<Rightarrow> byte list) \<Rightarrow> string \<Rightarrow> string \<Rightarrow> string \<Rightarrow> string \<Rightarrow> string" where
  "digest_want md5 ha1 method uri authz =
     (let nonce = auth_param authz ''nonce''; uri_p = auth_param authz ''uri''; qop = auth_param authz ''qop'';
          nc = auth_param authz ''nc''; cn = auth_param authz ''cnonce'';
          ha2 = md5_hex md5 (method @ '':'' @ (if uri_p = [] then uri else uri_p))
      in if qop = [] then md5_hex md5 (ha1 @ '':'' @ nonce @ '':'' @ ha2)
         else md5_hex md5 (ha1 @ '':'' @ nonce @ '':'' @ nc @ '':'' @ cn @ '':'' @ qop @ '':'' @ ha2))"

definition check_basic :: "(string \<Rightarrow> string \<Rightarrow> bool) \<Rightarrow> string \<Rightarrow> auth_ctx \<Rightarrow> verdict \<times> auth_ctx" where
  "check_basic check authz ctx =
     (case rtsp_b64_loop (drop 6 authz) 0 0 [] of
        None \<Rightarrow> (VBad, ctx)
      | Some bytes \<Rightarrow>
          let dec = bytes_text bytes
          in if CHR '':'' \<notin> set dec then (VBad, ctx)
             else if check (takeWhile (\<lambda>c. c \<noteq> CHR '':'') dec) (tl (dropWhile (\<lambda>c. c \<noteq> CHR '':'') dec)) then (VOk, ctx\<lparr>cx_authed := True\<rparr>)
             else (VBad, ctx))"

definition check_digest ::
  "(string \<Rightarrow> byte list) \<Rightarrow> (string \<Rightarrow> string \<Rightarrow> string) \<Rightarrow> rtsp_auth_config \<Rightarrow> string \<Rightarrow> string \<Rightarrow> string \<Rightarrow> int \<Rightarrow> auth_ctx \<Rightarrow> verdict \<times> auth_ctx" where
  "check_digest md5 ha1_of cfg method uri authz now ctx =
     (let user = auth_param authz ''username''; nonce = auth_param authz ''nonce''; resp = auth_param authz ''response''
      in if user = [] \<or> nonce = [] \<or> resp = [] then (VBad, ctx)
         else if cx_nonce ctx = [] \<or> nonce \<noteq> cx_nonce ctx then (VStale, ctx)
         else if 0 < rc_nonce_lifetime_s cfg \<and> rc_nonce_lifetime_s cfg * 1000 < now - cx_issued_ms ctx then (VStale, ctx)
         else let ha1 = ha1_of user (rc_realm cfg)
              in if ha1 = [] then (VBad, ctx)
                 else if \<not> same (digest_want md5 ha1 method uri authz) resp then (VBad, ctx)
                 else (VOk, ctx\<lparr>cx_authed := True\<rparr>))"

definition auth_check :: "(string \<Rightarrow> byte list) \<Rightarrow> rtsp_auth \<Rightarrow> string \<Rightarrow> string \<Rightarrow> string \<Rightarrow> int \<Rightarrow> auth_ctx \<Rightarrow> verdict \<times> auth_ctx" where
  "auth_check md5 a method uri authz now ctx =
     (if \<not> auth_required a then (VOk, ctx)
      else if \<not> claimed a then (VBad, ctx)
      else if authz = [] then (VMissing, ctx)
      else case ra_check a of
        None \<Rightarrow> (VBad, ctx)
      | Some check \<Rightarrow>
          if rc_offer_basic (ra_cfg a) \<and> starts_ci authz ''Basic '' then check_basic check authz ctx
          else case ra_ha1 a of
            Some ha1_of \<Rightarrow>
              if digest_usable a \<and> starts_ci authz ''Digest '' then check_digest md5 ha1_of (ra_cfg a) method uri authz now ctx
              else (VBad, ctx)
          | None \<Rightarrow> (VBad, ctx))"

definition quoted :: "string \<Rightarrow> string" where
  "quoted s = [CHR 0x22] @ s @ [CHR 0x22]"

text \<open>The challenge, a line per scheme. Without random bytes the nonce is empty.\<close>

definition challenge :: "rtsp_auth \<Rightarrow> byte list option \<Rightarrow> int \<Rightarrow> bool \<Rightarrow> auth_ctx \<Rightarrow> string \<times> auth_ctx" where
  "challenge a random now stale ctx =
     (let nonce = secure_hex random 16; ctx = ctx\<lparr>cx_nonce := nonce, cx_issued_ms := now\<rparr>;
          out = (if digest_usable a
                 then ''Digest realm='' @ quoted (rc_realm (ra_cfg a)) @ '', nonce='' @ quoted nonce @ '', qop='' @ quoted ''auth'' @
                   (if stale then '', stale=true'' else [])
                 else []);
          out = (if rc_offer_basic (ra_cfg a)
                 then (if out \<noteq> [] then out @ [CHR 0x0A] else out) @ ''Basic realm='' @ quoted (rc_realm (ra_cfg a))
                 else out)
      in (out, ctx))"

text \<open>A request, and what the server does with it before it may take demand: it passes, or it is answered with the challenge.\<close>

record rtsp_request =
  rq_method :: string
  rq_url :: string
  rq_authz :: string
  rq_now :: int
  rq_random :: "byte list option"

definition authorise :: "(string \<Rightarrow> byte list) \<Rightarrow> rtsp_auth \<Rightarrow> rtsp_request \<Rightarrow> auth_ctx \<Rightarrow> (string list + unit) \<times> auth_ctx" where
  "authorise md5 a rq ctx =
     (if auth_required a
      then case auth_check md5 a (rq_method rq) (rq_url rq) (rq_authz rq) (rq_now rq) ctx of
        (v, ctx) \<Rightarrow>
          if v \<noteq> VOk
          then (case challenge a (rq_random rq) (rq_now rq) (v = VStale) ctx of
            (ch, ctx) \<Rightarrow> (Inl (map (\<lambda>one. ''WWW-Authenticate: '' @ one) (filter (\<lambda>one. one \<noteq> []) (split_nl ch))), ctx))
          else (Inr (), ctx)
      else (Inr (), ctx))"


section \<open>What the search finds\<close>

lemma same_iff: "same a b \<longleftrightarrow> a = b"
proof -
  have x: "u XOR v = 0 \<longleftrightarrow> u = v" for u v :: byte by (auto simp: bit_eq_iff bit_xor_iff)
  have f: "fold (\<lambda>(x, y) d. d OR (of_char x XOR of_char y)) ps (d :: byte) = 0 \<longleftrightarrow> d = 0 \<and> (\<forall>(x, y)\<in>set ps. (of_char x :: byte) = of_char y)" for ps d
    by (induction ps arbitrary: d) (auto simp: or_eq_0_iff x split: prod.splits)
  have inj: "(of_char x :: byte) = of_char y \<longleftrightarrow> x = y" for x y :: char
  proof -
    have "unat (of_char z :: byte) = of_char z" for z :: char
      using nat_of_char_less_256 [of z] by (simp add: unat_of_nat of_char_def)
    then show ?thesis by (metis of_char_eq_iff)
  qed
  have "same a b \<longleftrightarrow> length a = length b \<and> (\<forall>(x, y)\<in>set (zip a b). x = y)" by (simp add: same_def f inj)
  then show ?thesis by (simp add: list_eq_iff_zip_eq)
qed

definition at_boundary :: "char option \<Rightarrow> bool" where
  "at_boundary prev \<longleftrightarrow> prev = None \<or> prev = Some (CHR '','') \<or> prev = Some (CHR '' '')"


lemma auth_find_hit:
  assumes "take (length name + 1) s = name @ ''=''"
  shows "auth_find name prev s =
    (if at_boundary prev then Some (drop (length name + 1) s) else auth_find name (Some (CHR ''='')) (drop (length name + 1) s))"
  unfolding auth_find.simps [of name prev s] at_boundary_def using assms by (simp only: if_True simp_thms)

lemma auth_find_miss:
  assumes "take (length name + 1) s \<noteq> name @ ''=''"
  shows "auth_find name prev s = (case s of [] \<Rightarrow> None | c # cs \<Rightarrow> auth_find name (Some c) cs)"
  unfolding auth_find.simps [of name prev s] using assms by (simp only: if_False simp_thms)

lemma auth_find_Nil: "auth_find name prev [] = None"
  by (subst auth_find_miss) simp_all

lemma match_name:
  assumes "CHR ''='' \<notin> set name" "CHR ''='' \<notin> set x"
  shows "take (length name + 1) (x @ CHR ''='' # r) = name @ ''='' \<longleftrightarrow> x = name"
proof
  assume "take (length name + 1) (x @ CHR ''='' # r) = name @ ''=''"
  then have "x @ CHR ''='' # r = name @ CHR ''='' # drop (length name + 1) (x @ CHR ''='' # r)"
    by (metis append_take_drop_id append.assoc append_Cons append_Nil)
  then have "takeWhile (\<lambda>c. c \<noteq> CHR ''='') (x @ CHR ''='' # r) =
      takeWhile (\<lambda>c. c \<noteq> CHR ''='') (name @ CHR ''='' # drop (length name + 1) (x @ CHR ''='' # r))"
    by (rule arg_cong)
  moreover have "takeWhile (\<lambda>c. c \<noteq> CHR ''='') (y @ CHR ''='' # t) = y" if "CHR ''='' \<notin> set y" for y t
    using that by (subst takeWhile_append2) auto
  ultimately show "x = name" using assms by metis
qed simp

lemma auth_find_eq:
  assumes "CHR ''='' \<notin> set name" "name \<noteq> []" "CHR ''='' \<notin> set a"
  shows "auth_find name prev (a @ CHR ''='' # r) =
    (if \<exists>a'. a = a' @ name \<and> at_boundary (if a' = [] then prev else Some (last a')) then Some r
     else auth_find name (Some (CHR ''='')) r)"
  using assms(3)
proof (induction a arbitrary: prev)
  case Nil
  have "take (length name + 1) ([] @ CHR ''='' # r) \<noteq> name @ ''=''"
    using match_name [of name "[]" r] assms(1,2) by auto
  then have "auth_find name prev ([] @ CHR ''='' # r) = auth_find name (Some (CHR ''='')) r" using auth_find_miss by simp
  with assms(2) show ?case by simp
next
  case (Cons c a)
  note m = match_name [OF assms(1) Cons.prems, of r]
  show ?case
  proof (cases "c # a = name")
    case True
    then have "take (length name + 1) ((c # a) @ CHR ''='' # r) = name @ ''=''" using m by simp
    moreover have "(\<exists>a'. c # a = a' @ name \<and> at_boundary (if a' = [] then prev else Some (last a'))) \<longleftrightarrow> at_boundary prev"
      using True by auto
    moreover have "drop (length name + 1) ((c # a) @ CHR ''='' # r) = r" unfolding True [symmetric] by simp
    ultimately show ?thesis
      using auth_find_hit [of name "(c # a) @ CHR ''='' # r" prev] by presburger
  next
    case False
    have "(\<exists>a'. c # a = a' @ name \<and> at_boundary (if a' = [] then prev else Some (last a'))) \<longleftrightarrow>
      (\<exists>a'. a = a' @ name \<and> at_boundary (if a' = [] then Some c else Some (last a')))" (is "?l \<longleftrightarrow> ?r")
    proof
      assume ?l
      then obtain a' where a': "c # a = a' @ name" "at_boundary (if a' = [] then prev else Some (last a'))" by blast
      with False obtain b where "a' = c # b" by (cases a') auto
      with a' show ?r by (intro exI [of _ b]) auto
    next
      assume ?r
      then obtain a' where "a = a' @ name" "at_boundary (if a' = [] then Some c else Some (last a'))" by blast
      then show ?l by (intro exI [of _ "c # a'"]) auto
    qed
    moreover from False m have "auth_find name prev (c # a @ CHR ''='' # r) = auth_find name (Some c) (a @ CHR ''='' # r)"
      by (subst auth_find_miss) simp_all
    ultimately show ?thesis using Cons.IH [of "Some c"] Cons.prems by simp
  qed
qed

definition is_sep :: "char \<Rightarrow> bool" where
  "is_sep c \<longleftrightarrow> c = CHR '','' \<or> c = CHR '' ''"

lemma auth_find_skip:
  assumes "\<not> is_sep p" "list_all (\<lambda>c. \<not> is_sep c) w" "list_all (\<lambda>c. \<not> is_sep c) name" "rest = [] \<or> is_sep (hd rest)"
  shows "auth_find name (Some p) (w @ rest) = auth_find name (Some (last (p # w))) rest"
  using assms(1,2)
proof (induction "length w" arbitrary: p w rule: less_induct)
  case less
  show ?case
  proof (cases "take (length name + 1) (w @ rest) = name @ ''=''")
    case True
    have "length name + 1 \<le> length w"
    proof (rule ccontr)
      assume "\<not> length name + 1 \<le> length w"
      then have l: "length w < length (name @ ''='')" by simp
      have "rest \<noteq> []" using True l by (metis append_Nil2 length_append list.size(3) add_0_right length_take min.cobounded1 not_less)
      then have "is_sep ((w @ rest) ! length w)" using assms(4) by (simp add: nth_append hd_conv_nth)
      moreover have "(w @ rest) ! length w = (name @ ''='') ! length w" unfolding True [symmetric] using l by (intro nth_take [symmetric]) simp
      moreover have "(name @ ''='') ! length w \<in> set (name @ ''='')" using l by (rule nth_mem)
      ultimately have "\<exists>c\<in>set (name @ ''=''). is_sep c" by metis
      then show False using assms(3) by (auto simp: list_all_iff is_sep_def)
    qed
    then obtain w' where w: "w = name @ CHR ''='' # w'"
      using True by (metis append_take_drop_id take_append diff_is_0_eq take0 append_Nil2 append.assoc append_Cons append_Nil)
    have "\<not> at_boundary (Some p)" using less.prems(1) by (simp add: at_boundary_def is_sep_def)
    then have "auth_find name (Some p) (w @ rest) = auth_find name (Some (CHR ''='')) (w' @ rest)"
      using auth_find_hit [OF True] by (simp add: w)
    also have "\<dots> = auth_find name (Some (last (CHR ''='' # w'))) rest"
      using less.prems(2) by (intro less.hyps) (simp_all add: w is_sep_def)
    finally show ?thesis by (simp add: w)
  next
    case False
    show ?thesis
    proof (cases w)
      case Nil
      then show ?thesis by simp
    next
      case (Cons c cs)
      with False have "auth_find name (Some p) (w @ rest) = auth_find name (Some c) (cs @ rest)" by (simp add: auth_find_miss)
      also have "\<dots> = auth_find name (Some (last (c # cs))) rest" using less.prems(2) by (intro less.hyps) (simp_all add: Cons)
      finally show ?thesis by (simp add: Cons)
    qed
  qed
qed


section \<open>A header as clients write it\<close>

text \<open>The parameters of a header: a name, whether the value is quoted, and the value.\<close>

type_synonym auth_item = "string \<times> bool \<times> string"

definition item_value :: "auth_item \<Rightarrow> string" where
  "item_value i = (case i of (n, q, v) \<Rightarrow> if q then quoted v else v)"

definition auth_item_text :: "auth_item \<Rightarrow> string" where
  "auth_item_text i = fst i @ CHR ''='' # item_value i"

fun params_text :: "auth_item list \<Rightarrow> string" where
  "params_text [] = []"
| "params_text [i] = auth_item_text i"
| "params_text (i # j # is) = auth_item_text i @ '', '' @ params_text (j # is)"

definition name_ok :: "string \<Rightarrow> bool" where
  "name_ok n \<longleftrightarrow> n \<noteq> [] \<and> list_all (\<lambda>c. c \<noteq> CHR ''='' \<and> \<not> is_sep c) n"

definition auth_value_ok :: "string \<Rightarrow> bool" where
  "auth_value_ok v \<longleftrightarrow> list_all (\<lambda>c. \<not> is_sep c \<and> c \<notin> {CHR 0x22, CHR 0x09, CHR 0x0D, CHR 0x0A}) v"

definition items_ok :: "auth_item list \<Rightarrow> bool" where
  "items_ok is \<longleftrightarrow> list_all (\<lambda>(n, q, v). name_ok n \<and> auth_value_ok v) is"

lemma suffix_name:
  assumes "name_ok name" "name_ok n" "pre \<noteq> []" "last pre = CHR '' ''"
  shows "(\<exists>a'. pre @ n = a' @ name \<and> at_boundary (if a' = [] then prev else Some (last a'))) \<longleftrightarrow> n = name"
proof
  assume "\<exists>a'. pre @ n = a' @ name \<and> at_boundary (if a' = [] then prev else Some (last a'))"
  then obtain a' where a': "pre @ n = a' @ name" "at_boundary (if a' = [] then prev else Some (last a'))" by blast
  from a'(1) obtain us where us: "pre = a' @ us \<and> us @ n = name \<or> pre @ us = a' \<and> n = us @ name" by (auto simp: append_eq_append_conv2)
  show "n = name"
  proof (cases "us = []")
    case False
    from us show ?thesis
    proof
      assume u: "pre = a' @ us \<and> us @ n = name"
      with False assms(4) have "CHR '' '' \<in> set name" by (metis last_appendR last_in_set set_append UnI1)
      with assms(1) show ?thesis by (auto simp: name_ok_def list_all_iff is_sep_def)
    next
      assume u: "pre @ us = a' \<and> n = us @ name"
      with False a'(2) have "is_sep (last us)" by (auto simp: at_boundary_def is_sep_def last_append)
      with u False assms(2) show ?thesis by (auto simp: name_ok_def list_all_iff)
    qed
  qed (use us in auto)
next
  assume "n = name"
  with assms(3,4) show "\<exists>a'. pre @ n = a' @ name \<and> at_boundary (if a' = [] then prev else Some (last a'))"
    by (intro exI [of _ pre]) (simp add: at_boundary_def)
qed

lemma find_item:
  assumes "name_ok name" "name_ok n" "auth_value_ok v" "pre \<noteq> []" "last pre = CHR '' ''" "CHR ''='' \<notin> set pre" "rest = [] \<or> is_sep (hd rest)"
  shows "auth_find name prev (pre @ auth_item_text (n, q, v) @ rest) =
    (if n = name then Some (item_value (n, q, v) @ rest) else auth_find name (Some (last (CHR ''='' # item_value (n, q, v)))) rest)"
proof -
  have a: "CHR ''='' \<notin> set (pre @ n)" "CHR ''='' \<notin> set name" "name \<noteq> []"
    using assms(1,2,6) by (auto simp: name_ok_def list_all_iff)
  have "auth_find name (Some (CHR ''='')) (item_value (n, q, v) @ rest) = auth_find name (Some (last (CHR ''='' # item_value (n, q, v)))) rest"
    using assms(1,3,7) by (intro auth_find_skip) (auto simp: is_sep_def name_ok_def auth_value_ok_def item_value_def quoted_def list_all_iff)
  with auth_find_eq [OF a(2,3,1), of prev "item_value (n, q, v) @ rest"] suffix_name [OF assms(1,2,4,5), of prev]
  show ?thesis by (simp add: auth_item_text_def)
qed

lemma param_value_item:
  assumes "auth_value_ok v" "q \<or> v \<noteq> []" "rest = [] \<or> is_sep (hd rest)"
  shows "param_value (item_value (n, q, v) @ rest) = v"
proof (cases q)
  case True
  then show ?thesis using assms(1) by (auto simp: param_value_def item_value_def quoted_def auth_value_ok_def list_all_iff takeWhile_tail)
next
  case False
  then have "hd (v @ rest) \<noteq> CHR 0x22" using assms by (cases v) (auto simp: auth_value_ok_def)
  moreover have "takeWhile (\<lambda>c. c \<notin> {CHR '','', CHR '' '', CHR 0x09, CHR 0x0D, CHR 0x0A}) (v @ rest) = v"
    using assms(1,3) by (subst takeWhile_append2) (auto simp: auth_value_ok_def is_sep_def list_all_iff takeWhile_eq_Nil_iff)
  ultimately show ?thesis using False assms(2) by (simp add: param_value_def item_value_def)
qed

definition items_value :: "auth_item list \<Rightarrow> string \<Rightarrow> string" where
  "items_value is name = (case map_of is name of None \<Rightarrow> [] | Some (q, v) \<Rightarrow> v)"

lemma find_params:
  assumes "items_ok is" "list_all (\<lambda>(n, q, v). q \<or> v \<noteq> []) is" "name_ok name" "pre \<noteq> []" "last pre = CHR '' ''" "CHR ''='' \<notin> set pre" "is \<noteq> []"
  shows "(case auth_find name prev (pre @ params_text is) of None \<Rightarrow> [] | Some s \<Rightarrow> param_value s) = items_value is name"
  using assms(1,2,4-7)
proof (induction "is" arbitrary: pre prev rule: params_text.induct)
  case 1
  then show ?case by simp
next
  case (2 i)
  obtain n q v where i: "i = (n, q, v)" by (cases i)
  from 2 have "name_ok n" "auth_value_ok v" "q \<or> v \<noteq> []" by (auto simp: items_ok_def i)
  with find_item [OF assms(3), of n v pre "[]" prev q] param_value_item [of v q "[]" n] 2 show ?case
    by (simp add: i items_value_def auth_find_Nil)
next
  case (3 i j "is")
  obtain n q v where i: "i = (n, q, v)" by (cases i)
  from 3 have ok: "name_ok n" "auth_value_ok v" "q \<or> v \<noteq> []" and ok': "items_ok (j # is)" "list_all (\<lambda>(n, q, v). q \<or> v \<noteq> []) (j # is)"
    by (auto simp: items_ok_def i)
  let ?rest = "'', '' @ params_text (j # is)"
  have r: "?rest = [] \<or> is_sep (hd ?rest)" by (simp add: is_sep_def)
  note f = find_item [OF assms(3) ok(1,2) 3(4,5,6) r, of prev q]
  show ?case
  proof (cases "n = name")
    case True
    with f param_value_item [OF ok(2,3) r, of n] show ?thesis by (simp add: i items_value_def)
  next
    case False
    with f 3(1) [OF ok', of "'', ''"] show ?thesis by (simp add: i items_value_def)
  qed
qed

lemma auth_param_items:
  assumes "items_ok is" "list_all (\<lambda>(n, q, v). q \<or> v \<noteq> []) is" "name_ok name" "is \<noteq> []"
  shows "auth_param (''Digest '' @ params_text is) name = items_value is name"
  unfolding auth_param_def by (rule find_params) (use assms in simp_all)


section \<open>Who is let in\<close>

lemma snd_check_digest: "fst (check_digest md5 ha1_of cfg m u h t ctx) = VOk \<Longrightarrow>
    auth_param h ''nonce'' \<noteq> [] \<and> auth_param h ''nonce'' = cx_nonce ctx \<and>
    (0 < rc_nonce_lifetime_s cfg \<longrightarrow> t - cx_issued_ms ctx \<le> rc_nonce_lifetime_s cfg * 1000) \<and> ha1_of (auth_param h ''username'') (rc_realm cfg) \<noteq> [] \<and>
    auth_param h ''response'' = digest_want md5 (ha1_of (auth_param h ''username'') (rc_realm cfg)) m u h"
  by (auto simp: check_digest_def Let_def same_iff not_less split: if_splits)

lemma check_basic_ok: "fst (check_basic check h ctx) = VOk \<Longrightarrow>
    \<exists>bytes user pass. rtsp_b64_loop (drop 6 h) 0 0 [] = Some bytes \<and> bytes_text bytes = user @ CHR '':'' # pass \<and> CHR '':'' \<notin> set user \<and> check user pass"
proof -
  assume a: "fst (check_basic check h ctx) = VOk"
  then obtain bytes where b: "rtsp_b64_loop (drop 6 h) 0 0 [] = Some bytes" "CHR '':'' \<in> set (bytes_text bytes)"
      "check (takeWhile (\<lambda>c. c \<noteq> CHR '':'') (bytes_text bytes)) (tl (dropWhile (\<lambda>c. c \<noteq> CHR '':'') (bytes_text bytes)))"
    by (auto simp: check_basic_def Let_def split: option.splits if_splits)
  let ?t = "bytes_text bytes"
  have "dropWhile (\<lambda>c. c \<noteq> CHR '':'') ?t \<noteq> []" using b(2) by simp
  then have "?t = takeWhile (\<lambda>c. c \<noteq> CHR '':'') ?t @ CHR '':'' # tl (dropWhile (\<lambda>c. c \<noteq> CHR '':'') ?t)"
    using hd_dropWhile [of "\<lambda>c. c \<noteq> CHR '':''" ?t] by (metis takeWhile_dropWhile_id list.collapse)
  moreover have "CHR '':'' \<notin> set (takeWhile (\<lambda>c. c \<noteq> CHR '':'') ?t)" by (auto dest: set_takeWhileD)
  ultimately show ?thesis using b(1,3) by blast
qed

definition basic_ok :: "rtsp_auth \<Rightarrow> rtsp_request \<Rightarrow> bool" where
  "basic_ok a rq \<longleftrightarrow> rc_offer_basic (ra_cfg a) \<and>
     (\<exists>check bytes user pass. ra_check a = Some check \<and> rtsp_b64_loop (drop 6 (rq_authz rq)) 0 0 [] = Some bytes \<and>
        bytes_text bytes = user @ CHR '':'' # pass \<and> CHR '':'' \<notin> set user \<and> check user pass)"

text \<open>The digest answers the challenge that went out with an earlier refusal on the same connection, within the lifetime, and was made with the secret of its user.\<close>

definition digest_ok :: "(string \<Rightarrow> byte list) \<Rightarrow> rtsp_auth \<Rightarrow> (rtsp_auth \<times> rtsp_request) list \<Rightarrow> rtsp_request \<Rightarrow> bool" where
  "digest_ok md5 a hist rq \<longleftrightarrow> rc_offer_digest (ra_cfg a) \<and>
     (\<exists>ha1_of ha1. ra_ha1 a = Some ha1_of \<and> ha1 = ha1_of (auth_param (rq_authz rq) ''username'') (rc_realm (ra_cfg a)) \<and> ha1 \<noteq> [] \<and>
        auth_param (rq_authz rq) ''response'' = digest_want md5 ha1 (rq_method rq) (rq_url rq) (rq_authz rq)) \<and>
     (\<exists>(a', rq')\<in>set hist. auth_param (rq_authz rq) ''nonce'' = secure_hex (rq_random rq') 16 \<and> secure_hex (rq_random rq') 16 \<noteq> [] \<and>
        (0 < rc_nonce_lifetime_s (ra_cfg a) \<longrightarrow> rq_now rq - rq_now rq' \<le> rc_nonce_lifetime_s (ra_cfg a) * 1000))"

definition run_requests :: "(string \<Rightarrow> byte list) \<Rightarrow> (rtsp_auth \<times> rtsp_request) list \<Rightarrow> auth_ctx" where
  "run_requests md5 hist = fold (\<lambda>(a, rq) ctx. snd (authorise md5 a rq ctx)) hist auth_ctx0"

lemma check_keeps_nonce:
  "cx_nonce (snd (check_basic check h ctx)) = cx_nonce ctx" "cx_issued_ms (snd (check_basic check h ctx)) = cx_issued_ms ctx"
  "cx_nonce (snd (check_digest md5 f cfg m u h t ctx)) = cx_nonce ctx" "cx_issued_ms (snd (check_digest md5 f cfg m u h t ctx)) = cx_issued_ms ctx"
  by (simp_all add: check_basic_def check_digest_def Let_def split: option.split)

lemma auth_check_keeps_nonce:
  "cx_nonce (snd (auth_check md5 a m u h t ctx)) = cx_nonce ctx" "cx_issued_ms (snd (auth_check md5 a m u h t ctx)) = cx_issued_ms ctx"
  by (simp_all add: auth_check_def check_keeps_nonce split: option.split)

lemma authorise_nonce:
  "cx_nonce (snd (authorise md5 a rq ctx)) = cx_nonce ctx \<and> cx_issued_ms (snd (authorise md5 a rq ctx)) = cx_issued_ms ctx \<or>
   cx_nonce (snd (authorise md5 a rq ctx)) = secure_hex (rq_random rq) 16 \<and> cx_issued_ms (snd (authorise md5 a rq ctx)) = rq_now rq"
proof -
  obtain v ctx' where c: "auth_check md5 a (rq_method rq) (rq_url rq) (rq_authz rq) (rq_now rq) ctx = (v, ctx')" by (metis surj_pair)
  then have "cx_nonce ctx' = cx_nonce ctx" "cx_issued_ms ctx' = cx_issued_ms ctx" using auth_check_keeps_nonce by (metis snd_conv)+
  then show ?thesis by (cases "v = VOk") (simp_all add: authorise_def c challenge_def Let_def)
qed

lemma run_requests_nonce:
  "cx_nonce (run_requests md5 hist) \<noteq> [] \<Longrightarrow>
     \<exists>(a', rq')\<in>set hist. cx_nonce (run_requests md5 hist) = secure_hex (rq_random rq') 16 \<and> cx_issued_ms (run_requests md5 hist) = rq_now rq'"
proof (induction hist rule: rev_induct)
  case Nil
  then show ?case by (simp add: run_requests_def auth_ctx0_def)
next
  case (snoc x hist)
  obtain a rq where x: "x = (a, rq)" by (cases x)
  have r: "run_requests md5 (hist @ [(a, rq)]) = snd (authorise md5 a rq (run_requests md5 hist))" by (simp add: run_requests_def)
  note prem = snoc.prems [unfolded x]
  from authorise_nonce [of md5 a rq "run_requests md5 hist"] show ?case
    unfolding x
  proof
    assume k: "cx_nonce (snd (authorise md5 a rq (run_requests md5 hist))) = cx_nonce (run_requests md5 hist) \<and>
      cx_issued_ms (snd (authorise md5 a rq (run_requests md5 hist))) = cx_issued_ms (run_requests md5 hist)"
    with prem have "cx_nonce (run_requests md5 hist) \<noteq> []" by (simp add: r)
    from snoc.IH [OF this] k show "\<exists>(a', rq')\<in>set (hist @ [(a, rq)]). cx_nonce (run_requests md5 (hist @ [(a, rq)])) = secure_hex (rq_random rq') 16 \<and>
        cx_issued_ms (run_requests md5 (hist @ [(a, rq)])) = rq_now rq'" by (auto simp: r)
  qed (auto simp: r)
qed

text \<open>C31: 
  No stream without a credential. After any requests on a connection, a request that needs authentication is let in only when the camera has been set up and the request carries a
  user and password that the credential check accepts, or a digest that answers a nonce given out on this connection no longer ago than its lifetime and was made with the user's stored
  secret.
\<close>

theorem stream_needs_credential:
  assumes "auth_required a" "fst (authorise md5 a rq (run_requests md5 hist)) = Inr ()"
  shows "claimed a \<and> (basic_ok a rq \<or> digest_ok md5 a hist rq)"
proof -
  let ?ctx = "run_requests md5 hist"
  have v: "fst (auth_check md5 a (rq_method rq) (rq_url rq) (rq_authz rq) (rq_now rq) ?ctx) = VOk"
    using assms by (auto simp: authorise_def split: prod.splits if_splits)
  then obtain check where c: "claimed a" "ra_check a = Some check" using assms(1) by (auto simp: auth_check_def split: if_splits option.splits)
  show ?thesis
  proof (cases "rc_offer_basic (ra_cfg a) \<and> starts_ci (rq_authz rq) ''Basic ''")
    case True
    with v c assms(1) have "fst (check_basic check (rq_authz rq) ?ctx) = VOk" by (auto simp: auth_check_def split: if_splits)
    from check_basic_ok [OF this] True c show ?thesis by (auto simp: basic_ok_def)
  next
    case False
    with v c assms(1) obtain ha1_of where d: "ra_ha1 a = Some ha1_of" "digest_usable a"
        "fst (check_digest md5 ha1_of (ra_cfg a) (rq_method rq) (rq_url rq) (rq_authz rq) (rq_now rq) ?ctx) = VOk"
      by (auto simp: auth_check_def split: if_splits option.splits)
    note k = snd_check_digest [OF d(3)]
    then have "cx_nonce ?ctx \<noteq> []" by auto
    from run_requests_nonce [OF this] obtain a' rq' where n: "(a', rq') \<in> set hist" "cx_nonce ?ctx = secure_hex (rq_random rq') 16"
        "cx_issued_ms ?ctx = rq_now rq'" by auto
    have "digest_ok md5 a hist rq"
      unfolding digest_ok_def
    proof (intro conjI)
      show "rc_offer_digest (ra_cfg a)" using d(2) by (simp add: digest_usable_def)
      show "\<exists>(a', rq')\<in>set hist. auth_param (rq_authz rq) ''nonce'' = secure_hex (rq_random rq') 16 \<and> secure_hex (rq_random rq') 16 \<noteq> [] \<and>
          (0 < rc_nonce_lifetime_s (ra_cfg a) \<longrightarrow> rq_now rq - rq_now rq' \<le> rc_nonce_lifetime_s (ra_cfg a) * 1000)"
        using k n by (intro bexI [OF _ n(1)]) auto
    qed (use k d(1) in auto)
    with c(1) show ?thesis by simp
  qed
qed


definition demo_auth :: rtsp_auth where
  "demo_auth = \<lparr>ra_cfg = \<lparr>rc_enabled = True, rc_offer_basic = True, rc_offer_digest = False, rc_realm = ''Machino'', rc_nonce_lifetime_s = 300\<rparr>,
     ra_check = Some (\<lambda>user pass. user = ''admin'' \<and> pass = ''pw''), ra_ha1 = None, ra_claim = Some True, ra_unsafe = False\<rparr>"

definition demo_request :: rtsp_request where
  "demo_request = \<lparr>rq_method = ''DESCRIBE'', rq_url = ''rtsp://h/ch0'', rq_authz = ''Basic YWRtaW46cHc='', rq_now = 5, rq_random = None\<rparr>"

text \<open>The demonstration is also what the check leaves open: whatever account the credential check accepts may watch, not only root.\<close>

lemma any_account_accepted: "fst (authorise (\<lambda>_. []) demo_auth demo_request (run_requests (\<lambda>_. []) [])) = Inr ()"
  by code_simp

theorem stream_needs_credential_witness:
  "claimed demo_auth \<and> (basic_ok demo_auth demo_request \<or> digest_ok (\<lambda>_. []) demo_auth [] demo_request)"
proof (rule stream_needs_credential)
  show "auth_required demo_auth" by code_simp
  show "fst (authorise (\<lambda>_. []) demo_auth demo_request (run_requests (\<lambda>_. []) [])) = Inr ()" by code_simp
qed

section \<open>A client that knows the password\<close>

text \<open>The header of a client that answers a challenge, with or without a quality of protection.\<close>

definition client_items :: "md5_fn \<Rightarrow> string \<Rightarrow> string \<Rightarrow> string \<Rightarrow> string \<Rightarrow> string \<Rightarrow> string \<Rightarrow> (string \<times> string \<times> string) option \<Rightarrow> auth_item list" where
  "client_items md5 user pass realm nonce method uri qop =
     [(''username'', True, user), (''realm'', True, realm), (''nonce'', True, nonce), (''uri'', True, uri)] @
     (case qop of
        None \<Rightarrow> [(''response'', True, digest_response md5 user pass realm nonce method uri ([], [], []))]
      | Some (q, nc, cn) \<Rightarrow> [(''response'', True, digest_response md5 user pass realm nonce method uri (nc, cn, q)),
          (''qop'', False, q), (''nc'', False, nc), (''cnonce'', True, cn)])"

lemma hex_value_ok: "auth_value_ok (concat (map (\<lambda>b. [hex_nibble (f b), hex_nibble b]) bs))"
proof -
  have "auth_value_ok [hex_nibble b]" for b
  proof -
    have "unat (b AND 15) < 16" using word_and_le1 [of b 15] by (simp add: word_le_nat_alt)
    then have "hex_nibble b \<in> set ''0123456789abcdef''" unfolding hex_nibble_def by (intro nth_mem) simp
    then show ?thesis by (auto simp: auth_value_ok_def is_sep_def)
  qed
  then show ?thesis by (induction bs) (simp_all add: auth_value_ok_def)
qed

lemma digest_want_client:
  assumes "items_ok (client_items md5 user pass realm nonce method uri qop)" "uri \<noteq> []"
    and "case qop of None \<Rightarrow> True | Some (q, nc, cn) \<Rightarrow> q \<noteq> [] \<and> nc \<noteq> []"
  defines "h \<equiv> ''Digest '' @ params_text (client_items md5 user pass realm nonce method uri qop)"
  shows "auth_param h ''username'' = user" "auth_param h ''nonce'' = nonce"
    "auth_param h ''response'' = digest_want md5 (ha1_hex md5 user realm pass) method url h"
proof -
  let ?is = "client_items md5 user pass realm nonce method uri qop"
  have q: "list_all (\<lambda>(n, q, v). q \<or> v \<noteq> []) ?is" "?is \<noteq> []" using assms(3) by (auto simp: client_items_def split: option.splits)
  have names: "name_ok ''username''" "name_ok ''nonce''" "name_ok ''response''" "name_ok ''uri''" "name_ok ''qop''" "name_ok ''nc''" "name_ok ''cnonce''"
    by (simp_all add: name_ok_def is_sep_def)
  note p = auth_param_items [OF assms(1) q(1) _ q(2), folded h_def]
  note v = p [OF names(1)] p [OF names(2)] p [OF names(3)] p [OF names(4)] p [OF names(5)] p [OF names(6)] p [OF names(7)]
  show "auth_param h ''username'' = user" "auth_param h ''nonce'' = nonce"
    unfolding v by (simp_all add: items_value_def client_items_def)
  show "auth_param h ''response'' = digest_want md5 (ha1_hex md5 user realm pass) method url h"
    unfolding digest_want_def v using assms(2,3)
    by (cases qop) (auto simp: items_value_def client_items_def digest_response_def Let_def split: prod.splits)
qed


lemma client_items_ok:
  assumes "auth_value_ok user" "auth_value_ok realm" "auth_value_ok nonce" "auth_value_ok uri"
    and "case qop of None \<Rightarrow> True | Some (q, nc, cn) \<Rightarrow> auth_value_ok q \<and> auth_value_ok nc \<and> auth_value_ok cn"
  shows "items_ok (client_items md5 user pass realm nonce method uri qop)"
proof -
  have r: "auth_value_ok (digest_response md5 user pass realm nonce method uri (nc, cn, q))" for nc cn q
    by (simp add: digest_response_def Let_def md5_hex_def hex_value_ok [of "\<lambda>b. drop_bit 4 b"])
  show ?thesis
    using assms by (auto simp: items_ok_def client_items_def r name_ok_def is_sep_def split: option.splits)
qed

text \<open>
  A client that knows the password gets in. The answer to the camera's challenge, with or without a quality of protection, is accepted on the same connection within the nonce's
  lifetime for any hash: the parameters are read out of the header as they were written, in values as well that hold an equals sign. It is accepted for any URL of the request, since the
  digest is taken over the URI that the client states.
\<close>

theorem digest_client_accepted:
  assumes "claimed a" "ra_check a \<noteq> None" "digest_usable a" "ra_ha1 a = Some ha1_of" "ha1_of user (rc_realm (ra_cfg a)) = ha1_hex md5 user (rc_realm (ra_cfg a)) pass"
    and "\<forall>s. md5 s \<noteq> []" "length bytes = 16" "ctx' = snd (challenge a (Some bytes) t stale ctx)"
    and "auth_value_ok user" "auth_value_ok (rc_realm (ra_cfg a))" "auth_value_ok uri" "user \<noteq> []" "uri \<noteq> []"
    and "case qop of None \<Rightarrow> True | Some (q, nc, cn) \<Rightarrow> q \<noteq> [] \<and> nc \<noteq> [] \<and> auth_value_ok q \<and> auth_value_ok nc \<and> auth_value_ok cn"
    and "rq_authz rq = ''Digest '' @ params_text (client_items md5 user pass (rc_realm (ra_cfg a)) (cx_nonce ctx') (rq_method rq) uri qop)"
    and "rc_nonce_lifetime_s (ra_cfg a) \<le> 0 \<or> rq_now rq - t \<le> rc_nonce_lifetime_s (ra_cfg a) * 1000"
  shows "fst (authorise md5 a rq ctx') = Inr ()"
proof -
  have ctx': "cx_nonce ctx' = secure_hex (Some bytes) 16" "cx_issued_ms ctx' = t"
    using assms(8) by (simp_all add: challenge_def Let_def)
  then have n: "cx_nonce ctx' = concat (map (\<lambda>b. [hex_nibble (drop_bit 4 b), hex_nibble b]) bytes)" using assms(7) by (simp add: secure_hex_def)
  then have n0: "cx_nonce ctx' \<noteq> []" "auth_value_ok (cx_nonce ctx')" using assms(7) by (cases bytes; simp) (simp add: n hex_value_ok)
  have "items_ok (client_items md5 user pass (rc_realm (ra_cfg a)) (cx_nonce ctx') (rq_method rq) uri qop)"
    using assms(9-14) n0 by (intro client_items_ok) (auto split: option.splits)
  note w = digest_want_client [OF this assms(13), folded assms(15)]
  have q: "case qop of None \<Rightarrow> True | Some (q, nc, cn) \<Rightarrow> q \<noteq> [] \<and> nc \<noteq> []" using assms(14) by (auto split: option.splits)
  have m: "md5_hex md5 s \<noteq> []" for s using assms(6) by (cases "md5 s") (auto simp: md5_hex_def dest: spec [of _ s])
  have resp: "auth_param (rq_authz rq) ''response'' \<noteq> []" unfolding w(3) [OF q, of "rq_url rq"] by (simp add: digest_want_def Let_def m)
  have ha1: "ha1_hex md5 user (rc_realm (ra_cfg a)) pass \<noteq> []" by (simp add: ha1_hex_def m)
  have "fst (check_digest md5 ha1_of (ra_cfg a) (rq_method rq) (rq_url rq) (rq_authz rq) (rq_now rq) ctx') = VOk"
    using assms(5,12,16) w(1,2) [OF q] w(3) [OF q, of "rq_url rq"] resp n0 ha1 ctx'(2)
    by (auto simp: check_digest_def Let_def same_iff)
  moreover have "\<not> starts_ci (rq_authz rq) ''Basic ''" "starts_ci (rq_authz rq) ''Digest ''" "rq_authz rq \<noteq> []"
    unfolding assms(15) by (simp_all add: starts_ci_def lower_def list.rel_refl)
  ultimately have "fst (auth_check md5 a (rq_method rq) (rq_url rq) (rq_authz rq) (rq_now rq) ctx') = VOk"
    using assms(1-4) by (auto simp: auth_check_def)
  then show ?thesis by (auto simp: authorise_def split: prod.splits)
qed

definition demo_md5 :: "string \<Rightarrow> byte list" where
  "demo_md5 s = [of_nat (length s)]"

definition demo_digest_auth :: rtsp_auth where
  "demo_digest_auth = demo_auth\<lparr>ra_cfg := (ra_cfg demo_auth)\<lparr>rc_offer_digest := True\<rparr>, ra_ha1 := Some (\<lambda>user realm. ha1_hex demo_md5 user realm ''pw'')\<rparr>"

definition demo_digest_request :: rtsp_request where
  "demo_digest_request =
     (let ctx = snd (challenge demo_digest_auth (Some (replicate 16 7)) 0 False auth_ctx0)
      in demo_request\<lparr>rq_authz := ''Digest '' @ params_text (client_items demo_md5 ''root'' ''pw'' ''Machino'' (cx_nonce ctx) ''DESCRIBE'' ''rtsp://h/ch0/trackID=1'' None)\<rparr>)"

theorem digest_client_accepted_witness:
  "fst (authorise demo_md5 demo_digest_auth demo_digest_request (snd (challenge demo_digest_auth (Some (replicate 16 7)) 0 False auth_ctx0))) = Inr ()"
  by (rule digest_client_accepted [where user = "''root''" and pass = "''pw''" and uri = "''rtsp://h/ch0/trackID=1''" and qop = None and bytes = "replicate 16 7"
        and t = 0 and stale = False and ctx = auth_ctx0 and ha1_of = "\<lambda>user realm. ha1_hex demo_md5 user realm ''pw''"])
     (simp_all add: demo_digest_auth_def demo_auth_def demo_digest_request_def demo_request_def demo_md5_def claimed_def digest_usable_def auth_value_ok_def is_sep_def Let_def)

section \<open>Frames between the requests\<close>

definition kMaxInterleaved :: nat where "kMaxInterleaved = 4096"

datatype interleaved = NotOne | Partial | Frame byte "byte list" "byte list" | TooLarge

text \<open>A frame comes with its channel, its data and what is left of the buffer.\<close>

definition take_interleaved :: "byte list \<Rightarrow> interleaved" where
  "take_interleaved buf =
     (if buf = [] \<or> hd buf \<noteq> 0x24 then NotOne
      else if length buf < 4 then Partial
      else let len = unat (buf ! 2) * 256 + unat (buf ! 3)
           in if kMaxInterleaved < len then TooLarge
              else if length buf < 4 + len then Partial
              else Frame (buf ! 1) (take len (drop 4 buf)) (drop (4 + len) buf))"

text \<open>The last occurrence of \<open>p\<close>; what follows it.\<close>

fun after_last :: "string \<Rightarrow> string \<Rightarrow> string option" where
  "after_last p [] = None"
| "after_last p (c # s) =
     (case after_last p s of Some r \<Rightarrow> Some r | None \<Rightarrow> if take (length p) (c # s) = p then Some (drop (length p) (c # s)) else None)"

definition track_from_url :: "(string \<Rightarrow> int) \<Rightarrow> string \<Rightarrow> int" where
  "track_from_url ovf url = (case after_last ''trackID='' url of None \<Rightarrow> 0 | Some s \<Rightarrow> c_atoi ovf s)"

definition interleaved_channels :: "(string \<Rightarrow> int) \<Rightarrow> string \<Rightarrow> (int \<times> int) option" where
  "interleaved_channels ovf transport =
     (case after ''interleaved='' transport of
        None \<Rightarrow> None
      | Some t \<Rightarrow>
          let rtp = c_atoi ovf t; dash = length (takeWhile (\<lambda>c. c \<noteq> CHR ''-'') t); semi = length (takeWhile (\<lambda>c. c \<noteq> CHR '';'') t)
          in Some (rtp, if CHR ''-'' \<in> set t \<and> (CHR '';'' \<notin> set t \<or> dash < semi) then c_atoi ovf (drop (dash + 1) t) else rtp + 1))"

definition wants_backchannel :: "string \<Rightarrow> bool" where
  "wants_backchannel require_header = contains ''www.onvif.org/ver20/backchannel'' (map lower require_header)"

definition interleaved_frame :: "byte \<Rightarrow> byte list \<Rightarrow> byte list" where
  "interleaved_frame ch data = [0x24, ch, of_nat (length data div 256), of_nat (length data mod 256)] @ data"

text \<open>
  What a client sends between its requests arrives frame by frame, however the socket cuts it: a complete frame is taken off the buffer with its channel and data and nothing else, any
  part of one waits for more, and a buffer that waits is never longer than the largest frame. A frame that announces more is refused after its four bytes of header.
\<close>

theorem interleaved_framing:
  assumes "length data \<le> kMaxInterleaved"
  shows "take_interleaved (interleaved_frame ch data @ rest) = Frame ch data rest \<and>
    (\<forall>n\<in>{1..<length (interleaved_frame ch data)}. take_interleaved (take n (interleaved_frame ch data)) = Partial) \<and>
    (take_interleaved buf = Partial \<longrightarrow> length buf < 4 + kMaxInterleaved) \<and>
    (\<forall>h l. kMaxInterleaved < unat h * 256 + unat l \<longrightarrow> take_interleaved ([0x24, ch, h, l] @ rest) = TooLarge)"
proof (intro conjI ballI allI impI)
  have "length data < 2 ^ 16" using assms by (simp add: kMaxInterleaved_def)
  then have len: "unat (of_nat (length data div 256) :: byte) * 256 + unat (of_nat (length data mod 256) :: byte) = length data"
    by (simp add: unat_of_nat less_mult_imp_div_less)
  have drop4: "drop (4 + n) (u # v # w # x # xs) = drop n xs" for n u v w x and xs :: "byte list" by (simp add: numeral_eq_Suc)
  show "take_interleaved (interleaved_frame ch data @ rest) = Frame ch data rest"
    using len assms by (simp add: take_interleaved_def interleaved_frame_def Let_def drop4)
  show "take_interleaved buf = Partial \<Longrightarrow> length buf < 4 + kMaxInterleaved"
    by (auto simp: take_interleaved_def Let_def kMaxInterleaved_def split: if_splits)
  show "kMaxInterleaved < unat h * 256 + unat l \<Longrightarrow> take_interleaved ([0x24, ch, h, l] @ rest) = TooLarge" for h l
    by (simp add: take_interleaved_def Let_def)
  fix n assume n: "n \<in> {1..<length (interleaved_frame ch data)}"
  show "take_interleaved (take n (interleaved_frame ch data)) = Partial"
  proof (cases "n < 4")
    case True
    with n have "n = 1 \<or> n = 2 \<or> n = 3" by auto
    then show ?thesis by (auto simp: take_interleaved_def interleaved_frame_def)
  next
    case False
    then obtain k where k: "n = 4 + k" using nat_le_iff_add [of 4 n] by auto
    have t: "take (4 + k) (u # v # w # x # xs) = u # v # w # x # take k xs" for u v w x and xs :: "byte list" by (simp add: numeral_eq_Suc)
    show ?thesis using n len assms by (simp add: k take_interleaved_def interleaved_frame_def Let_def t)
  qed
qed

theorem interleaved_framing_witness:
  "take_interleaved (interleaved_frame 2 [1, 2, 3] @ [0x24]) = Frame 2 [1, 2, 3] [0x24]"
  using interleaved_framing [of "[1, 2, 3]" 2 "[0x24]"] by (simp add: kMaxInterleaved_def)

end
