(* ===== verification/Websocket.thy ===== *)
theory Websocket
  imports Base64
begin

text \<open>
  The web socket layer (\<^verbatim>\<open>app/http/websocket.cpp\<close>): the handshake token with its SHA-1, and frames. Shown: the hash loop, which pads while it reads, is the hash of
  the padded message; and a masked client frame is recognised exactly when all of it is there.
\<close>

unbundle bit_operations_syntax

section \<open>SHA-1\<close>

definition sha1_init :: "u32 list" where
  "sha1_init = [0x67452301, 0xEFCDAB89, 0x98BADCFE, 0x10325476, 0xC3D2E1F0]"

definition be64 :: "u64 \<Rightarrow> byte list" where
  "be64 x = map (\<lambda>i. ucast (drop_bit (56 - 8 * i) x)) [0..<8]"

text \<open>One block: what is copied and padded into it, the new offset, whether the end mark has been set, and whether the length has.\<close>

definition sha1_block :: "byte list \<Rightarrow> nat \<Rightarrow> bool \<Rightarrow> byte list \<times> nat \<times> bool \<times> bool" where
  "sha1_block data off appended =
     (let n = (if off < length data then min (length data - off) 64 else 0);
          block = take n (drop off data)
      in if n < 64
         then let block = (if \<not> appended then block @ [0x80] else block)
              in if length block \<le> 56
                 then (block @ replicate (56 - length block) 0 @ be64 (word_of_nat (length data) * 8), off + n, True, True)
                 else (block @ replicate (64 - length block) 0, off + n, True, False)
         else (block, off + n, appended, False))"

definition rotl :: "nat \<Rightarrow> u32 \<Rightarrow> u32" where
  "rotl n v = push_bit n v OR drop_bit (32 - n) v"

definition block_word :: "byte list \<Rightarrow> nat \<Rightarrow> u32" where
  "block_word b i = push_bit 24 (ucast (b ! (i * 4))) OR push_bit 16 (ucast (b ! (i * 4 + 1))) OR push_bit 8 (ucast (b ! (i * 4 + 2)))
     OR ucast (b ! (i * 4 + 3))"

definition schedule :: "byte list \<Rightarrow> u32 list" where
  "schedule b = foldl (\<lambda>w i. w @ [rotl 1 (w ! (i - 3) XOR w ! (i - 8) XOR w ! (i - 14) XOR w ! (i - 16))]) (map (block_word b) [0..<16]) [16..<80]"

definition round_fk :: "nat \<Rightarrow> u32 \<Rightarrow> u32 \<Rightarrow> u32 \<Rightarrow> u32 \<times> u32" where
  "round_fk i b c d =
     (if i < 20 then (b AND c OR NOT b AND d, 0x5A827999)
      else if i < 40 then (b XOR c XOR d, 0x6ED9EBA1)
      else if i < 60 then (b AND c OR b AND d OR c AND d, 0x8F1BBCDC)
      else (b XOR c XOR d, 0xCA62C1D6))"

definition sha1_round :: "u32 list \<Rightarrow> u32 \<times> u32 \<times> u32 \<times> u32 \<times> u32 \<Rightarrow> nat \<Rightarrow> u32 \<times> u32 \<times> u32 \<times> u32 \<times> u32" where
  "sha1_round w s i =
     (let (a, b, c, d, e) = s; (f, k) = round_fk i b c d; t = rotl 5 a + f + e + k + w ! i in (t, a, rotl 30 b, c, d))"

definition compress :: "u32 list \<Rightarrow> byte list \<Rightarrow> u32 list" where
  "compress h block =
     (let (a, b, c, d, e) = foldl (sha1_round (schedule block)) (h ! 0, h ! 1, h ! 2, h ! 3, h ! 4) [0..<80]
      in [h ! 0 + a, h ! 1 + b, h ! 2 + c, h ! 3 + d, h ! 4 + e])"

function sha1_loop :: "byte list \<Rightarrow> nat \<Rightarrow> bool \<Rightarrow> u32 list \<Rightarrow> u32 list" where
  "sha1_loop data off appended h =
     (let r = sha1_block data off appended; h = compress h (fst r)
      in if snd (snd (snd r)) then h else sha1_loop data (fst (snd r)) (fst (snd (snd r))) h)"
  by pat_completeness auto
termination
  by (relation "measure (\<lambda>(data, off, appended, h). (length data - off) * 2 + of_bool (\<not> appended))")
     (auto simp: sha1_block_def Let_def split: if_splits)

declare sha1_loop.simps [simp del]

definition sha1 :: "byte list \<Rightarrow> byte list" where
  "sha1 data = concat (map (\<lambda>x. map (\<lambda>j. ucast (drop_bit (24 - 8 * j) x)) [0..<4]) (sha1_loop data 0 False sha1_init))"

definition text_bytes :: "string \<Rightarrow> byte list" where
  "text_bytes s = map (\<lambda>c. word_of_nat (of_char c)) s"

definition accept_key :: "string \<Rightarrow> string" where
  "accept_key key = base64 (sha1 (text_bytes (key @ ''258EAFA5-E914-47DA-95CA-C5AB0DC85B11'')))"

definition crlf :: string where
  "crlf = [CHR 0x0D, CHR 0x0A]"

definition handshake_response :: "string \<Rightarrow> string" where
  "handshake_response key = ''HTTP/1.1 101 Switching Protocols'' @ crlf @ ''Upgrade: websocket'' @ crlf @ ''Connection: Upgrade'' @ crlf
     @ ''Sec-WebSocket-Accept: '' @ accept_key key @ crlf @ crlf"

section \<open>Frames\<close>

text \<open>The length, with the mask bit in the first byte; the server sends it without.\<close>

definition frame_length :: "byte \<Rightarrow> nat \<Rightarrow> byte list" where
  "frame_length mask_bit len =
     (if len < 126 then [mask_bit OR word_of_nat len]
      else if len < 65536 then [mask_bit OR 126, ucast (drop_bit 8 (word_of_nat len :: u64)), ucast (word_of_nat len :: u64)]
      else (mask_bit OR 127) # be64 (word_of_nat len))"

definition frame_with :: "byte \<Rightarrow> byte list \<Rightarrow> byte list" where
  "frame_with opcode payload = (0x80 OR opcode) # frame_length 0 (length payload) @ payload"

definition ws_frame :: "bool \<Rightarrow> byte list \<Rightarrow> byte list" where
  "ws_frame txt payload = frame_with (if txt then 1 else 2) payload"

definition pong_frame :: "byte list \<Rightarrow> byte list" where
  "pong_frame p = frame_with 10 p"

definition ping_frame :: "byte list \<Rightarrow> byte list" where
  "ping_frame p = frame_with 9 p"

datatype ws_parse = Incomplete | Bad | Parsed nat byte "byte list"

text \<open>The length field: how long the header is and the length it announces, if it is there.\<close>

definition parse_length :: "byte list \<Rightarrow> (nat \<times> nat) option" where
  "parse_length s =
     (let l = s ! 1 AND 0x7f
      in if l = 126 then (if length s < 4 then None else Some (4, unat (push_bit 8 (ucast (s ! 2) :: u64) OR ucast (s ! 3))))
         else if l = 127
         then (if length s < 10 then None
               else Some (10, unat (foldl (\<lambda>a i. push_bit 8 a OR ucast (s ! (2 + i))) (0 :: u64) [0..<8])))
         else Some (2, unat l))"

definition unmask :: "byte list \<Rightarrow> byte list \<Rightarrow> byte list" where
  "unmask key s = map (\<lambda>i. s ! i XOR key ! (i mod 4)) [0..<length s]"

definition parse_frame :: "byte list \<Rightarrow> nat \<Rightarrow> ws_parse" where
  "parse_frame s max_payload =
     (if length s < 2 then Incomplete
      else if s ! 0 AND 0x80 = 0 then Bad
      else if s ! 0 AND 0x70 \<noteq> 0 then Bad
      else if s ! 1 AND 0x80 = 0 then Bad
      else
        case parse_length s of
          None \<Rightarrow> Incomplete
        | Some (p, len) \<Rightarrow>
            if max_payload < len then Bad
            else if length s < p + 4 + len then Incomplete
            else Parsed (p + 4 + len) (s ! 0 AND 0x0f) (unmask (take 4 (drop p s)) (take len (drop (p + 4) s))))"

section \<open>The padded message\<close>

text \<open>The message with its padding, and the blocks of a message.\<close>

definition padding :: "nat \<Rightarrow> byte list" where
  "padding len = 0x80 # replicate (if len mod 64 < 56 then 55 - len mod 64 else 119 - len mod 64) 0 @ be64 (word_of_nat len * 8)"

function blocks :: "byte list \<Rightarrow> byte list list" where
  "blocks m = (if m = [] then [] else take 64 m # blocks (drop 64 m))"
  by pat_completeness auto
termination by (relation "measure length") auto

declare blocks.simps [simp del]

lemma length_be64 [simp]: "length (be64 x) = 8"
  by (simp add: be64_def)

lemma blocks_exact: "length b = 64 \<Longrightarrow> blocks (b @ m) = b # blocks m"
  by (subst blocks.simps) auto

lemma blocks_Nil [simp]: "blocks [] = []"
  by (simp add: blocks.simps)

lemma sha1_last_block:
  assumes "length (drop off data) < 64" "off mod 64 = 0" "off \<le> length data"
  shows "sha1_loop data off False h = foldl compress h (blocks (drop off data @ padding (length data)))"
proof -
  define r where "r = drop off data"
  define len where "len = be64 (word_of_nat (length data) * 8)"
  obtain k where "off = 64 * k" using assms(2) by (auto elim: dvdE simp: mod_eq_0_iff_dvd)
  moreover have "length data = length r + off" using assms(3) by (simp add: r_def)
  moreover have l: "length r < 64" using assms(1) by (simp add: r_def)
  ultimately have r: "length r < 64" "length data - off = length r" "length data mod 64 = length r" by simp_all
  have n: "(if off < length data then min (length data - off) 64 else 0) = length r" using r assms(3) by auto
  have t: "take (length r) (drop off data) = r" by (simp add: r_def)
  show ?thesis
  proof (cases "length r < 56")
    case True
    have b: "sha1_block data off False = (r @ 0x80 # replicate (55 - length r) 0 @ len, off + length r, True, True)"
      unfolding sha1_block_def n t Let_def using True by (simp add: len_def)
    have "blocks (r @ padding (length data)) = [r @ 0x80 # replicate (55 - length r) 0 @ len]"
      using blocks_exact [of "r @ 0x80 # replicate (55 - length r) 0 @ len" "[]"] True by (simp add: padding_def r(3) len_def)
    with b show ?thesis by (simp add: sha1_loop.simps [of data off] r_def)
  next
    case False
    have b: "sha1_block data off False = (r @ 0x80 # replicate (63 - length r) 0, length data, True, False)"
      unfolding sha1_block_def n t Let_def using False r assms(3) by simp
    have c: "sha1_block data (length data) True = (replicate 56 0 @ len, length data, True, True)"
      by (simp add: sha1_block_def len_def)
    have "padding (length data) = (0x80 # replicate (63 - length r) 0) @ replicate 56 0 @ len"
    proof -
      have "119 - length r = (63 - length r) + 56" using r(1) by simp
      then have "replicate (119 - length r) (0 :: byte) = replicate (63 - length r) 0 @ replicate 56 0" by (simp only: replicate_add)
      then show ?thesis using False by (simp add: padding_def r(3) len_def)
    qed
    then have "blocks (r @ padding (length data)) = [r @ 0x80 # replicate (63 - length r) 0, replicate 56 0 @ len]"
      using blocks_exact [of "r @ 0x80 # replicate (63 - length r) 0" "replicate 56 0 @ len"] blocks_exact [of "replicate 56 0 @ len" "[]"] False r(1)
      by (simp add: len_def)
    with b c show ?thesis by (simp add: sha1_loop.simps [of data off] sha1_loop.simps [of data "length data"] r_def)
  qed
qed

lemma sha1_loop_blocks:
  "off mod 64 = 0 \<Longrightarrow> off \<le> length data \<Longrightarrow> sha1_loop data off False h = foldl compress h (blocks (drop off data @ padding (length data)))"
proof (induction "length data - off" arbitrary: off h rule: less_induct)
  case less
  show ?case
  proof (cases "length (drop off data) < 64")
    case True
    show ?thesis using sha1_last_block [OF True less.prems] .
  next
    case False
    then have b: "sha1_block data off False = (take 64 (drop off data), off + 64, False, False)"
      by (simp add: sha1_block_def Let_def)
    have "drop off data = take 64 (drop off data) @ drop (off + 64) data" by (metis append_take_drop_id drop_drop add.commute)
    moreover have "blocks (take 64 (drop off data) @ drop (off + 64) data @ padding (length data)) = take 64 (drop off data) # blocks (drop (off + 64) data @ padding (length data))"
      using False by (intro blocks_exact) simp
    ultimately have "blocks (drop off data @ padding (length data)) = take 64 (drop off data) # blocks (drop (off + 64) data @ padding (length data))"
      by (metis append_assoc)
    moreover have "sha1_loop data (off + 64) False (compress h (take 64 (drop off data)))
      = foldl compress (compress h (take 64 (drop off data))) (blocks (drop (off + 64) data @ padding (length data)))"
      using less.prems False by (intro less.hyps) auto
    ultimately show ?thesis using b by (simp add: sha1_loop.simps [of data off])
  qed
qed

section \<open>Frames are read back\<close>

lemma push_or_byte: "push_bit 8 (drop_bit 8 x) OR ucast (ucast x :: byte) = x" for x :: u64
  by (rule bit_eqI) (auto simp: bit_simps)

text \<open>A client's frame: like the server's, with the mask bit set and the payload masked.\<close>

definition client_frame :: "byte \<Rightarrow> byte list \<Rightarrow> byte list \<Rightarrow> byte list" where
  "client_frame opcode key payload = (0x80 OR opcode) # frame_length 0x80 (length payload) @ key @ unmask key payload"

lemma be64_read: "foldl (\<lambda>a i. push_bit 8 a OR ucast (be64 x ! i)) (0 :: u64) [0..<8] = x"
proof -
  have step: "push_bit 8 (drop_bit (n + 8) x) OR ucast (ucast (drop_bit n x) :: byte) = drop_bit n x" for n
    using push_or_byte [of "drop_bit n x"] by (simp add: add.commute)
  have top: "drop_bit 64 x = 0" by (rule bit_eqI) (auto simp: bit_simps dest: bit_imp_le_length)
  have u: "[0..<8] = [0, 1, 2, 3, 4, 5, 6, 7 :: nat]" by (simp add: upt_rec)
  show ?thesis unfolding u
    using step [of 56] step [of 48] step [of 40] step [of 32] step [of 24] step [of 16] step [of 8] step [of 0] top
    by (simp add: be64_def upt_rec)
qed

lemma unmask_unmask: "unmask key (unmask key s) = s"
  by (rule nth_equalityI) (simp_all add: unmask_def xor.assoc)

lemma length_unmask [simp]: "length (unmask key s) = length s"
  by (simp add: unmask_def)

lemma opcode_bits:
  fixes op :: byte assumes "op < 16"
  shows "(0x80 OR op) AND 0x80 \<noteq> 0" "(0x80 OR op) AND 0x70 = 0" "(0x80 OR op) AND 0x0f = op"
proof -
  have "unat op < 16" using assms by (simp add: word_less_nat_alt)
  then have "unat op = 0 \<or> unat op = 1 \<or> unat op = 2 \<or> unat op = 3 \<or> unat op = 4 \<or> unat op = 5 \<or> unat op = 6 \<or> unat op = 7
    \<or> unat op = 8 \<or> unat op = 9 \<or> unat op = 10 \<or> unat op = 11 \<or> unat op = 12 \<or> unat op = 13 \<or> unat op = 14 \<or> unat op = 15" by arith
  moreover have "op = word_of_nat k" if "unat op = k" for k using that by auto
  ultimately have "op \<in> {0, 1, 2, 3, 4, 5, 6, 7, 8, 9, 10, 11, 12, 13, 14, 15}" by fastforce
  then show "(0x80 OR op) AND 0x80 \<noteq> 0" "(0x80 OR op) AND 0x70 = 0" "(0x80 OR op) AND 0x0f = op" by auto
qed

lemma length_bits:
  fixes n :: nat assumes "n < 128"
  shows "(0x80 OR word_of_nat n) AND 0x80 \<noteq> (0 :: byte)" "(0x80 OR word_of_nat n) AND 0x7f = (word_of_nat n :: byte)" "unat (word_of_nat n :: byte) = n"
proof -
  have b: "bit ((0x80 OR word_of_nat n) AND 0x80 :: byte) 7" by (simp add: bit_simps)
  then show "(0x80 OR word_of_nat n) AND 0x80 \<noteq> (0 :: byte)" by auto
  show n: "unat (word_of_nat n :: byte) = n" using assms by (simp add: unat_of_nat)
  have t: "take_bit 7 (word_of_nat n :: byte) = word_of_nat n"
    using assms by (simp add: take_bit_of_nat take_bit_nat_eq_self)
  have m: "x AND 0x7f = take_bit 7 x" for x :: byte by (simp add: take_bit_eq_mask mask_eq_exp_minus_1)
  show "(0x80 OR word_of_nat n) AND 0x7f = (word_of_nat n :: byte)" unfolding m by (simp add: take_bit_or t)
qed

lemma small_read:
  assumes "len < 65536"
  shows "push_bit 8 (ucast (ucast (drop_bit 8 (word_of_nat len :: u64)) :: byte)) OR ucast (ucast (word_of_nat len :: u64) :: byte) = (word_of_nat len :: u64)"
proof -
  have "take_bit 16 len = len" using assms by (simp add: take_bit_nat_eq_self)
  then have h: "bit len k \<Longrightarrow> k < 16" for k by (metis bit_take_bit_iff)
  show ?thesis by (rule bit_eqI) (auto simp: bit_simps less_diff_conv2 dest: h)
qed

lemma parse_length_take:
  assumes "fl = frame_length 0x80 len" "s = b # fl @ rest" "2 \<le> n" "len < 2 ^ 64"
  shows "parse_length (take n s) = (if n < 1 + length fl then None else Some (1 + length fl, len))"
proof -
  have second: "take n s ! 1 = hd fl" using assms(1-3) by (cases fl) (auto simp: frame_length_def split: if_splits)
  consider "len < 126" | "126 \<le> len" "len < 65536" | "65536 \<le> len" by linarith
  then show ?thesis
  proof cases
    case 1
    then have f: "fl = [0x80 OR word_of_nat len]" by (simp add: assms(1) frame_length_def)
    have "word_of_nat len \<noteq> (126 :: byte)" "word_of_nat len \<noteq> (127 :: byte)"
      using 1 length_bits(3) [of len] by auto
    then show ?thesis using 1 assms(3) length_bits [of len] unfolding parse_length_def second by (simp add: f Let_def)
  next
    case 2
    let ?x = "word_of_nat len :: u64"
    have f: "fl = [0x80 OR 126, ucast (drop_bit 8 ?x), ucast ?x]" using 2 by (simp add: assms(1) frame_length_def)
    have hd: "hd fl AND 0x7f = 126" by (simp add: f)
    have "take n s ! 2 = ucast (drop_bit 8 ?x)" "take n s ! 3 = ucast ?x" if "4 \<le> n" using that by (simp_all add: assms(2) f)
    moreover have "length (take n s) < 4 \<longleftrightarrow> n < 4" by (auto simp: assms(2) f min_def)
    moreover have "unat ?x = len" using 2 by (simp add: unat_of_nat)
    ultimately show ?thesis unfolding parse_length_def second hd using small_read [OF 2(2)] by (simp add: f Let_def)
  next
    case 3
    let ?x = "word_of_nat len :: u64"
    have f: "fl = (0x80 OR 127) # be64 ?x" using 3 by (simp add: assms(1) frame_length_def)
    have hd: "hd fl AND 0x7f = 127" by (simp add: f)
    have at: "take n s ! (2 + i) = be64 ?x ! i" if "10 \<le> n" "i < 8" for i using that by (simp add: assms(2) f nth_append)
    have "foldl (\<lambda>a i. push_bit 8 a OR ucast (take n s ! (2 + i))) (0 :: u64) [0..<8] = ?x" if "10 \<le> n"
    proof -
      have "foldl (\<lambda>a i. push_bit 8 a OR ucast (take n s ! (2 + i))) (0 :: u64) [0..<8] = foldl (\<lambda>a i. push_bit 8 a OR ucast (be64 ?x ! i)) 0 [0..<8]"
        by (rule foldl_cong) (auto simp: at [OF that] simp del: nth_take add_2_eq_Suc)
      then show ?thesis by (simp add: be64_read)
    qed
    moreover have "length (take n s) < 10 \<longleftrightarrow> n < 10" by (auto simp: assms(2) f min_def)
    moreover have "unat ?x = len" using assms(4) by (simp add: unat_of_nat)
    ultimately show ?thesis unfolding parse_length_def second hd by (simp add: f Let_def)
  qed
qed

section \<open>Properties\<close>

text \<open>C38: A frame is recognised exactly when it is complete. Of a masked frame with any opcode, mask and payload within the limit, followed by anything, every
  part that is too short is reported as incomplete, and everything else gives its opcode, its payload unmasked, and its length as consumed.\<close>

theorem frame_recognised_when_complete:
  assumes "op < 16" "length key = 4" "length payload \<le> max_payload" "length payload < 2 ^ 64"
  shows "parse_frame (take n (client_frame op key payload @ rest)) max_payload =
    (if n < length (client_frame op key payload) then Incomplete else Parsed (length (client_frame op key payload)) op payload)"
proof (cases "n < 2")
  case True
  have "2 \<le> length (client_frame op key payload)" by (simp add: client_frame_def assms(2))
  with True show ?thesis by (simp add: parse_frame_def)
next
  case False
  define fl where "fl = frame_length 0x80 (length payload)"
  define s where "s = client_frame op key payload @ rest"
  have s: "s = (0x80 OR op) # fl @ key @ unmask key payload @ rest" by (simp add: s_def client_frame_def fl_def)
  have fl: "fl \<noteq> []" "hd fl AND 0x80 \<noteq> 0" using length_bits(1) [of "length payload"] by (auto simp: fl_def frame_length_def)
  have b: "take n s ! 0 = 0x80 OR op" "take n s ! 1 = hd fl" "\<not> length (take n s) < 2"
    using False fl(1) by (cases fl; simp add: s min_def)+
  have len: "length (client_frame op key payload) = 1 + length fl + 4 + length payload" by (simp add: client_frame_def fl_def assms(2))
  have p: "parse_length (take n s) = (if n < 1 + length fl then None else Some (1 + length fl, length payload))"
    using parse_length_take [OF fl_def, of s "0x80 OR op" "key @ unmask key payload @ rest" n] False assms(4) by (simp add: s)
  show ?thesis
  proof (cases "n < length (client_frame op key payload)")
    case True
    have "length (take n s) = n" using True by (simp add: s_def)
    then show ?thesis
      using b p opcode_bits [OF assms(1)] fl(2) assms(3) True unfolding s_def [symmetric] parse_frame_def len by auto
  next
    case False
    then have t: "take n s = (0x80 OR op) # fl @ key @ unmask key payload @ take (n - length (client_frame op key payload)) rest"
      by (simp add: s_def) (simp add: client_frame_def fl_def)
    have "take 4 (drop (1 + length fl) (take n s)) = key" "take (length payload) (drop (1 + length fl + 4) (take n s)) = unmask key payload"
      by (simp_all add: t assms(2) drop_Cons')
    moreover have "\<not> length (take n s) < 1 + length fl + 4 + length payload" "\<not> n < 1 + length fl" using False len by (simp_all add: t assms(2))
    ultimately show ?thesis
      using b p opcode_bits [OF assms(1)] fl(2) assms(3) False unfolding s_def [symmetric] parse_frame_def len by (simp add: unmask_unmask)
  qed
qed

theorem frame_recognised_when_complete_witness:
  "parse_frame (take 9 (client_frame 1 [1, 2, 3, 4] [65, 66, 67] @ [0x81])) 4096 = Parsed 9 1 [65, 66, 67]
   \<and> parse_frame (take 8 (client_frame 1 [1, 2, 3, 4] [65, 66, 67] @ [0x81])) 4096 = Incomplete"
proof -
  have "length (client_frame 1 [1, 2, 3, 4] [65, 66, 67]) = 9" by (simp add: client_frame_def frame_length_def)
  with frame_recognised_when_complete [of 1 "[1, 2, 3, 4]" "[65, 66, 67]" 4096 9 "[0x81]"]
    frame_recognised_when_complete [of 1 "[1, 2, 3, 4]" "[65, 66, 67]" 4096 8 "[0x81]"] show ?thesis by simp
qed

text \<open>The hash loop hashes the padded message. Padding while reading, in one block or in two, gives for every length the same as padding the message first
  and hashing its blocks in turn.\<close>

theorem sha1_is_hash_of_padded:
  "sha1_loop data 0 False h = foldl compress h (blocks (data @ padding (length data))) \<and> length (data @ padding (length data)) mod 64 = 0"
proof -
  have "length (data @ padding (length data)) mod 64 = 0"
  proof -
    define q where "q = length data div 64"
    define r where "r = length data mod 64"
    have "length data = q * 64 + r" "r < 64" by (simp_all add: q_def r_def)
    then show ?thesis by (auto simp: padding_def r_def [symmetric])
  qed
  with sha1_loop_blocks [of 0 data h] show ?thesis by simp
qed

end
