(* ===== verification/Fmp4.thy ===== *)
theory Fmp4
  imports Rtp Websocket
begin

text \<open>
  Fragmented MP4 (\<^verbatim>\<open>app/http/fmp4.cpp\<close>): the boxes of the init segment and of a fragment, the still picture, the conversion of an access unit, and the decode
  timeline of a viewer. The muxer writes a box by leaving room for its size and patching it when the box is complete; so do the definitions, which
  take the buffer so far and return it grown.
\<close>

unbundle bit_operations_syntax

section \<open>Boxes\<close>

type_synonym emitter = "byte list \<Rightarrow> byte list"

definition emit :: "byte list \<Rightarrow> emitter" where
  "emit xs b = b @ xs"

definition zeros :: "nat \<Rightarrow> emitter" where
  "zeros n b = b @ replicate n 0"

definition tag :: "string \<Rightarrow> emitter" where
  "tag t b = b @ text_bytes t"

definition e16 :: "u16 \<Rightarrow> emitter" where
  "e16 v b = b @ be16 v"

definition e32 :: "u32 \<Rightarrow> emitter" where
  "e32 v b = b @ be32 v"

definition e64 :: "u64 \<Rightarrow> emitter" where
  "e64 v b = b @ be64 v"

text \<open>Statement after statement.\<close>

definition run_all :: "emitter list \<Rightarrow> emitter" where
  "run_all fs b = fold (\<lambda>f b. f b) fs b"

definition patch32 :: "nat \<Rightarrow> u32 \<Rightarrow> emitter" where
  "patch32 at v b = take at b @ be32 v @ drop (at + 4) b"

definition open_box :: "string \<Rightarrow> emitter" where
  "open_box t b = tag t (e32 0 b)"

definition close_box :: "nat \<Rightarrow> emitter" where
  "close_box at b = patch32 at (word_of_nat (length b - at)) b"

definition full_head :: "byte \<Rightarrow> u32 \<Rightarrow> emitter" where
  "full_head version flags b = b @ [version, ucast (drop_bit 16 flags), ucast (drop_bit 8 flags), ucast flags]"

definition open_full :: "string \<Rightarrow> byte \<Rightarrow> u32 \<Rightarrow> emitter" where
  "open_full t version flags b = full_head version flags (open_box t b)"

text \<open>A box whose content is written between its opening and its closing.\<close>

definition in_box :: "string \<Rightarrow> emitter list \<Rightarrow> emitter" where
  "in_box t fs b = close_box (length b) (run_all fs (open_box t b))"

definition in_full :: "string \<Rightarrow> byte \<Rightarrow> u32 \<Rightarrow> emitter list \<Rightarrow> emitter" where
  "in_full t version flags fs b = close_box (length b) (run_all fs (open_full t version flags b))"

section \<open>Access units\<close>

definition hex2 :: "byte \<Rightarrow> string" where
  "hex2 x = [''0123456789abcdef'' ! unat (drop_bit 4 x), ''0123456789abcdef'' ! unat (x AND 0x0f)]"

definition codec_string :: "byte list \<Rightarrow> string" where
  "codec_string sps = (if length sps < 4 then ''avc1.42e01e'' else ''avc1.'' @ hex2 (sps ! 1) @ hex2 (sps ! 2) @ hex2 (sps ! 3))"

definition annexb_to_avcc :: "byte list \<Rightarrow> byte list" where
  "annexb_to_avcc d =
     fold (\<lambda>u out. if nal_type u = 7 \<or> nal_type u = 8 \<or> nal_type u = 9 then out else emit (nal_bytes d u) (e32 (word_of_nat (nal_len u)) out))
       (split_nals d 64) []"

section \<open>The init segment\<close>

datatype audio_codec = NoAudio | Aac | Opus

record audio_track =
  at_codec :: audio_codec
  at_track_id :: u32
  at_sample_rate :: u32
  at_channels :: u32
  at_asc :: "byte list"
  at_pre_skip :: u16

definition at_timescale :: "audio_track \<Rightarrow> u32" where
  "at_timescale a = (if at_codec a = Opus then 48000 else at_sample_rate a)"

definition desc :: "byte \<Rightarrow> nat \<Rightarrow> emitter" where
  "desc tagv len = emit [tagv, word_of_nat len]"

definition ftyp_box :: emitter where
  "ftyp_box = in_box ''ftyp'' [tag ''iso5'', e32 1, tag ''iso5'', tag ''iso6'', tag ''mp41'']"

definition unity :: "u32 list" where
  "unity = [0x00010000, 0, 0, 0, 0x00010000, 0, 0, 0, 0x40000000]"

definition mvhd_box :: "u32 \<Rightarrow> u32 \<Rightarrow> emitter" where
  "mvhd_box timescale next_track =
     in_full ''mvhd'' 0 0 ([e32 0, e32 0, e32 timescale, e32 0, e32 0x00010000, e16 0x0100, zeros (2 + 8)] @ map e32 unity @ [zeros (6 * 4), e32 next_track])"

definition dinf_box :: emitter where
  "dinf_box = in_box ''dinf'' [in_full ''dref'' 0 0 [e32 1, in_full ''url '' 0 1 []]]"

definition empty_tables :: "emitter list" where
  "empty_tables = map (\<lambda>t. in_full t 0 0 (if t = ''stsz'' then [e32 0, e32 0] else [e32 0])) [''stts'', ''stsc'', ''stsz'', ''stco'']"

definition audio_entry :: "audio_track \<Rightarrow> emitter" where
  "audio_entry a =
     in_box (if at_codec a = Opus then ''Opus'' else ''mp4a'')
       ([zeros 6, e16 1, zeros 8, e16 (ucast (at_channels a)), e16 16, e16 0, e16 0,
         e32 (push_bit 16 (if at_codec a = Opus then 48000 else at_sample_rate a))]
        @ (if at_codec a = Opus
           then [in_box ''dOps'' [emit [0], emit [ucast (at_channels a)], e16 (at_pre_skip a), e32 (at_sample_rate a), e16 0, emit [0]]]
           else let dsi = length (at_asc a); dcd = 13 + 2 + dsi; esd = 3 + 2 + dcd + 2 + 1
                in [in_full ''esds'' 0 0
                      [desc 0x03 esd, e16 0, emit [0], desc 0x04 dcd, emit [0x40], emit [0x15], emit [0], e16 0, e32 0, e32 0,
                       desc 0x05 dsi, emit (at_asc a), desc 0x06 1, emit [0x02]]]))"

definition audio_trak :: "audio_track \<Rightarrow> emitter" where
  "audio_trak a =
     in_box ''trak''
       [in_full ''tkhd'' 0 3 ([e32 0, e32 0, e32 (at_track_id a), e32 0, e32 0, zeros 8, e16 0, e16 1, e16 0x0100, e16 0] @ map e32 unity @ [e32 0, e32 0]),
        in_box ''mdia''
          [in_full ''mdhd'' 0 0 [e32 0, e32 0, e32 (at_timescale a), e32 0, e16 0x55c4, e16 0],
           in_full ''hdlr'' 0 0 [e32 0, tag ''soun'', zeros 12, emit (text_bytes ''MachinoAudio'' @ [0])],
           in_box ''minf''
             [in_full ''smhd'' 0 0 [e16 0, e16 0],
              dinf_box,
              in_box ''stbl'' (in_full ''stsd'' 0 0 [e32 1, audio_entry a] # empty_tables)]]]"

definition trex_box :: "u32 \<Rightarrow> emitter" where
  "trex_box track_id = in_full ''trex'' 0 0 [e32 track_id, e32 1, e32 0, e32 0, e32 0]"

definition audio_init_segment :: "audio_track \<Rightarrow> byte list" where
  "audio_init_segment a =
     run_all [ftyp_box, in_box ''moov'' [mvhd_box (at_timescale a) (at_track_id a + 1), audio_trak a, in_box ''mvex'' [trex_box (at_track_id a)]]] []"

text \<open>The decoder configuration, with the parameter sets.\<close>

definition avcc_fields :: "byte list \<Rightarrow> byte list \<Rightarrow> emitter list" where
  "avcc_fields sps pps =
     [emit [1], emit [if 3 < length sps then sps ! 1 else 0x42], emit [if 3 < length sps then sps ! 2 else 0xe0], emit [if 3 < length sps then sps ! 3 else 0x1e],
      emit [0xff], emit [0xe1], e16 (word_of_nat (length sps)), emit sps, emit [1], e16 (word_of_nat (length pps)), emit pps]"

definition avc1_box :: "byte list \<Rightarrow> byte list \<Rightarrow> int \<Rightarrow> int \<Rightarrow> emitter" where
  "avc1_box sps pps width height =
     in_box ''avc1''
       [zeros 6, e16 1, zeros 16, e16 (word_of_int width), e16 (word_of_int height), e32 0x00480000, e32 0x00480000, e32 0, e16 1, zeros 32,
        e16 0x0018, e16 0xffff, in_box ''avcC'' (avcc_fields sps pps)]"

definition video_trak :: "byte list \<Rightarrow> byte list \<Rightarrow> int \<Rightarrow> int \<Rightarrow> u32 \<Rightarrow> emitter" where
  "video_trak sps pps width height timescale =
     in_box ''trak''
       [in_full ''tkhd'' 0 3 ([e32 0, e32 0, e32 1, e32 0, e32 0, zeros 8, e16 0, e16 0, e16 0, e16 0] @ map e32 unity
          @ [e32 (push_bit 16 (word_of_int width)), e32 (push_bit 16 (word_of_int height))]),
        in_box ''mdia''
          [in_full ''mdhd'' 0 0 [e32 0, e32 0, e32 timescale, e32 0, e16 0x55c4, e16 0],
           in_full ''hdlr'' 0 0 [e32 0, tag ''vide'', zeros 12, emit (text_bytes ''MachinoVideo'' @ [0])],
           in_box ''minf''
             [in_full ''vmhd'' 0 1 [zeros 8],
              in_box ''dinf'' [in_full ''dref'' 0 0 [e32 1, in_full ''url '' 0 1 []]],
              in_box ''stbl'' (in_full ''stsd'' 0 0 [e32 1, avc1_box sps pps width height] # empty_tables)]]]"

definition init_segment :: "byte list \<Rightarrow> byte list \<Rightarrow> int \<Rightarrow> int \<Rightarrow> u32 \<Rightarrow> audio_track option \<Rightarrow> byte list" where
  "init_segment sps pps width height timescale audio =
     (let audio = (case audio of Some a \<Rightarrow> if at_codec a \<noteq> NoAudio then Some a else None | None \<Rightarrow> None)
      in run_all
        [ftyp_box,
         in_box ''moov''
           ([mvhd_box timescale (case audio of Some a \<Rightarrow> at_track_id a + 1 | None \<Rightarrow> 2), video_trak sps pps width height timescale]
            @ (case audio of Some a \<Rightarrow> [audio_trak a] | None \<Rightarrow> [])
            @ [in_box ''mvex'' (trex_box 1 # (case audio of Some a \<Rightarrow> [trex_box (at_track_id a)] | None \<Rightarrow> []))])] [])"

section \<open>Fragments and stills\<close>

definition prft :: "u32 \<Rightarrow> u64 \<Rightarrow> u64 \<Rightarrow> byte list" where
  "prft track_id ntp media_time = in_full ''prft'' 1 0 [e32 track_id, e64 ntp, e64 media_time] []"

text \<open>The data offset of the sample is patched once the size of the \<^verbatim>\<open>moof\<close> is known.\<close>

definition fragment :: "u32 \<Rightarrow> u64 \<Rightarrow> u32 \<Rightarrow> byte list \<Rightarrow> bool \<Rightarrow> u32 \<Rightarrow> byte list" where
  "fragment seqno decode_time duration sample key track_id =
     (let b = open_box ''moof'' [];
          b = in_full ''mfhd'' 0 0 [e32 seqno] b;
          traf = length b; b = open_box ''traf'' b;
          b = in_full ''tfhd'' 0 0x020000 [e32 track_id] b;
          b = in_full ''tfdt'' 1 0 [e64 decode_time] b;
          trun = length b; b = open_full ''trun'' 0 (0x000001 OR 0x000100 OR 0x000200 OR 0x000400) b;
          b = e32 1 b; offset_at = length b;
          b = run_all [e32 0, e32 duration, e32 (word_of_nat (length sample)), e32 (if key then 0x02000000 else 0x01010000)] b;
          b = close_box trun b; b = close_box traf b;
          b = patch32 offset_at (word_of_nat (length b) + 8) b;
          b = close_box 0 b
      in in_box ''mdat'' [emit sample] b)"

definition heif_avc_still :: "byte list \<Rightarrow> byte list \<Rightarrow> int \<Rightarrow> int \<Rightarrow> byte list \<Rightarrow> byte list" where
  "heif_avc_still sps pps width height sample =
     (let b = in_box ''ftyp'' [tag ''avci'', e32 0, tag ''mif1'', tag ''avci'', tag ''miaf''] [];
          meta = length b; b = open_full ''meta'' 0 0 b;
          b = in_full ''hdlr'' 0 0 [e32 0, tag ''pict'', zeros 12, emit [0]] b;
          b = in_full ''pitm'' 0 0 [e16 1] b;
          iloc = length b; b = run_all [open_full ''iloc'' 0 0, emit [0x44], emit [0], e16 1, e16 1, e16 0, e16 1] b;
          extent_offset_at = length b;
          b = close_box iloc (run_all [e32 0, e32 (word_of_nat (length sample))] b);
          b = in_full ''iinf'' 0 0 [e16 1, in_full ''infe'' 2 0 [e16 1, e16 0, tag ''avc1'', emit [0]]] b;
          prof = (if 1 < length sps then sps ! 1 else 0);
          b = in_box ''iprp''
            [in_box ''ipco''
               [in_box ''avcC'' (avcc_fields sps pps
                  @ (if prof = 100 \<or> prof = 110 \<or> prof = 122 \<or> prof = 144 then [emit [0xfc OR 1], emit [0xf8 OR 0], emit [0xf8 OR 0], emit [0]] else [])),
                in_full ''ispe'' 0 0 [e32 (word_of_int width), e32 (word_of_int height)]],
             in_full ''ipma'' 0 0 [e32 1, e16 1, emit [2], emit [0x81], emit [0x02]]] b;
          b = close_box meta b;
          mdat = length b; b = open_box ''mdat'' b;
          payload_at = length b;
          b = close_box mdat (emit sample b)
      in patch32 extent_offset_at (word_of_nat payload_at) b)"

section \<open>The decode timeline\<close>

text \<open>Times in microseconds are integers; the code's 64 bits hold them for years.\<close>

definition MIN_STEP_US :: int where "MIN_STEP_US = 1000"
definition MAX_STEP_US :: int where "MAX_STEP_US = 1000000"
definition FALLBACK_STEP_US :: int where "FALLBACK_STEP_US = 50000"

record timeline =
  tl_origin_us :: int
  tl_skew_us :: int
  tl_last_us :: int
  tl_started :: bool

definition timeline0 :: timeline where
  "timeline0 = \<lparr>tl_origin_us = 0, tl_skew_us = 0, tl_last_us = 0, tl_started = False\<rparr>"

text \<open>Microseconds to ticks of 90 kHz, rounded.\<close>

definition ticks :: "int \<Rightarrow> int" where
  "ticks us = (us * 90000 + 500000) div 1000000"

definition timeline_next :: "int \<Rightarrow> timeline \<Rightarrow> u64 \<times> u32 \<times> timeline" where
  "timeline_next pts_us t =
     (let d = pts_us - tl_last_us t;
          step_us = (if 0 < tl_last_us t \<and> MIN_STEP_US < d \<and> d < MAX_STEP_US then d else FALLBACK_STEP_US);
          duration = word_of_int (ticks step_us);
          t = (if \<not> tl_started t then t\<lparr>tl_origin_us := pts_us, tl_skew_us := 0, tl_started := True\<rparr>
               else if 0 < tl_last_us t \<and> (d \<le> MIN_STEP_US \<or> MAX_STEP_US \<le> d) then t\<lparr>tl_skew_us := tl_skew_us t + (d - step_us)\<rparr>
               else t);
          t = t\<lparr>tl_last_us := pts_us\<rparr>;
          tl = max 0 (pts_us - tl_origin_us t - tl_skew_us t)
      in (word_of_int (ticks tl), duration, t))"

section \<open>The boxes that are written\<close>

definition appends :: "emitter \<Rightarrow> bool" where
  "appends f \<longleftrightarrow> (\<forall>b. f b = b @ f [])"

lemma appendsD: "appends f \<Longrightarrow> f b = b @ f []"
  unfolding appends_def by blast

lemma appends_basic [simp, intro]:
  "appends (emit xs)" "appends (zeros n)" "appends (tag t)" "appends (e16 u)" "appends (e32 v)" "appends (e64 x)" "appends (full_head k v)" "appends (desc k n)"
  by (simp_all add: appends_def emit_def zeros_def tag_def e16_def e32_def e64_def full_head_def desc_def)

text \<open>What a list of statements writes.\<close>

definition content :: "emitter list \<Rightarrow> byte list" where
  "content fs = concat (map (\<lambda>f. f []) fs)"

lemma content_simps [simp]: "content [] = []" "content (f # fs) = f [] @ content fs" "content (fs @ gs) = content fs @ content gs"
  by (simp_all add: content_def)

lemma run_all_content: "list_all appends fs \<Longrightarrow> run_all fs b = b @ content fs"
proof (induction fs arbitrary: b)
  case (Cons f fs)
  then have "f b = b @ f []" by (intro appendsD) simp
  then have "run_all (f # fs) b = run_all fs (b @ f [])" unfolding run_all_def by (simp only: fold.simps comp_def)
  moreover have "run_all fs (b @ f []) = (b @ f []) @ content fs" using Cons by (intro Cons.IH) simp
  ultimately show ?case by simp
qed (simp add: run_all_def)

definition box :: "string \<Rightarrow> byte list \<Rightarrow> byte list" where
  "box t p = be32 (word_of_nat (8 + length p)) @ text_bytes t @ p"

lemma length_text_bytes [simp]: "length (text_bytes t) = length t"
  by (simp add: text_bytes_def)

lemma close_box_open: "length t = 4 \<Longrightarrow> close_box (length b) (open_box t b @ p) = b @ box t p"
  by (simp add: close_box_def patch32_def open_box_def tag_def e32_def box_def add.commute)

lemma patch32_at: "length a = at \<Longrightarrow> patch32 at v (a @ be32 u @ c) = a @ be32 v @ c"
  by (auto simp: patch32_def)

lemma in_box_content: "length t = 4 \<Longrightarrow> list_all appends fs \<Longrightarrow> in_box t fs b = b @ box t (content fs)"
  by (simp add: in_box_def run_all_content close_box_open)

lemma in_full_content: "length t = 4 \<Longrightarrow> list_all appends fs \<Longrightarrow> in_full t k v fs b = b @ box t (full_head k v [] @ content fs)"
  using close_box_open [of t b "full_head k v [] @ content fs"] appendsD [of "full_head k v" "open_box t b"]
  by (simp add: in_full_def run_all_content open_full_def)

lemma appends_box [simp, intro]: "length t = 4 \<Longrightarrow> list_all appends fs \<Longrightarrow> appends (in_box t fs)" "length t = 4 \<Longrightarrow> list_all appends fs \<Longrightarrow> appends (in_full t k v fs)"
  by (simp_all add: appends_def in_box_content in_full_content)

text \<open>A reader of boxes: sizes and types, until the bytes are used up exactly.\<close>

function boxes :: "byte list \<Rightarrow> (byte list \<times> byte list) list option" where
  "boxes b =
     (if b = [] then Some []
      else if length b < 8 \<or> unat (rd32 b 0) < 8 \<or> length b < unat (rd32 b 0) then None
      else map_option (Cons (take 4 (drop 4 b), take (unat (rd32 b 0) - 8) (drop 8 b))) (boxes (drop (unat (rd32 b 0)) b)))"
  by pat_completeness auto
termination by (relation "measure length") auto

declare boxes.simps [simp del]

lemma boxes_Nil [simp]: "boxes [] = Some []"
  by (simp add: boxes.simps)

lemma boxes_box [simp]:
  assumes "length t = 4" "8 + length p < 2 ^ 32" shows "boxes (box t p @ r) = map_option (Cons (text_bytes t, p)) (boxes r)"
proof -
  have n: "unat (rd32 (box t p @ r) 0) = 8 + length p"
  proof -
    have "unat (word_of_nat (8 + length p) :: u32) = 8 + length p" using assms(2) by (subst unat_of_nat) simp
    then show ?thesis using rd32_be32 [of 0 "[]" "word_of_nat (8 + length p)" "text_bytes t @ p @ r"] by (simp only: box_def append_assoc append_Nil list.size)
  qed
  have l: "length (box t p) = 8 + length p" using assms(1) by (simp add: box_def)
  have "take 4 (drop 4 (box t p @ r)) = text_bytes t" "take (length p) (drop 8 (box t p @ r)) = p" using assms(1) by (simp_all add: box_def)
  moreover have "drop (8 + length p) (box t p @ r) = r" using l by simp
  moreover have "box t p @ r \<noteq> []" using l by auto
  ultimately show ?thesis unfolding boxes.simps [of "box t p @ r"] n using l by simp
qed

lemma boxes_one [simp]: "length t = 4 \<Longrightarrow> 8 + length p < 2 ^ 32 \<Longrightarrow> boxes (box t p) = Some [(text_bytes t, p)]"
  using boxes_box [of t p "[]"] by simp

lemma length_box [simp]: "length t = 4 \<Longrightarrow> length (box t p) = 8 + length p"
  by (simp add: box_def)

section \<open>A fragment\<close>

definition trun_fields :: "u32 \<Rightarrow> u32 \<Rightarrow> u32 \<Rightarrow> u32 \<Rightarrow> byte list" where
  "trun_fields off duration len flags = full_head 0 0x701 [] @ be32 1 @ be32 off @ be32 duration @ be32 len @ be32 flags"

lemma fragment_boxes:
  "fragment seqno dt duration sample key tid =
     box ''moof'' (box ''mfhd'' (full_head 0 0 [] @ be32 seqno)
       @ box ''traf'' (box ''tfhd'' (full_head 0 0x020000 [] @ be32 tid) @ box ''tfdt'' (full_head 1 0 [] @ be64 dt)
           @ box ''trun'' (trun_fields 108 duration (word_of_nat (length sample)) (if key then 0x02000000 else 0x01010000))))
     @ box ''mdat'' sample"
proof -
  let ?fl = "if key then 0x02000000 else 0x01010000 :: u32" and ?len = "word_of_nat (length sample) :: u32"
  define m where "m = open_box ''moof'' [] @ box ''mfhd'' (full_head 0 0 [] @ be32 seqno)"
  define x where "x = box ''tfhd'' (full_head 0 0x020000 [] @ be32 tid) @ box ''tfdt'' (full_head 1 0 [] @ be64 dt)"
  define b where "b = open_box ''traf'' m @ x"
  have l: "length x = 36" "length m = 24" "length b = 68" "length (full_head k v []) = 4" for k v
    by (simp_all add: x_def m_def b_def full_head_def open_box_def tag_def e32_def)
  have trun: "close_box (length b) (run_all [e32 0, e32 duration, e32 ?len, e32 ?fl] (e32 1 (open_full ''trun'' 0 0x701 b))) = b @ box ''trun'' (trun_fields 0 duration ?len ?fl)"
    using close_box_open [of "''trun''" b "trun_fields 0 duration ?len ?fl"]
    by (simp add: run_all_content open_full_def appendsD [of "full_head 0 0x701" "open_box ''trun'' b"] trun_fields_def e32_def)
  have traf: "close_box (length m) (b @ y) = m @ box ''traf'' (x @ y)" for y using close_box_open [of "''traf''" m "x @ y"] by (simp add: b_def)
  have len: "length (m @ box ''traf'' (x @ box ''trun'' (trun_fields 0 duration ?len ?fl))) = 100" by (simp add: l trun_fields_def)
  have at: "length (e32 1 (open_full ''trun'' 0 0x701 b)) = 84" by (simp add: e32_def open_full_def full_head_def open_box_def tag_def l)
  have patch: "patch32 84 108 (m @ box ''traf'' (x @ box ''trun'' (trun_fields 0 duration ?len ?fl))) = m @ box ''traf'' (x @ box ''trun'' (trun_fields 108 duration ?len ?fl))"
    using patch32_at [of "m @ be32 (word_of_nat (8 + length (x @ box ''trun'' (trun_fields 0 duration ?len ?fl)))) @ text_bytes ''traf'' @ x
        @ be32 (word_of_nat (8 + length (trun_fields 0 duration ?len ?fl))) @ text_bytes ''trun'' @ full_head 0 0x701 [] @ be32 1" 84 108 0 "be32 duration @ be32 ?len @ be32 ?fl"]
    unfolding box_def [of _ "x @ _"] box_def [of "''trun''"] by (simp add: l trun_fields_def)
  have moof: "close_box 0 (m @ y) = box ''moof'' (box ''mfhd'' (full_head 0 0 [] @ be32 seqno) @ y)" for y
    using close_box_open [of "''moof''" "[]" "box ''mfhd'' (full_head 0 0 [] @ be32 seqno) @ y"] by (simp add: m_def)
  have b': "in_full ''tfdt'' 1 0 [e64 dt] (in_full ''tfhd'' 0 0x020000 [e32 tid] (open_box ''traf'' m)) = b"
    by (simp add: in_full_content b_def x_def e32_def e64_def)
  have m': "in_full ''mfhd'' 0 0 [e32 seqno] (open_box ''moof'' []) = m" by (simp add: in_full_content m_def e32_def)
  have fl: "0x000001 OR 0x000100 OR 0x000200 OR 0x000400 = (0x701 :: u32)" by simp
  have off: "word_of_nat 100 + 8 = (108 :: u32)" by simp
  show ?thesis unfolding fragment_def Let_def m' b' fl trun traf at len off patch moof
    by (simp add: in_box_content emit_def x_def)
qed

section \<open>Samples\<close>

text \<open>A reader of length-prefixed units.\<close>

function avcc_units :: "byte list \<Rightarrow> byte list list option" where
  "avcc_units b =
     (if b = [] then Some []
      else if length b < 4 \<or> length b < 4 + unat (rd32 b 0) then None
      else map_option (Cons (take (unat (rd32 b 0)) (drop 4 b))) (avcc_units (drop (4 + unat (rd32 b 0)) b)))"
  by pat_completeness auto
termination by (relation "measure length") auto

declare avcc_units.simps [simp del]

lemma be32_not_Nil [simp]: "be32 x \<noteq> []"
  by (simp add: be32_def)

definition avcc :: "byte list list \<Rightarrow> byte list" where
  "avcc xs = concat (map (\<lambda>x. be32 (word_of_nat (length x)) @ x) xs)"

lemma avcc_units_avcc: "list_all (\<lambda>x. length x < 2 ^ 32) xs \<Longrightarrow> avcc_units (avcc xs) = Some xs"
proof (induction xs)
  case (Cons x xs)
  let ?b = "be32 (word_of_nat (length x)) @ x @ avcc xs"
  have "unat (rd32 ?b 0) = length x"
    using rd32_be32 [of 0 "[]" "word_of_nat (length x)" "x @ avcc xs"] Cons.prems by (simp add: unat_of_nat)
  then have "avcc_units ?b = map_option (Cons x) (avcc_units (avcc xs))" unfolding avcc_units.simps [of ?b] by simp
  then show ?case using Cons by (simp add: avcc_def)
qed (simp add: avcc_def avcc_units.simps)

definition is_slice :: "byte list \<Rightarrow> bool" where
  "is_slice x \<longleftrightarrow> x ! 0 AND 0x1f \<noteq> 7 \<and> x ! 0 AND 0x1f \<noteq> 8 \<and> x ! 0 AND 0x1f \<noteq> 9"

lemma avcc_of_nals: "annexb_to_avcc d = avcc (filter is_slice (map (nal_bytes d) (split_nals d 64)))"
proof -
  have "fold (\<lambda>u out. if nal_type u = 7 \<or> nal_type u = 8 \<or> nal_type u = 9 then out else emit (nal_bytes d u) (e32 (word_of_nat (nal_len u)) out)) us out
    = out @ avcc (filter is_slice (map (nal_bytes d) us))" if "list_all (nal_in d) us" for us out
    using that
  proof (induction us arbitrary: out)
    case (Cons u us)
    then have "length (nal_bytes d u) = nal_len u" "nal_type u = nal_bytes d u ! 0 AND 0x1f" using nal_bytes_in by simp_all
    then show ?case using Cons by (auto simp: is_slice_def emit_def e32_def avcc_def)
  qed (simp add: avcc_def)
  from this [OF split_nals_in] show ?thesis by (simp add: annexb_to_avcc_def)
qed

section \<open>The timeline\<close>

text \<open>The position of the last frame on the timeline, in microseconds.\<close>

definition tl_pos :: "timeline \<Rightarrow> int" where
  "tl_pos t = tl_last_us t - tl_origin_us t - tl_skew_us t"

definition tl_ok :: "timeline \<Rightarrow> bool" where
  "tl_ok t \<longleftrightarrow> (tl_started t \<longrightarrow> 0 < tl_last_us t \<and> 0 \<le> tl_pos t)"

definition in_step :: "int \<Rightarrow> int \<Rightarrow> bool" where
  "in_step x y \<longleftrightarrow> MIN_STEP_US < y - x \<and> y - x < MAX_STEP_US"

lemma timeline_next_state:
  "snd (snd (timeline_next p t)) =
     \<lparr>tl_origin_us = (if tl_started t then tl_origin_us t else p),
      tl_skew_us = (if tl_started t then if 0 < tl_last_us t \<and> \<not> in_step (tl_last_us t) p then tl_skew_us t + (p - tl_last_us t - FALLBACK_STEP_US) else tl_skew_us t else 0),
      tl_last_us = p, tl_started = True\<rparr>"
  by (cases t) (simp add: timeline_next_def Let_def in_step_def not_less)

lemma timeline_next_time:
  "fst (timeline_next p t) = word_of_int (ticks (max 0 (tl_pos (snd (snd (timeline_next p t))))))"
  by (simp add: timeline_next_def Let_def tl_pos_def)

lemma timeline_next_simps:
  "tl_started (snd (snd (timeline_next p t)))" "tl_last_us (snd (snd (timeline_next p t))) = p"
  by (simp_all add: timeline_next_state)

lemma timeline_step:
  assumes "tl_ok t" "0 < p"
  shows "tl_ok (snd (snd (timeline_next p t)))"
    and "fst (timeline_next p t) = word_of_int (ticks (tl_pos (snd (snd (timeline_next p t)))))"
    and "tl_started t \<Longrightarrow> tl_pos (snd (snd (timeline_next p t))) = tl_pos t + (if in_step (tl_last_us t) p then p - tl_last_us t else FALLBACK_STEP_US)"
proof -
  show step: "tl_pos (snd (snd (timeline_next p t))) = tl_pos t + (if in_step (tl_last_us t) p then p - tl_last_us t else FALLBACK_STEP_US)" if "tl_started t"
    using assms(1) that by (simp add: timeline_next_state tl_pos_def tl_ok_def)
  have "0 \<le> tl_pos (snd (snd (timeline_next p t)))"
  proof (cases "tl_started t")
    case True
    then show ?thesis using assms(1) by (simp add: step tl_ok_def in_step_def MIN_STEP_US_def FALLBACK_STEP_US_def)
  qed (simp add: timeline_next_state tl_pos_def)
  then show "tl_ok (snd (snd (timeline_next p t)))" "fst (timeline_next p t) = word_of_int (ticks (tl_pos (snd (snd (timeline_next p t)))))"
    using assms(2) by (simp_all add: tl_ok_def timeline_next_simps timeline_next_time)
qed

text \<open>The decode times of a sequence of captures.\<close>

fun run_timeline :: "int list \<Rightarrow> timeline \<Rightarrow> u64 list" where
  "run_timeline [] t = []"
| "run_timeline (p # ps) t = (case timeline_next p t of (dts, dur, t) \<Rightarrow> dts # run_timeline ps t)"

fun positions :: "int list \<Rightarrow> timeline \<Rightarrow> int list" where
  "positions [] t = []"
| "positions (p # ps) t = tl_pos (snd (snd (timeline_next p t))) # positions ps (snd (snd (timeline_next p t)))"

lemma run_timeline_positions:
  "tl_ok t \<Longrightarrow> list_all (\<lambda>p. 0 < p) ps \<Longrightarrow> run_timeline ps t = map (\<lambda>x. word_of_int (ticks x)) (positions ps t)"
  by (induction ps arbitrary: t) (auto simp: timeline_step case_prod_beta)

lemma positions_step:
  "tl_ok t \<Longrightarrow> tl_started t \<Longrightarrow> list_all (\<lambda>p. 0 < p) ps \<Longrightarrow> successively in_step (tl_pos t # positions ps t)"
proof (induction ps arbitrary: t)
  case (Cons p ps)
  let ?t = "snd (snd (timeline_next p t))"
  have "in_step (tl_pos t) (tl_pos ?t)"
    using timeline_step(3) [of t p] Cons.prems by (simp add: in_step_def MIN_STEP_US_def MAX_STEP_US_def FALLBACK_STEP_US_def)
  moreover have "successively in_step (tl_pos ?t # positions ps ?t)" using Cons timeline_step(1) [of t p] by (intro Cons.IH) (simp_all add: timeline_next_simps)
  ultimately show ?case by simp
qed simp

lemma positions_follow:
  "tl_ok t \<Longrightarrow> tl_started t \<Longrightarrow> list_all (\<lambda>p. 0 < p) ps \<Longrightarrow> successively in_step (tl_last_us t # ps) \<Longrightarrow>
   positions ps t = map (\<lambda>p. tl_pos t + (p - tl_last_us t)) ps"
proof (induction ps arbitrary: t)
  case (Cons p ps)
  let ?t = "snd (snd (timeline_next p t))"
  have e: "tl_pos ?t = tl_pos t + (p - tl_last_us t)" using timeline_step(3) [of t p] Cons.prems by simp
  have "positions ps ?t = map (\<lambda>q. tl_pos ?t + (q - tl_last_us ?t)) ps"
    using Cons timeline_step(1) [of t p] by (intro Cons.IH) (simp_all add: timeline_next_simps)
  then show ?case by (simp add: e timeline_next_simps)
qed simp

section \<open>Properties\<close>

text \<open>A frame reaches the player. The fragment of an access unit consists of a \<^verbatim>\<open>moof\<close> and an \<^verbatim>\<open>mdat\<close> box whose sizes add up exactly, at every level; the data offset and the size
  stated in the \<^verbatim>\<open>trun\<close> box lead to the sample, the decode time and duration are the given ones, and the sample read by its lengths is the access unit's units, all but the parameter sets and
  delimiters, which the track format does not repeat.\<close>

theorem fragment_holds_frame:
  assumes "sample = annexb_to_avcc (annexb us)" "f = fragment seqno dt duration sample key tid" "list_all (\<lambda>(long, x). unit_ok x) us" "length us \<le> 64" "length sample < 2 ^ 32 - 8"
  shows "\<exists>m t r. boxes f = Some [(text_bytes ''moof'', m), (text_bytes ''mdat'', sample)]
    \<and> boxes m = Some [(text_bytes ''mfhd'', full_head 0 0 [] @ be32 seqno), (text_bytes ''traf'', t)]
    \<and> boxes t = Some [(text_bytes ''tfhd'', full_head 0 0x020000 [] @ be32 tid), (text_bytes ''tfdt'', full_head 1 0 [] @ be64 dt), (text_bytes ''trun'', r)]
    \<and> drop (unat (rd32 r 8)) f = sample \<and> rd32 r 12 = duration \<and> unat (rd32 r 16) = length sample
    \<and> avcc_units sample = Some (filter is_slice (map snd us))"
proof -
  let ?r = "trun_fields 108 duration (word_of_nat (length sample)) (if key then 0x02000000 else 0x01010000)"
  let ?t = "box ''tfhd'' (full_head 0 0x020000 [] @ be32 tid) @ box ''tfdt'' (full_head 1 0 [] @ be64 dt) @ box ''trun'' ?r"
  let ?m = "box ''mfhd'' (full_head 0 0 [] @ be32 seqno) @ box ''traf'' ?t"
  have l: "length (full_head k v []) = 4" "length ?r = 24" for k v by (simp_all add: full_head_def trun_fields_def)
  have f: "f = box ''moof'' ?m @ box ''mdat'' sample" unfolding assms(2) by (rule fragment_boxes)
  have r: "rd32 ?r 8 = 108" "rd32 ?r 12 = duration" "rd32 ?r 16 = word_of_nat (length sample)"
    unfolding trun_fields_def
    using rd32_be32 [of 8 "full_head 0 0x701 [] @ be32 1" 108] rd32_be32 [of 12 "full_head 0 0x701 [] @ be32 1 @ be32 108" duration]
      rd32_be32 [of 16 "full_head 0 0x701 [] @ be32 1 @ be32 108 @ be32 duration" "word_of_nat (length sample)"] by (simp_all add: l)
  have "drop 108 f = sample" unfolding f box_def [of _ sample] by (simp add: l)
  moreover have "avcc_units sample = Some (filter is_slice (map snd us))"
  proof -
    have xs: "sample = avcc (filter is_slice (map snd us))" using split_units_all [OF assms(3), of 64] assms(4) by (simp add: assms(1) avcc_of_nals)
    have "length x \<le> length (avcc ys)" if "x \<in> set ys" for x ys using that by (induction ys) (auto simp: avcc_def)
    then have "list_all (\<lambda>x. length x < 2 ^ 32) (filter is_slice (map snd us))" using assms(5) unfolding xs list_all_iff by fastforce
    then show ?thesis unfolding xs by (rule avcc_units_avcc)
  qed
  moreover have "boxes f = Some [(text_bytes ''moof'', ?m), (text_bytes ''mdat'', sample)]" unfolding f using assms(5) by (simp add: l)
  moreover have "unat (rd32 ?r 16) = length sample" using assms(5) by (simp add: r unat_of_nat)
  ultimately show ?thesis using r by (intro exI [of _ ?m] exI [of _ ?t] exI [of _ ?r]) (simp add: l)
qed

theorem fragment_holds_frame_witness:
  "avcc_units (annexb_to_avcc (annexb [(True, [0x67, 0x42]), (False, [0x65, 1, 2])])) = Some [[0x65, 1, 2]] \<and>
   (\<exists>m. boxes (fragment 1 0 4500 [0, 0, 0, 3, 0x65, 1, 2] True 1) = Some [(text_bytes ''moof'', m), (text_bytes ''mdat'', [0, 0, 0, 3, 0x65, 1, 2])])"
proof -
  let ?us = "[(True, [0x67, 0x42]), (False, [0x65, 1, 2 :: byte])]"
  have ok: "list_all (\<lambda>(long, x). unit_ok x) ?us" by code_simp
  have a: "annexb_to_avcc (annexb ?us) = [0, 0, 0, 3, 0x65, 1, 2]" by code_simp
  have s: "filter is_slice (map snd ?us) = [[0x65, 1, 2]]" by code_simp
  show ?thesis using fragment_holds_frame [OF refl refl ok, of 1 0 4500 True 1] unfolding a s by auto
qed

text \<open>The decode timeline neither drifts nor breaks. For any captures at positive times the decode times follow positions that advance by more than 1 ms and less than a second from frame to frame, whatever stalls, repeats and
  jumps the clock has; and while the captures themselves advance like that, the position of every frame is exactly its distance from the first capture, however many frames there have been.\<close>

theorem timeline_contiguous:
  assumes "list_all (\<lambda>p. 0 < p) ps"
  shows "\<exists>xs. run_timeline ps timeline0 = map (\<lambda>x. word_of_int (ticks x)) xs \<and> successively in_step xs
    \<and> (successively in_step ps \<longrightarrow> xs = map (\<lambda>p. p - hd ps) ps)"
proof (cases ps)
  case (Cons p qs)
  let ?t = "snd (snd (timeline_next p timeline0))"
  have ok: "tl_ok timeline0" by (simp add: tl_ok_def timeline0_def)
  have t: "tl_ok ?t" "tl_started ?t" "tl_last_us ?t = p" "tl_pos ?t = 0"
    using timeline_step(1) [OF ok, of p] assms by (simp_all add: Cons timeline_next_state timeline0_def tl_pos_def)
  have "successively in_step (positions ps timeline0)" using positions_step [OF t(1,2), of qs] assms by (simp add: Cons)
  moreover have "positions ps timeline0 = map (\<lambda>p. p - hd ps) ps" if "successively in_step ps"
    using positions_follow [OF t(1,2), of qs] that assms by (simp add: Cons t)
  ultimately show ?thesis using run_timeline_positions [OF ok assms] by blast
qed simp

theorem timeline_contiguous_witness:
  "\<exists>xs. run_timeline [1000, 51000, 51000, 9051000] timeline0 = map (\<lambda>x. word_of_int (ticks x)) xs \<and> successively in_step xs"
  using timeline_contiguous [of "[1000, 51000, 51000, 9051000]"] by simp blast

text \<open>A path into the boxes.\<close>

definition child :: "string \<Rightarrow> byte list \<Rightarrow> byte list option" where
  "child t b = Option.bind (boxes b) (\<lambda>bs. map_of bs (text_bytes t))"

lemma child_skip: "length s = 4 \<Longrightarrow> text_bytes s \<noteq> text_bytes t \<Longrightarrow> 8 + length p < 2 ^ 32 \<Longrightarrow> child t (box s p @ r) = child t r"
  by (cases "boxes r") (auto simp: child_def)

lemma child_hit: "length t = 4 \<Longrightarrow> 8 + length p < 2 ^ 32 \<Longrightarrow> boxes r \<noteq> None \<Longrightarrow> child t (box t p @ r) = Some p"
  by (auto simp: child_def)

lemmas box_contents = in_box_content in_full_content run_all_content

lemma emitted [simp]: "emit xs [] = xs" "e16 u [] = be16 u" "e32 v [] = be32 v" "e64 x [] = be64 x" "zeros n [] = replicate n 0" "tag t [] = text_bytes t" "desc k n [] = [k, word_of_nat n]"
  by (simp_all add: emit_def e16_def e32_def e64_def zeros_def tag_def desc_def)

lemma length_full_head [simp]: "length (full_head k v []) = 4"
  by (simp add: full_head_def)

lemma table_boxes:
  "list_all appends empty_tables" "content empty_tables = box ''stts'' (full_head 0 0 [] @ be32 0) @ box ''stsc'' (full_head 0 0 [] @ be32 0)
     @ box ''stsz'' (full_head 0 0 [] @ be32 0 @ be32 0) @ box ''stco'' (full_head 0 0 [] @ be32 0)"
  by (simp_all add: empty_tables_def box_contents)

lemma appends_parts [simp]:
  "appends dinf_box" "appends (audio_entry a)" "appends (avc1_box sps pps width height)" "list_all appends (avcc_fields sps pps)" "appends (trex_box n)" "appends (mvhd_box u v)" "appends ftyp_box"
  by (simp_all add: dinf_box_def audio_entry_def avc1_box_def avcc_fields_def trex_box_def mvhd_box_def ftyp_box_def unity_def Let_def)

lemma audio_trak_box:
  "\<exists>p. (\<forall>b. audio_trak a b = b @ box ''trak'' p) \<and> length p \<le> 1000 + length (at_asc a)"
proof -
  have "length (audio_entry a []) \<le> 200 + length (at_asc a)" by (simp add: audio_entry_def box_contents Let_def)
  then show ?thesis
    by (intro exI conjI allI, simp add: audio_trak_def box_contents table_boxes unity_def) (simp add: dinf_box_def box_contents)
qed

lemma video_trak_box:
  "\<exists>tkhd mdhd hdlr vmhd. (\<forall>b. video_trak sps pps width height timescale b = b @ box ''trak'' (box ''tkhd'' tkhd @ box ''mdia'' (box ''mdhd'' mdhd @ box ''hdlr'' hdlr @ box ''minf'' (box ''vmhd'' vmhd @ dinf_box []
     @ box ''stbl'' (box ''stsd'' (full_head 0 0 [] @ be32 1 @ avc1_box sps pps width height []) @ content empty_tables)))))
     \<and> length tkhd = 84 \<and> length mdhd = 24 \<and> length hdlr = 37 \<and> length vmhd = 12"
  by (intro exI conjI allI, simp add: video_trak_def dinf_box_def [symmetric] box_contents table_boxes unity_def) simp_all

text \<open>The player finds the parameter sets. In the init segment, with or without an audio track, the boxes nest exactly along the path from the movie to the decoder configuration, which states the profile of the stream
  and has the sequence and picture parameter sets with their lengths.\<close>

theorem init_holds_parameter_sets:
  assumes "length sps < 2 ^ 16" "length pps < 2 ^ 16" "3 < length sps" "\<And>a. audio = Some a \<Longrightarrow> length (at_asc a) < 2 ^ 16"
  shows "\<exists>moov trak mdia minf stbl stsd avc1 avcc.
    child ''moov'' (init_segment sps pps width height timescale audio) = Some moov \<and> child ''trak'' moov = Some trak \<and> child ''mdia'' trak = Some mdia
    \<and> child ''minf'' mdia = Some minf \<and> child ''stbl'' minf = Some stbl \<and> child ''stsd'' stbl = Some stsd \<and> child ''avc1'' (drop 8 stsd) = Some avc1
    \<and> child ''avcC'' (drop 78 avc1) = Some avcc \<and> take 4 avcc = [1, sps ! 1, sps ! 2, sps ! 3]
    \<and> unat (rd16 avcc 6) = length sps \<and> take (length sps) (drop 8 avcc) = sps
    \<and> unat (rd16 avcc (9 + length sps)) = length pps \<and> drop (11 + length sps) avcc = pps"
proof -
  define avcc where "avcc = content (avcc_fields sps pps)"
  define avc1 where "avc1 = replicate 6 0 @ be16 1 @ replicate 16 0 @ be16 (word_of_int width) @ be16 (word_of_int height) @ be32 0x00480000 @ be32 0x00480000 @ be32 0
     @ be16 1 @ replicate 32 0 @ be16 0x0018 @ be16 0xffff @ box ''avcC'' avcc"
  have la: "length avcc = 11 + length sps + length pps" by (simp add: avcc_def avcc_fields_def)
  then have l1: "length avc1 = 97 + length sps + length pps" by (simp add: avc1_def)
  have a1: "avc1_box sps pps width height [] = box ''avc1'' avc1" by (simp add: avc1_box_def box_contents avc1_def avcc_def)
  define stsd where "stsd = full_head 0 0 [] @ be32 1 @ box ''avc1'' avc1"
  define stbl where "stbl = box ''stsd'' stsd @ content empty_tables"
  obtain tkhd mdhd hdlr vmhd where v: "\<And>b. video_trak sps pps width height timescale b = b @ box ''trak'' (box ''tkhd'' tkhd @ box ''mdia'' (box ''mdhd'' mdhd @ box ''hdlr'' hdlr
      @ box ''minf'' (box ''vmhd'' vmhd @ dinf_box [] @ box ''stbl'' stbl)))" and lv: "length tkhd = 84" "length mdhd = 24" "length hdlr = 37" "length vmhd = 12"
    using video_trak_box [of sps pps width height timescale] unfolding a1 stsd_def [symmetric] stbl_def [symmetric] by blast
  define minf where "minf = box ''vmhd'' vmhd @ dinf_box [] @ box ''stbl'' stbl"
  define mdia where "mdia = box ''mdhd'' mdhd @ box ''hdlr'' hdlr @ box ''minf'' minf"
  define trak where "trak = box ''tkhd'' tkhd @ box ''mdia'' mdia"
  have d: "dinf_box [] = box ''dinf'' (box ''dref'' (full_head 0 0 [] @ be32 1 @ box ''url '' (full_head 0 1 [])))" by (simp add: dinf_box_def box_contents)
  have ls: "length stsd < 2 ^ 17 + 200" "length stbl < 2 ^ 17 + 400" using l1 assms(1,2) by (simp_all add: stsd_def stbl_def table_boxes)
  then have lm: "length minf < 2 ^ 17 + 500" "length mdia < 2 ^ 17 + 700" "length trak < 2 ^ 17 + 900" by (simp_all add: minf_def mdia_def trak_def d lv)
  obtain mvhd rest where moov: "child ''moov'' (init_segment sps pps width height timescale audio) = Some (box ''mvhd'' mvhd @ box ''trak'' trak @ rest)"
    and r: "length mvhd < 200" "boxes rest \<noteq> None"
  proof -
    define au where "au = (case audio of Some a \<Rightarrow> if at_codec a \<noteq> NoAudio then Some a else None | None \<Rightarrow> None)"
    define mvhd where "mvhd = full_head 0 0 [] @ content ([e32 0, e32 0, e32 timescale, e32 0, e32 0x00010000, e16 0x0100, zeros (2 + 8)] @ map e32 unity
      @ [zeros (6 * 4), e32 (case au of Some a \<Rightarrow> at_track_id a + 1 | None \<Rightarrow> 2)])"
    define mvex where "mvex = content (trex_box 1 # (case au of Some a \<Rightarrow> [trex_box (at_track_id a)] | None \<Rightarrow> []))"
    have "\<exists>at. \<forall>a. au = Some a \<longrightarrow> (\<forall>b. audio_trak a b = b @ box ''trak'' at) \<and> length at \<le> 1000 + length (at_asc a)"
      by (cases au) (simp_all add: audio_trak_box)
    then obtain at where at: "\<And>a b. au = Some a \<Longrightarrow> audio_trak a b = b @ box ''trak'' at" "\<And>a. au = Some a \<Longrightarrow> length at \<le> 1000 + length (at_asc a)"
      by blast
    define rest where "rest = (case au of Some a \<Rightarrow> box ''trak'' at | None \<Rightarrow> []) @ box ''mvex'' mvex"
    have lh: "length mvhd = 100" by (simp add: mvhd_def unity_def)
    have lx: "length mvex \<le> 64" by (cases au) (simp_all add: mvex_def trex_box_def box_contents)
    have lat: "length at < 2 ^ 17" if "au = Some a" for a using at(2) [OF that] that assms(4) [of a] by (auto simp: au_def split: option.splits if_splits)
    have rest: "boxes rest \<noteq> None" "length rest < 2 ^ 18" using lx lat by (cases au; simp add: rest_def; fail)+
    have vt: "appends (video_trak sps pps width height timescale)" by (simp add: appends_def v)
    have aa: "appends (audio_trak a)" if "au = Some a" for a using at(1) [OF that] by (simp add: appends_def)
    have ap: "list_all appends (trex_box 1 # (case au of Some a \<Rightarrow> [trex_box (at_track_id a)] | None \<Rightarrow> []))" by (cases au) simp_all
    have "init_segment sps pps width height timescale audio = box ''ftyp'' (content [tag ''iso5'', e32 1, tag ''iso5'', tag ''iso6'', tag ''mp41''])
        @ box ''moov'' (box ''mvhd'' mvhd @ box ''trak'' trak @ rest)"
    proof -
      have i: "init_segment sps pps width height timescale audio = run_all [ftyp_box, in_box ''moov''
          ([mvhd_box timescale (case au of Some a \<Rightarrow> at_track_id a + 1 | None \<Rightarrow> 2), video_trak sps pps width height timescale]
            @ (case au of Some a \<Rightarrow> [audio_trak a] | None \<Rightarrow> [])
            @ [in_box ''mvex'' (trex_box 1 # (case au of Some a \<Rightarrow> [trex_box (at_track_id a)] | None \<Rightarrow> []))])] []"
        by (simp only: init_segment_def au_def Let_def)
      have mv: "mvhd_box timescale (case au of Some a \<Rightarrow> at_track_id a + 1 | None \<Rightarrow> 2) [] = box ''mvhd'' mvhd"
        unfolding mvhd_box_def by (subst in_full_content) (simp_all add: mvhd_def unity_def)
      have ft: "ftyp_box [] = box ''ftyp'' (content [tag ''iso5'', e32 1, tag ''iso5'', tag ''iso6'', tag ''mp41''])"
        unfolding ftyp_box_def by (subst in_box_content) simp_all
      have vd: "video_trak sps pps width height timescale [] = box ''trak'' trak" by (simp add: v trak_def mdia_def minf_def)
      show ?thesis unfolding i rest_def mvex_def using vt aa at(1) mv
        by (cases au) (simp_all add: run_all_content in_box_content ft vd)
    qed
    then have "child ''moov'' (init_segment sps pps width height timescale audio) = Some (box ''mvhd'' mvhd @ box ''trak'' trak @ rest)"
      using child_hit [of "''moov''" "box ''mvhd'' mvhd @ box ''trak'' trak @ rest" "[]"] lh lm(3) rest(2) by (simp add: child_skip text_bytes_def)
    then show ?thesis using that lh rest(1) by simp
  qed
  have "child ''trak'' (box ''mvhd'' mvhd @ box ''trak'' trak @ rest) = Some trak"
    using r lm by (simp add: child_skip text_bytes_def child_hit)
  moreover have "child ''mdia'' trak = Some mdia" using lm lv child_hit [of "''mdia''" mdia "[]"] by (simp add: trak_def child_skip text_bytes_def)
  moreover have "child ''minf'' mdia = Some minf" using lm lv child_hit [of "''minf''" minf "[]"] by (simp add: mdia_def child_skip text_bytes_def)
  moreover have "child ''stbl'' minf = Some stbl" using ls lv child_hit [of "''stbl''" stbl "[]"] by (simp add: minf_def d child_skip text_bytes_def)
  moreover have "child ''stsd'' stbl = Some stsd" using ls by (simp add: stbl_def child_hit table_boxes)
  moreover have "child ''avc1'' (drop 8 stsd) = Some avc1" using l1 assms(1,2) child_hit [of "''avc1''" avc1 "[]"] by (simp add: stsd_def)
  moreover have "child ''avcC'' (drop 78 avc1) = Some avcc" using la assms(1,2) child_hit [of "''avcC''" avcc "[]"] by (simp add: avc1_def)
  moreover have "take 4 avcc = [1, sps ! 1, sps ! 2, sps ! 3] \<and> take (length sps) (drop 8 avcc) = sps"
    using assms(3) by (simp add: avcc_def avcc_fields_def)
  moreover have "drop (11 + length sps) avcc = pps"
  proof -
    define pre where "pre = content (butlast (avcc_fields sps pps))"
    have "avcc = pre @ pps" "length pre = 11 + length sps" by (simp_all add: avcc_def pre_def avcc_fields_def)
    then show ?thesis by simp
  qed
  moreover have "unat (rd16 avcc 6) = length sps \<and> unat (rd16 avcc (9 + length sps)) = length pps"
    using rd16_be16 [of 6 "take 6 avcc" "word_of_nat (length sps)" "sps @ [1] @ be16 (word_of_nat (length pps)) @ pps"]
      rd16_be16 [of "9 + length sps" "take 6 avcc @ be16 (word_of_nat (length sps)) @ sps @ [1]" "word_of_nat (length pps)" pps] assms(1,2)
    by (simp add: avcc_def avcc_fields_def unat_of_nat)
  ultimately show ?thesis using moov by blast
qed

theorem init_holds_parameter_sets_witness:
  "\<exists>moov. child ''moov'' (init_segment [0x67, 0x64, 0, 0x33] [0x68, 0xee] 1920 1080 90000 (Some \<lparr>at_codec = Aac, at_track_id = 2, at_sample_rate = 8000, at_channels = 1,
     at_asc = [0x15, 0x88], at_pre_skip = 0\<rparr>)) = Some moov"
  using init_holds_parameter_sets [of "[0x67, 0x64, 0, 0x33]" "[0x68, 0xee]" "Some \<lparr>at_codec = Aac, at_track_id = 2, at_sample_rate = 8000, at_channels = 1,
     at_asc = [0x15, 0x88], at_pre_skip = 0\<rparr>" 1920 1080 90000] by auto

end
