(* ===== verification/Hls.thy ===== *)
theory Hls
  imports Fmp4
begin

text \<open>
  The HLS segmenter (\<^verbatim>\<open>app/http/hls.cpp\<close>): segments cut at key frames and held in memory, the window of them that the playlist shows, and the names under which they are asked for. The byte
  budget and the numbering of discontinuities are what the comments in the code argue about; both are shown here for any sequence of frames.
\<close>

unbundle bit_operations_syntax

section \<open>State\<close>

record hls_limits =
  lim_target_ms :: int
  lim_max_segments :: nat
  lim_max_bytes :: nat

record hls_seg =
  sg_seq :: u64
  sg_dur90k :: u32
  sg_data :: "byte list"
  sg_disc :: bool

record segmenter =
  hs_lim :: hls_limits
  hs_init :: "byte list"
  hs_sps :: "byte list"
  hs_pps :: "byte list"
  hs_segs :: "hls_seg list"
  hs_cur :: "byte list"
  hs_cur_start :: u64
  hs_cur_end :: u64
  hs_cur_open :: bool
  hs_await_key :: bool
  hs_pending_disc :: bool
  hs_init_gen :: u32
  hs_disc_seq :: u32
  hs_next_seq :: u64
  hs_frag_seq :: u32
  hs_tl :: timeline

definition hls_limits0 :: hls_limits where
  "hls_limits0 = \<lparr>lim_target_ms = 2000, lim_max_segments = 4, lim_max_bytes = 6291456\<rparr>"

definition segmenter_new :: "hls_limits \<Rightarrow> segmenter" where
  "segmenter_new l = \<lparr>hs_lim = l, hs_init = [], hs_sps = [], hs_pps = [], hs_segs = [], hs_cur = [], hs_cur_start = 0, hs_cur_end = 0, hs_cur_open = False,
     hs_await_key = True, hs_pending_disc = False, hs_init_gen = 0, hs_disc_seq = 0, hs_next_seq = 0, hs_frag_seq = 1, hs_tl = timeline0\<rparr>"

section \<open>Feeding\<close>

definition finished_bytes :: "hls_seg list \<Rightarrow> nat" where
  "finished_bytes ss = sum_list (map (length \<circ> sg_data) ss)"

definition trim_more :: "segmenter \<Rightarrow> bool" where
  "trim_more s \<longleftrightarrow> lim_max_segments (hs_lim s) < length (hs_segs s)
     \<or> 2 < length (hs_segs s) \<and> lim_max_bytes (hs_lim s) < finished_bytes (hs_segs s) + length (hs_cur s)"

function hls_trim :: "segmenter \<Rightarrow> segmenter" where
  "hls_trim s =
     (if trim_more s
      then hls_trim (s\<lparr>hs_disc_seq := (if sg_disc (hd (hs_segs s)) then hs_disc_seq s + 1 else hs_disc_seq s), hs_segs := tl (hs_segs s)\<rparr>)
      else s)"
  by pat_completeness auto
termination by (relation "measure (\<lambda>s. length (hs_segs s))") (auto simp: trim_more_def)

declare hls_trim.simps [simp del]

definition close_current :: "segmenter \<Rightarrow> segmenter" where
  "close_current s =
     (if \<not> hs_cur_open s then s
      else if hs_cur s = [] then s\<lparr>hs_cur_open := False\<rparr>
      else
        let sg = \<lparr>sg_seq = hs_next_seq s, sg_dur90k = ucast (hs_cur_end s - hs_cur_start s), sg_data = hs_cur s, sg_disc = hs_pending_disc s\<rparr>
        in hls_trim (s\<lparr>hs_cur_open := False, hs_next_seq := hs_next_seq s + 1, hs_pending_disc := False, hs_segs := hs_segs s @ [sg], hs_cur := []\<rparr>))"

text \<open>New parameter sets: a new init segment, and when there was one before, a new window behind a discontinuity.\<close>

definition new_params :: "byte list \<Rightarrow> int \<Rightarrow> int \<Rightarrow> segmenter \<Rightarrow> segmenter" where
  "new_params d width height s =
     (case extract_params d [] [] of (ok, sps, pps) \<Rightarrow>
        if ok \<and> sps \<noteq> [] \<and> pps \<noteq> [] \<and> (sps \<noteq> hs_sps s \<or> pps \<noteq> hs_pps s)
        then
          let s = (if hs_init s \<noteq> []
                   then s\<lparr>hs_disc_seq := hs_disc_seq s + word_of_nat (length (filter sg_disc (hs_segs s))), hs_segs := [], hs_cur := [], hs_cur_open := False,
                          hs_pending_disc := True, hs_init_gen := hs_init_gen s + 1\<rparr>
                   else s)
          in s\<lparr>hs_sps := sps, hs_pps := pps, hs_init := init_segment sps pps width height 90000 None\<rparr>
        else s)"

definition take_sample :: "byte list \<Rightarrow> bool \<Rightarrow> u64 \<Rightarrow> u32 \<Rightarrow> segmenter \<Rightarrow> segmenter" where
  "take_sample d key dts dur s =
     (let sample = annexb_to_avcc d
      in if sample = [] then s
         else
           let s = hls_trim (s\<lparr>hs_frag_seq := hs_frag_seq s + 1, hs_cur := hs_cur s @ fragment (hs_frag_seq s) dts dur sample key 1, hs_cur_end := dts + ucast dur\<rparr>)
           in if lim_max_bytes (hs_lim s) div 2 < length (hs_cur s) then s\<lparr>hs_cur := [], hs_cur_open := False, hs_await_key := True\<rparr> else s)"

definition add_frame :: "byte list \<Rightarrow> bool \<Rightarrow> int \<Rightarrow> segmenter \<Rightarrow> segmenter" where
  "add_frame d key pts_us s =
     (case timeline_next pts_us (hs_tl s) of (dts, dur, t) \<Rightarrow>
        let s = s\<lparr>hs_tl := t\<rparr>;
            s = (if key \<and> hs_cur_open s \<and> word_of_int (lim_target_ms (hs_lim s)) \<le> (dts - hs_cur_start s) * 1000 div 90000 then close_current s else s)
        in if \<not> hs_cur_open s \<and> \<not> key then s
           else take_sample d key dts dur (if hs_cur_open s then s else s\<lparr>hs_cur_open := True, hs_cur_start := dts\<rparr>))"

definition hls_feed :: "byte list \<Rightarrow> bool \<Rightarrow> int \<Rightarrow> int \<Rightarrow> int \<Rightarrow> bool \<Rightarrow> segmenter \<Rightarrow> segmenter" where
  "hls_feed d key pts_us width height discontinuity s =
     (if d = [] then s
      else
        let s = (if discontinuity then s\<lparr>hs_cur := [], hs_cur_open := False, hs_await_key := True\<rparr> else s);
            s = (if key then new_params d width height s else s)
        in if key \<and> hs_init s = [] then s
           else
             let s = (if key then s\<lparr>hs_await_key := False\<rparr> else s)
             in if hs_await_key s \<or> hs_init s = [] then s else add_frame d key pts_us s)"

section \<open>Asking\<close>

definition held_bytes :: "segmenter \<Rightarrow> nat" where
  "held_bytes s = length (hs_cur s) + finished_bytes (hs_segs s)"

definition hls_ready :: "segmenter \<Rightarrow> bool" where
  "hls_ready s \<longleftrightarrow> hs_segs s \<noteq> []"

definition first_seq :: "segmenter \<Rightarrow> u64" where
  "first_seq s = (if hs_segs s = [] then hs_next_seq s else sg_seq (hd (hs_segs s)))"

definition hls_segment :: "u64 \<Rightarrow> segmenter \<Rightarrow> byte list option" where
  "hls_segment n s = map_option sg_data (find (\<lambda>g. sg_seq g = n) (hs_segs s))"

definition init_name :: "segmenter \<Rightarrow> string" where
  "init_name s = (if hs_init_gen s \<noteq> 0 then ''init'' @ nat_dec (unat (hs_init_gen s)) @ ''.mp4'' else ''init.mp4'')"

definition seg_name :: "u64 \<Rightarrow> string" where
  "seg_name n = ''seg'' @ nat_dec (unat n) @ ''.m4s''"

text \<open>The digits between the prefix and the extension, at most as many as given; the number wraps like the variable.\<close>

definition name_number :: "nat \<Rightarrow> string \<Rightarrow> 'a::len word option" where
  "name_number most ds = (if list_all is_digit ds \<and> length ds \<le> most then Some (foldl (\<lambda>v c. v * 10 + word_of_nat (digit_val c)) 0 ds) else None)"

definition name_middle :: "string \<Rightarrow> string \<Rightarrow> string \<Rightarrow> string option" where
  "name_middle pre suf name =
     (if length name < length pre + 1 + length suf \<or> take (length pre) name \<noteq> pre \<or> drop (length name - length suf) name \<noteq> suf then None
      else Some (drop (length pre) (take (length name - length suf) name)))"

definition parse_init_name :: "string \<Rightarrow> u32 option" where
  "parse_init_name name = (if name = ''init.mp4'' then Some 0 else Option.bind (name_middle ''init'' ''.mp4'' name) (name_number 9))"

definition parse_segment_name :: "string \<Rightarrow> u64 option" where
  "parse_segment_name name = Option.bind (name_middle ''seg'' ''.m4s'' name) (name_number 20)"

text \<open>The playlist. How a duration in ticks is printed in seconds with three decimals is an argument; a line is cut at the size of its buffer.\<close>

definition nl :: string where
  "nl = [CHR 0x0A]"

definition playlist :: "(u32 \<Rightarrow> string) \<Rightarrow> string \<Rightarrow> segmenter \<Rightarrow> string" where
  "playlist secs3 prefix s =
     (let maxd = fold (\<lambda>g m. if m < sg_dur90k g then sg_dur90k g else m) (hs_segs s) 0; target = (maxd + 89999) div 90000
      in ''#EXTM3U'' @ nl @ ''#EXT-X-VERSION:7'' @ nl
         @ ''#EXT-X-TARGETDURATION:'' @ nat_dec (unat (if target \<noteq> 0 then target else 1)) @ nl @ ''#EXT-X-MEDIA-SEQUENCE:'' @ nat_dec (unat (first_seq s)) @ nl
         @ ''#EXT-X-INDEPENDENT-SEGMENTS'' @ nl
         @ (if hs_disc_seq s \<noteq> 0 then ''#EXT-X-DISCONTINUITY-SEQUENCE:'' @ nat_dec (unat (hs_disc_seq s)) @ nl else [])
         @ ''#EXT-X-MAP:URI='' @ [CHR 0x22] @ prefix @ init_name s @ [CHR 0x22] @ nl
         @ concat (map (\<lambda>g. (if sg_disc g then ''#EXT-X-DISCONTINUITY'' @ nl else [])
                         @ take 159 (''#EXTINF:'' @ secs3 (sg_dur90k g) @ '','' @ nl @ prefix @ seg_name (sg_seq g) @ nl)) (hs_segs s)))"

section \<open>Trimming\<close>

definition trimmed :: "nat \<Rightarrow> segmenter \<Rightarrow> segmenter" where
  "trimmed k s = s\<lparr>hs_disc_seq := hs_disc_seq s + of_nat (length (filter sg_disc (take k (hs_segs s)))), hs_segs := drop k (hs_segs s)\<rparr>"

lemma trimmed_simps [simp]:
  "hs_lim (trimmed k s) = hs_lim s" "hs_cur (trimmed k s) = hs_cur s" "hs_next_seq (trimmed k s) = hs_next_seq s" "hs_segs (trimmed k s) = drop k (hs_segs s)"
  by (simp_all add: trimmed_def)

lemma hls_trim_trimmed: "\<exists>k\<le>length (hs_segs s). hls_trim s = trimmed k s"
proof (induction s rule: hls_trim.induct)
  case (1 s)
  show ?case
  proof (cases "trim_more s")
    case True
    then obtain g gs where g: "hs_segs s = g # gs" by (cases "hs_segs s") (auto simp: trim_more_def)
    from 1 [OF True] obtain k where k: "k \<le> length gs"
        "hls_trim (s\<lparr>hs_disc_seq := (if sg_disc g then hs_disc_seq s + 1 else hs_disc_seq s), hs_segs := gs\<rparr>)
          = trimmed k (s\<lparr>hs_disc_seq := (if sg_disc g then hs_disc_seq s + 1 else hs_disc_seq s), hs_segs := gs\<rparr>)" by (auto simp: g)
    then have "hls_trim s = trimmed (Suc k) s" using True by (simp add: hls_trim.simps [of s] g trimmed_def add_ac)
    then show ?thesis using k(1) by (intro exI [of _ "Suc k"]) (simp add: g)
  next
    case False
    then show ?thesis by (intro exI [of _ 0]) (simp add: hls_trim.simps [of s] trimmed_def)
  qed
qed

lemma hls_trim_done: "\<not> trim_more (hls_trim s)"
  by (induction s rule: hls_trim.induct) (simp add: hls_trim.simps)

section \<open>Memory\<close>

definition budget_ok :: "segmenter \<Rightarrow> bool" where
  "budget_ok s \<longleftrightarrow> list_all (\<lambda>g. length (sg_data g) \<le> lim_max_bytes (hs_lim s) div 2) (hs_segs s) \<and> \<not> trim_more s"

definition hls_ok :: "segmenter \<Rightarrow> bool" where
  "hls_ok s \<longleftrightarrow> budget_ok s \<and> length (hs_cur s) \<le> lim_max_bytes (hs_lim s) div 2"

lemma budget_ok_trim:
  assumes "list_all (\<lambda>g. length (sg_data g) \<le> lim_max_bytes (hs_lim s) div 2) (hs_segs s)" shows "budget_ok (hls_trim s)"
proof -
  obtain k where "hls_trim s = trimmed k s" using hls_trim_trimmed by blast
  then show ?thesis using assms hls_trim_done [of s] by (auto simp: budget_ok_def list_all_iff dest: in_set_dropD)
qed

lemma hls_trim_cur [simp]: "hs_cur (hls_trim s) = hs_cur s" "hs_lim (hls_trim s) = hs_lim s" "hs_next_seq (hls_trim s) = hs_next_seq s"
  using hls_trim_trimmed [of s] by auto

lemma budget_ok_less: "budget_ok s \<Longrightarrow> hs_segs s' = hs_segs s \<Longrightarrow> hs_lim s' = hs_lim s \<Longrightarrow> length (hs_cur s') \<le> length (hs_cur s) \<Longrightarrow> budget_ok s'"
  by (auto simp: budget_ok_def trim_more_def)

lemma hls_ok_same:
  "hls_ok s \<Longrightarrow> hs_segs s' = hs_segs s \<Longrightarrow> hs_lim s' = hs_lim s \<Longrightarrow> length (hs_cur s') \<le> length (hs_cur s) \<Longrightarrow> hls_ok s'"
  using budget_ok_less [of s s'] by (auto simp: hls_ok_def)

lemma hls_ok_close: "hls_ok s \<Longrightarrow> hls_ok (close_current s)"
proof -
  assume ok: "hls_ok s"
  show "hls_ok (close_current s)"
  proof (cases "hs_cur_open s \<and> hs_cur s \<noteq> []")
    case True
    define s' where "s' = s\<lparr>hs_cur_open := False, hs_next_seq := hs_next_seq s + 1, hs_pending_disc := False, hs_segs := hs_segs s
      @ [\<lparr>sg_seq = hs_next_seq s, sg_dur90k = ucast (hs_cur_end s - hs_cur_start s), sg_data = hs_cur s, sg_disc = hs_pending_disc s\<rparr>], hs_cur := []\<rparr>"
    have "budget_ok (hls_trim s')" using ok by (intro budget_ok_trim) (simp add: s'_def hls_ok_def budget_ok_def)
    moreover have "close_current s = hls_trim s'" using True by (simp add: close_current_def Let_def s'_def)
    ultimately show ?thesis by (simp add: hls_ok_def s'_def)
  next
    case False
    then show ?thesis using ok hls_ok_same [OF ok] by (auto simp: close_current_def)
  qed
qed

lemma hls_ok_params: "hls_ok s \<Longrightarrow> hls_ok (new_params d width height s)"
  by (auto simp: new_params_def Let_def hls_ok_def budget_ok_def trim_more_def finished_bytes_def split: prod.splits)

lemma hls_ok_sample: "hls_ok s \<Longrightarrow> hls_ok (take_sample d key dts dur s)"
proof -
  assume ok: "hls_ok s"
  define s' where "s' = hls_trim (s\<lparr>hs_frag_seq := hs_frag_seq s + 1, hs_cur := hs_cur s @ fragment (hs_frag_seq s) dts dur (annexb_to_avcc d) key 1, hs_cur_end := dts + ucast dur\<rparr>)"
  have b: "budget_ok s'" unfolding s'_def using ok by (intro budget_ok_trim) (simp add: hls_ok_def budget_ok_def)
  have "take_sample d key dts dur s = (if annexb_to_avcc d = [] then s
      else if lim_max_bytes (hs_lim s') div 2 < length (hs_cur s') then s'\<lparr>hs_cur := [], hs_cur_open := False, hs_await_key := True\<rparr> else s')"
    by (simp add: take_sample_def Let_def s'_def)
  then show "hls_ok (take_sample d key dts dur s)" using ok b budget_ok_less [OF b] by (auto simp: hls_ok_def not_less)
qed

lemma hls_ok_frame: "hls_ok s \<Longrightarrow> hls_ok (add_frame d key pts s)"
proof -
  assume ok: "hls_ok s"
  obtain dts dur t where t: "timeline_next pts (hs_tl s) = (dts, dur, t)" by (cases "timeline_next pts (hs_tl s)") auto
  define s1 where "s1 = s\<lparr>hs_tl := t\<rparr>"
  define s2 where "s2 = (if key \<and> hs_cur_open s1 \<and> word_of_int (lim_target_ms (hs_lim s1)) \<le> (dts - hs_cur_start s1) * 1000 div 90000 then close_current s1 else s1)"
  define s3 where "s3 = (if hs_cur_open s2 then s2 else s2\<lparr>hs_cur_open := True, hs_cur_start := dts\<rparr>)"
  have "hls_ok s1" using hls_ok_same [OF ok] by (simp add: s1_def)
  then have s2: "hls_ok s2" by (simp add: s2_def hls_ok_close)
  then have "hls_ok s3" using hls_ok_same [OF s2] by (simp add: s3_def)
  then have "hls_ok (take_sample d key dts dur s3)" by (rule hls_ok_sample)
  moreover have "add_frame d key pts s = (if \<not> hs_cur_open s2 \<and> \<not> key then s2 else take_sample d key dts dur s3)"
    by (simp add: add_frame_def t Let_def s1_def s2_def s3_def)
  ultimately show "hls_ok (add_frame d key pts s)" using s2 by simp
qed

lemma hls_ok_feed: "hls_ok s \<Longrightarrow> hls_ok (hls_feed d key pts width height disc s)"
proof -
  assume ok: "hls_ok s"
  define s1 where "s1 = (if disc then s\<lparr>hs_cur := [], hs_cur_open := False, hs_await_key := True\<rparr> else s)"
  define s2 where "s2 = (if key then new_params d width height s1 else s1)"
  define s3 where "s3 = (if key then s2\<lparr>hs_await_key := False\<rparr> else s2)"
  have "hls_ok s1" using hls_ok_same [OF ok, of s1] by (simp add: s1_def)
  then have s2: "hls_ok s2" by (simp add: s2_def hls_ok_params)
  then have s3: "hls_ok s3" using hls_ok_same [OF s2] by (simp add: s3_def)
  have "hls_feed d key pts width height disc s = (if d = [] then s else if key \<and> hs_init s2 = [] then s2 else if hs_await_key s3 \<or> hs_init s3 = [] then s3 else add_frame d key pts s3)"
    unfolding hls_feed_def Let_def s1_def [symmetric] s2_def [symmetric] s3_def [symmetric] ..
  then show "hls_ok (hls_feed d key pts width height disc s)" using ok s2 s3 hls_ok_frame by simp
qed

lemma held_bytes_ok: "hls_ok s \<Longrightarrow> held_bytes s \<le> lim_max_bytes (hs_lim s) + lim_max_bytes (hs_lim s) div 2"
proof -
  assume ok: "hls_ok s"
  let ?m = "lim_max_bytes (hs_lim s)"
  show "held_bytes s \<le> ?m + ?m div 2"
  proof (cases "2 < length (hs_segs s)")
    case True
    then show ?thesis using ok by (simp add: hls_ok_def budget_ok_def trim_more_def held_bytes_def)
  next
    case False
    have "finished_bytes gs \<le> length gs * (?m div 2)" if "list_all (\<lambda>g. length (sg_data g) \<le> ?m div 2) gs" for gs
      using that by (induction gs) (auto simp: finished_bytes_def)
    then have "finished_bytes (hs_segs s) \<le> length (hs_segs s) * (?m div 2)" using ok by (simp add: hls_ok_def budget_ok_def)
    also have "\<dots> \<le> 2 * (?m div 2)" using False by simp
    also have "\<dots> \<le> ?m" by simp
    finally show ?thesis using ok unfolding hls_ok_def held_bytes_def by linarith
  qed
qed

section \<open>The window\<close>

text \<open>The segments of the playlist with their discontinuity numbers: the announced sequence number plus the tags up to and including the segment's own (RFC 8216).\<close>

fun numbered :: "u32 \<Rightarrow> hls_seg list \<Rightarrow> (u32 \<times> hls_seg) list" where
  "numbered n [] = []"
| "numbered n (g # gs) = (let n = (if sg_disc g then n + 1 else n) in (n, g) # numbered n gs)"

definition window :: "segmenter \<Rightarrow> (u32 \<times> hls_seg) list" where
  "window s = numbered (hs_disc_seq s) (hs_segs s)"

lemma length_numbered [simp]: "length (numbered n gs) = length gs"
  by (induction gs arbitrary: n) (simp_all add: Let_def)

lemma numbered_drop: "numbered (n + of_nat (length (filter sg_disc (take k gs)))) (drop k gs) = drop k (numbered n gs)"
proof (induction gs arbitrary: n k)
  case (Cons g gs)
  show ?case
  proof (cases k)
    case (Suc k')
    then show ?thesis using Cons.IH [of "if sg_disc g then n + 1 else n" k'] by (cases "sg_disc g") (simp_all add: Let_def add_ac)
  qed simp
qed simp

lemma numbered_append: "\<exists>n'. numbered n (gs @ [g]) = numbered n gs @ [(n', g)]"
  by (induction gs arbitrary: n) (simp_all add: Let_def)

lemma window_trimmed: "window (trimmed k s) = drop k (window s)"
  by (simp add: window_def trimmed_def numbered_drop)

text \<open>A step appends at most one segment, the next in number, and drops from the front.\<close>

definition slides :: "segmenter \<Rightarrow> segmenter \<Rightarrow> bool" where
  "slides s s' \<longleftrightarrow> (\<exists>new k. length new \<le> 1 \<and> window s' = drop k (window s @ new) \<and> hs_next_seq s' = hs_next_seq s + of_nat (length new)
     \<and> map (sg_seq \<circ> snd) new = map (\<lambda>_. hs_next_seq s) new)"

definition shrinks :: "segmenter \<Rightarrow> segmenter \<Rightarrow> bool" where
  "shrinks s s' \<longleftrightarrow> (\<exists>k. window s' = drop k (window s) \<and> hs_next_seq s' = hs_next_seq s)"

lemma shrinks_slides:
  assumes "shrinks a b" "slides b c" shows "slides a c"
proof -
  obtain k where k: "window b = drop k (window a)" "hs_next_seq b = hs_next_seq a" using assms(1) by (auto simp: shrinks_def)
  obtain new j where c: "length new \<le> 1" "window c = drop j (window b @ new)" "hs_next_seq c = hs_next_seq b + of_nat (length new)"
      "map (sg_seq \<circ> snd) new = map (\<lambda>_. hs_next_seq b) new" using assms(2) by (auto simp: slides_def)
  have "window c = drop (j + min k (length (window a))) (window a @ new)"
    unfolding c(2) k(1) by (simp add: drop_drop [symmetric] min_def del: drop_drop)
  then show ?thesis using c(1,3,4) k(2) unfolding slides_def by (intro exI [of _ new] exI [of _ "j + min k (length (window a))"]) simp
qed

lemma slides_shrinks:
  assumes "slides a b" "shrinks b c" shows "slides a c"
  using assms unfolding slides_def shrinks_def by (metis (no_types, lifting) drop_drop)

lemma shrinks_same: "hs_segs s' = hs_segs s \<Longrightarrow> hs_disc_seq s' = hs_disc_seq s \<Longrightarrow> hs_next_seq s' = hs_next_seq s \<Longrightarrow> shrinks s s'"
  unfolding shrinks_def by (intro exI [of _ 0]) (simp add: window_def)

lemma slides_refl: "slides s s"
  unfolding slides_def by (intro exI [of _ "[]"] exI [of _ 0]) simp

lemma shrinks_trim: "shrinks s (hls_trim s)"
  using hls_trim_trimmed [of s] by (auto simp: shrinks_def window_trimmed)

lemma slides_close: "slides s (close_current s)"
proof (cases "hs_cur_open s \<and> hs_cur s \<noteq> []")
  case True
  let ?g = "\<lparr>sg_seq = hs_next_seq s, sg_dur90k = ucast (hs_cur_end s - hs_cur_start s), sg_data = hs_cur s, sg_disc = hs_pending_disc s\<rparr>"
  let ?s = "s\<lparr>hs_cur_open := False, hs_next_seq := hs_next_seq s + 1, hs_pending_disc := False, hs_segs := hs_segs s @ [?g], hs_cur := []\<rparr>"
  obtain n where "numbered (hs_disc_seq s) (hs_segs s @ [?g]) = window s @ [(n, ?g)]" using numbered_append [of "hs_disc_seq s" "hs_segs s" ?g] unfolding window_def by blast
  then have sl: "slides s ?s" unfolding slides_def by (intro exI [of _ "[(n, ?g)]"] exI [of _ 0]) (simp add: window_def)
  have c: "close_current s = hls_trim ?s" using True by (simp add: close_current_def Let_def)
  show ?thesis unfolding c by (rule slides_shrinks [OF sl shrinks_trim])
next
  case False
  then have "shrinks s (close_current s)" by (intro shrinks_same) (auto simp: close_current_def)
  then show ?thesis by (rule slides_shrinks [OF slides_refl])
qed

lemma shrinks_params: "shrinks s (new_params d width height s)"
proof -
  obtain ok sps pps where e: "extract_params d [] [] = (ok, sps, pps)" by (cases "extract_params d [] []") auto
  show ?thesis
  proof (cases "ok \<and> sps \<noteq> [] \<and> pps \<noteq> [] \<and> (sps \<noteq> hs_sps s \<or> pps \<noteq> hs_pps s) \<and> hs_init s \<noteq> []")
    case True
    then have "window (new_params d width height s) = []" "hs_next_seq (new_params d width height s) = hs_next_seq s"
      by (simp_all add: new_params_def e Let_def window_def)
    then show ?thesis unfolding shrinks_def by (intro exI [of _ "length (window s)"]) simp
  next
    case False
    then show ?thesis by (intro shrinks_same) (auto simp: new_params_def e Let_def)
  qed
qed

lemma shrinks_sample: "shrinks s (take_sample d key dts dur s)"
proof -
  let ?a = "s\<lparr>hs_frag_seq := hs_frag_seq s + 1, hs_cur := hs_cur s @ fragment (hs_frag_seq s) dts dur (annexb_to_avcc d) key 1, hs_cur_end := dts + ucast dur\<rparr>"
  obtain k where "window (hls_trim ?a) = drop k (window s)" using shrinks_trim [of ?a] by (auto simp: shrinks_def window_def)
  then show ?thesis unfolding take_sample_def Let_def
    by (auto simp: shrinks_def window_def intro: exI [of _ 0])
qed

lemma slides_feed: "slides s (hls_feed d key pts width height disc s)"
proof -
  define s1 where "s1 = (if disc then s\<lparr>hs_cur := [], hs_cur_open := False, hs_await_key := True\<rparr> else s)"
  define s2 where "s2 = (if key then new_params d width height s1 else s1)"
  define s3 where "s3 = (if key then s2\<lparr>hs_await_key := False\<rparr> else s2)"
  have frame: "slides a (add_frame d key pts a)" for a
  proof -
    obtain dts dur t where t: "timeline_next pts (hs_tl a) = (dts, dur, t)" by (cases "timeline_next pts (hs_tl a)") auto
    define a1 where "a1 = a\<lparr>hs_tl := t\<rparr>"
    define a2 where "a2 = (if key \<and> hs_cur_open a1 \<and> word_of_int (lim_target_ms (hs_lim a1)) \<le> (dts - hs_cur_start a1) * 1000 div 90000 then close_current a1 else a1)"
    define a3 where "a3 = (if hs_cur_open a2 then a2 else a2\<lparr>hs_cur_open := True, hs_cur_start := dts\<rparr>)"
    have "slides a1 a2" by (simp add: a2_def slides_close slides_refl)
    then have a2: "slides a a2" by (rule shrinks_slides [rotated]) (simp add: a1_def shrinks_same)
    then have "slides a a3" by (rule slides_shrinks) (simp add: a3_def shrinks_same)
    then have "slides a (take_sample d key dts dur a3)" using slides_shrinks shrinks_sample by blast
    moreover have "add_frame d key pts a = (if \<not> hs_cur_open a2 \<and> \<not> key then a2 else take_sample d key dts dur a3)"
      by (simp add: add_frame_def t Let_def a1_def a2_def a3_def)
    ultimately show ?thesis using a2 by simp
  qed
  have s1: "shrinks s s1" by (simp add: s1_def shrinks_same)
  have s2: "slides s s2" using shrinks_slides [OF s1] shrinks_params [of s1] slides_shrinks [OF slides_refl] by (auto simp: s2_def intro: slides_refl)
  then have s3: "slides s s3" by (rule slides_shrinks) (simp add: s3_def shrinks_same)
  have "shrinks s s3"
  proof -
    have "shrinks s1 s3" using shrinks_params [of s1 d width height] by (auto simp: s2_def s3_def shrinks_def window_def intro: exI [of _ 0])
    with s1 show ?thesis by (auto simp: shrinks_def)
  qed
  then have "slides s (add_frame d key pts s3)" using frame shrinks_slides by blast
  moreover have "hls_feed d key pts width height disc s = (if d = [] then s else if key \<and> hs_init s2 = [] then s2 else if hs_await_key s3 \<or> hs_init s3 = [] then s3 else add_frame d key pts s3)"
    unfolding hls_feed_def Let_def s1_def [symmetric] s2_def [symmetric] s3_def [symmetric] ..
  ultimately show ?thesis using s2 s3 slides_refl by simp
qed

lemma window_segs: "map snd (window s) = hs_segs s"
proof -
  have "map snd (numbered n gs) = gs" for n gs by (induction gs arbitrary: n) (simp_all add: Let_def)
  then show ?thesis by (simp add: window_def)
qed

text \<open>Segment numbers are consecutive and end before the next one.\<close>

definition consecutive :: "u64 \<Rightarrow> hls_seg list \<Rightarrow> bool" where
  "consecutive n gs \<longleftrightarrow> map sg_seq gs = map (\<lambda>i. n - of_nat (length gs - i)) [0..<length gs]"

lemma consecutive_nth: "consecutive n gs \<Longrightarrow> i < length gs \<Longrightarrow> sg_seq (gs ! i) = n - of_nat (length gs - i)"
  unfolding consecutive_def by (metis (no_types, lifting) add.left_neutral diff_zero length_map length_upt nth_map nth_upt)

lemma consecutive_drop: "consecutive n gs \<Longrightarrow> consecutive n (drop k gs)"
  using consecutive_nth [of n gs] unfolding consecutive_def by (intro nth_equalityI) (auto simp: diff_diff_left)

lemma consecutive_snoc: "consecutive n gs \<Longrightarrow> sg_seq g = n \<Longrightarrow> consecutive (n + 1) (gs @ [g])"
  using consecutive_nth [of n gs] unfolding consecutive_def by (intro nth_equalityI) (auto simp: nth_append less_Suc_eq Suc_diff_le)

lemma slides_consecutive:
  assumes "slides s s'" "consecutive (hs_next_seq s) (hs_segs s)" shows "consecutive (hs_next_seq s') (hs_segs s')"
proof -
  obtain new k where n: "length new \<le> 1" "window s' = drop k (window s @ new)" "hs_next_seq s' = hs_next_seq s + of_nat (length new)"
      "map (sg_seq \<circ> snd) new = map (\<lambda>_. hs_next_seq s) new" using assms(1) by (auto simp: slides_def)
  have segs: "hs_segs s' = drop k (hs_segs s @ map snd new)" using arg_cong [OF n(2), of "map snd"] by (simp add: window_segs drop_map [symmetric] del: drop_append)
  have "consecutive (hs_next_seq s') (hs_segs s @ map snd new)"
  proof (cases new)
    case (Cons g gs)
    then show ?thesis using n assms(2) by (simp add: consecutive_snoc)
  qed (use n(3) assms(2) in simp)
  then show ?thesis unfolding segs by (rule consecutive_drop)
qed

section \<open>Names\<close>

lemma name_middle_made: "ds \<noteq> [] \<Longrightarrow> name_middle pre suf (pre @ ds @ suf) = Some ds"
  by (cases ds) (simp_all add: name_middle_def)

lemma foldl_word: "foldl (\<lambda>v c. v * 10 + word_of_nat (digit_val c)) (word_of_nat a) ds = (word_of_nat (foldl (\<lambda>a c. a * 10 + digit_val c) a ds) :: 'a::len word)"
proof (induction ds arbitrary: a)
  case (Cons c ds)
  from Cons.IH [of "a * 10 + digit_val c"] show ?case by simp
qed simp

lemma length_nat_dec: "n < 10 ^ k \<Longrightarrow> 0 < k \<Longrightarrow> length (nat_dec n) \<le> k"
proof (induction k arbitrary: n)
  case (Suc k)
  show ?case
  proof (cases "n < 10")
    case False
    have "n div 10 < 10 ^ k" using Suc.prems by simp
    moreover from this False have "0 < k" by (cases k) auto
    ultimately show ?thesis using Suc.IH [of "n div 10"] False by (simp add: nat_dec.simps [of n])
  qed (simp add: nat_dec.simps [of n])
qed simp

lemma segment_name_read: "parse_segment_name (seg_name n) = Some n"
proof -
  have "unat n < 2 ^ 64" using unsigned_less [of n, where 'a = nat] by simp
  then have "length (nat_dec (unat n)) \<le> 20" by (intro length_nat_dec) simp_all
  moreover have "foldl (\<lambda>v c. v * 10 + word_of_nat (digit_val c)) 0 (nat_dec (unat n)) = n"
    using foldl_word [of 0 "nat_dec (unat n)", where 'a = 64] dec_nat_nat_dec [of "unat n"] by (simp add: dec_nat_def)
  ultimately have "(name_number 20 (nat_dec (unat n)) :: u64 option) = Some n" by (simp add: name_number_def)
  moreover have "name_middle ''seg'' ''.m4s'' (seg_name n) = Some (nat_dec (unat n))" unfolding seg_name_def by (rule name_middle_made) simp
  ultimately show ?thesis unfolding parse_segment_name_def by simp
qed

section \<open>Properties\<close>

text \<open>A sequence of frames fed to a new segmenter.\<close>

type_synonym frame_in = "byte list \<times> bool \<times> int \<times> int \<times> int \<times> bool"

definition hls_run :: "hls_limits \<Rightarrow> frame_in list \<Rightarrow> segmenter" where
  "hls_run l fs = fold (\<lambda>(d, key, pts, width, height, disc). hls_feed d key pts width height disc) fs (segmenter_new l)"

lemma hls_run_induct:
  assumes "P (segmenter_new l)" "\<And>s d key pts width height disc. P s \<Longrightarrow> P (hls_feed d key pts width height disc s)" shows "P (hls_run l fs)"
proof -
  have "P s \<Longrightarrow> P (fold (\<lambda>(d, key, pts, width, height, disc). hls_feed d key pts width height disc) fs s)" for s
    by (induction fs arbitrary: s) (auto intro: assms(2))
  with assms(1) show ?thesis by (simp add: hls_run_def)
qed

lemma hls_ok_new: "hls_ok (segmenter_new l)"
  by (simp add: hls_ok_def budget_ok_def trim_more_def segmenter_new_def)

lemma hls_feed_lim: "hs_lim (hls_feed d key pts width height disc s) = hs_lim s"
proof -
  have c: "hs_lim (close_current a) = hs_lim a" for a by (simp add: close_current_def Let_def)
  have n: "hs_lim (new_params d width height a) = hs_lim a" for a by (simp add: new_params_def Let_def split: prod.splits)
  have t: "hs_lim (take_sample d key dts dur a) = hs_lim a" for dts dur a by (simp add: take_sample_def Let_def)
  have "hs_lim (add_frame d key pts a) = hs_lim a" for a by (simp add: add_frame_def Let_def t c split: prod.splits)
  then show ?thesis by (simp add: hls_feed_def Let_def n)
qed

lemma hls_run_lim: "hs_lim (hls_run l fs) = l"
  by (rule hls_run_induct) (simp_all add: hls_feed_lim, simp add: segmenter_new_def)

text \<open>C28: Memory is bounded. Whatever frames come, of whatever size and with whatever losses, after each of them the segmenter holds at most one and a half times its byte budget, the segment in progress included, and at most the
  configured number of finished segments.\<close>

theorem hls_memory_bounded:
  "held_bytes (hls_run l fs) \<le> lim_max_bytes l + lim_max_bytes l div 2 \<and> length (hs_segs (hls_run l fs)) \<le> lim_max_segments l"
proof -
  have ok: "hls_ok (hls_run l fs)" by (rule hls_run_induct) (simp_all add: hls_ok_new hls_ok_feed)
  then have "length (hs_segs (hls_run l fs)) \<le> lim_max_segments l" by (simp add: hls_ok_def budget_ok_def trim_more_def hls_run_lim not_less)
  then show ?thesis using held_bytes_ok [OF ok] by (simp add: hls_run_lim)
qed

text \<open>C29: The playlist only slides. With every frame the window loses segments at its front and gains at most one at its end, which has the next number; each segment that stays keeps its number, its bytes, its duration and its
  discontinuity number, although the announced discontinuity sequence changes, and through changes of the parameter sets.\<close>

theorem hls_window_slides:
  "\<exists>new k. length new \<le> 1 \<and> window (hls_feed d key pts width height disc s) = drop k (window s @ new)
     \<and> hs_next_seq (hls_feed d key pts width height disc s) = hs_next_seq s + of_nat (length new) \<and> map (sg_seq \<circ> snd) new = map (\<lambda>_. hs_next_seq s) new"
  using slides_feed unfolding slides_def .

text \<open>What the playlist lists is served. At any time, the name of a listed segment leads to that segment's bytes.\<close>

theorem hls_listed_is_served:
  assumes "lim_max_segments l < 2 ^ 64" "g \<in> set (hs_segs (hls_run l fs))"
  shows "Option.bind (parse_segment_name (seg_name (sg_seq g))) (\<lambda>n. hls_segment n (hls_run l fs)) = Some (sg_data g)"
proof -
  let ?s = "hls_run l fs"
  let ?n = "length (hs_segs ?s)"
  have c: "consecutive (hs_next_seq ?s) (hs_segs ?s)"
    by (rule hls_run_induct [where P = "\<lambda>s. consecutive (hs_next_seq s) (hs_segs s)"])
      (simp add: segmenter_new_def consecutive_def, rule slides_consecutive [OF slides_feed])
  have "hls_ok ?s" by (rule hls_run_induct) (simp_all add: hls_ok_new hls_ok_feed)
  then have n: "?n < 2 ^ 64" using assms(1) by (simp add: hls_ok_def budget_ok_def trim_more_def hls_run_lim not_less)
  have "i = j" if "i < ?n" "j < ?n" "sg_seq (hs_segs ?s ! i) = sg_seq (hs_segs ?s ! j)" for i j
  proof -
    have "(of_nat (?n - i) :: u64) = of_nat (?n - j)" using that consecutive_nth [OF c] by simp
    then have "?n - i = ?n - j" using n that(1,2) by (simp add: word_of_nat_eq_iff take_bit_nat_eq_self)
    then show ?thesis using that(1,2) by simp
  qed
  then have d: "distinct (map sg_seq (hs_segs ?s))" by (auto simp: distinct_conv_nth)
  have "find (\<lambda>h. sg_seq h = sg_seq g) gs = Some g" if "distinct (map sg_seq gs)" "g \<in> set gs" for gs
    using that by (induction gs) (auto simp: rev_image_eqI)
  then show ?thesis using d assms(2) by (simp add: segment_name_read hls_segment_def)
qed

definition key_unit :: "byte list" where
  "key_unit = [0, 0, 0, 1, 0x67, 0x42, 0, 0x1e, 0, 0, 1, 0x68, 0xce, 0, 0, 1, 0x65, 0x88]"

definition params_unit :: "byte list" where
  "params_unit = [0, 0, 0, 1, 0x67, 0x42, 0, 0x1e, 0, 0, 1, 0x68, 0xce]"

definition slice_unit :: "byte list" where
  "slice_unit = [0, 0, 0, 1, 0x41, 0x9a]"

lemma unit_facts:
  "extract_params key_unit [] [] = (True, [0x67, 0x42, 0, 0x1e], [0x68, 0xce])" "annexb_to_avcc key_unit = [0, 0, 0, 2, 0x65, 0x88]" "key_unit \<noteq> []"
  "extract_params params_unit [] [] = (True, [0x67, 0x42, 0, 0x1e], [0x68, 0xce])" "annexb_to_avcc params_unit = []" "params_unit \<noteq> []"
  "annexb_to_avcc slice_unit = [0, 0, 0, 2, 0x41, 0x9a]" "slice_unit \<noteq> []"
  by code_simp+

lemma init_segment_not_Nil: "init_segment sps pps width height timescale None \<noteq> []"
proof -
  have "appends (video_trak sps pps width height timescale)"
    using video_trak_box [of sps pps width height timescale] by (auto simp: appends_def)
  then show ?thesis by (simp add: init_segment_def run_all_content ftyp_box_def in_box_content box_def)
qed

lemma length_fragment [simp]: "length (fragment n dts dur sample key tid) = 108 + length sample"
  by (simp add: fragment_boxes trun_fields_def)

lemma fragment_not_Nil: "fragment n dts dur sample key tid \<noteq> []"
  using length_fragment [of n dts dur sample key tid] by (metis add_is_0 list.size(3) zero_neq_numeral)

lemma hls_trim_id: "\<not> trim_more s \<Longrightarrow> hls_trim s = s"
  by (simp add: hls_trim.simps)

lemmas hls_eval = hls_run_def hls_feed_def Let_def new_params_def unit_facts add_frame_def segmenter_new_def timeline_next_def timeline0_def ticks_def
  MIN_STEP_US_def MAX_STEP_US_def FALLBACK_STEP_US_def take_sample_def hls_trim_id trim_more_def finished_bytes_def close_current_def fragment_not_Nil init_segment_not_Nil

theorem hls_listed_is_served_witness:
  "\<exists>g. hs_segs (hls_run \<lparr>lim_target_ms = 20, lim_max_segments = 4, lim_max_bytes = 6291456\<rparr> [(key_unit, True, 1000, 640, 360, False), (key_unit, True, 101000, 640, 360, False)]) = [g]
     \<and> Option.bind (parse_segment_name (seg_name (sg_seq g))) (\<lambda>n. hls_segment n (hls_run \<lparr>lim_target_ms = 20, lim_max_segments = 4, lim_max_bytes = 6291456\<rparr>
          [(key_unit, True, 1000, 640, 360, False), (key_unit, True, 101000, 640, 360, False)])) = Some (sg_data g)"
proof -
  let ?fs = "[(key_unit, True, 1000, 640, 360, False), (key_unit, True, 101000, 640, 360, False)]"
  let ?l = "\<lparr>lim_target_ms = 20, lim_max_segments = 4, lim_max_bytes = 6291456\<rparr>"
  have "length (hs_segs (hls_run ?l ?fs)) = 1" by (simp add: hls_eval)
  then obtain g where g: "hs_segs (hls_run ?l ?fs) = [g]" by (auto simp: length_Suc_conv)
  then show ?thesis using hls_listed_is_served [of ?l g ?fs] by simp
qed

text \<open>The comment says that a segment starts on a key frame. A key unit that has the parameter sets and no picture opens a segment and adds nothing to it; the next frame, which is no key frame, becomes the first of the segment.\<close>

lemma segment_starts_without_key:
  "let s = hls_run hls_limits0 [(params_unit, True, 1000, 640, 360, False), (slice_unit, False, 51000, 640, 360, False)]
   in hs_cur_open s \<and> hs_cur s = fragment 1 4500 4500 [0, 0, 0, 2, 0x41, 0x9a] False 1"
  by (simp add: hls_eval hls_limits0_def)

end
