(* ===== verification/Watchdog.thy ===== *)
theory Watchdog
  imports Core_Result
begin

text \<open>
  The hardware watchdog (\<^verbatim>\<open>app/watchdog.cpp\<close>, \<^verbatim>\<open>app/watchdog.hpp\<close>). The device is a port: what it answers is an argument of the operation and what it is asked
  is in the operation's result. The main loop's heartbeats and the feeder's ticks come from two threads and every operation holds the mutex, so that a history is a sequence of
  them in the order in which they took it. Counters keep their 64 bits. Times are milliseconds of a monotonic clock, and the configuration bounds the timeout to 300 seconds, so that
  neither leaves the range of its type; both are integers here.
\<close>

record watchdog =
  wd_timeout_s :: int
  wd_feed_ms :: int
  wd_epoch :: u64
  wd_fed_at_epoch :: u64
  wd_feeds :: u64
  wd_skipped :: u64
  wd_feed_errors :: u64
  wd_open_errors :: u64
  wd_next_due_ms :: int
  wd_last_feed_ms :: int
  wd_open :: bool
  wd_ever_opened :: bool
  wd_effective_timeout_s :: int
  wd_warned_feed :: bool
  wd_on_stall :: bool
  wd_stall_after_ms :: int
  wd_stall_reported :: bool

record watchdog_stats =
  ws_available :: bool
  ws_enabled :: bool
  ws_timeout_s :: int
  ws_feeds :: u64
  ws_skipped :: u64
  ws_feed_errors :: u64
  ws_open_errors :: u64
  ws_health_epoch :: u64
  ws_last_feed_age_ms :: int

text \<open>The calls of the device and of the stall handler.\<close>

datatype wd_call = DevOpen bool | DevSetTimeout int | DevFeed bool | DevClose bool | StallHandler

definition watchdog_new :: "int \<Rightarrow> int \<Rightarrow> watchdog" where
  "watchdog_new timeout_s feed_interval_ms =
     (let timeout_s = (if timeout_s < 1 then 1 else timeout_s);
          feed_ms = (if feed_interval_ms > 0 then feed_interval_ms else (timeout_s * 1000) div 3);
          feed_ms = (if feed_ms < 100 then 100 else feed_ms)
      in \<lparr>wd_timeout_s = timeout_s, wd_feed_ms = feed_ms, wd_epoch = 0, wd_fed_at_epoch = 0, wd_feeds = 0, wd_skipped = 0,
          wd_feed_errors = 0, wd_open_errors = 0, wd_next_due_ms = 0, wd_last_feed_ms = -1, wd_open = False,
          wd_ever_opened = False, wd_effective_timeout_s = 0, wd_warned_feed = False, wd_on_stall = False,
          wd_stall_after_ms = feed_ms * 2, wd_stall_reported = False\<rparr>)"

text \<open>
  Opening arms the device. \<open>opened\<close> is whether it did, \<open>took\<close> the timeout the driver took when it accepted the request, and \<open>fed\<close> its answer to the first feed.
\<close>

definition wd_start :: "int \<Rightarrow> bool \<Rightarrow> int option \<Rightarrow> bool \<Rightarrow> watchdog \<Rightarrow> result \<times> wd_call list \<times> watchdog" where
  "wd_start now opened took fed w =
     (if wd_open w then (result_ok, [], w)
      else if \<not> opened then (result_unsupported, [DevOpen False], w\<lparr>wd_open_errors := wd_open_errors w + 1\<rparr>)
      else let w = w\<lparr>wd_open := True, wd_ever_opened := True, wd_effective_timeout_s := (case took of Some eff \<Rightarrow> eff | None \<Rightarrow> wd_timeout_s w)\<rparr>;
               w = (if fed then w\<lparr>wd_feeds := wd_feeds w + 1, wd_last_feed_ms := now\<rparr> else w)
           in (result_ok, [DevOpen True, DevSetTimeout (wd_timeout_s w), DevFeed fed],
               w\<lparr>wd_fed_at_epoch := wd_epoch w, wd_next_due_ms := now + wd_feed_ms w\<rparr>))"

definition wd_stop :: "watchdog \<Rightarrow> wd_call list \<times> watchdog" where
  "wd_stop w = (if \<not> wd_open w then ([], w) else ([DevClose True], w\<lparr>wd_open := False\<rparr>))"

definition heartbeat :: "watchdog \<Rightarrow> watchdog" where
  "heartbeat w = w\<lparr>wd_epoch := wd_epoch w + 1\<rparr>"

definition set_stall_handler :: "int \<Rightarrow> watchdog \<Rightarrow> watchdog" where
  "set_stall_handler stall_after_ms w =
     (let w = w\<lparr>wd_on_stall := True\<rparr> in if stall_after_ms > 0 then w\<lparr>wd_stall_after_ms := stall_after_ms\<rparr> else w)"

text \<open>The feeder's tick; \<open>fed\<close> is the device's answer when it is fed.\<close>

definition wd_tick :: "int \<Rightarrow> bool \<Rightarrow> watchdog \<Rightarrow> bool \<times> wd_call list \<times> watchdog" where
  "wd_tick now fed w =
     (if \<not> wd_open w then (False, [], w)
      else if now < wd_next_due_ms w then (False, [], w)
      else let w = w\<lparr>wd_next_due_ms := now + wd_feed_ms w\<rparr>
           in if wd_epoch w = wd_fed_at_epoch w
              then let w = w\<lparr>wd_skipped := wd_skipped w + 1\<rparr>;
                       age = (if wd_last_feed_ms w < 0 then -1 else now - wd_last_feed_ms w)
                   in if wd_on_stall w \<and> \<not> wd_stall_reported w \<and> wd_stall_after_ms w \<le> age
                      then (False, [StallHandler], w\<lparr>wd_stall_reported := True\<rparr>)
                      else (False, [], w)
              else let w = w\<lparr>wd_fed_at_epoch := wd_epoch w\<rparr>
                   in if \<not> fed then (False, [DevFeed False], w\<lparr>wd_feed_errors := wd_feed_errors w + 1, wd_warned_feed := True\<rparr>)
                      else (True, [DevFeed True], w\<lparr>wd_feeds := wd_feeds w + 1, wd_last_feed_ms := now, wd_stall_reported := False\<rparr>))"

definition wd_stats :: "int \<Rightarrow> watchdog \<Rightarrow> watchdog_stats" where
  "wd_stats now w =
     \<lparr>ws_available = wd_ever_opened w, ws_enabled = wd_open w, ws_timeout_s = wd_effective_timeout_s w, ws_feeds = wd_feeds w,
      ws_skipped = wd_skipped w, ws_feed_errors = wd_feed_errors w, ws_open_errors = wd_open_errors w, ws_health_epoch = wd_epoch w,
      ws_last_feed_age_ms = (if wd_last_feed_ms w < 0 then -1 else now - wd_last_feed_ms w)\<rparr>"

section \<open>Histories\<close>

text \<open>
  A history is what the two threads do while the device is open: the main loop's heartbeats and the feeder's ticks, each with its time. The log holds the calls with the time at
  which they were made.
\<close>

datatype wd_event = LoopBeat int | FeederTick int bool

fun wd_step :: "wd_event \<Rightarrow> watchdog \<Rightarrow> (int \<times> wd_call) list \<times> watchdog" where
  "wd_step (LoopBeat t) w = ([], heartbeat w)"
| "wd_step (FeederTick t fed) w = (case wd_tick t fed w of (_, cs, w') \<Rightarrow> (map (Pair t) cs, w'))"

fun wd_run :: "wd_event list \<Rightarrow> watchdog \<Rightarrow> (int \<times> wd_call) list \<times> watchdog" where
  "wd_run [] w = ([], w)"
| "wd_run (e # es) w = (case wd_step e w of (l, w') \<Rightarrow> case wd_run es w' of (l', w'') \<Rightarrow> (l @ l', w''))"

fun is_beat :: "wd_event \<Rightarrow> bool" where
  "is_beat (LoopBeat t) = True"
| "is_beat (FeederTick t fed) = False"

definition wd_device_feeds :: "(int \<times> wd_call) list \<Rightarrow> int list" where
  "wd_device_feeds l = map fst (filter (\<lambda>(t, c). c = DevFeed True \<or> c = DevFeed False) l)"

definition wd_stalls :: "(int \<times> wd_call) list \<Rightarrow> int list" where
  "wd_stalls l = map fst (filter (\<lambda>(t, c). c = StallHandler) l)"

text \<open>The clock does not go back, and the feeder never sleeps longer than \<open>g\<close>.\<close>

fun paced :: "int \<Rightarrow> int \<Rightarrow> int \<Rightarrow> wd_event list \<Rightarrow> bool" where
  "paced g now lt [] \<longleftrightarrow> True"
| "paced g now lt (LoopBeat t # es) \<longleftrightarrow> now \<le> t \<and> t \<le> lt + g \<and> paced g t lt es"
| "paced g now lt (FeederTick t fed # es) \<longleftrightarrow> now \<le> t \<and> t \<le> lt + g \<and> paced g t t es"

fun tick_times :: "wd_event list \<Rightarrow> int list" where
  "tick_times [] = []"
| "tick_times (LoopBeat t # es) = tick_times es"
| "tick_times (FeederTick t fed # es) = t # tick_times es"

text \<open>The state right after a feed at \<open>F\<close>: the loop has not moved since.\<close>

definition just_fed :: "int \<Rightarrow> watchdog \<Rightarrow> bool" where
  "just_fed F w \<longleftrightarrow> wd_open w \<and> wd_epoch w = wd_fed_at_epoch w \<and> wd_last_feed_ms w = F \<and> 0 \<le> F \<and>
     wd_next_due_ms w = F + wd_feed_ms w \<and> 0 < wd_feed_ms w"

lemma wd_run_append: "wd_run (es @ es') w =
  (case wd_run es w of (l, w') \<Rightarrow> case wd_run es' w' of (l', w'') \<Rightarrow> (l @ l', w''))"
  by (induction es arbitrary: w) (simp_all split: prod.splits)

lemma wd_run_append_parts: "fst (wd_run (es @ es') w) = fst (wd_run es w) @ fst (wd_run es' (snd (wd_run es w)))"
  "snd (wd_run (es @ es') w) = snd (wd_run es' (snd (wd_run es w)))"
  by (simp_all add: wd_run_append split: prod.splits)

lemma wd_device_feeds_append [simp]: "wd_device_feeds (l @ l') = wd_device_feeds l @ wd_device_feeds l'"
  by (simp add: wd_device_feeds_def)

lemma wd_stalls_append [simp]: "wd_stalls (l @ l') = wd_stalls l @ wd_stalls l'"
  by (simp add: wd_stalls_def)

lemma wd_stalls_Cons [simp]: "wd_stalls ((t, c) # l) = (if c = StallHandler then t # wd_stalls l else wd_stalls l)"
  by (simp add: wd_stalls_def)

lemma wd_log_Nil [simp]: "wd_device_feeds [] = []" "wd_stalls [] = []"
  by (simp_all add: wd_device_feeds_def wd_stalls_def)


section \<open>Due ticks\<close>

lemma wd_run_Cons: "wd_run (e # es) w =
  (fst (wd_step e w) @ fst (wd_run es (snd (wd_step e w))), snd (wd_run es (snd (wd_step e w))))"
  by (simp split: prod.splits)

declare wd_run.simps(2) [simp del]
declare wd_run_Cons [simp]

text \<open>What a history that contains no due tick does: it counts heartbeats.\<close>

definition beats :: "wd_event list \<Rightarrow> nat" where
  "beats es = length (filter is_beat es)"

lemma beats_simps [simp]: "beats [] = 0" "beats (LoopBeat t # es) = Suc (beats es)" "beats (FeederTick t fed # es) = beats es"
  "beats (es @ es') = beats es + beats es'"
  by (simp_all add: beats_def)

definition before :: "int \<Rightarrow> wd_event list \<Rightarrow> bool" where
  "before d es \<longleftrightarrow> (\<forall>t\<in>set (tick_times es). t < d)"

lemma before_simps [simp]: "before d []" "before d (LoopBeat t # es) \<longleftrightarrow> before d es" "before d (FeederTick t fed # es) \<longleftrightarrow> t < d \<and> before d es"
  by (auto simp: before_def)

lemma wd_run_before: "before (wd_next_due_ms w) es \<Longrightarrow> wd_run es w = ([], w\<lparr>wd_epoch := wd_epoch w + of_nat (beats es)\<rparr>)"
proof (induction es arbitrary: w)
  case Nil
  then show ?case by simp
next
  case (Cons e es)
  then show ?case
    by (cases e) (simp_all add: heartbeat_def wd_tick_def add.assoc)
qed

lemma paced_sleep: "paced g t t es \<Longrightarrow> u \<in> set (tick_times es) \<Longrightarrow> 0 \<le> g"
  by (cases "(g, t, t, es)" rule: paced.cases) auto

text \<open>The next tick that is due is the first one at or after the deadline, and it comes within one sleep of the feeder.\<close>

lemma due_tick:
  assumes "paced g now lt es" "lt < d" "\<exists>t\<in>set (tick_times es). d \<le> t"
  obtains es1 t fed es2 where "es = es1 @ FeederTick t fed # es2" "before d es1" "d \<le> t" "t < d + g" "paced g t t es2"
    "list_all (\<lambda>e. case e of LoopBeat t' \<Rightarrow> t' \<le> t | FeederTick t' _ \<Rightarrow> t' \<le> t) es1"
proof -
  have "\<exists>es1 t fed es2. es = es1 @ FeederTick t fed # es2 \<and> before d es1 \<and> d \<le> t \<and> t < d + g \<and> paced g t t es2 \<and> now \<le> t \<and>
      list_all (\<lambda>e. case e of LoopBeat t' \<Rightarrow> t' \<le> t | FeederTick t' _ \<Rightarrow> t' \<le> t) es1"
    using assms
  proof (induction g now lt es rule: paced.induct)
    case (1 g now lt)
    then show ?case by simp
  next
    case (2 g now lt b es)
    then obtain es1 t fed es2 where "es = es1 @ FeederTick t fed # es2" "before d es1" "d \<le> t" "t < d + g" "paced g t t es2" "b \<le> t" "now \<le> b"
      "list_all (\<lambda>e. case e of LoopBeat t' \<Rightarrow> t' \<le> t | FeederTick t' _ \<Rightarrow> t' \<le> t) es1"
      by auto
    then show ?case by (intro exI [of _ "LoopBeat b # es1"] exI [of _ t] exI [of _ fed] exI [of _ es2]) simp
  next
    case (3 g now lt t fed es)
    show ?case
    proof (cases "d \<le> t")
      case True
      with 3 show ?thesis by (intro exI [of _ "[]"] exI [of _ t] exI [of _ fed] exI [of _ es]) simp
    next
      case False
      with 3 obtain es1 t' fed' es2 where "es = es1 @ FeederTick t' fed' # es2" "before d es1" "d \<le> t'" "t' < d + g" "paced g t' t' es2" "t \<le> t'" "now \<le> t"
        "list_all (\<lambda>e. case e of LoopBeat u \<Rightarrow> u \<le> t' | FeederTick u _ \<Rightarrow> u \<le> t') es1"
        by auto
      with False show ?thesis by (intro exI [of _ "FeederTick t fed # es1"] exI [of _ t'] exI [of _ fed'] exI [of _ es2]) simp
    qed
  qed
  then show thesis using that by blast
qed

section \<open>A loop that hangs\<close>

lemma quiet_tick:
  assumes "wd_epoch w = wd_fed_at_epoch w"
  shows "wd_device_feeds (fst (wd_step (FeederTick t fed) w)) = []" "wd_epoch (snd (wd_step (FeederTick t fed) w)) = wd_epoch w"
    "wd_fed_at_epoch (snd (wd_step (FeederTick t fed) w)) = wd_fed_at_epoch w"
  using assms by (simp_all add: wd_tick_def Let_def wd_device_feeds_def)

lemma quiet_run:
  "wd_epoch w = wd_fed_at_epoch w \<Longrightarrow> beats es = 0 \<Longrightarrow> wd_device_feeds (fst (wd_run es w)) = []"
proof (induction es arbitrary: w)
  case Nil
  then show ?case by simp
next
  case (Cons e es)
  then show ?case by (cases e) (simp_all add: quiet_tick del: wd_step.simps)
qed

text \<open>C33: 
  A main loop that has stopped is never kept alive by the feeder: without a heartbeat the feeder writes to the device at most once more, for progress made before the hang, and never
  when it has already fed for that. This holds for any timing of the ticks and any answers of the device.
\<close>

theorem hung_loop_is_not_fed:
  assumes "\<forall>e\<in>set es. \<not> is_beat e"
  shows "length (wd_device_feeds (fst (wd_run es w))) \<le> (if wd_epoch w = wd_fed_at_epoch w then 0 else 1)"
proof -
  have b: "beats es = 0" using assms by (simp add: beats_def filter_empty_conv)
  then have "length (wd_device_feeds (fst (wd_run es w))) \<le> 1" for w
  proof (induction es arbitrary: w)
    case Nil
    then show ?case by simp
  next
    case (Cons e es)
    then obtain t fed where e: "e = FeederTick t fed" and es: "beats es = 0" by (cases e) simp_all
    show ?case
    proof (cases "wd_device_feeds (fst (wd_step e w)) = []")
      case True
      with Cons.IH [OF es] show ?thesis by simp
    next
      case False
      then have "wd_epoch (snd (wd_step e w)) = wd_fed_at_epoch (snd (wd_step e w))" "length (wd_device_feeds (fst (wd_step e w))) = 1"
        by (auto simp: e wd_tick_def Let_def wd_device_feeds_def split: if_splits)
      with quiet_run [OF _ es] show ?thesis by simp
    qed
  qed
  with quiet_run [OF _ b] show ?thesis by simp
qed


theorem hung_loop_is_not_fed_witness:
  "length (wd_device_feeds (fst (wd_run [FeederTick 400 True, FeederTick 800 True] (heartbeat ((watchdog_new 1 0)\<lparr>wd_open := True\<rparr>))))) \<le> 1"
  using hung_loop_is_not_fed [of "[FeederTick 400 True, FeederTick 800 True]" "heartbeat ((watchdog_new 1 0)\<lparr>wd_open := True\<rparr>)"]
  by (simp add: heartbeat_def watchdog_new_def)

lemma started_just_fed:
  assumes "0 \<le> now" "\<not> wd_open w" "0 < wd_feed_ms w"
  shows "just_fed now (snd (snd (wd_start now True took True w)))"
  using assms by (simp add: wd_start_def just_fed_def Let_def)

lemma fed_tick_just_fed:
  assumes "fst (wd_tick now True w)" "0 \<le> now" "0 < wd_feed_ms w"
  shows "just_fed now (snd (snd (wd_tick now True w)))"
  using assms by (auto simp: wd_tick_def just_fed_def Let_def split: if_splits)

text \<open>The state of a feeder that waits for the loop: what every quiet tick keeps.\<close>

definition waiting :: "int \<Rightarrow> watchdog \<Rightarrow> bool" where
  "waiting lt w \<longleftrightarrow> wd_open w \<and> wd_epoch w = wd_fed_at_epoch w \<and> 0 < wd_feed_ms w \<and> lt < wd_next_due_ms w \<and> wd_next_due_ms w \<le> lt + wd_feed_ms w"

lemma just_fed_waiting: "just_fed F w \<Longrightarrow> waiting F w"
  by (simp add: just_fed_def waiting_def)

lemma waiting_tick:
  assumes "waiting lt w" "lt \<le> t"
  shows "waiting t (snd (wd_step (FeederTick t fed) w))" "wd_feed_ms (snd (wd_step (FeederTick t fed) w)) = wd_feed_ms w"
  using assms by (auto simp: waiting_def wd_tick_def Let_def)

lemma waiting_prefix:
  assumes "paced g now lt (es @ r)" "beats es = 0" "waiting lt w" "lt \<le> now"
  shows "\<exists>now' lt'. paced g now' lt' r \<and> lt \<le> lt' \<and> lt' \<le> now' \<and> waiting lt' (snd (wd_run es w)) \<and>
    wd_feed_ms (snd (wd_run es w)) = wd_feed_ms w \<and> (\<forall>t\<in>set (tick_times es). t \<le> lt')"
  using assms
proof (induction es arbitrary: now lt w)
  case Nil
  then show ?case by auto
next
  case (Cons e es)
  then obtain t fed where e: "e = FeederTick t fed" and es: "beats es = 0" by (cases e) simp_all
  have t: "lt \<le> t" "paced g t t (es @ r)" using Cons.prems by (simp_all add: e)
  note w = waiting_tick [OF Cons.prems(3) t(1), of fed]
  from Cons.IH [OF t(2) es w(1) order_refl] w(2) t(1) show ?case by (fastforce simp: e simp del: wd_step.simps)
qed

lemma first_beat:
  assumes "LoopBeat b \<in> set es"
  obtains es1 b' es2 where "es = es1 @ LoopBeat b' # es2" "beats es1 = 0" "LoopBeat b \<in> set (LoopBeat b' # es2)"
proof -
  have "\<exists>x\<in>set es. is_beat x" using assms by (auto intro!: bexI [of _ "LoopBeat b"])
  then obtain es1 e es2 where e: "es = es1 @ e # es2" "is_beat e" "\<forall>x\<in>set es1. \<not> is_beat x"
    by (elim split_list_first_propE)
  from e(2) obtain b' where b': "e = LoopBeat b'" by (cases e) simp_all
  have "LoopBeat b \<notin> set es1" using e(3) by fastforce
  with e(1) assms have "LoopBeat b \<in> set (LoopBeat b' # es2)" by (simp add: b')
  moreover have "beats es1 = 0" using e(3) by (simp add: beats_def filter_empty_conv)
  ultimately show thesis using that e(1) b' by blast
qed

lemma paced_beat_later: "paced g now lt es \<Longrightarrow> LoopBeat b \<in> set es \<Longrightarrow> now \<le> b"
  by (induction g now lt es rule: paced.induct) auto

lemma tick_times_append [simp]: "tick_times (es @ es') = tick_times es @ tick_times es'"
  by (induction es rule: tick_times.induct) simp_all

lemma beats_le_length: "beats es \<le> length es"
  by (simp add: beats_def)

text \<open>C32: 
  A loop that lives is fed in time. When the main loop moves within \<open>h\<close> of the last feed and the feeder never sleeps longer than \<open>g\<close>, the device is written to within
  \<open>h\<close> plus one interval plus \<open>g\<close>, however the heartbeats and the ticks interleave; the 64-bit counter of the heartbeats may wrap.
\<close>

theorem live_loop_is_fed:
  assumes "just_fed F w" "paced g F F es" "length es < 2 ^ 64"
    and "LoopBeat b \<in> set es" "b \<le> F + h"
    and "t \<in> set (tick_times es)" "F + h + wd_feed_ms w \<le> t"
  shows "\<exists>t\<in>set (wd_device_feeds (fst (wd_run es w))). F < t \<and> t < F + h + wd_feed_ms w + g"
proof -
  obtain es1 b' es2 where es: "es = es1 @ LoopBeat b' # es2" "beats es1 = 0" "LoopBeat b \<in> set (LoopBeat b' # es2)"
    by (rule first_beat [OF assms(4)])
  define w1 where "w1 = snd (wd_run es1 w)"
  from waiting_prefix [of g F F es1 "LoopBeat b' # es2" w] assms(1,2) es(1,2)
  obtain now' lt' where p: "paced g now' lt' (LoopBeat b' # es2)" "F \<le> lt'" "lt' \<le> now'" and w1: "waiting lt' w1" "wd_feed_ms w1 = wd_feed_ms w"
      and ticks: "\<forall>t\<in>set (tick_times es1). t \<le> lt'"
    unfolding w1_def by (auto intro: just_fed_waiting)
  have b': "now' \<le> b'" "paced g b' lt' es2" using p(1) by simp_all
  have "b' \<le> F + h" using paced_beat_later [OF b'(2)] es(3) assms(5) by fastforce
  define w2 where "w2 = heartbeat w1"
  define d where "d = wd_next_due_ms w2"
  have d: "lt' < d" "d \<le> F + h + wd_feed_ms w"
    using w1 p(3) b'(1) \<open>b' \<le> F + h\<close> by (auto simp: d_def w2_def heartbeat_def waiting_def)
  have "t \<in> set (tick_times es2)"
    using assms(6,7) ticks w1 p(3) b'(1) \<open>b' \<le> F + h\<close> by (auto simp: es(1) waiting_def)
  with d(2) assms(7) obtain es3 u fed es4 where
      u: "es2 = es3 @ FeederTick u fed # es4" "before d es3" "d \<le> u" "u < d + g"
    using due_tick [OF b'(2) d(1)] by (metis order_trans)
  have "beats es3 + 1 < 2 ^ 64" using assms(3) beats_le_length [of es3] by (simp add: es(1) u(1))
  then have "unat (of_nat (Suc (beats es3)) :: u64) = Suc (beats es3)" by (simp add: unat_of_nat del: of_nat_Suc)
  then have "of_nat (Suc (beats es3)) \<noteq> (0 :: u64)" by (metis unat_0 Suc_neq_Zero)
  then have ne: "wd_epoch w2 + of_nat (beats es3) \<noteq> wd_fed_at_epoch w2"
    using w1 by (simp add: w2_def heartbeat_def waiting_def add.assoc)
  have "wd_open w2" using w1 by (simp add: w2_def heartbeat_def waiting_def)
  with ne u(3) have "u \<in> set (wd_device_feeds (fst (wd_run es2 w2)))"
    by (simp add: u(1) wd_run_append wd_run_before [OF u(2) [unfolded d_def]] wd_tick_def Let_def d_def [symmetric] wd_device_feeds_def split: prod.splits)
  then have "u \<in> set (wd_device_feeds (fst (wd_run es w)))"
    by (simp add: es(1) wd_run_append_parts w2_def w1_def)
  moreover have "F < u" "u < F + h + wd_feed_ms w + g" using u(3,4) d p(2) by linarith+
  ultimately show ?thesis by blast
qed


theorem live_loop_is_fed_witness:
  "\<exists>t\<in>set (wd_device_feeds (fst (wd_run [FeederTick 400 True, LoopBeat 500, FeederTick 700 True, FeederTick 1000 True]
     (snd (snd (wd_start 0 True None True (watchdog_new 1 0))))))). 0 < t \<and> t < 0 + 500 + wd_feed_ms (snd (snd (wd_start 0 True None True (watchdog_new 1 0)))) + 400"
  by (rule live_loop_is_fed [where b = 500 and t = 1000]) (simp_all add: wd_start_def watchdog_new_def just_fed_def Let_def)

lemma reported_once:
  "wd_epoch w = wd_fed_at_epoch w \<Longrightarrow> wd_stall_reported w \<Longrightarrow> beats es = 0 \<Longrightarrow> wd_stalls (fst (wd_run es w)) = []"
proof (induction es arbitrary: w)
  case Nil
  then show ?case by simp
next
  case (Cons e es)
  then obtain t fed where e: "e = FeederTick t fed" and es: "beats es = 0" by (cases e) simp_all
  have "wd_stalls (fst (wd_step e w)) = []" "wd_stall_reported (snd (wd_step e w))" "wd_epoch (snd (wd_step e w)) = wd_fed_at_epoch (snd (wd_step e w))"
    using Cons.prems by (simp_all add: e wd_tick_def Let_def)
  with Cons.IH [OF _ _ es] show ?case by simp
qed

text \<open>
  One marker per hang, in time. When the loop has not moved since a feed at \<open>F\<close>, the handler runs exactly once, not before two intervals and less than two sleeps of the feeder after
  them. With the default interval, a third of the timeout, that is before the hardware resets the camera as long as two sleeps fit into the last third.
\<close>

theorem stall_marked_once:
  assumes "just_fed F w" "wd_on_stall w" "\<not> wd_stall_reported w" "wd_stall_after_ms w = wd_feed_ms w * 2"
    and "\<forall>e\<in>set es. \<not> is_beat e" "paced g F F es" "g \<le> wd_feed_ms w"
    and "t \<in> set (tick_times es)" "F + 2 * wd_feed_ms w + g \<le> t"
  shows "\<exists>m. wd_stalls (fst (wd_run es w)) = [m] \<and> F + 2 * wd_feed_ms w \<le> m \<and> m < F + 2 * wd_feed_ms w + 2 * g"
proof -
  let ?n = "wd_feed_ms w"
  have b: "beats es = 0" using assms(5) by (simp add: beats_def filter_empty_conv)
  have due: "wd_next_due_ms w = F + ?n" "0 < ?n" "0 \<le> F" using assms(1) by (simp_all add: just_fed_def)
  have "0 \<le> g" using assms(6,8) paced_sleep by fastforce
  with due assms(8,9) have "\<exists>t\<in>set (tick_times es). F + ?n \<le> t" "F < F + ?n" by (auto intro!: bexI [of _ t])
  with due_tick [OF assms(6)] obtain es1 u fed es2 where
      u: "es = es1 @ FeederTick u fed # es2" "before (F + ?n) es1" "F + ?n \<le> u" "u < F + ?n + g" "paced g u u es2" by metis
  then have b12: "beats es1 = 0" "beats es2 = 0" using b by simp_all
  define w1 where "w1 = w\<lparr>wd_epoch := wd_fed_at_epoch w, wd_next_due_ms := u + ?n, wd_skipped := wd_skipped w + 1\<rparr>"
  have run1: "wd_run es w = wd_run es2 w1"
    using u(2,3,4) b12(1) assms(1,2,3,4,7)
    by (simp add: u(1) wd_run_append wd_run_before just_fed_def wd_tick_def Let_def w1_def)
  have "t \<in> set (tick_times es2)" using assms(9) u(2,4) assms(8) due(2) \<open>0 \<le> g\<close> by (fastforce simp: u(1) before_def)
  then have "\<exists>t\<in>set (tick_times es2). u + ?n \<le> t" "u < u + ?n" using assms(9) u(4) due(2) by (auto intro!: bexI [of _ t])
  with due_tick [OF u(5)] obtain es3 m fed' es4 where
      m: "es2 = es3 @ FeederTick m fed' # es4" "before (u + ?n) es3" "u + ?n \<le> m" "m < u + ?n + g" by metis
  then have b34: "beats es3 = 0" "beats es4 = 0" using b12(2) by simp_all
  have w1: "wd_open w1" "wd_epoch w1 = wd_fed_at_epoch w1" "wd_next_due_ms w1 = u + ?n" "wd_last_feed_ms w1 = F" "wd_on_stall w1"
      "\<not> wd_stall_reported w1" "wd_stall_after_ms w1 = ?n * 2"
    using assms(1,2,3,4) by (simp_all add: w1_def just_fed_def)
  have "wd_stalls (fst (wd_run es2 w1)) = [m]"
    using m(3) u(3) w1 due(3) b34 m(2)
    by (simp add: m(1) wd_run_append_parts wd_run_before wd_tick_def Let_def reported_once)
  with run1 u(3,4) m(3,4) show ?thesis by (intro exI [of _ m]) simp
qed

theorem stall_marked_once_witness:
  "\<exists>m. wd_stalls (fst (wd_run [FeederTick 300 True, FeederTick 600 True, FeederTick 900 True, FeederTick 1200 True]
     (set_stall_handler 0 (snd (snd (wd_start 0 True None True (watchdog_new 1 0))))))) = [m] \<and> 0 + 2 * 333 \<le> m \<and> m < 0 + 2 * 333 + 2 * 300"
proof -
  let ?w = "set_stall_handler 0 (snd (snd (wd_start 0 True None True (watchdog_new 1 0))))"
  have "wd_feed_ms ?w = 333" by (simp add: set_stall_handler_def wd_start_def watchdog_new_def Let_def)
  with stall_marked_once [of 0 ?w "[FeederTick 300 True, FeederTick 600 True, FeederTick 900 True, FeederTick 1200 True]" 300 1200] show ?thesis
    by (simp add: set_stall_handler_def wd_start_def watchdog_new_def just_fed_def Let_def)
qed

section \<open>Two gaps of the protection\<close>

text \<open>
  The interval follows the timeout that was asked for. A driver that takes a shorter one is reported in the statistics, but the feeder still waits for a third of the longer one: with
  15 seconds asked for and 4 taken, the device is not written to before the fifth second.
\<close>

lemma shorter_timeout_not_followed:
  assumes "0 \<le> now" "now \<le> t" "t < now + 5000"
  shows "let w = snd (snd (wd_start now True (Some 4) True (watchdog_new 15 0)))
    in ws_timeout_s (wd_stats now w) = 4 \<and> fst (snd (wd_tick t True (heartbeat w))) = []"
  using assms by (simp add: wd_start_def watchdog_new_def wd_stats_def wd_tick_def heartbeat_def Let_def)

text \<open>
  A timeout of one second is accepted, while an idle main loop wakes once a second: the history below is that of a healthy idle camera, with the feeder waking every 200
  milliseconds and the loop moving every 1000, and its feeds are more than the timeout apart.
\<close>

lemma one_second_timeout_resets_idle_camera:
  "wd_device_feeds (fst (wd_run
     [FeederTick 200 True, FeederTick 400 True, FeederTick 600 True, FeederTick 800 True, FeederTick 1000 True, LoopBeat 1000,
      FeederTick 1200 True, FeederTick 1400 True, FeederTick 1600 True, FeederTick 1800 True, FeederTick 2000 True, LoopBeat 2000,
      FeederTick 2200 True, FeederTick 2400 True]
     (snd (snd (wd_start 0 True (Some 1) True (watchdog_new 1 0)))))) = [1200, 2400]"
  by code_simp

end
