(* ===== verification/Wifi_Text.thy ===== *)
theory Wifi_Text
  imports At_Parse Connectivity
begin

text \<open>
  What the camera writes for and reads from the Wi-Fi daemons: the files of \<^verbatim>\<open>hostapd\<close> and \<^verbatim>\<open>udhcpd\<close> (\<^verbatim>\<open>core/net/hostapd_conf.cpp\<close>) and the answers and
  commands of \<^verbatim>\<open>wpa_supplicant\<close> (\<^verbatim>\<open>core/net/wpa_parse.cpp\<close>). A refusal is \<open>Inl\<close> with its reason. \<open>ovf\<close> stands for what \<^verbatim>\<open>sscanf\<close> and \<^verbatim>\<open>atoi\<close> give for a number that
  does not fit.
\<close>

record wifi_ap_config =
  ap_ssid :: string
  ap_passphrase :: string
  ap_security :: wifi_security
  ap_channel :: int
  ap_ipv4 :: string
  ap_dhcp_start :: string
  ap_dhcp_end :: string
  ap_dhcp_server :: bool

section \<open>The access point\<close>

definition dotted_quad :: "(string \<Rightarrow> u32) \<Rightarrow> string \<Rightarrow> u32 option" where
  "dotted_quad ovf s =
     (case scan_quad ovf s of
        None \<Rightarrow> None
      | Some (a, b, c, d, rest) \<Rightarrow>
          if rest \<noteq> [] then None
          else if 255 < a \<or> 255 < b \<or> 255 < c \<or> 255 < d then None
          else Some (push_bit 24 a OR push_bit 16 b OR push_bit 8 c OR d))"

definition control_char :: "char \<Rightarrow> bool" where
  "control_char c \<longleftrightarrow> (of_char c :: nat) < 0x20 \<or> (of_char c :: nat) = 0x7f"

definition hostapd_value_is_safe :: "string \<Rightarrow> bool" where
  "hostapd_value_is_safe v \<longleftrightarrow> list_all (\<lambda>c. \<not> control_char c) v"

definition hostapd_band_for_channel :: "int \<Rightarrow> string option" where
  "hostapd_band_for_channel channel =
     (if channel = 0 then Some ''g''
      else if 1 \<le> channel \<and> channel \<le> 14 then Some ''g''
      else if 36 \<le> channel \<and> channel \<le> 196 then Some ''a''
      else None)"

text \<open>The checks, in their order; \<open>None\<close> when all pass.\<close>

definition ap_check :: "wifi_ap_config \<Rightarrow> string \<Rightarrow> string \<Rightarrow> string option" where
  "ap_check cfg ifname driver =
     (if ifname = [] \<or> \<not> hostapd_value_is_safe ifname then Some ''the interface name is not usable''
      else if driver = [] \<or> \<not> hostapd_value_is_safe driver then Some ''the hostapd driver name is not usable''
      else if ap_ssid cfg = [] then Some ''an access point needs an ssid''
      else if 32 < length (ap_ssid cfg) then Some ''an ssid is at most 32 bytes''
      else if \<not> hostapd_value_is_safe (ap_ssid cfg) then Some ''the ssid contains a character that cannot be written to hostapd.conf''
      else if hostapd_band_for_channel (ap_channel cfg) = None
      then Some (''channel '' @ int_dec (ap_channel cfg) @ '' is not a 2.4 GHz or 5 GHz channel'')
      else if ap_security cfg \<noteq> Open \<and> \<not> hostapd_value_is_safe (ap_passphrase cfg)
      then Some ''the passphrase contains a character that cannot be written to hostapd.conf''
      else if ap_security cfg \<noteq> Open \<and> (length (ap_passphrase cfg) < 8 \<or> 63 < length (ap_passphrase cfg))
      then Some ''a WPA passphrase is 8 to 63 characters''
      else if ap_security cfg = Wep then Some ''WEP is not offered: it is broken, and hostapd has dropped it''
      else if ap_security cfg = Wpa then Some ''WPA1 is not offered for an access point we create; use wpa2''
      else None)"

definition conf_line :: "string \<Rightarrow> string" where
  "conf_line l = l @ [CHR 0x0A]"

definition generated_line :: string where
  "generated_line = ''# generated by machino -- edits are overwritten when the AP is reconfigured''"

definition security_lines :: "wifi_ap_config \<Rightarrow> string list" where
  "security_lines cfg =
     (if ap_security cfg = Open then [''auth_algs=1'', ''wpa=0'']
      else [''auth_algs=1'', ''wpa=2'', ''wpa_passphrase='' @ ap_passphrase cfg, ''wpa_pairwise=CCMP'', ''rsn_pairwise=CCMP''] @
        (if ap_security cfg = Wpa3 then [''wpa_key_mgmt=SAE'', ''ieee80211w=2'']
         else if ap_security cfg = Wpa2Wpa3 then [''wpa_key_mgmt=WPA-PSK SAE'', ''ieee80211w=1'']
         else [''wpa_key_mgmt=WPA-PSK'']))"

definition ap_lines :: "wifi_ap_config \<Rightarrow> string \<Rightarrow> string \<Rightarrow> string \<Rightarrow> string list" where
  "ap_lines cfg ifname driver hw_mode =
     [generated_line, ''interface='' @ ifname, ''driver='' @ driver, ''ssid='' @ ap_ssid cfg, ''hw_mode='' @ hw_mode,
      ''channel='' @ int_dec (ap_channel cfg), ''ctrl_interface=/var/run/hostapd'', ''ignore_broadcast_ssid=0''] @
     security_lines cfg"

definition hostapd_conf_from :: "wifi_ap_config \<Rightarrow> string \<Rightarrow> string \<Rightarrow> string + string" where
  "hostapd_conf_from cfg ifname driver =
     (case ap_check cfg ifname driver of
        Some err \<Rightarrow> Inl err
      | None \<Rightarrow>
          let hw_mode = (case hostapd_band_for_channel (ap_channel cfg) of None \<Rightarrow> [] | Some m \<Rightarrow> m)
          in Inr (concat (map conf_line (ap_lines cfg ifname driver hw_mode))))"

definition udhcpd_conf_from :: "(string \<Rightarrow> u32) \<Rightarrow> wifi_ap_config \<Rightarrow> string \<Rightarrow> string + string" where
  "udhcpd_conf_from ovf cfg ifname =
     (if ifname = [] \<or> \<not> hostapd_value_is_safe ifname then Inl ''the interface name is not usable''
      else case dotted_quad ovf (ap_ipv4 cfg) of
        None \<Rightarrow> Inl ''the access point address is not an IPv4 address''
      | Some ip \<Rightarrow> (case dotted_quad ovf (ap_dhcp_start cfg) of
        None \<Rightarrow> Inl ''dhcpStart is not an IPv4 address''
      | Some lo \<Rightarrow> (case dotted_quad ovf (ap_dhcp_end cfg) of
        None \<Rightarrow> Inl ''dhcpEnd is not an IPv4 address''
      | Some hi \<Rightarrow>
          if hi < lo then Inl ''the DHCP pool starts after it ends''
          else if lo \<le> ip \<and> ip \<le> hi then Inl (''the access point'' @ [CHR 0x27] @ ''s own address is inside the DHCP pool'')
          else if ip AND 0xffffff00 \<noteq> lo AND 0xffffff00 \<or> ip AND 0xffffff00 \<noteq> hi AND 0xffffff00
          then Inl ''the DHCP pool is not on the same /24 as the access point''
          else Inr (concat (map conf_line
                 [generated_line, ''interface '' @ ifname, ''start '' @ ap_dhcp_start cfg, ''end '' @ ap_dhcp_end cfg,
                  ''option subnet '' @ prefix_to_netmask 24, ''option router '' @ ap_ipv4 cfg, ''option dns '' @ ap_ipv4 cfg,
                  ''option lease 3600'', ''lease_file /var/run/udhcpd.leases'', ''pidfile /var/run/udhcpd.pid''])))))"

section \<open>The supplicant\<close>

record wpa_scan_entry =
  we_bssid :: string
  we_frequency_mhz :: int
  we_signal_dbm :: int
  we_flags :: string
  we_ssid :: string

text \<open>At most \<open>n\<close> fields at tabs; what follows the last of them is dropped.\<close>

fun tab_fields :: "nat \<Rightarrow> string \<Rightarrow> string \<Rightarrow> string list" where
  "tab_fields 0 acc s = []"
| "tab_fields (Suc n) acc [] = [acc]"
| "tab_fields (Suc n) acc (c # s) = (if c = CHR 0x09 then acc # tab_fields n [] s else tab_fields (Suc n) (acc @ [c]) s)"

definition scan_entry :: "(string \<Rightarrow> int) \<Rightarrow> string \<Rightarrow> wpa_scan_entry option" where
  "scan_entry ovf line =
     (let line = strip_cr line
      in if line = [] then None
         else let f = tab_fields 5 [] line
              in if length f < 4 then None
                 else let e = \<lparr>we_bssid = f ! 0, we_frequency_mhz = c_atoi ovf (f ! 1), we_signal_dbm = c_atoi ovf (f ! 2),
                        we_flags = f ! 3, we_ssid = (if 5 \<le> length f then f ! 4 else [])\<rparr>
                      in if length (we_bssid e) \<noteq> 17 then None else Some e)"

definition parse_scan_results :: "(string \<Rightarrow> int) \<Rightarrow> string \<Rightarrow> wpa_scan_entry list" where
  "parse_scan_results ovf text = somes (map (scan_entry ovf) (tl (split_nl text)))"

definition channel_for_frequency :: "int \<Rightarrow> int" where
  "channel_for_frequency mhz =
     (if mhz = 2484 then 14
      else if 2412 \<le> mhz \<and> mhz \<le> 2472 \<and> (mhz - 2412) mod 5 = 0 then 1 + (mhz - 2412) div 5
      else if 5180 \<le> mhz \<and> mhz \<le> 5825 \<and> (mhz - 5000) mod 5 = 0 then (mhz - 5000) div 5
      else 0)"

definition security_from_flags :: "string \<Rightarrow> wifi_security" where
  "security_from_flags flags =
     (let sae = contains ''SAE'' flags; wpa2 = contains ''WPA2'' flags;
          wpa1 = contains ''[WPA-'' flags \<or> contains ''[WPA]'' flags; wep = contains ''WEP'' flags
      in if sae \<and> wpa2 then Wpa2Wpa3 else if sae then Wpa3 else if wpa2 then Wpa2 else if wpa1 then Wpa else if wep then Wep else Open)"

text \<open>The loop stops at the end of the text, so that an empty piece behind the last newline is not a line.\<close>

definition status_lines :: "string \<Rightarrow> string list" where
  "status_lines status = (let ls = split_nl status in map strip_cr (if last ls = [] then butlast ls else ls))"

definition wpa_status_field :: "string \<Rightarrow> string \<Rightarrow> string option" where
  "wpa_status_field status key =
     (let needle = key @ ''=''
      in map_option (drop (length needle)) (find (\<lambda>l. take (length needle) l = needle) (status_lines status)))"

definition wpa_hex :: "string \<Rightarrow> string" where
  "wpa_hex raw = concat (map (\<lambda>c. [hex_char (of_char c div 16), hex_char (of_char c mod 16)]) raw)"

fun wpa_quote_loop :: "string \<Rightarrow> string option" where
  "wpa_quote_loop [] = Some []"
| "wpa_quote_loop (c # cs) =
     (if control_char c then None
      else case wpa_quote_loop cs of
        None \<Rightarrow> None
      | Some s \<Rightarrow> Some ((if c = CHR 0x22 \<or> c = CHR 0x5C then [CHR 0x5C, c] else [c]) @ s))"

definition wpa_quote :: "string \<Rightarrow> string option" where
  "wpa_quote raw = map_option (\<lambda>s. [CHR 0x22] @ s @ [CHR 0x22]) (wpa_quote_loop raw)"


section \<open>The files hold what was asked for\<close>

text \<open>What a reader of the file finds for a key: the values of all lines that start with the key and an equals sign.\<close>

definition conf_values :: "string \<Rightarrow> string \<Rightarrow> string list" where
  "conf_values key text =
     map (drop (length key + 1)) (filter (\<lambda>l. take (length key + 1) l = key @ ''='') (split_nl text))"

lemma split_conf_lines: "list_all (\<lambda>l. CHR 0x0A \<notin> set l) ls \<Longrightarrow> split_nl (concat (map conf_line ls)) = ls @ [[]]"
  by (induction ls) (simp_all add: conf_line_def split_nl_line)

lemma safe_no_newline: "hostapd_value_is_safe v \<Longrightarrow> CHR 0x0A \<notin> set v"
  by (auto simp: hostapd_value_is_safe_def list_all_iff control_char_def)

lemma int_dec_no_newline: "CHR 0x0A \<notin> set (int_dec i)"
  by (simp add: int_dec_def)

lemma ap_check_None:
  assumes "ap_check cfg ifname driver = None"
  shows "hostapd_value_is_safe ifname" "hostapd_value_is_safe driver" "hostapd_value_is_safe (ap_ssid cfg)"
    "ap_security cfg \<noteq> Open \<Longrightarrow> hostapd_value_is_safe (ap_passphrase cfg) \<and> 8 \<le> length (ap_passphrase cfg) \<and> length (ap_passphrase cfg) \<le> 63"
    "ap_security cfg \<notin> {Wep, Wpa}" "ap_ssid cfg \<noteq> [] \<and> length (ap_ssid cfg) \<le> 32" "hostapd_band_for_channel (ap_channel cfg) \<noteq> None"
  using assms by (auto simp: ap_check_def not_less split: if_splits)

lemma hostapd_lines:
  assumes "hostapd_conf_from cfg ifname driver = Inr out"
  obtains hw_mode where "ap_check cfg ifname driver = None" "hostapd_band_for_channel (ap_channel cfg) = Some hw_mode" "CHR 0x0A \<notin> set hw_mode"
    "split_nl out = ap_lines cfg ifname driver hw_mode @ [[]]"
proof -
  from assms have ok: "ap_check cfg ifname driver = None" by (auto simp: hostapd_conf_from_def split: option.splits)
  note c = ap_check_None [OF this]
  from c(7) obtain m where m: "hostapd_band_for_channel (ap_channel cfg) = Some m" by auto
  then have "m = ''g'' \<or> m = ''a''" by (auto simp: hostapd_band_for_channel_def split: if_splits)
  then have n: "CHR 0x0A \<notin> set m" by auto
  moreover have "list_all (\<lambda>l. CHR 0x0A \<notin> set l) (security_lines cfg)"
    using c(4) by (auto simp: security_lines_def safe_no_newline)
  ultimately have "list_all (\<lambda>l. CHR 0x0A \<notin> set l) (ap_lines cfg ifname driver m)"
    using c(1,2,3) by (simp add: ap_lines_def safe_no_newline int_dec_no_newline generated_line_def)
  from split_conf_lines [OF this] assms ok m n that show thesis by (simp add: hostapd_conf_from_def)
qed


definition demo_ap :: wifi_ap_config where
  "demo_ap = \<lparr>ap_ssid = ''camera'', ap_passphrase = ''correct horse'', ap_security = Wpa2Wpa3, ap_channel = 36, ap_ipv4 = ''192.168.4.1'',
     ap_dhcp_start = ''192.168.4.20'', ap_dhcp_end = ''192.168.4.100'', ap_dhcp_server = True\<rparr>"



text \<open>
  An address pool that is written can be used: the camera's own address is not in it, the pool is not empty and it lies on the camera's /24, so that every address of it is a
  neighbour of the camera's.
\<close>

theorem dhcp_pool_is_usable:
  assumes "udhcpd_conf_from ovf cfg ifname = Inr out"
  shows "\<exists>ip lo hi. dotted_quad ovf (ap_ipv4 cfg) = Some ip \<and> dotted_quad ovf (ap_dhcp_start cfg) = Some lo \<and> dotted_quad ovf (ap_dhcp_end cfg) = Some hi \<and>
    lo \<le> hi \<and> \<not> (lo \<le> ip \<and> ip \<le> hi) \<and> drop_bit 8 ip = drop_bit 8 lo \<and> drop_bit 8 ip = drop_bit 8 hi"
proof -
  have net: "drop_bit 8 x = drop_bit 8 y" if "x AND 0xffffff00 = y AND 0xffffff00" for x y :: u32
  proof -
    have m: "(0xffffff00 :: u32) = push_bit 8 (mask 24)" by code_simp
    have "drop_bit 8 (z AND 0xffffff00) = drop_bit 8 z" for z :: u32
      unfolding m by (rule bit_word_eqI) (auto simp: bit_simps dest: bit_imp_le_length)
    with that show ?thesis by metis
  qed
  from assms show ?thesis
    by (auto simp: udhcpd_conf_from_def not_less intro!: net split: if_splits option.splits)
qed


lemma demo_addresses:
  "dotted_quad ovf ''192.168.4.1'' = Some 0xC0A80401" "dotted_quad ovf ''192.168.4.20'' = Some 0xC0A80414"
  "dotted_quad ovf ''192.168.4.100'' = Some 0xC0A80464" "dotted_quad ovf (CHR 0x0A # ''192.168.4.1'') = Some 0xC0A80401"
  by (simp_all add: dotted_quad_def scan_quad_def scan_u_def scan_dot_def Let_def is_space_def is_digit_def dec_nat_def digit_val_def)

lemma netmask_24: "prefix_to_netmask 24 = ''255.255.255.0''"
  by code_simp

theorem dhcp_pool_is_usable_witness:
  "(case udhcpd_conf_from (\<lambda>_. 0) demo_ap ''wlan0'' of Inl _ \<Rightarrow> False
    | Inr out \<Rightarrow> \<exists>ip lo hi. dotted_quad (\<lambda>_. 0) ''192.168.4.1'' = Some ip \<and> dotted_quad (\<lambda>_. 0) ''192.168.4.20'' = Some lo \<and>
        dotted_quad (\<lambda>_. 0) ''192.168.4.100'' = Some hi \<and> lo \<le> hi \<and> \<not> (lo \<le> ip \<and> ip \<le> hi) \<and> drop_bit 8 ip = drop_bit 8 lo \<and> drop_bit 8 ip = drop_bit 8 hi)"
proof -
  have "(case udhcpd_conf_from (\<lambda>_. 0) demo_ap ''wlan0'' of Inl _ \<Rightarrow> False | Inr _ \<Rightarrow> True)"
    by (simp add: udhcpd_conf_from_def demo_ap_def demo_addresses hostapd_value_is_safe_def control_char_def)
  then obtain out where o: "udhcpd_conf_from (\<lambda>_. 0) demo_ap ''wlan0'' = Inr out" by (auto split: sum.splits)
  with dhcp_pool_is_usable [OF o] show ?thesis by (simp add: demo_ap_def)
qed

text \<open>
  The address test reads numbers with \<^verbatim>\<open>%u\<close>, which skips white space before a digit: an address with a newline in front is accepted and written as it is, so that the file holds the
  line \<open>option router\<close> with no value.
\<close>

lemma address_with_newline_accepted:
  "dotted_quad (\<lambda>_. 0) ([CHR 0x0A] @ ''192.168.4.1'') = Some 0xC0A80401"
  "(case udhcpd_conf_from (\<lambda>_. 0) (demo_ap\<lparr>ap_ipv4 := [CHR 0x0A] @ ''192.168.4.1''\<rparr>) ''wlan0'' of Inl _ \<Rightarrow> False
    | Inr out \<Rightarrow> ''option router '' \<in> set (split_nl out))"
  by (simp_all add: udhcpd_conf_from_def demo_ap_def demo_addresses hostapd_value_is_safe_def control_char_def conf_line_def generated_line_def netmask_24)

section \<open>Commands and answers\<close>

text \<open>How a quoted argument is read: up to the closing quote, a backslash standing for the character behind it.\<close>

fun unquote_loop :: "string \<Rightarrow> (string \<times> string) option" where
  "unquote_loop [] = None"
| "unquote_loop (c # s) =
     (if c = CHR 0x22 then Some ([], s)
      else if c = CHR 0x5C
      then (case s of [] \<Rightarrow> None | d # s' \<Rightarrow> map_option (\<lambda>(v, r). (d # v, r)) (unquote_loop s'))
      else map_option (\<lambda>(v, r). (c # v, r)) (unquote_loop s))"

definition unquote :: "string \<Rightarrow> (string \<times> string) option" where
  "unquote s = (case s of [] \<Rightarrow> None | c # cs \<Rightarrow> if c = CHR 0x22 then unquote_loop cs else None)"

fun unhex :: "string \<Rightarrow> string" where
  "unhex (a # b # s) = char_of (16 * the (hex_digit a) + the (hex_digit b)) # unhex s"
| "unhex _ = []"

lemma quote_loop_unquote:
  "wpa_quote_loop raw = Some s \<Longrightarrow> unquote_loop (s @ CHR 0x22 # r) = Some (raw, r)"
  by (induction raw arbitrary: s) (auto split: if_splits option.splits)

lemma quote_loop_plain: "wpa_quote_loop raw = Some s \<Longrightarrow> list_all (\<lambda>c. \<not> control_char c) s"
  by (induction raw arbitrary: s) (auto simp: control_char_def split: if_splits option.splits)

lemma quote_loop_None: "wpa_quote_loop raw = None \<longleftrightarrow> list_ex control_char raw"
  by (induction raw) (auto split: option.splits)

lemma hex_of_char: "hex_digit (hex_char (of_char c div 16)) = Some (of_char c div 16)" "hex_digit (hex_char (of_char c mod 16)) = Some (of_char c mod 16)"
proof -
  have "(of_char c :: nat) < 256" by (rule nat_of_char_less_256)
  then show "hex_digit (hex_char (of_char c div 16)) = Some (of_char c div 16)" by (intro hex_digit_hex_char) (simp add: less_mult_imp_div_less)
qed simp

text \<open>
  No text ends a command of the supplicant. A quoted value holds no control character, so that what follows it stays on the same line, it is read back as the value that was given,
  and it is refused exactly when the value has a control character; the hexadecimal form has digits only and gives back any bytes.
\<close>

theorem command_text_is_kept:
  "(case wpa_quote raw of
      None \<Rightarrow> list_ex control_char raw
    | Some q \<Rightarrow> list_all (\<lambda>c. \<not> control_char c) q \<and> unquote (q @ rest) = Some (raw, rest)) \<and>
   list_all (\<lambda>c. hex_digit c \<noteq> None) (wpa_hex raw) \<and> unhex (wpa_hex raw) = raw"
proof (intro conjI)
  show "case wpa_quote raw of None \<Rightarrow> list_ex control_char raw
    | Some q \<Rightarrow> list_all (\<lambda>c. \<not> control_char c) q \<and> unquote (q @ rest) = Some (raw, rest)"
    using quote_loop_None [of raw]
    by (auto simp: wpa_quote_def unquote_def quote_loop_unquote control_char_def dest: quote_loop_plain split: option.splits)
  show "list_all (\<lambda>c. hex_digit c \<noteq> None) (wpa_hex raw)" by (induction raw) (simp_all add: wpa_hex_def hex_of_char)
  show "unhex (wpa_hex raw) = raw" by (induction raw) (simp_all add: wpa_hex_def hex_of_char)
qed


section \<open>The scan table\<close>

lemma atoi_int_dec: "- (2 ^ 31) \<le> v \<Longrightarrow> v < 2 ^ 31 \<Longrightarrow> c_atoi ovf (int_dec v) = v"
proof -
  assume v: "- (2 ^ 31) \<le> v" "v < 2 ^ 31"
  have ds: "takeWhile is_digit (nat_dec n) = nat_dec n" for n
    by (simp add: takeWhile_eq_all_conv nat_dec_digits)
  have hd: "dropWhile is_space (nat_dec n) = nat_dec n" "hd (nat_dec n) \<noteq> CHR ''-''" "hd (nat_dec n) \<noteq> CHR ''+''" for n
  proof -
    obtain c cs where c: "nat_dec n = c # cs" by (cases "nat_dec n") simp_all
    then have "is_digit c" using nat_dec_digits [of c n] by simp
    then show "dropWhile is_space (nat_dec n) = nat_dec n" "hd (nat_dec n) \<noteq> CHR ''-''" "hd (nat_dec n) \<noteq> CHR ''+''"
      by (auto simp: c is_digit_def is_space_def Let_def)
  qed
  show ?thesis using v by (auto simp: c_atoi_def int_dec_def Let_def hd ds is_space_def)
qed

definition scan_line :: "wpa_scan_entry \<Rightarrow> string" where
  "scan_line e = we_bssid e @ CHR 0x09 # int_dec (we_frequency_mhz e) @ CHR 0x09 # int_dec (we_signal_dbm e) @ CHR 0x09 # we_flags e @ CHR 0x09 # we_ssid e"

definition plain_text :: "string \<Rightarrow> bool" where
  "plain_text s \<longleftrightarrow> CHR 0x09 \<notin> set s \<and> CHR 0x0A \<notin> set s \<and> CHR 0x0D \<notin> set s"

definition entry_ok :: "wpa_scan_entry \<Rightarrow> bool" where
  "entry_ok e \<longleftrightarrow> length (we_bssid e) = 17 \<and> plain_text (we_bssid e) \<and> plain_text (we_flags e) \<and> plain_text (we_ssid e) \<and>
     - (2 ^ 31) \<le> we_frequency_mhz e \<and> we_frequency_mhz e < 2 ^ 31 \<and> - (2 ^ 31) \<le> we_signal_dbm e \<and> we_signal_dbm e < 2 ^ 31"

lemma tab_fields_tab: "CHR 0x09 \<notin> set a \<Longrightarrow> tab_fields (Suc n) acc (a @ CHR 0x09 # s) = (acc @ a) # tab_fields n [] s"
  by (induction a arbitrary: acc) auto

lemma tab_fields_end: "CHR 0x09 \<notin> set a \<Longrightarrow> tab_fields (Suc n) acc a = [acc @ a]"
  by (induction a arbitrary: acc) auto

lemma plain_int_dec: "plain_text (int_dec i)"
proof -
  have "\<not> is_digit (CHR 0x09)" "\<not> is_digit (CHR 0x0D)" "\<not> is_digit (CHR 0x0A)" by (simp_all add: is_digit_def)
  then have "plain_text (nat_dec n)" for n using nat_dec_digits by (auto simp: plain_text_def)
  then show ?thesis by (auto simp: int_dec_def plain_text_def)
qed

lemma scan_line_no_newline: "entry_ok e \<Longrightarrow> CHR 0x0A \<notin> set (scan_line e)"
  using plain_int_dec by (auto simp: entry_ok_def scan_line_def plain_text_def)

lemma scan_entry_line:
  assumes "entry_ok e"
  shows "scan_entry ovf (scan_line e) = Some e"
proof -
  have cr: "CHR 0x0D \<notin> set (scan_line e)" using assms plain_int_dec by (auto simp: entry_ok_def scan_line_def plain_text_def)
  have "scan_line e \<noteq> []" by (simp add: scan_line_def)
  then have "last (scan_line e) \<noteq> CHR 0x0D" using cr last_in_set [of "scan_line e"] by metis
  then have "strip_cr (scan_line e) = scan_line e" by (simp add: strip_cr_id)
  moreover have "tab_fields 5 [] (scan_line e) = [we_bssid e, int_dec (we_frequency_mhz e), int_dec (we_signal_dbm e), we_flags e, we_ssid e]"
    using assms plain_int_dec by (simp add: scan_line_def numeral_eq_Suc tab_fields_tab tab_fields_end entry_ok_def plain_text_def)
  ultimately show ?thesis
    using assms \<open>scan_line e \<noteq> []\<close> by (simp add: scan_entry_def Let_def entry_ok_def atoi_int_dec numeral_eq_Suc)
qed

text \<open>
  Every network of a scan is reported as the supplicant printed it, hidden ones with an empty name and names with spaces included, in the order of the table.
\<close>

theorem scan_table_roundtrip:
  assumes "CHR 0x0A \<notin> set header" "list_all entry_ok es"
  shows "parse_scan_results ovf (concat (map conf_line (header # map scan_line es))) = es"
proof -
  have "list_all (\<lambda>l. CHR 0x0A \<notin> set l) (header # map scan_line es)"
    using assms by (auto simp: list_all_iff scan_line_no_newline)
  note lines = split_conf_lines [OF this]
  have somes_append: "somes (xs @ ys) = somes xs @ somes ys" for xs ys :: "wpa_scan_entry option list"
    by (induction xs rule: somes.induct) simp_all
  have "scan_entry ovf [] = None" by (simp add: scan_entry_def strip_cr_def)
  moreover have "somes (map (scan_entry ovf) (map scan_line es)) = es"
    using assms(2) by (induction es) (simp_all add: scan_entry_line)
  ultimately show ?thesis by (simp only: parse_scan_results_def lines) (simp add: somes_append)
qed

definition demo_scan :: "wpa_scan_entry list" where
  "demo_scan =
     [\<lparr>we_bssid = ''aa:bb:cc:dd:ee:01'', we_frequency_mhz = 2412, we_signal_dbm = -40, we_flags = ''[WPA2-PSK-CCMP][ESS]'', we_ssid = ''my net''\<rparr>,
      \<lparr>we_bssid = ''aa:bb:cc:dd:ee:02'', we_frequency_mhz = 5180, we_signal_dbm = -71, we_flags = ''[ESS]'', we_ssid = []\<rparr>]"

theorem scan_table_roundtrip_witness:
  "parse_scan_results (\<lambda>_. 0) (concat (map conf_line (''bssid / frequency'' # map scan_line demo_scan))) = demo_scan"
  by (rule scan_table_roundtrip) (simp_all add: demo_scan_def entry_ok_def plain_text_def)

text \<open>Which channels the frequencies stand for, and what the flags say.\<close>

lemma channel_24: "1 \<le> c \<Longrightarrow> c \<le> 13 \<Longrightarrow> channel_for_frequency (2407 + 5 * c) = c"
  by (auto simp: channel_for_frequency_def)

lemma channel_5: "36 \<le> c \<Longrightarrow> c \<le> 165 \<Longrightarrow> channel_for_frequency (5000 + 5 * c) = c"
  by (auto simp: channel_for_frequency_def)

lemma demo_security:
  "security_from_flags ''[WPA2-PSK+SAE-CCMP]'' = Wpa2Wpa3" "security_from_flags ''[WPA-PSK-TKIP][ESS]'' = Wpa" "security_from_flags ''[ESS]'' = Open"
  by code_simp+

end
