(* ===== verification/Usb_Host.thy ===== *)
theory Usb_Host
  imports Core_Result
begin

text \<open>
  The USB port's policy (\<^verbatim>\<open>core/usb/usb_host_service.cpp\<close>): what was asked for, what the board can do, and what is applied. The backend is a port: its capabilities and its
  answer to a power command are arguments, and the commands it gets are in the result. Every operation holds the mutex for its own state, so that a history is a sequence of them.
\<close>

datatype usb_power_mode = BoardDefault | Gpio | AlwaysOn | NoPower
datatype usb_function = UsbOff | UsbWifi | UsbCellular

fun usb_power_mode_name :: "usb_power_mode \<Rightarrow> string" where
  "usb_power_mode_name BoardDefault = ''board-default''"
| "usb_power_mode_name Gpio = ''gpio''"
| "usb_power_mode_name AlwaysOn = ''always-on''"
| "usb_power_mode_name NoPower = ''none''"

definition usb_power_mode_parse :: "string \<Rightarrow> usb_power_mode option" where
  "usb_power_mode_parse s =
     (if s = ''board-default'' then Some BoardDefault else if s = ''gpio'' then Some Gpio
      else if s = ''always-on'' then Some AlwaysOn else if s = ''none'' then Some NoPower else None)"

fun usb_function_name :: "usb_function \<Rightarrow> string" where
  "usb_function_name UsbOff = ''off''"
| "usb_function_name UsbWifi = ''wifi''"
| "usb_function_name UsbCellular = ''cellular''"

definition usb_function_parse :: "string \<Rightarrow> usb_function option" where
  "usb_function_parse s =
     (if s = ''off'' then Some UsbOff else if s = ''wifi'' then Some UsbWifi else if s = ''cellular'' then Some UsbCellular else None)"

record usb_power_capability =
  pc_switchable :: bool
  pc_default_pin :: string
  pc_default_active_high :: bool
  pc_voltage_mv :: int
  pc_allowed_pins :: "string list"

record usb_capabilities =
  uc_host_supported :: bool
  uc_controller :: string
  uc_max_speed :: string
  uc_power :: usb_power_capability

record usb_config =
  us_enabled :: bool
  us_mode :: usb_power_mode
  us_pin :: string
  us_active_high :: bool
  us_enable_at_boot :: bool
  us_expert :: bool
  us_function :: usb_function
  us_storage :: bool

record usb_resolved =
  ur_mode :: usb_power_mode
  ur_pin :: string
  ur_active_high :: bool
  ur_drives_power :: bool

record usb_status =
  ut_enabled :: bool
  ut_function :: usb_function
  ut_boot_function :: usb_function
  ut_storage :: bool
  ut_boot_storage :: bool
  ut_reboot_required :: bool
  ut_power :: "bool option"
  ut_resolved :: usb_resolved

record usb_host =
  uh_cfg :: usb_config
  uh_resolved :: usb_resolved
  uh_boot_function :: usb_function
  uh_boot_storage :: bool

definition usb_config0 :: usb_config where
  "usb_config0 = \<lparr>us_enabled = False, us_mode = BoardDefault, us_pin = [], us_active_high = True, us_enable_at_boot = True, us_expert = False,
     us_function = UsbOff, us_storage = False\<rparr>"

definition usb_resolved0 :: usb_resolved where
  "usb_resolved0 = \<lparr>ur_mode = NoPower, ur_pin = [], ur_active_high = True, ur_drives_power = False\<rparr>"

definition usb_new :: usb_host where
  "usb_new = \<lparr>uh_cfg = usb_config0, uh_resolved = usb_resolved0, uh_boot_function = UsbOff, uh_boot_storage = False\<rparr>"

section \<open>The decision\<close>

definition pin_is_listed :: "usb_power_capability \<Rightarrow> string \<Rightarrow> bool" where
  "pin_is_listed p pin \<longleftrightarrow> (pin \<noteq> [] \<and> pin = pc_default_pin p) \<or> pin \<in> set (pc_allowed_pins p)"

definition usb_resolve_gpio :: "usb_config \<Rightarrow> usb_capabilities \<Rightarrow> string + usb_resolved" where
  "usb_resolve_gpio cfg caps =
     (if \<not> pc_switchable (uc_power caps) then Inl ''this board cannot switch port power from software''
      else let pin = (if us_pin cfg = [] then pc_default_pin (uc_power caps) else us_pin cfg)
           in if pin = [] then Inl ''no power pin configured and the board declares no default''
              else if \<not> us_expert cfg \<and> \<not> pin_is_listed (uc_power caps) pin
              then Inl (''pin '' @ pin @ '' is not one the board wires for USB power (set expert to override; the rest of the GPIO space belongs to the sensor, the PHY and the flash)'')
              else Inr \<lparr>ur_mode = Gpio, ur_pin = pin,
                     ur_active_high = (if us_pin cfg = [] then pc_default_active_high (uc_power caps) else us_active_high cfg), ur_drives_power = True\<rparr>)"

definition usb_resolve :: "usb_config \<Rightarrow> usb_capabilities \<Rightarrow> string + usb_resolved" where
  "usb_resolve cfg caps =
     (if \<not> uc_host_supported caps
      then if \<not> us_enabled cfg then Inr usb_resolved0 else Inl ''this board has no USB host''
      else let mode = (if us_mode cfg = BoardDefault then if pc_switchable (uc_power caps) then Gpio else AlwaysOn else us_mode cfg)
           in case mode of
                NoPower \<Rightarrow> Inr usb_resolved0
              | AlwaysOn \<Rightarrow>
                  if pc_switchable (uc_power caps) \<and> us_mode cfg = AlwaysOn
                  then Inl ''this board switches port power; always-on would leave it off''
                  else Inr (usb_resolved0\<lparr>ur_mode := AlwaysOn\<rparr>)
              | Gpio \<Rightarrow> usb_resolve_gpio cfg caps
              | BoardDefault \<Rightarrow> Inl ''unsupported power mode'')"

section \<open>The service\<close>

text \<open>The call \<open>set_power(mode, pin, active_high, on)\<close> of the backend.\<close>

datatype usb_call = SetPower usb_power_mode string bool bool

type_synonym usb_backend = "usb_power_mode \<Rightarrow> string \<Rightarrow> bool \<Rightarrow> bool \<Rightarrow> result"

definition usb_apply :: "usb_capabilities \<Rightarrow> usb_backend \<Rightarrow> usb_config \<Rightarrow> usb_host \<Rightarrow> result \<times> string option \<times> usb_call list \<times> usb_host" where
  "usb_apply caps set_power cfg u =
     (case usb_resolve cfg caps of
        Inl err \<Rightarrow> (result_error (-1), Some err, [], u)
      | Inr r \<Rightarrow>
          let rc = (if uc_host_supported caps then set_power (ur_mode r) (ur_pin r) (ur_active_high r) (us_enabled cfg) else result_ok);
              calls = (if uc_host_supported caps then [SetPower (ur_mode r) (ur_pin r) (ur_active_high r) (us_enabled cfg)] else [])
          in if \<not> is_ok rc then (rc, Some ''the platform refused to apply USB power'', calls, u)
             else (result_ok, None, calls, u\<lparr>uh_cfg := cfg, uh_resolved := r\<rparr>))"

definition usb_load_config :: "usb_capabilities \<Rightarrow> usb_config \<Rightarrow> usb_host \<Rightarrow> string option \<times> usb_host" where
  "usb_load_config caps cfg u =
     (case usb_resolve cfg caps of Inl err \<Rightarrow> (Some err, u) | Inr r \<Rightarrow> (None, u\<lparr>uh_cfg := cfg, uh_resolved := r\<rparr>))"

text \<open>The last component but two is \<open>applied\<close>.\<close>

definition usb_apply_at_boot :: "usb_capabilities \<Rightarrow> usb_backend \<Rightarrow> usb_host \<Rightarrow> result \<times> string option \<times> bool \<times> usb_call list \<times> usb_host" where
  "usb_apply_at_boot caps set_power u =
     (let c = uh_cfg u
      in if \<not> us_enable_at_boot c then (result_ok, None, False, [], u)
         else case usb_apply caps set_power c u of (rc, err, calls, u) \<Rightarrow> (rc, err, is_ok rc, calls, u))"

definition set_boot_function :: "usb_function \<Rightarrow> usb_host \<Rightarrow> usb_host" where
  "set_boot_function f u = u\<lparr>uh_boot_function := f\<rparr>"

definition set_boot_storage :: "bool \<Rightarrow> usb_host \<Rightarrow> usb_host" where
  "set_boot_storage on u = u\<lparr>uh_boot_storage := on\<rparr>"

text \<open>\<open>rail\<close> is what the backend can say of the rail. The host's activity and the devices are the backend's answers passed on and left out.\<close>

definition usb_get_status :: "bool option \<Rightarrow> usb_host \<Rightarrow> usb_status" where
  "usb_get_status rail u =
     \<lparr>ut_enabled = us_enabled (uh_cfg u), ut_function = us_function (uh_cfg u), ut_boot_function = uh_boot_function u,
      ut_storage = us_storage (uh_cfg u), ut_boot_storage = uh_boot_storage u,
      ut_reboot_required = (us_function (uh_cfg u) \<noteq> uh_boot_function u \<or> us_storage (uh_cfg u) \<noteq> uh_boot_storage u),
      ut_power = rail, ut_resolved = uh_resolved u\<rparr>"

section \<open>Names\<close>

lemma usb_names_roundtrip: "usb_power_mode_parse (usb_power_mode_name m) = Some m" "usb_function_parse (usb_function_name f) = Some f"
  by (cases m; simp add: usb_power_mode_parse_def) (cases f; simp add: usb_function_parse_def)

section \<open>Properties\<close>

datatype usb_op = UsbApply usb_config | UsbLoad usb_config | UsbBoot | BootFunction usb_function | BootStorage bool

fun usb_step :: "usb_capabilities \<Rightarrow> usb_backend \<Rightarrow> usb_op \<Rightarrow> usb_host \<Rightarrow> usb_call list \<times> usb_host" where
  "usb_step caps b (UsbApply cfg) u = (case usb_apply caps b cfg u of (_, _, calls, u) \<Rightarrow> (calls, u))"
| "usb_step caps b (UsbLoad cfg) u = ([], snd (usb_load_config caps cfg u))"
| "usb_step caps b UsbBoot u = (case usb_apply_at_boot caps b u of (_, _, _, calls, u) \<Rightarrow> (calls, u))"
| "usb_step caps b (BootFunction f) u = ([], set_boot_function f u)"
| "usb_step caps b (BootStorage s) u = ([], set_boot_storage s u)"

text \<open>A history over a backend that may answer differently at each step.\<close>

fun usb_run :: "usb_capabilities \<Rightarrow> (usb_backend \<times> usb_op) list \<Rightarrow> usb_host \<Rightarrow> usb_call list \<times> usb_host" where
  "usb_run caps [] u = ([], u)"
| "usb_run caps ((b, op) # ops) u = (case usb_step caps b op u of (l, u) \<Rightarrow> case usb_run caps ops u of (l', u) \<Rightarrow> (l @ l', u))"

text \<open>The configurations that a history mentions.\<close>

fun op_configs :: "usb_op \<Rightarrow> usb_config list" where
  "op_configs (UsbApply cfg) = [cfg]"
| "op_configs (UsbLoad cfg) = [cfg]"
| "op_configs _ = []"

definition usb_call_ok :: "usb_capabilities \<Rightarrow> bool \<Rightarrow> usb_call \<Rightarrow> bool" where
  "usb_call_ok caps expert c \<longleftrightarrow> (case c of SetPower mode pin ah on \<Rightarrow>
     uc_host_supported caps \<and> mode \<noteq> BoardDefault \<and>
     (if mode = Gpio then pc_switchable (uc_power caps) \<and> pin \<noteq> [] \<and> (expert \<or> pin_is_listed (uc_power caps) pin) else pin = []) \<and>
     (mode = AlwaysOn \<longrightarrow> \<not> pc_switchable (uc_power caps)))"

lemma usb_resolve_ok:
  assumes "usb_resolve cfg caps = Inr r" "uc_host_supported caps"
  shows "usb_call_ok caps (us_expert cfg) (SetPower (ur_mode r) (ur_pin r) ah on)"
  using assms
  by (auto simp: usb_resolve_def usb_resolve_gpio_def usb_call_ok_def usb_resolved0_def Let_def split: if_splits usb_power_mode.splits)

text \<open>What is stored is what the decision makes of it; a request that fails changes nothing.\<close>

definition usb_inv :: "usb_capabilities \<Rightarrow> usb_host \<Rightarrow> bool" where
  "usb_inv caps u \<longleftrightarrow> uh_cfg u = usb_config0 \<and> uh_resolved u = usb_resolved0 \<or> usb_resolve (uh_cfg u) caps = Inr (uh_resolved u)"

lemma usb_step_inv:
  assumes "usb_inv caps u"
  shows "usb_inv caps (snd (usb_step caps b op u))"
  using assms
  by (cases op)
     (auto simp: usb_inv_def usb_apply_def usb_load_config_def usb_apply_at_boot_def set_boot_function_def set_boot_storage_def Let_def split: sum.splits)

lemma usb_apply_atomic:
  "usb_apply caps b cfg u = (rc, err, calls, u') \<Longrightarrow> (is_ok rc \<longleftrightarrow> err = None) \<and> (\<not> is_ok rc \<longrightarrow> u' = u) \<and> (is_ok rc \<longrightarrow> uh_cfg u' = cfg)"
  by (auto simp: usb_apply_def Let_def split: sum.splits if_splits)

lemma usb_apply_calls:
  assumes "usb_apply caps b cfg u = (rc, err, calls, u')" "\<not> us_expert cfg"
  shows "list_all (usb_call_ok caps False) calls"
  using assms usb_resolve_ok [of cfg caps]
  by (cases "usb_resolve cfg caps"; cases "uc_host_supported caps") (auto simp: usb_apply_def Let_def split: if_splits)

lemma usb_step_calls:
  assumes "\<not> us_expert (uh_cfg u)" "list_all (\<lambda>cfg. \<not> us_expert cfg) (op_configs op)"
  shows "list_all (usb_call_ok caps False) (fst (usb_step caps b op u)) \<and> \<not> us_expert (uh_cfg (snd (usb_step caps b op u)))"
proof (cases op)
  case (UsbApply cfg)
  obtain rc err calls u' where a: "usb_apply caps b cfg u = (rc, err, calls, u')" by (metis surj_pair)
  with assms UsbApply usb_apply_calls [OF a] usb_apply_atomic [OF a] show ?thesis by (cases "is_ok rc") auto
next
  case UsbBoot
  obtain rc err calls u' where a: "usb_apply caps b (uh_cfg u) u = (rc, err, calls, u')" by (metis surj_pair)
  with assms UsbBoot usb_apply_calls [OF a] usb_apply_atomic [OF a] show ?thesis
    by (cases "is_ok rc") (auto simp: usb_apply_at_boot_def Let_def)
qed (use assms in \<open>auto simp: usb_load_config_def set_boot_function_def set_boot_storage_def split: sum.splits\<close>)



definition demo_usb_caps :: usb_capabilities where
  "demo_usb_caps = \<lparr>uc_host_supported = True, uc_controller = ''dwc2'', uc_max_speed = ''high'',
     uc_power = \<lparr>pc_switchable = True, pc_default_pin = ''PB18'', pc_default_active_high = True, pc_voltage_mv = 3300, pc_allowed_pins = [''PB18'']\<rparr>\<rparr>"


text \<open>The notice that a restart is needed goes away with the restart alone, when the helper acted on what is stored.\<close>

lemma reboot_notice_clears:
  "\<not> ut_reboot_required (usb_get_status rail (set_boot_storage (us_storage (uh_cfg u)) (set_boot_function (us_function (uh_cfg u)) u)))"
  by (simp add: usb_get_status_def set_boot_storage_def set_boot_function_def)

end
