(* ===== verification/Aes.thy ===== *)
theory Aes
  imports Prelude
begin

text \<open>
  AES-128, forward only (\<^verbatim>\<open>app/webrtc/aes.cpp\<close>): the tables computed from the field, the key schedule and the encryption of a block. What the transport needs of it is that
  a block of 16 bytes gives one of 16 bytes.
\<close>

unbundle bit_operations_syntax

section \<open>Tables\<close>

definition xtime :: "byte \<Rightarrow> byte" where
  "xtime a = push_bit 1 a XOR (if a AND 0x80 \<noteq> 0 then 0x1b else 0)"

text \<open>The powers of the generator 3, and the logarithms; that of 0 is never read.\<close>

fun gf_powers :: "nat \<Rightarrow> byte \<Rightarrow> byte list" where
  "gf_powers 0 x = []"
| "gf_powers (Suc n) x = x # gf_powers n (x XOR xtime x)"

definition exp_table :: "byte list" where
  "exp_table = (let es = gf_powers 255 1 in es @ [hd es])"

definition log_table :: "byte list" where
  "log_table = fold (\<lambda>i t. t[unat (exp_table ! i) := of_nat i]) [0..<255] (replicate 256 0)"

definition sbox_entry :: "byte \<Rightarrow> byte" where
  "sbox_entry iv =
     iv XOR (push_bit 1 iv OR drop_bit 7 iv) XOR (push_bit 2 iv OR drop_bit 6 iv) XOR (push_bit 3 iv OR drop_bit 5 iv)
       XOR (push_bit 4 iv OR drop_bit 4 iv) XOR 0x63"

definition inverse_table :: "byte list" where
  "inverse_table = (let es = exp_table; ls = log_table in map (\<lambda>i. if i = 0 then 0 else es ! (255 - unat (ls ! i))) [0..<256])"

definition sbox :: "byte list" where
  "sbox = map sbox_entry inverse_table"

section \<open>The key schedule\<close>

definition sub_byte :: "byte \<Rightarrow> byte" where
  "sub_byte b = sbox ! unat b"

definition sub_word :: "u32 \<Rightarrow> u32" where
  "sub_word t =
     push_bit 24 (ucast (sub_byte (ucast (drop_bit 24 t)))) OR push_bit 16 (ucast (sub_byte (ucast (drop_bit 16 t)))) OR
     push_bit 8 (ucast (sub_byte (ucast (drop_bit 8 t)))) OR ucast (sub_byte (ucast t))"

definition key_word :: "byte list \<Rightarrow> nat \<Rightarrow> u32" where
  "key_word key i = push_bit 24 (ucast (key ! (4 * i))) OR push_bit 16 (ucast (key ! (4 * i + 1))) OR
     push_bit 8 (ucast (key ! (4 * i + 2))) OR ucast (key ! (4 * i + 3))"

definition expand_word :: "nat \<Rightarrow> u32 list \<times> byte \<Rightarrow> u32 list \<times> byte" where
  "expand_word i st =
     (case st of (rk, rcon) \<Rightarrow>
        let t = rk ! (i - 1)
        in if i mod 4 = 0
           then (rk @ [rk ! (i - 4) XOR (sub_word (push_bit 8 t OR drop_bit 24 t) XOR push_bit 24 (ucast rcon))], xtime rcon)
           else (rk @ [rk ! (i - 4) XOR t], rcon))"

definition aes_key :: "byte list \<Rightarrow> u32 list" where
  "aes_key key = fst (fold expand_word [4..<44] (map (key_word key) [0..<4], 1))"

section \<open>A block\<close>

definition add_rk :: "u32 list \<Rightarrow> nat \<Rightarrow> byte list \<Rightarrow> byte list" where
  "add_rk rk r st =
     map2 (XOR) st (concat (map (\<lambda>c. let k = rk ! (4 * r + c) in [ucast (drop_bit 24 k), ucast (drop_bit 16 k), ucast (drop_bit 8 k), ucast k]) [0..<4]))"

definition shift_rows :: "byte list \<Rightarrow> byte list" where
  "shift_rows st = map (\<lambda>i. st ! i) [0, 5, 10, 15, 4, 9, 14, 3, 8, 13, 2, 7, 12, 1, 6, 11]"

definition mix_column :: "byte list \<Rightarrow> byte list" where
  "mix_column p =
     (let a0 = p ! 0; a1 = p ! 1; a2 = p ! 2; a3 = p ! 3; al = a0 XOR a1 XOR a2 XOR a3
      in [a0 XOR al XOR xtime (a0 XOR a1), a1 XOR al XOR xtime (a1 XOR a2), a2 XOR al XOR xtime (a2 XOR a3), a3 XOR al XOR xtime (a3 XOR a0)])"

definition mix_columns :: "byte list \<Rightarrow> byte list" where
  "mix_columns st = concat (map (\<lambda>c. mix_column (take 4 (drop (4 * c) st))) [0..<4])"

definition aes_round :: "u32 list \<Rightarrow> nat \<Rightarrow> byte list \<Rightarrow> byte list" where
  "aes_round rk r st =
     (let st = shift_rows (map sub_byte st); st = (if r < 10 then mix_columns st else st) in add_rk rk r st)"

definition aes_encrypt :: "u32 list \<Rightarrow> byte list \<Rightarrow> byte list" where
  "aes_encrypt rk block = fold (aes_round rk) [1..<11] (add_rk rk 0 block)"

section \<open>Lemmas\<close>

lemma length_add_rk: "length st = 16 \<Longrightarrow> length (add_rk rk r st) = 16"
  by (simp add: add_rk_def Let_def upt_rec)

lemma length_aes_round: "length (aes_round rk r st) = 16"
  unfolding aes_round_def Let_def
  by (rule length_add_rk) (simp add: shift_rows_def mix_columns_def mix_column_def Let_def upt_rec)

lemma length_aes_encrypt: "length block = 16 \<Longrightarrow> length (aes_encrypt rk block) = 16"
proof -
  assume b: "length block = 16"
  have "length (fold (aes_round rk) rs st) = 16" if "length st = 16" for rs st
    using that by (induction rs arbitrary: st) (simp_all add: length_aes_round)
  with b show ?thesis by (simp add: aes_encrypt_def length_add_rk)
qed

end
