(* ===== verification/Srtp.thy ===== *)
theory Srtp
  imports Aes Rtp Websocket
begin

text \<open>
  The protection of the WebRTC media (\<^verbatim>\<open>app/webrtc/srtp.cpp\<close>, the hash of \<^verbatim>\<open>app/webrtc/stun.cpp\<close>): the key derivation, counter mode, the rollover counter, the replay windows and the four
  directions of a session. A buffer that a refused packet leaves behind is not used and is left out of the result.
\<close>

section \<open>The authentication tag\<close>

definition hmac_sha1 :: "byte list \<Rightarrow> byte list \<Rightarrow> byte list" where
  "hmac_sha1 key msg =
     (let k = (if 64 < length key then sha1 key else key); k = k @ replicate (64 - length k) 0;
          ipad = map (\<lambda>b. b XOR 0x36) k; opad = map (\<lambda>b. b XOR 0x5c) k
      in sha1 (opad @ sha1 (ipad @ msg)))"

section \<open>Counter mode\<close>

definition ctr_block :: "byte list \<Rightarrow> u16 \<Rightarrow> byte list" where
  "ctr_block iv n = take 14 iv @ be16 n"

function cm_xor_from :: "u32 list \<Rightarrow> byte list \<Rightarrow> nat \<Rightarrow> byte list \<Rightarrow> byte list" where
  "cm_xor_from rk iv n buf =
     (if buf = [] then []
      else map2 (XOR) (take 16 buf) (aes_encrypt rk (ctr_block iv (of_nat n))) @ cm_xor_from rk iv (Suc n) (drop 16 buf))"
  by pat_completeness auto
termination
  by (relation "measure (\<lambda>(_, _, _, buf). length buf)") auto

declare cm_xor_from.simps [simp del]

definition cm_xor :: "u32 list \<Rightarrow> byte list \<Rightarrow> byte list \<Rightarrow> byte list" where
  "cm_xor rk iv buf = cm_xor_from rk iv 0 buf"

definition make_iv :: "byte list \<Rightarrow> u32 \<Rightarrow> u64 \<Rightarrow> byte list" where
  "make_iv salt ssrc index48 =
     map2 (XOR) salt ([0, 0, 0, 0] @ be32 ssrc @ map (\<lambda>i. ucast (drop_bit (8 * (5 - i)) index48)) [0..<6]) @ [0, 0]"

record srtp_key =
  mk_key :: "byte list"
  mk_salt :: "byte list"

definition srtp_kdf :: "srtp_key \<Rightarrow> byte \<Rightarrow> nat \<Rightarrow> byte list" where
  "srtp_kdf mk label out_len =
     cm_xor (aes_key (mk_key mk)) ((mk_salt mk)[7 := mk_salt mk ! 7 XOR label] @ [0, 0]) (replicate out_len 0)"

section \<open>A session\<close>

record srtp_dir =
  sd_cipher :: "u32 list"
  sd_auth :: "byte list"
  sd_salt :: "byte list"

definition srtp_dir_new :: "srtp_key \<Rightarrow> bool \<Rightarrow> srtp_dir" where
  "srtp_dir_new mk rtcp =
     \<lparr>sd_cipher = aes_key (srtp_kdf mk (if rtcp then 3 else 0) 16), sd_auth = srtp_kdf mk (if rtcp then 4 else 1) 20,
      sd_salt = srtp_kdf mk (if rtcp then 5 else 2) 14\<rparr>"

record out_seq =
  os_ssrc :: u32
  os_roc :: u32
  os_last :: u16
  os_seen :: bool

record in_seq =
  is_ssrc :: u32
  is_roc :: u32
  is_high :: u16
  is_seen :: bool
  is_win_high :: u64
  is_win_mask :: u64

record srtp_session =
  ss_rtp_out :: srtp_dir
  ss_rtcp_out :: srtp_dir
  ss_rtcp_in :: srtp_dir
  ss_rtp_in :: srtp_dir
  ss_out :: "out_seq list"
  ss_in :: "in_seq list"
  ss_rtcp_index :: u32
  ss_replay_high :: u64
  ss_replay_mask :: u64

definition out_seq0 :: out_seq where
  "out_seq0 = \<lparr>os_ssrc = 0, os_roc = 0, os_last = 0, os_seen = False\<rparr>"

definition in_seq0 :: in_seq where
  "in_seq0 = \<lparr>is_ssrc = 0, is_roc = 0, is_high = 0, is_seen = False, is_win_high = 0, is_win_mask = 0\<rparr>"

definition kStreams :: nat where "kStreams = 4"

definition srtp_new :: "srtp_key \<Rightarrow> srtp_key \<Rightarrow> srtp_session" where
  "srtp_new outk ink =
     \<lparr>ss_rtp_out = srtp_dir_new outk False, ss_rtcp_out = srtp_dir_new outk True, ss_rtcp_in = srtp_dir_new ink True,
      ss_rtp_in = srtp_dir_new ink False, ss_out = replicate kStreams out_seq0, ss_in = replicate kStreams in_seq0,
      ss_rtcp_index = 0, ss_replay_high = 0, ss_replay_mask = 0\<rparr>"

text \<open>The slot of a stream: its own, else a free one, else the first.\<close>

definition slot :: "('a \<Rightarrow> bool) \<Rightarrow> ('a \<Rightarrow> u32) \<Rightarrow> (u32 \<Rightarrow> 'a \<Rightarrow> 'a) \<Rightarrow> 'a \<Rightarrow> 'a list \<Rightarrow> u32 \<Rightarrow> nat \<times> 'a list" where
  "slot seen ssrc_of set_ssrc dflt a ssrc =
     (case find (\<lambda>i. seen (a ! i) \<and> ssrc_of (a ! i) = ssrc) [0..<length a] of
        Some i \<Rightarrow> (i, a)
      | None \<Rightarrow>
          (case find (\<lambda>i. \<not> seen (a ! i)) [0..<length a] of
             Some i \<Rightarrow> (i, a[i := set_ssrc ssrc (a ! i)])
           | None \<Rightarrow> (0, a[0 := set_ssrc ssrc dflt])))"

definition out_slot :: "out_seq list \<Rightarrow> u32 \<Rightarrow> nat \<times> out_seq list" where
  "out_slot = slot os_seen os_ssrc (\<lambda>x e. e\<lparr>os_ssrc := x\<rparr>) out_seq0"

definition in_slot :: "in_seq list \<Rightarrow> u32 \<Rightarrow> nat \<times> in_seq list" where
  "in_slot = slot is_seen is_ssrc (\<lambda>x e. e\<lparr>is_ssrc := x\<rparr>) in_seq0"

definition packet_index :: "u32 \<Rightarrow> u16 \<Rightarrow> u64" where
  "packet_index roc seq = push_bit 16 (ucast roc) OR ucast seq"

section \<open>RTP\<close>

definition send_stream :: "u16 \<Rightarrow> out_seq \<Rightarrow> out_seq" where
  "send_stream seq st =
     (let st = (if os_seen st \<and> seq < os_last st \<and> 0x8000 < os_last st - seq then st\<lparr>os_roc := os_roc st + 1\<rparr> else st)
      in st\<lparr>os_last := seq, os_seen := True\<rparr>)"

definition protect_rtp :: "byte list \<Rightarrow> srtp_session \<Rightarrow> byte list option \<times> srtp_session" where
  "protect_rtp pkt s =
     (if length pkt < 12 then (None, s)
      else let ssrc = rd32 pkt 8; seq = rd16 pkt 2
           in case out_slot (ss_out s) ssrc of
                (i, slots) \<Rightarrow>
                  let st = send_stream seq (slots ! i); roc = os_roc st; d = ss_rtp_out s;
                      body = take 12 pkt @ cm_xor (sd_cipher d) (make_iv (sd_salt d) ssrc (packet_index roc seq)) (drop 12 pkt)
                  in (Some (body @ take 10 (hmac_sha1 (sd_auth d) (body @ be32 roc))), s\<lparr>ss_out := slots[i := st]\<rparr>))"

text \<open>Which rollover a sequence number most likely belongs to.\<close>

definition guess_roc :: "in_seq \<Rightarrow> u16 \<Rightarrow> u32" where
  "guess_roc st seq =
     (if is_seen st
      then if is_high st < 32768
           then if 32768 < uint seq - uint (is_high st) \<and> 0 < is_roc st then is_roc st - 1 else is_roc st
           else if uint seq < uint (is_high st) - 32768 then is_roc st + 1 else is_roc st
      else is_roc st)"

definition replay_blocked :: "u64 \<Rightarrow> u64 \<Rightarrow> u64 \<Rightarrow> bool" where
  "replay_blocked high win index \<longleftrightarrow> index \<le> high \<and> (64 \<le> high - index \<or> win AND push_bit (unat (high - index)) 1 \<noteq> 0)"

definition replay_advance :: "u64 \<Rightarrow> u64 \<Rightarrow> u64 \<Rightarrow> u64 \<times> u64" where
  "replay_advance high win index =
     (if high < index
      then (index, if 64 \<le> index - high then 1 else push_bit (unat (index - high)) win OR 1)
      else (high, win OR push_bit (unat (high - index)) 1))"

definition advance_stream :: "u32 \<Rightarrow> u16 \<Rightarrow> u64 \<Rightarrow> in_seq \<Rightarrow> in_seq" where
  "advance_stream v seq index st =
     (if \<not> is_seen st then st\<lparr>is_seen := True, is_roc := v, is_high := seq, is_win_high := index, is_win_mask := 1\<rparr>
      else let w = replay_advance (is_win_high st) (is_win_mask st) index;
               st = (if v = is_roc st + 1 then st\<lparr>is_roc := v, is_high := seq\<rparr>
                     else if v = is_roc st \<and> is_high st < seq then st\<lparr>is_high := seq\<rparr> else st)
           in st\<lparr>is_win_high := fst w, is_win_mask := snd w\<rparr>)"

text \<open>What is left when the tag and the padding are off; \<open>None\<close> for a padding that does not fit.\<close>

definition strip_padding :: "nat \<Rightarrow> byte list \<Rightarrow> byte list option" where
  "strip_padding hdr pkt =
     (if pkt ! 0 AND 0x20 \<noteq> 0 \<and> hdr < length pkt
      then let pad = unat (last pkt) in if pad = 0 \<or> length pkt - hdr < pad then None else Some (take (length pkt - pad) pkt)
      else Some pkt)"

definition unprotect_rtp :: "byte list \<Rightarrow> srtp_session \<Rightarrow> (byte list \<times> nat) option \<times> srtp_session" where
  "unprotect_rtp pkt s =
     (if length pkt < 12 + 10 then (None, s)
      else let tag_at = length pkt - 10; hdr = header_length (take tag_at pkt)
           in if hdr = 0 then (None, s)
              else let ssrc = rd32 pkt 8; seq = rd16 pkt 2
                   in case in_slot (ss_in s) ssrc of
                        (i, slots) \<Rightarrow>
                          let s = s\<lparr>ss_in := slots\<rparr>; st = slots ! i; v = guess_roc st seq; index = packet_index v seq; d = ss_rtp_in s
                          in if is_seen st \<and> replay_blocked (is_win_high st) (is_win_mask st) index then (None, s)
                             else if take 10 (hmac_sha1 (sd_auth d) (take tag_at pkt @ be32 v)) \<noteq> drop tag_at pkt then (None, s)
                             else let s = s\<lparr>ss_in := slots[i := advance_stream v seq index st]\<rparr>;
                                      plain = take hdr pkt @ cm_xor (sd_cipher d) (make_iv (sd_salt d) ssrc index) (drop hdr (take tag_at pkt))
                                  in (map_option (\<lambda>p. (p, hdr)) (strip_padding hdr plain), s))"

section \<open>RTCP\<close>

definition protect_rtcp :: "byte list \<Rightarrow> srtp_session \<Rightarrow> byte list option \<times> srtp_session" where
  "protect_rtcp pkt s =
     (if length pkt < 8 then (None, s)
      else let ssrc = rd32 pkt 4; n = ss_rtcp_index s + 1; index = n AND 0x7fffffff; d = ss_rtcp_out s;
               body = take 8 pkt @ cm_xor (sd_cipher d) (make_iv (sd_salt d) ssrc (ucast index)) (drop 8 pkt) @ be32 (0x80000000 OR index)
           in (Some (body @ take 10 (hmac_sha1 (sd_auth d) body)), s\<lparr>ss_rtcp_index := n\<rparr>))"

definition unprotect_rtcp :: "byte list \<Rightarrow> srtp_session \<Rightarrow> byte list option \<times> srtp_session" where
  "unprotect_rtcp pkt s =
     (if length pkt < 8 + 4 + 10 then (None, s)
      else let tag_at = length pkt - 10; d = ss_rtcp_in s
           in if take 10 (hmac_sha1 (sd_auth d) (take tag_at pkt)) \<noteq> drop tag_at pkt then (None, s)
              else let ei_at = tag_at - 4; ei = rd32 pkt ei_at; index = ucast (ei AND 0x7fffffff)
                   in if replay_blocked (ss_replay_high s) (ss_replay_mask s) index then (None, s)
                      else let w = replay_advance (ss_replay_high s) (ss_replay_mask s) index;
                               s = s\<lparr>ss_replay_high := fst w, ss_replay_mask := snd w\<rparr>
                           in (Some (if ei AND 0x80000000 \<noteq> 0
                                     then take 8 pkt @ cm_xor (sd_cipher d) (make_iv (sd_salt d) (rd32 pkt 4) index) (drop 8 (take ei_at pkt))
                                     else take ei_at pkt), s))"


section \<open>Counter mode is its own inverse\<close>

lemma length_ctr_block: "14 \<le> length iv \<Longrightarrow> length (ctr_block iv n) = 16"
  by (simp add: ctr_block_def be16_def)

lemma map2_xor_twice: "length xs \<le> length ks \<Longrightarrow> map2 (XOR) (map2 (XOR) xs ks) ks = (xs :: byte list)"
  by (induction xs ks rule: list_induct2') (simp_all add: xor.assoc)

lemma cm_xor_from_twice:
  assumes "14 \<le> length iv"
  shows "length (cm_xor_from rk iv n buf) = length buf \<and> cm_xor_from rk iv n (cm_xor_from rk iv n buf) = buf"
  using assms
proof (induction rk iv n buf rule: cm_xor_from.induct)
  case (1 rk iv n buf)
  show ?case
  proof (cases "buf = []")
    case True
    then show ?thesis by (simp add: cm_xor_from.simps)
  next
    case False
    define ks where "ks = aes_encrypt rk (ctr_block iv (of_nat n))"
    have ks: "length ks = 16" using 1 by (simp add: ks_def length_aes_encrypt length_ctr_block)
    define c where "c = map2 (XOR) (take 16 buf) ks"
    define r where "r = cm_xor_from rk iv (Suc n) (drop 16 buf)"
    have r: "length r = length buf - 16" "cm_xor_from rk iv (Suc n) r = drop 16 buf" using 1 False by (simp_all add: r_def)
    have out: "cm_xor_from rk iv n buf = c @ r" using False by (subst cm_xor_from.simps) (simp add: c_def r_def ks_def)
    have c: "length c = min 16 (length buf)" by (simp add: c_def ks min.commute)
    have "take 16 (c @ r) = c" "drop 16 (c @ r) = r" using c r(1) by (cases "length buf \<le> 16"; simp)+
    moreover have "c \<noteq> []" using c False by (cases buf) auto
    moreover have "map2 (XOR) c ks = take 16 buf" unfolding c_def by (rule map2_xor_twice) (simp add: ks)
    ultimately have "cm_xor_from rk iv n (c @ r) = take 16 buf @ drop 16 buf"
      by (subst cm_xor_from.simps) (simp add: r(2) flip: ks_def)
    with out c r(1) show ?thesis by auto
  qed
qed

lemma cm_xor_twice: "14 \<le> length iv \<Longrightarrow> cm_xor rk iv (cm_xor rk iv buf) = buf" "14 \<le> length iv \<Longrightarrow> length (cm_xor rk iv buf) = length buf"
  by (simp_all add: cm_xor_def cm_xor_from_twice)

lemma length_make_iv: "length salt = 14 \<Longrightarrow> length (make_iv salt ssrc index) = 16"
  by (simp add: make_iv_def be32_def)

section \<open>Replay windows\<close>

text \<open>A window over the indices that were accepted: what it does not block is new, and accepting it keeps that so.\<close>

locale replay_window =
  fixes blocked :: "'w \<Rightarrow> 'i \<Rightarrow> bool" and advance :: "'w \<Rightarrow> 'i \<Rightarrow> 'w" and holds :: "'i set \<Rightarrow> 'w \<Rightarrow> bool"
  assumes fresh: "holds A w \<Longrightarrow> \<not> blocked w i \<Longrightarrow> i \<notin> A"
    and advance: "holds A w \<Longrightarrow> \<not> blocked w i \<Longrightarrow> holds (insert i A) (advance w i)"
begin

fun accept_all :: "'w \<Rightarrow> 'i list \<Rightarrow> 'i list" where
  "accept_all w [] = []"
| "accept_all w (i # is) = (if blocked w i then accept_all w is else i # accept_all (advance w i) is)"

lemma accepted_once: "holds A w \<Longrightarrow> distinct (accept_all w is) \<and> set (accept_all w is) \<inter> A = {}"
proof (induction "is" arbitrary: A w)
  case Nil
  then show ?case by simp
next
  case (Cons i "is")
  show ?case
  proof (cases "blocked w i")
    case True
    with Cons show ?thesis by simp
  next
    case False
    from Cons.IH [OF advance [OF Cons.prems False]] fresh [OF Cons.prems False] False show ?thesis by auto
  qed
qed

end

definition window_holds :: "u64 set \<Rightarrow> u64 \<times> u64 \<Rightarrow> bool" where
  "window_holds A w \<longleftrightarrow> (\<forall>i\<in>A. i \<le> fst w \<and> (fst w - i < 64 \<longrightarrow> bit (snd w) (unat (fst w - i))))"

lemma mask_bit: "m AND push_bit n 1 \<noteq> 0 \<longleftrightarrow> bit m n" for m :: u64
  by (simp add: bit_iff_and_push_bit_not_eq_0)

lemma window_fresh:
  assumes "window_holds A w" "\<not> replay_blocked (fst w) (snd w) i"
  shows "i \<notin> A"
proof
  assume "i \<in> A"
  with assms(1) have "i \<le> fst w" "fst w - i < 64 \<longrightarrow> bit (snd w) (unat (fst w - i))" by (auto simp: window_holds_def)
  with assms(2) mask_bit [of "snd w" "unat (fst w - i)"] show False by (auto simp: replay_blocked_def not_le)
qed

lemma window_advance:
  assumes "window_holds A w" "\<not> replay_blocked (fst w) (snd w) i"
  shows "window_holds (insert i A) (replay_advance (fst w) (snd w) i)"
proof (cases "fst w < i")
  case True
  have "bit (if 64 \<le> i - fst w then 1 else push_bit (unat (i - fst w)) (snd w) OR 1) (unat (i - j))"
    if j: "j \<in> A" "i - j < 64" for j
  proof -
    have le: "j \<le> fst w" "fst w - j < 64 \<longrightarrow> bit (snd w) (unat (fst w - j))" using assms(1) j(1) by (auto simp: window_holds_def)
    have n: "unat (i - j) = unat i - unat j" "unat (i - fst w) = unat i - unat (fst w)" "unat (fst w - j) = unat (fst w) - unat j"
      using True le(1) by (simp_all add: unat_sub)
    have lt: "unat i - unat j < 64" using j(2) n(1) by (simp add: word_less_nat_alt)
    moreover have o: "unat j \<le> unat (fst w)" "unat (fst w) < unat i" using True le(1) by (simp_all add: word_le_nat_alt word_less_nat_alt)
    ultimately have "\<not> 64 \<le> i - fst w" "fst w - j < 64" by (simp_all add: word_le_nat_alt word_less_nat_alt n)
    with le(2) o lt show ?thesis by (simp add: bit_simps n)
  qed
  moreover have "bit (if 64 \<le> i - fst w then 1 else push_bit (unat (i - fst w)) (snd w) OR 1) 0" by (simp add: bit_simps)
  ultimately show ?thesis
    using True assms(1) by (auto simp: window_holds_def replay_advance_def intro: order_trans less_imp_le)
next
  case False
  with assms(2) have "i \<le> fst w" "fst w - i < 64" by (auto simp: replay_blocked_def not_less not_le)
  moreover have "unat (fst w - i) < 64" using \<open>fst w - i < 64\<close> by (simp add: word_less_nat_alt)
  ultimately show ?thesis using False assms(1) by (auto simp: window_holds_def replay_advance_def bit_simps)
qed

interpretation srtp_window: replay_window "\<lambda>w i. replay_blocked (fst w) (snd w) i" "\<lambda>w i. replay_advance (fst w) (snd w) i" window_holds
  by unfold_locales (blast dest: window_fresh, blast intro: window_advance)


section \<open>Streams\<close>

text \<open>
  The slots as a table of streams. As long as no more streams come in than there are slots, a stream finds its own state or a blank one, and storing it changes no other stream's.
\<close>

locale stream_slots =
  fixes seen :: "'a \<Rightarrow> bool" and ssrc_of :: "'a \<Rightarrow> u32" and set_ssrc :: "u32 \<Rightarrow> 'a \<Rightarrow> 'a" and dflt :: 'a
  assumes set_ssrc: "ssrc_of (set_ssrc x e) = x" "seen (set_ssrc x e) = seen e" "set_ssrc x (set_ssrc y e) = set_ssrc x e"
    and dflt: "\<not> seen dflt"
begin

definition stream :: "'a list \<Rightarrow> u32 \<Rightarrow> 'a option" where
  "stream a x = find (\<lambda>e. seen e \<and> ssrc_of e = x) a"

definition ok :: "u32 set \<Rightarrow> 'a list \<Rightarrow> bool" where
  "ok S a \<longleftrightarrow> length a = kStreams \<and> (\<forall>e\<in>set a. seen e \<longrightarrow> ssrc_of e \<in> S) \<and> (\<forall>e\<in>set a. \<not> seen e \<longrightarrow> (\<exists>y. e = set_ssrc y dflt)) \<and>
     (\<forall>i<kStreams. \<forall>j<kStreams. seen (a ! i) \<and> seen (a ! j) \<and> ssrc_of (a ! i) = ssrc_of (a ! j) \<longrightarrow> i = j)"

lemma stream_None: "stream a x = None \<longleftrightarrow> (\<forall>e\<in>set a. seen e \<longrightarrow> ssrc_of e \<noteq> x)"
  by (auto simp: stream_def find_None_conv)

lemma stream_at:
  assumes "ok S a" "i < kStreams" "seen (a ! i)" "ssrc_of (a ! i) = x"
  shows "stream a x = Some (a ! i)"
proof -
  from assms have "a ! i \<in> set a" by (auto simp: ok_def)
  with assms(3,4) have "stream a x \<noteq> None" by (auto simp: stream_None)
  then obtain e where e: "stream a x = Some e" by auto
  then have "e \<in> set a \<and> seen e \<and> ssrc_of e = x" unfolding stream_def by (rule find_SomeD)
  then obtain j where "j < kStreams" "a ! j = e" "seen (a ! j)" "ssrc_of (a ! j) = x" using assms(1) by (auto simp: ok_def in_set_conv_nth)
  with assms e show ?thesis by (auto simp: ok_def)
qed

lemma stream_SomeD:
  assumes "stream a x = Some e"
  shows "e \<in> set a" "seen e" "ssrc_of e = x"
  using find_SomeD [OF assms [unfolded stream_def]] by auto

lemma room:
  assumes "ok S a" "finite S" "card S \<le> kStreams" "x \<in> S" "stream a x = None"
  shows "\<exists>i<kStreams. \<not> seen (a ! i)"
proof (rule ccontr)
  assume "\<not> ?thesis"
  then have all: "\<forall>i<kStreams. seen (a ! i)" by auto
  have "inj_on (\<lambda>i. ssrc_of (a ! i)) {..<kStreams}" using assms(1) all by (auto simp: ok_def inj_on_def)
  moreover have "(\<lambda>i. ssrc_of (a ! i)) ` {..<kStreams} \<subseteq> S - {x}"
    using assms(1,5) all by (auto simp: ok_def stream_None)
  ultimately have "kStreams \<le> card (S - {x})" using card_inj_on_le [of _ "{..<kStreams}" "S - {x}"] assms(2) by auto
  moreover have "card (S - {x}) < card S" using assms(2,4) by (rule card_Diff1_less)
  ultimately show False using assms(3) by simp
qed

lemma ok_update:
  assumes "ok S a" "i < kStreams" "stream a x = None \<or> (seen (a ! i) \<and> ssrc_of (a ! i) = x)" "seen (a ! i) \<longrightarrow> ssrc_of (a ! i) = x"
    and "x \<in> S" "seen e" "ssrc_of e = x"
  shows "ok S (a[i := e])" "stream (a[i := e]) = (stream a)(x := Some e)"
proof -
  have l: "length a = kStreams" using assms(1) by (simp add: ok_def)
  have other: "ssrc_of (a ! j) \<noteq> x" if "j < kStreams" "j \<noteq> i" "seen (a ! j)" for j
    using assms(3)
  proof
    assume "stream a x = None"
    with that l show ?thesis by (auto simp: stream_None)
  next
    assume "seen (a ! i) \<and> ssrc_of (a ! i) = x"
    with that assms(1,2) show ?thesis by (auto simp: ok_def)
  qed
  have mem: "y \<in> set (a[i := e]) \<Longrightarrow> y = e \<or> y \<in> set a" for y using set_update_subset_insert by fastforce
  show ok: "ok S (a[i := e])"
    unfolding ok_def
  proof (intro conjI)
    show "length (a[i := e]) = kStreams" by (simp add: l)
    show "\<forall>f\<in>set (a[i := e]). seen f \<longrightarrow> ssrc_of f \<in> S" using mem assms(1,5,7) unfolding ok_def by metis
    show "\<forall>f\<in>set (a[i := e]). \<not> seen f \<longrightarrow> (\<exists>y. f = set_ssrc y dflt)" using mem assms(1,6) unfolding ok_def by metis
    show "\<forall>j<kStreams. \<forall>k<kStreams. seen (a[i := e] ! j) \<and> seen (a[i := e] ! k) \<and> ssrc_of (a[i := e] ! j) = ssrc_of (a[i := e] ! k) \<longrightarrow> j = k"
    proof (intro allI impI)
      fix j k assume jk: "j < kStreams" "k < kStreams"
        and h: "seen (a[i := e] ! j) \<and> seen (a[i := e] ! k) \<and> ssrc_of (a[i := e] ! j) = ssrc_of (a[i := e] ! k)"
      show "j = k"
        using h jk other [of j] other [of k] assms(1,7) l by (cases "j = i"; cases "k = i") (auto simp: ok_def)
    qed
  qed
  show "stream (a[i := e]) = (stream a)(x := Some e)"
  proof
    fix y
    show "stream (a[i := e]) y = ((stream a)(x := Some e)) y"
    proof (cases "y = x")
      case True
      then show ?thesis using stream_at [OF ok assms(2), of x] assms(2,6,7) l by simp
    next
      case False
      show ?thesis
      proof (cases "stream a y")
        case None
        with mem False assms(7) have "stream (a[i := e]) y = None" by (auto simp: stream_None)
        with None False show ?thesis by simp
      next
        case (Some f)
        from stream_SomeD [OF Some] l obtain j where j: "j < kStreams" "a ! j = f" "seen f" "ssrc_of f = y" by (auto simp: in_set_conv_nth)
        with False assms(4) have "j \<noteq> i" by auto
        then have "stream (a[i := e]) y = Some f" using stream_at [OF ok j(1), of y] j l by simp
        with Some False show ?thesis by simp
      qed
    qed
  qed
qed

lemma slot_ok:
  assumes "ok S a" "finite S" "card S \<le> kStreams" "x \<in> S" "slot seen ssrc_of set_ssrc dflt a x = (i, a')"
  shows "a' ! i = (case stream a x of Some e \<Rightarrow> e | None \<Rightarrow> set_ssrc x dflt)" "ok S a'" "stream a' = stream a"
    "seen e \<Longrightarrow> ssrc_of e = x \<Longrightarrow> ok S (a'[i := e]) \<and> stream (a'[i := e]) = (stream a)(x := Some e)"
proof -
  have l: "length a = kStreams" using assms(1) by (simp add: ok_def)
  have "a' ! i = (case stream a x of Some e \<Rightarrow> e | None \<Rightarrow> set_ssrc x dflt) \<and> ok S a' \<and> stream a' = stream a \<and>
    (\<forall>e. seen e \<and> ssrc_of e = x \<longrightarrow> ok S (a'[i := e]) \<and> stream (a'[i := e]) = (stream a)(x := Some e))"
  proof (cases "stream a x")
    case None
    then have n: "find (\<lambda>i. seen (a ! i) \<and> ssrc_of (a ! i) = x) [0..<length a] = None" by (auto simp: find_None_conv stream_None)
    from room [OF assms(1-4) None] obtain k where "find (\<lambda>i. \<not> seen (a ! i)) [0..<length a] = Some k"
      by (cases "find (\<lambda>i. \<not> seen (a ! i)) [0..<length a]") (auto simp: find_None_conv l)
    with n assms(5) have i: "i < kStreams" "\<not> seen (a ! i)" and a': "a' = a[i := set_ssrc x (a ! i)]"
      using find_SomeD [of "\<lambda>i. \<not> seen (a ! i)" "[0..<length a]" k] by (auto simp: slot_def l)
    from i l assms(1) obtain y where y: "a ! i = set_ssrc y dflt" by (auto simp: ok_def)
    then have a': "a' = a[i := set_ssrc x dflt]" using a' by (simp add: set_ssrc)
    have mem: "z \<in> set a' \<Longrightarrow> z = set_ssrc x dflt \<or> z \<in> set a" for z using set_update_subset_insert a' by fastforce
    have nth: "a' ! j = (if j = i then set_ssrc x dflt else a ! j)" if "j < kStreams" for j using that l by (simp add: a')
    have ok: "ok S a'"
      unfolding ok_def
    proof (intro conjI)
      show "length a' = kStreams" by (simp add: a' l)
      show "\<forall>e\<in>set a'. seen e \<longrightarrow> ssrc_of e \<in> S" using assms(1) mem dflt set_ssrc(2) unfolding ok_def by metis
      show "\<forall>e\<in>set a'. \<not> seen e \<longrightarrow> (\<exists>y. e = set_ssrc y dflt)" using assms(1) mem by (auto simp: ok_def)
      show "\<forall>i<kStreams. \<forall>j<kStreams. seen (a' ! i) \<and> seen (a' ! j) \<and> ssrc_of (a' ! i) = ssrc_of (a' ! j) \<longrightarrow> i = j"
        using assms(1) dflt by (auto simp: ok_def nth set_ssrc)
    qed
    have st: "stream a' = stream a"
    proof
      fix z
      show "stream a' z = stream a z"
      proof (cases "stream a z")
        case None
        then have "stream a' z = None" using mem dflt set_ssrc(2) unfolding stream_None by metis
        with None show ?thesis by simp
      next
        case (Some f)
        from stream_SomeD [OF Some] l obtain j where j: "j < kStreams" "a ! j = f" "seen f" "ssrc_of f = z" by (auto simp: in_set_conv_nth)
        with i have "j \<noteq> i" by auto
        with j stream_at [OF ok j(1), of z] nth Some show ?thesis by simp
      qed
    qed
    have "\<not> seen (a' ! i)" using nth i(1) dflt by (simp add: set_ssrc)
    with ok_update [OF ok i(1), of x] None st assms(4) nth [OF i(1)] ok show ?thesis by simp
  next
    case (Some e)
    from stream_SomeD [OF Some] l obtain j where j: "j < kStreams" "seen (a ! j) \<and> ssrc_of (a ! j) = x" by (auto simp: in_set_conv_nth)
    then obtain k where k: "find (\<lambda>i. seen (a ! i) \<and> ssrc_of (a ! i) = x) [0..<length a] = Some k"
      by (cases "find (\<lambda>i. seen (a ! i) \<and> ssrc_of (a ! i) = x) [0..<length a]") (auto simp: find_None_conv l)
    from find_SomeD [OF k] have i: "k < kStreams" "seen (a ! k)" "ssrc_of (a ! k) = x" by (auto simp: l)
    have a': "i = k" "a' = a" using k assms(5) by (auto simp: slot_def)
    with stream_at [OF assms(1) i] ok_update [OF assms(1) i(1), of x] i assms(1,4) Some show ?thesis by simp
  qed
  then show "a' ! i = (case stream a x of Some e \<Rightarrow> e | None \<Rightarrow> set_ssrc x dflt)" "ok S a'" "stream a' = stream a"
    "seen e \<Longrightarrow> ssrc_of e = x \<Longrightarrow> ok S (a'[i := e]) \<and> stream (a'[i := e]) = (stream a)(x := Some e)" by blast+
qed

lemma fresh_slots: "ok S (replicate kStreams dflt)" if "dflt = set_ssrc y dflt" for S y
  using that dflt by (auto simp: ok_def)

lemma stream_fresh: "stream (replicate n dflt) x = None"
  using dflt by (simp add: stream_None)

end

interpretation outs: stream_slots os_seen os_ssrc "\<lambda>x e. e\<lparr>os_ssrc := x\<rparr>" out_seq0
  by unfold_locales (simp_all add: out_seq0_def)

interpretation ins: stream_slots is_seen is_ssrc "\<lambda>x e. e\<lparr>is_ssrc := x\<rparr>" in_seq0
  by unfold_locales (simp_all add: in_seq0_def)


section \<open>Every packet at most once\<close>

text \<open>The stream and the index that a session reads off a packet.\<close>

definition rtp_position :: "srtp_session \<Rightarrow> byte list \<Rightarrow> u32 \<times> u64" where
  "rtp_position s p =
     (case in_slot (ss_in s) (rd32 p 8) of
        (i, slots) \<Rightarrow> (rd32 p 8, packet_index (guess_roc (slots ! i) (rd16 p 2)) (rd16 p 2)))"

fun rtp_accepted :: "srtp_session \<Rightarrow> byte list list \<Rightarrow> (u32 \<times> u64) list" where
  "rtp_accepted s [] = []"
| "rtp_accepted s (p # ps) =
     (case unprotect_rtp p s of (r, s') \<Rightarrow> (if r \<noteq> None then [rtp_position s p] else []) @ rtp_accepted s' ps)"

definition rtcp_position :: "byte list \<Rightarrow> u64" where
  "rtcp_position p = ucast (rd32 p (length p - 14) AND 0x7fffffff)"

fun rtcp_accepted :: "srtp_session \<Rightarrow> byte list list \<Rightarrow> byte list list" where
  "rtcp_accepted s [] = []"
| "rtcp_accepted s (p # ps) = (case unprotect_rtcp p s of (r, s') \<Rightarrow> (if r \<noteq> None then [p] else []) @ rtcp_accepted s' ps)"

definition in_state :: "srtp_session \<Rightarrow> u32 \<Rightarrow> in_seq" where
  "in_state s x = (case ins.stream (ss_in s) x of Some e \<Rightarrow> e | None \<Rightarrow> in_seq0\<lparr>is_ssrc := x\<rparr>)"

lemma advance_stream_simps: "is_seen (advance_stream v q k st)" "is_ssrc (advance_stream v q k st) = is_ssrc st"
  by (simp_all add: advance_stream_def Let_def)

lemma in_state_simps: "is_ssrc (in_state s x) = x" "is_seen (in_state s x) \<longleftrightarrow> ins.stream (ss_in s) x \<noteq> None"
  using ins.stream_SomeD [of "ss_in s" x] by (auto simp: in_state_def in_seq0_def split: option.split)

lemma in_slot_state:
  assumes "ins.ok S (ss_in s)" "finite S" "card S \<le> kStreams" "x \<in> S" "in_slot (ss_in s) x = (i, slots)"
  shows "slots ! i = in_state s x" "ins.ok S slots" "ins.stream slots = ins.stream (ss_in s)"
    "ins.ok S (slots[i := advance_stream v q k (in_state s x)])"
    "ins.stream (slots[i := advance_stream v q k (in_state s x)]) = (ins.stream (ss_in s))(x := Some (advance_stream v q k (in_state s x)))"
proof -
  note sl = ins.slot_ok [OF assms(1-4) assms(5) [unfolded in_slot_def]]
  show "slots ! i = in_state s x" using sl(1) by (simp add: in_state_def)
  show "ins.ok S slots" "ins.stream slots = ins.stream (ss_in s)" by (rule sl)+
  from sl(4) [of "advance_stream v q k (in_state s x)"]
  show "ins.ok S (slots[i := advance_stream v q k (in_state s x)])"
    "ins.stream (slots[i := advance_stream v q k (in_state s x)]) = (ins.stream (ss_in s))(x := Some (advance_stream v q k (in_state s x)))"
    by (simp_all add: advance_stream_simps in_state_simps)
qed

lemma rtp_position_state:
  assumes "ins.ok S (ss_in s)" "finite S" "card S \<le> kStreams" "rd32 p 8 \<in> S"
  shows "rtp_position s p = (rd32 p 8, packet_index (guess_roc (in_state s (rd32 p 8)) (rd16 p 2)) (rd16 p 2))"
proof -
  obtain i slots where sl: "in_slot (ss_in s) (rd32 p 8) = (i, slots)" by (metis surj_pair)
  with in_slot_state(1) [OF assms sl] show ?thesis by (simp add: rtp_position_def)
qed

text \<open>A packet either changes no stream, and then nothing comes out, or it advances its own.\<close>

lemma unprotect_rtp_cases:
  assumes "ins.ok S (ss_in s)" "finite S" "card S \<le> kStreams" "22 \<le> length p \<longrightarrow> rd32 p 8 \<in> S" "unprotect_rtp p s = (r, s')"
  defines "x \<equiv> rd32 p 8" and "k \<equiv> snd (rtp_position s p)"
  obtains "r = None" "ins.ok S (ss_in s')" "ins.stream (ss_in s') = ins.stream (ss_in s)"
  | v where "\<not> (is_seen (in_state s x) \<and> replay_blocked (is_win_high (in_state s x)) (is_win_mask (in_state s x)) k)" "ins.ok S (ss_in s')"
      "ins.stream (ss_in s') = (ins.stream (ss_in s))(x := Some (advance_stream v (rd16 p 2) k (in_state s x)))" "x \<in> S"
proof (cases "length p < 22 \<or> header_length (take (length p - 10) p) = 0")
  case True
  then have "unprotect_rtp p s = (None, s)" by (cases "length p < 22") (simp_all add: unprotect_rtp_def Let_def)
  with assms(1,5) that(1) show thesis by simp
next
  case False
  then have xS: "x \<in> S" using assms(4) by (simp add: x_def)
  obtain i slots where sl: "in_slot (ss_in s) x = (i, slots)" by (metis surj_pair)
  note st = in_slot_state [OF assms(1-3) xS sl]
  define v where "v = guess_roc (in_state s x) (rd16 p 2)"
  have k: "k = packet_index v (rd16 p 2)"
    using rtp_position_state [OF assms(1-3) xS [unfolded x_def]] by (simp add: k_def v_def x_def)
  show thesis
  proof (cases "is_seen (in_state s x) \<and> replay_blocked (is_win_high (in_state s x)) (is_win_mask (in_state s x)) k")
    case True
    with False sl st(1) have "unprotect_rtp p s = (None, s\<lparr>ss_in := slots\<rparr>)"
      by (simp add: unprotect_rtp_def Let_def k v_def x_def)
    then have "r = None" "s' = s\<lparr>ss_in := slots\<rparr>" using assms(5) by simp_all
    with st(2,3) that(1) show thesis by simp
  next
    case unblocked: False
    show thesis
    proof (cases "take 10 (hmac_sha1 (sd_auth (ss_rtp_in s)) (take (length p - 10) p @ be32 v)) = drop (length p - 10) p")
      case tag: True
      from False sl st(1) unblocked tag have "snd (unprotect_rtp p s) = s\<lparr>ss_in := slots[i := advance_stream v (rd16 p 2) k (in_state s x)]\<rparr>"
        by (auto simp: unprotect_rtp_def Let_def k v_def x_def)
      with assms(5) have "ss_in s' = slots[i := advance_stream v (rd16 p 2) k (in_state s x)]" by simp
      with st(4,5) unblocked that(2) xS show thesis by auto
    next
      case tag: False
      from False sl st(1) unblocked tag have "unprotect_rtp p s = (None, s\<lparr>ss_in := slots\<rparr>)"
        by (auto simp: unprotect_rtp_def Let_def k v_def x_def)
      then have "r = None" "s' = s\<lparr>ss_in := slots\<rparr>" using assms(5) by simp_all
    with st(2,3) that(1) show thesis by simp
    qed
  qed
qed

definition streams_fresh :: "(u32 \<Rightarrow> u64 set) \<Rightarrow> srtp_session \<Rightarrow> bool" where
  "streams_fresh A s \<longleftrightarrow> (\<forall>x. case ins.stream (ss_in s) x of None \<Rightarrow> A x = {} | Some e \<Rightarrow> window_holds (A x) (is_win_high e, is_win_mask e))"

lemma streams_fresh_advance:
  assumes "streams_fresh A s"
    and "\<not> (is_seen (in_state s x) \<and> replay_blocked (is_win_high (in_state s x)) (is_win_mask (in_state s x)) k)"
    and "ins.stream (ss_in s') = (ins.stream (ss_in s))(x := Some (advance_stream v q k (in_state s x)))"
  shows "k \<notin> A x" "streams_fresh (A(x := insert k (A x))) s'"
proof -
  have inv: "case ins.stream (ss_in s) y of None \<Rightarrow> A y = {} | Some e \<Rightarrow> window_holds (A y) (is_win_high e, is_win_mask e)" for y
    using assms(1) unfolding streams_fresh_def by (rule spec)
  have step: "k \<notin> A x \<and> window_holds (insert k (A x)) (is_win_high (advance_stream v q k (in_state s x)), is_win_mask (advance_stream v q k (in_state s x)))"
  proof (cases "ins.stream (ss_in s) x")
    case None
    then have "A x = {}" "\<not> is_seen (in_state s x)" using inv [of x] by (simp_all add: in_state_simps)
    then show ?thesis by (simp add: advance_stream_def window_holds_def)
  next
    case (Some e)
    then have e: "in_state s x = e" "is_seen e" using ins.stream_SomeD(2) [OF Some] by (simp_all add: in_state_def)
    have w: "window_holds (A x) (is_win_high e, is_win_mask e)" using inv [of x] Some by simp
    have n: "\<not> replay_blocked (fst (is_win_high e, is_win_mask e)) (snd (is_win_high e, is_win_mask e)) k" using assms(2) e by simp
    from srtp_window.fresh [OF w n] srtp_window.advance [OF w n] show ?thesis by (simp add: advance_stream_def Let_def e)
  qed
  then show "k \<notin> A x" by simp
  show "streams_fresh (A(x := insert k (A x))) s'"
    unfolding streams_fresh_def
  proof
    fix y
    show "case ins.stream (ss_in s') y of None \<Rightarrow> (A(x := insert k (A x))) y = {}
        | Some e \<Rightarrow> window_holds ((A(x := insert k (A x))) y) (is_win_high e, is_win_mask e)"
      using step inv [of y] by (cases "y = x"; cases "ins.stream (ss_in s) y") (simp_all add: assms(3))
  qed
qed

lemma rtp_accepted_fresh:
  assumes "finite S" "card S \<le> kStreams" "\<forall>p\<in>set ps. 22 \<le> length p \<longrightarrow> rd32 p 8 \<in> S" "ins.ok S (ss_in s)" "streams_fresh A s"
  shows "distinct (rtp_accepted s ps) \<and> (\<forall>(x, k)\<in>set (rtp_accepted s ps). k \<notin> A x)"
  using assms(3-5)
proof (induction ps arbitrary: s A)
  case Nil
  then show ?case by simp
next
  case (Cons p ps)
  obtain r s' where u: "unprotect_rtp p s = (r, s')" by (metis surj_pair)
  have pS: "22 \<le> length p \<longrightarrow> rd32 p 8 \<in> S" and psS: "\<forall>p\<in>set ps. 22 \<le> length p \<longrightarrow> rd32 p 8 \<in> S" using Cons.prems(1) by simp_all
  from Cons.prems(2) assms(1,2) pS u show ?case
  proof (cases rule: unprotect_rtp_cases)
    case 1
    then have "streams_fresh A s'" using Cons.prems(3) by (simp add: streams_fresh_def)
    from Cons.IH [OF psS 1(2) this] 1(1) u show ?thesis by simp
  next
    case (2 v)
    note f = streams_fresh_advance [OF Cons.prems(3) 2(1,3)]
    have pos: "rtp_position s p = (rd32 p 8, snd (rtp_position s p))"
      using rtp_position_state [OF Cons.prems(2) assms(1,2) 2(4)] by simp
    define x k rest where "x = rd32 p 8" and "k = snd (rtp_position s p)" and "rest = rtp_accepted s' ps"
    have IH: "distinct rest" "\<forall>(y, j)\<in>set rest. j \<notin> (A(x := insert k (A x))) y"
      using Cons.IH [OF psS 2(2) f(2)] by (simp_all add: x_def k_def rest_def)
    have "j \<notin> A y" if "(y, j) \<in> set rest" for y j using IH(2) that by (cases "y = x") auto
    moreover have "(x, k) \<notin> set rest" using IH(2) by auto
    moreover have "rtp_accepted s (p # ps) = (if r \<noteq> None then [(x, k)] else []) @ rest" using u pos by (simp add: x_def k_def rest_def)
    moreover have "k \<notin> A x" using f(1) by (simp add: x_def k_def)
    ultimately show ?thesis using IH(1) by auto
  qed
qed


lemma srtp_new_slots: "ins.ok S (ss_in (srtp_new outk ink))" "outs.ok S (ss_out (srtp_new outk ink))"
  "ins.stream (ss_in (srtp_new outk ink)) x = None" "outs.stream (ss_out (srtp_new outk ink)) x = None"
proof -
  have "in_seq0 = in_seq0\<lparr>is_ssrc := 0\<rparr>" "out_seq0 = out_seq0\<lparr>os_ssrc := 0\<rparr>" by (simp_all add: in_seq0_def out_seq0_def)
  then show "ins.ok S (ss_in (srtp_new outk ink))" "outs.ok S (ss_out (srtp_new outk ink))"
    by (simp_all add: srtp_new_def ins.fresh_slots [of 0] outs.fresh_slots [of 0])
  show "ins.stream (ss_in (srtp_new outk ink)) x = None" "outs.stream (ss_out (srtp_new outk ink)) x = None"
    by (simp_all add: srtp_new_def ins.stream_fresh outs.stream_fresh)
qed

text \<open>C40: 
  No media packet is accepted twice. Whatever arrives, forged, repeated or out of order, as long as it names no more streams than a session has slots: the positions of the
  packets that are let through, stream and extended sequence number, are all different.
\<close>

theorem srtp_accepts_once:
  assumes "card ((\<lambda>p. rd32 p 8) ` {p \<in> set ps. 22 \<le> length p}) \<le> kStreams"
  shows "distinct (rtp_accepted (srtp_new outk ink) ps)"
proof -
  have "streams_fresh (\<lambda>_. {}) (srtp_new outk ink)" by (simp add: streams_fresh_def srtp_new_slots)
  with rtp_accepted_fresh [of "(\<lambda>p. rd32 p 8) ` {p \<in> set ps. 22 \<le> length p}" ps "srtp_new outk ink" "\<lambda>_. {}"] assms srtp_new_slots
  show ?thesis by auto
qed

definition demo_key :: srtp_key where
  "demo_key = \<lparr>mk_key = replicate 16 1, mk_salt = replicate 14 2\<rparr>"

theorem srtp_accepts_once_witness:
  "distinct (rtp_accepted (srtp_new demo_key demo_key) [replicate 30 7, replicate 30 7, replicate 40 9])"
proof (rule srtp_accepts_once)
  let ?ps = "[replicate 30 7, replicate 30 7, replicate 40 9] :: byte list list"
  have "(\<lambda>p. rd32 p 8) ` {p \<in> set ?ps. 22 \<le> length p} \<subseteq> set (map (\<lambda>p. rd32 p 8) ?ps)" by auto
  then have "card ((\<lambda>p. rd32 p 8) ` {p \<in> set ?ps. 22 \<le> length p}) \<le> length (map (\<lambda>p. rd32 p 8) ?ps)"
    by (rule order_trans [OF card_mono [OF List.finite_set] card_length])
  then show "card ((\<lambda>p. rd32 p 8) ` {p \<in> set ?ps. 22 \<le> length p}) \<le> kStreams" by (simp add: kStreams_def)
qed

text \<open>The control packets: the position is written in the packet, so that none is let through twice.\<close>

theorem srtcp_accepts_once:
  "distinct (map rtcp_position (rtcp_accepted (srtp_new outk ink) ps))"
proof -
  have "distinct (map rtcp_position (rtcp_accepted s ps)) \<and> rtcp_position ` set (rtcp_accepted s ps) \<inter> A = {}"
    if "window_holds A (ss_replay_high s, ss_replay_mask s)" for A s
    using that
  proof (induction ps arbitrary: s A)
    case Nil
    then show ?case by simp
  next
    case (Cons p ps)
    obtain r s' where u: "unprotect_rtcp p s = (r, s')" by (metis surj_pair)
    show ?case
    proof (cases r)
      case None
      with u have "(ss_replay_high s', ss_replay_mask s') = (ss_replay_high s, ss_replay_mask s)"
        by (auto simp: unprotect_rtcp_def Let_def split: if_splits)
      with Cons.IH [of A s'] Cons.prems None u show ?thesis by simp
    next
      case (Some q)
      with u have b: "\<not> replay_blocked (ss_replay_high s) (ss_replay_mask s) (rtcp_position p)"
        and w: "(ss_replay_high s', ss_replay_mask s') = replay_advance (ss_replay_high s) (ss_replay_mask s) (rtcp_position p)"
        by (auto simp: unprotect_rtcp_def Let_def rtcp_position_def diff_diff_left split: if_splits)
      from srtp_window.fresh [OF Cons.prems, simplified, OF b] srtp_window.advance [OF Cons.prems, simplified, OF b]
        Cons.IH [of "insert (rtcp_position p) A" s'] w u Some show ?thesis by auto
    qed
  qed
  from this [of "{}" "srtp_new outk ink"] show ?thesis by (simp add: window_holds_def)
qed

text \<open>
  The bound on the streams matters: the slot of a packet is taken before its tag is checked. When all slots are in use, a forged packet that names one more stream clears the first
  slot, with it the window of that slot's stream, and a packet of that stream from before its first rollover is let through again.
\<close>

lemma forged_packet_reopens_window:
  assumes "length (ss_in s) = kStreams" "\<forall>e\<in>set (ss_in s). is_seen e" "\<forall>i<kStreams. 0 < i \<longrightarrow> is_ssrc (ss_in s ! i) \<noteq> rd32 p 8"
    and "rd32 f 8 \<notin> is_ssrc ` set (ss_in s)" "22 \<le> length f" "header_length (take (length f - 10) f) \<noteq> 0"
    and "take 10 (hmac_sha1 (sd_auth (ss_rtp_in s)) (take (length f - 10) f @ be32 0)) \<noteq> drop (length f - 10) f"
    and "22 \<le> length p" "header_length (take (length p - 10) p) \<noteq> 0"
    and "take 10 (hmac_sha1 (sd_auth (ss_rtp_in s)) (take (length p - 10) p @ be32 0)) = drop (length p - 10) p" "p ! 0 AND 0x20 = 0"
  shows "fst (unprotect_rtp f s) = None \<and> fst (unprotect_rtp p (snd (unprotect_rtp f s))) \<noteq> None"
proof -
  let ?a = "ss_in s" let ?e = "in_seq0\<lparr>is_ssrc := rd32 f 8\<rparr>"
  have l: "length ?a = 4" using assms(1) by (simp add: kStreams_def)
  have mem: "?a ! i \<in> set ?a" if "i < 4" for i using that l by simp
  have all: "is_seen (?a ! i)" if "i < 4" for i using assms(2) mem [OF that] by blast
  have other: "is_ssrc (?a ! i) \<noteq> rd32 f 8" if "i < 4" for i using assms(4) mem [OF that] by (metis imageI)
  have "find (\<lambda>i. is_seen (?a ! i) \<and> is_ssrc (?a ! i) = rd32 f 8) [0..<length ?a] = None"
      "find (\<lambda>i. \<not> is_seen (?a ! i)) [0..<length ?a] = None"
    using all other l by (auto simp: find_None_conv)
  then have sl: "in_slot ?a (rd32 f 8) = (0, ?a[0 := ?e])" by (simp add: in_slot_def slot_def)
  have f: "unprotect_rtp f s = (None, s\<lparr>ss_in := ?a[0 := ?e]\<rparr>)"
    using assms(5,6,7) l by (simp add: unprotect_rtp_def Let_def sl guess_roc_def in_seq0_def)
  let ?b = "?a[0 := ?e]" let ?e' = "in_seq0\<lparr>is_ssrc := rd32 p 8\<rparr>"
  have b: "?b ! 0 = ?e" "\<And>i. 0 < i \<Longrightarrow> ?b ! i = ?a ! i" using l by simp_all
  have "find (\<lambda>i. is_seen (?b ! i) \<and> is_ssrc (?b ! i) = rd32 p 8) [0..<length ?b] = None"
    using b assms(3) l by (auto simp: find_None_conv kStreams_def in_seq0_def nth_list_update)
  moreover have "find (\<lambda>i. \<not> is_seen (?b ! i)) [0..<length ?b] = Some 0" using b l by (simp add: upt_rec in_seq0_def)
  ultimately have sl': "in_slot ?b (rd32 p 8) = (0, ?b[0 := ?e'])" using l by (simp add: in_slot_def slot_def in_seq0_def)
  have "header_length (take (length p - 10) p) \<le> length p - 10"
    using assms(9) by (auto simp: header_length_def Let_def split: if_splits)
  then have "(take (header_length (take (length p - 10) p)) p @ q) ! 0 = p ! 0" for q
    using assms(8,9) by (simp add: nth_append)
  then show ?thesis
    using assms(8-11) l f sl' by (simp add: unprotect_rtp_def Let_def guess_roc_def in_seq0_def strip_padding_def)
qed


section \<open>What is sent arrives\<close>

text \<open>A packet of a sender: its stream, its extended position, the rest of the header, the payload, and whether the network delivers it.\<close>

record media_item =
  mi_ssrc :: u32
  mi_pos :: nat
  mi_pt :: byte
  mi_marker :: bool
  mi_ts :: u32
  mi_payload :: "byte list"
  mi_arrives :: bool

definition item_packet :: "media_item \<Rightarrow> byte list" where
  "item_packet it = write_header (mi_pt it) (mi_marker it) (of_nat (mi_pos it)) (mi_ts it) (mi_ssrc it) @ mi_payload it"

fun transmit :: "media_item list \<Rightarrow> srtp_session \<Rightarrow> srtp_session \<Rightarrow> (byte list \<times> nat) option list" where
  "transmit [] a b = []"
| "transmit (it # its) a b =
     (case protect_rtp (item_packet it) a of
        (None, a) \<Rightarrow> transmit its a b
      | (Some w, a) \<Rightarrow> if mi_arrives it then (case unprotect_rtp w b of (r, b) \<Rightarrow> r # transmit its a b) else transmit its a b)"

text \<open>
  The positions of a stream increase in steps of less than half the range of a sequence number, as sent and as delivered, and a stream begins before its first rollover at both ends.
\<close>

fun in_order :: "(u32 \<Rightarrow> nat option) \<Rightarrow> (u32 \<Rightarrow> nat option) \<Rightarrow> media_item list \<Rightarrow> bool" where
  "in_order sent got [] \<longleftrightarrow> True"
| "in_order sent got (it # its) \<longleftrightarrow>
     (let x = mi_ssrc it; e = mi_pos it
      in e < 2 ^ 48 \<and> (case sent x of None \<Rightarrow> e < 2 ^ 16 | Some k \<Rightarrow> k < e \<and> e < k + 2 ^ 15) \<and>
         (mi_arrives it \<longrightarrow> (case got x of None \<Rightarrow> e < 2 ^ 16 | Some k \<Rightarrow> e < k + 2 ^ 15)) \<and>
         in_order (sent(x \<mapsto> e)) (if mi_arrives it then got(x \<mapsto> e) else got) its)"

lemma header_fields:
  "header_length (write_header pt m seq ts ssrc @ y) = 12" "rd16 (write_header pt m seq ts ssrc @ y) 2 = seq"
  "rd32 (write_header pt m seq ts ssrc @ y) 8 = ssrc" "length (write_header pt m seq ts ssrc) = 12" "(write_header pt m seq ts ssrc @ y) ! 0 = 0x80"
proof -
  have f: "rtp_parse p = Some r \<Longrightarrow> header_length p = rh_payload_at r \<and> rd16 p 2 = rh_seq r \<and> rd32 p 8 = rh_ssrc r" for p r
    by (auto simp: rtp_parse_def Let_def split: if_splits)
  from f [OF rtp_parse_written] show "header_length (write_header pt m seq ts ssrc @ y) = 12" "rd16 (write_header pt m seq ts ssrc @ y) 2 = seq"
    "rd32 (write_header pt m seq ts ssrc @ y) 8 = ssrc" by simp_all
qed (simp_all add: write_header_def be16_def be32_def)

lemma packet_index_pos: "e < 2 ^ 48 \<Longrightarrow> packet_index (of_nat (e div 2 ^ 16)) (of_nat e) = of_nat e"
proof (rule bit_word_eqI)
  fix n assume e: "e < 2 ^ 48" and n: "n < LENGTH(64)"
  have hi: "\<not> bit e m" if "48 \<le> m" for m
  proof -
    have "e < 2 ^ m" using e that by (meson less_le_trans one_le_numeral power_increasing)
    then show ?thesis by (simp add: bit_nat_iff bit_iff_odd)
  qed
  have "bit (e div 2 ^ 16) m \<longleftrightarrow> bit e (16 + m)" for m
  proof -
    have "e div 2 ^ 16 = drop_bit 16 e" by (simp only: drop_bit_eq_div)
    then show ?thesis by (simp only: bit_drop_bit_eq o_def)
  qed
  moreover have "bit e n \<Longrightarrow> n < 48" using hi not_less by blast
  ultimately show "bit (packet_index (of_nat (e div 2 ^ 16)) (of_nat e)) n = bit (of_nat e :: u64) n"
    using n by (cases "n < 16") (fastforce simp: packet_index_def bit_simps not_less)+
qed

lemma seq_less: "(of_nat e :: u16) < of_nat k \<longleftrightarrow> e mod 2 ^ 16 < k mod 2 ^ 16"
  by (simp add: word_less_nat_alt unat_of_nat)

lemma next_block:
  fixes e k :: nat
  assumes "k < e" "e < k + 2 ^ 15"
  shows "e div 2 ^ 16 = k div 2 ^ 16 \<and> k mod 2 ^ 16 < e mod 2 ^ 16 \<and> e mod 2 ^ 16 < k mod 2 ^ 16 + 2 ^ 15 \<or>
    e div 2 ^ 16 = Suc (k div 2 ^ 16) \<and> e mod 2 ^ 16 + 2 ^ 15 < k mod 2 ^ 16"
proof -
  define q q' r r' where d: "q = k div 65536" "q' = e div 65536" "r = k mod 65536" "r' = e mod 65536"
  have k: "k = 65536 * q + r" "r < 65536" and e: "e = 65536 * q' + r'" "r' < 65536" by (simp_all add: d)
  have lo: "\<not> Suc q' \<le> q" and hi: "\<not> Suc (Suc q) \<le> q'" using assms k e by auto
  then have "q' = q \<or> q' = Suc q" by auto
  then have "q' = q \<and> r < r' \<and> r' < r + 32768 \<or> q' = Suc q \<and> r' + 32768 < r" using assms k e by auto
  then show ?thesis by (simp add: d)
qed

lemma sender_rollover:
  assumes "k < e" "e < k + 2 ^ 15"
  shows "(of_nat e :: u16) < of_nat k \<and> 0x8000 < (of_nat k - of_nat e :: u16) \<longleftrightarrow> e div 2 ^ 16 = Suc (k div 2 ^ 16)"
    and "e div 2 ^ 16 = k div 2 ^ 16 \<or> e div 2 ^ 16 = Suc (k div 2 ^ 16)"
proof -
  note n = next_block [OF assms]
  have d: "unat (of_nat k - of_nat e :: u16) = k mod 2 ^ 16 - e mod 2 ^ 16" if "(of_nat e :: u16) < of_nat k"
    using that by (simp add: unat_sub unat_of_nat less_imp_le)
  have "(0x8000 < (of_nat k - of_nat e :: u16)) \<longleftrightarrow> 32768 < k mod 2 ^ 16 - e mod 2 ^ 16" if "(of_nat e :: u16) < of_nat k"
    unfolding word_less_nat_alt d [OF that] by simp
  then show "(of_nat e :: u16) < of_nat k \<and> 0x8000 < (of_nat k - of_nat e :: u16) \<longleftrightarrow> e div 2 ^ 16 = Suc (k div 2 ^ 16)"
    using n seq_less [of e k] by (cases "(of_nat e :: u16) < of_nat k") auto
  show "e div 2 ^ 16 = k div 2 ^ 16 \<or> e div 2 ^ 16 = Suc (k div 2 ^ 16)" using n by auto
qed

lemma guess_forward:
  assumes "k < e" "e < k + 2 ^ 15" "is_seen st" "is_roc st = of_nat (k div 2 ^ 16)" "is_high st = of_nat k"
  shows "guess_roc st (of_nat e) = of_nat (e div 2 ^ 16)"
proof -
  have u: "uint (of_nat j :: u16) = int (j mod 2 ^ 16)" for j by (simp add: uint_nat unat_of_nat zmod_int)
  have h: "(of_nat k :: u16) < 32768 \<longleftrightarrow> k mod 2 ^ 16 < 2 ^ 15" by (simp add: word_less_nat_alt unat_of_nat)
  show ?thesis
    using next_block [OF assms(1,2)] assms(3-5) by (auto simp: guess_roc_def u h)
qed


lemma length_hmac_sha1: "length (hmac_sha1 key msg) = 20"
proof -
  have c: "length (compress h b) = 5" for h b by (simp add: compress_def split: prod.split)
  have "length (sha1_loop data off ap h) = 5" for data off ap h
  proof (induction data off ap h rule: sha1_loop.induct)
    case (1 data off ap h)
    then show ?case by (subst sha1_loop.simps) (simp add: Let_def c)
  qed
  then have "length (sha1 m) = 20" for m by (simp add: sha1_def length_concat o_def sum_list_triv)
  then show ?thesis by (simp add: hmac_sha1_def Let_def)
qed

definition out_at :: "(u32 \<Rightarrow> nat option) \<Rightarrow> srtp_session \<Rightarrow> bool" where
  "out_at sent s \<longleftrightarrow> (\<forall>x. outs.stream (ss_out s) x =
     map_option (\<lambda>e. \<lparr>os_ssrc = x, os_roc = of_nat (e div 2 ^ 16), os_last = of_nat e, os_seen = True\<rparr>) (sent x))"

definition in_at :: "(u32 \<Rightarrow> nat option) \<Rightarrow> srtp_session \<Rightarrow> bool" where
  "in_at got s \<longleftrightarrow> (\<forall>x. case got x of
     None \<Rightarrow> ins.stream (ss_in s) x = None
   | Some e \<Rightarrow> (\<exists>st. ins.stream (ss_in s) x = Some st \<and> is_roc st = of_nat (e div 2 ^ 16) \<and> is_high st = of_nat e \<and> is_win_high st = of_nat e))"

text \<open>The packet on the wire.\<close>

definition wire_body :: "srtp_dir \<Rightarrow> media_item \<Rightarrow> byte list" where
  "wire_body d it =
     write_header (mi_pt it) (mi_marker it) (of_nat (mi_pos it)) (mi_ts it) (mi_ssrc it) @
     cm_xor (sd_cipher d) (make_iv (sd_salt d) (mi_ssrc it) (of_nat (mi_pos it))) (mi_payload it)"

definition wire_packet :: "srtp_dir \<Rightarrow> media_item \<Rightarrow> byte list" where
  "wire_packet d it = wire_body d it @ take 10 (hmac_sha1 (sd_auth d) (wire_body d it @ be32 (of_nat (mi_pos it div 2 ^ 16))))"

lemma protect_item:
  assumes "outs.ok S (ss_out a)" "finite S" "card S \<le> kStreams" "mi_ssrc it \<in> S" "out_at sent a" "mi_pos it < 2 ^ 48"
    and "case sent (mi_ssrc it) of None \<Rightarrow> mi_pos it < 2 ^ 16 | Some k \<Rightarrow> k < mi_pos it \<and> mi_pos it < k + 2 ^ 15"
  obtains a' where "protect_rtp (item_packet it) a = (Some (wire_packet (ss_rtp_out a) it), a')" "outs.ok S (ss_out a')"
    "out_at (sent(mi_ssrc it \<mapsto> mi_pos it)) a'" "ss_rtp_out a' = ss_rtp_out a"
proof -
  let ?x = "mi_ssrc it" let ?e = "mi_pos it"
  let ?st = "\<lparr>os_ssrc = ?x, os_roc = of_nat (?e div 2 ^ 16), os_last = of_nat ?e, os_seen = True\<rparr>"
  obtain i slots where sl: "out_slot (ss_out a) ?x = (i, slots)" by (metis surj_pair)
  note so = outs.slot_ok [OF assms(1-4) sl [unfolded out_slot_def]]
  have up: "outs.ok S (slots[i := ?st])" "outs.stream (slots[i := ?st]) = (outs.stream (ss_out a))(?x := Some ?st)"
    using so(4) [of ?st] by simp_all
  have old: "outs.stream (ss_out a) ?x =
      map_option (\<lambda>e. \<lparr>os_ssrc = ?x, os_roc = of_nat (e div 2 ^ 16), os_last = of_nat e, os_seen = True\<rparr>) (sent ?x)"
    using assms(5) unfolding out_at_def by blast
  have st: "send_stream (of_nat ?e) (slots ! i) = ?st"
  proof (cases "sent ?x")
    case None
    then show ?thesis using so(1) old assms(7) by (simp add: send_stream_def out_seq0_def)
  next
    case (Some k)
    then have k: "k < ?e" "?e < k + 2 ^ 15" using assms(7) by simp_all
    have s: "slots ! i = \<lparr>os_ssrc = ?x, os_roc = of_nat (k div 2 ^ 16), os_last = of_nat k, os_seen = True\<rparr>"
      using so(1) old Some by simp
    show ?thesis
    proof (cases "?e div 2 ^ 16 = Suc (k div 2 ^ 16)")
      case True
      with sender_rollover(1) [OF k] show ?thesis unfolding s send_stream_def by simp
    next
      case False
      with sender_rollover [OF k] show ?thesis unfolding s send_stream_def by auto
    qed
  qed
  let ?a' = "a\<lparr>ss_out := slots[i := ?st]\<rparr>"
  have parts: "take 12 (item_packet it) = write_header (mi_pt it) (mi_marker it) (of_nat ?e) (mi_ts it) ?x" "drop 12 (item_packet it) = mi_payload it"
    "\<not> length (item_packet it) < 12" "rd32 (item_packet it) 8 = ?x" "rd16 (item_packet it) 2 = of_nat ?e"
    by (simp_all add: item_packet_def header_fields)
  have "protect_rtp (item_packet it) a = (Some (wire_packet (ss_rtp_out a) it), ?a')"
    using st packet_index_pos [OF assms(6)]
    by (simp add: protect_rtp_def parts sl wire_packet_def wire_body_def Let_def)
  moreover have "out_at (sent(?x \<mapsto> ?e)) ?a'" using assms(5) up(2) by (simp add: out_at_def)
  ultimately show thesis using that up(1) by simp
qed

lemma wire_shape:
  assumes "length (sd_salt d) = 14"
  shows "header_length (wire_body d it) = 12" "rd32 (wire_packet d it) 8 = mi_ssrc it" "rd16 (wire_packet d it) 2 = of_nat (mi_pos it)"
    "length (wire_packet d it) = length (wire_body d it) + 10" "12 \<le> length (wire_body d it)"
    "take 12 (wire_packet d it) @
       cm_xor (sd_cipher d) (make_iv (sd_salt d) (mi_ssrc it) (of_nat (mi_pos it))) (drop 12 (wire_body d it)) = item_packet it"
    "strip_padding 12 (item_packet it) = Some (item_packet it)"
  using assms
  by (simp_all add: wire_packet_def wire_body_def item_packet_def header_fields length_hmac_sha1 cm_xor_twice length_make_iv strip_padding_def)

lemma advance_item:
  assumes "case got of None \<Rightarrow> e < 2 ^ 16 \<and> \<not> is_seen st \<and> is_roc st = 0
    | Some k \<Rightarrow> k < e \<and> e < k + 2 ^ 15 \<and> is_seen st \<and> is_roc st = of_nat (k div 2 ^ 16) \<and> is_high st = of_nat k \<and> is_win_high st = of_nat k"
    and "e < 2 ^ 48"
  defines "st' \<equiv> advance_stream (of_nat (e div 2 ^ 16)) (of_nat e) (of_nat e) st"
  shows "guess_roc st (of_nat e) = of_nat (e div 2 ^ 16)" "\<not> (is_seen st \<and> replay_blocked (is_win_high st) m (of_nat e))"
    "is_roc st' = of_nat (e div 2 ^ 16) \<and> is_high st' = of_nat e \<and> is_win_high st' = of_nat e"
proof -
  have "guess_roc st (of_nat e) = of_nat (e div 2 ^ 16) \<and> \<not> (is_seen st \<and> replay_blocked (is_win_high st) m (of_nat e)) \<and>
    is_roc st' = of_nat (e div 2 ^ 16) \<and> is_high st' = of_nat e \<and> is_win_high st' = of_nat e"
  proof (cases got)
    case None
    with assms(1) show ?thesis by (simp add: guess_roc_def st'_def advance_stream_def)
  next
    case (Some k)
    then have k: "k < e" "e < k + 2 ^ 15" and st: "is_seen st" "is_roc st = of_nat (k div 2 ^ 16)" "is_high st = of_nat k" "is_win_high st = of_nat k"
      using assms(1) by simp_all
    have lt: "(of_nat k :: u64) < of_nat e" using k(1) assms(2) by (simp add: word_less_nat_alt unat_of_nat)
    then have "\<not> (of_nat e :: u64) \<le> of_nat k" by simp
    moreover have "st' = st\<lparr>is_roc := of_nat (e div 2 ^ 16), is_high := of_nat e, is_win_high := fst (replay_advance (of_nat k) (is_win_mask st) (of_nat e)),
        is_win_mask := snd (replay_advance (of_nat k) (is_win_mask st) (of_nat e))\<rparr>"
      using next_block [OF k] seq_less [of k e] st by (auto simp: st'_def advance_stream_def Let_def)
    ultimately show ?thesis using guess_forward [OF k st(1-3)] lt st
      by (simp add: replay_blocked_def replay_advance_def)
  qed
  then show "guess_roc st (of_nat e) = of_nat (e div 2 ^ 16)" "\<not> (is_seen st \<and> replay_blocked (is_win_high st) m (of_nat e))"
    "is_roc st' = of_nat (e div 2 ^ 16) \<and> is_high st' = of_nat e \<and> is_win_high st' = of_nat e" by simp_all
qed

lemma unprotect_item:
  assumes "ins.ok S (ss_in b)" "finite S" "card S \<le> kStreams" "mi_ssrc it \<in> S" "in_at got b" "mi_pos it < 2 ^ 48"
    and "case got (mi_ssrc it) of None \<Rightarrow> mi_pos it < 2 ^ 16 | Some k \<Rightarrow> k < mi_pos it \<and> mi_pos it < k + 2 ^ 15"
    and salt: "length (sd_salt (ss_rtp_in b)) = 14"
  obtains b' where "unprotect_rtp (wire_packet (ss_rtp_in b) it) b = (Some (item_packet it, 12), b')" "ins.ok S (ss_in b')"
    "in_at (got(mi_ssrc it \<mapsto> mi_pos it)) b'" "ss_rtp_in b' = ss_rtp_in b"
proof -
  let ?x = "mi_ssrc it" let ?e = "mi_pos it" let ?st = "in_state b ?x"
  let ?n = "advance_stream (of_nat (?e div 2 ^ 16)) (of_nat ?e) (of_nat ?e) ?st"
  obtain i slots where sl: "in_slot (ss_in b) ?x = (i, slots)" by (metis surj_pair)
  note so = in_slot_state [OF assms(1-4) sl]
  have at: "case got ?x of None \<Rightarrow> ins.stream (ss_in b) ?x = None
   | Some e \<Rightarrow> (\<exists>st. ins.stream (ss_in b) ?x = Some st \<and> is_roc st = of_nat (e div 2 ^ 16) \<and> is_high st = of_nat e \<and> is_win_high st = of_nat e)"
    using assms(5) unfolding in_at_def by blast
  have "case got ?x of None \<Rightarrow> ?e < 2 ^ 16 \<and> \<not> is_seen ?st \<and> is_roc ?st = 0
    | Some k \<Rightarrow> k < ?e \<and> ?e < k + 2 ^ 15 \<and> is_seen ?st \<and> is_roc ?st = of_nat (k div 2 ^ 16) \<and> is_high ?st = of_nat k \<and> is_win_high ?st = of_nat k"
    using at assms(7) ins.stream_SomeD(2) by (auto simp: in_state_def in_seq0_def split: option.splits)
  note adv = advance_item [OF this assms(6)]
  let ?b' = "b\<lparr>ss_in := slots[i := ?n]\<rparr>"
  note w = wire_shape [OF salt, of it]
  have body: "take (length (wire_packet (ss_rtp_in b) it) - 10) (wire_packet (ss_rtp_in b) it) = wire_body (ss_rtp_in b) it"
    "drop (length (wire_packet (ss_rtp_in b) it) - 10) (wire_packet (ss_rtp_in b) it) =
      take 10 (hmac_sha1 (sd_auth (ss_rtp_in b)) (wire_body (ss_rtp_in b) it @ be32 (of_nat (?e div 2 ^ 16))))"
    unfolding w(4) by (simp_all add: wire_packet_def)
  have "unprotect_rtp (wire_packet (ss_rtp_in b) it) b = (Some (item_packet it, 12), ?b')"
    using w(4,5) unfolding unprotect_rtp_def Let_def body w(1-3) sl
    by (simp add: so(1) adv(1,2) w(6,7) packet_index_pos [OF assms(6), simplified] adv(1) [simplified] del: of_nat_power)
  moreover have "in_at (got(?x \<mapsto> ?e)) ?b'" using assms(5) adv(3) by (simp add: in_at_def so(5) cong: option.case_cong)
  ultimately show thesis using that so(4) by simp
qed

lemma media_arrives:
  assumes "outs.ok S (ss_out a)" "ins.ok S (ss_in b)" "out_at sent a" "in_at got b" "in_order sent got its" "mi_ssrc ` set its \<subseteq> S"
    and "\<And>x k. got x = Some k \<Longrightarrow> \<exists>k'. sent x = Some k' \<and> k \<le> k'" "ss_rtp_in b = ss_rtp_out a"
    and S: "finite S" "card S \<le> kStreams" and salt: "length (sd_salt (ss_rtp_out a)) = 14"
  shows "transmit its a b = map (\<lambda>it. Some (item_packet it, 12)) (filter mi_arrives its)"
  using assms(1-8) salt
proof (induction its arbitrary: sent got a b)
  case Nil
  then show ?case by simp
next
  case (Cons it its)
  let ?x = "mi_ssrc it" let ?e = "mi_pos it" let ?sent = "sent(?x \<mapsto> ?e)"
  from Cons.prems(5) have e: "?e < 2 ^ 48" and after: "in_order ?sent (if mi_arrives it then got(?x \<mapsto> ?e) else got) its"
    and fwd: "case sent ?x of None \<Rightarrow> ?e < 2 ^ 16 | Some k \<Rightarrow> k < ?e \<and> ?e < k + 2 ^ 15"
    and near: "mi_arrives it \<Longrightarrow> (case got ?x of None \<Rightarrow> ?e < 2 ^ 16 | Some k \<Rightarrow> ?e < k + 2 ^ 15)" by (simp_all add: Let_def)
  have x: "?x \<in> S" "mi_ssrc ` set its \<subseteq> S" using Cons.prems(6) by auto
  from protect_item [OF Cons.prems(1) S x(1) Cons.prems(3) e fwd]
  obtain a' where a': "protect_rtp (item_packet it) a = (Some (wire_packet (ss_rtp_out a) it), a')" "outs.ok S (ss_out a')"
    "out_at ?sent a'" "ss_rtp_out a' = ss_rtp_out a" .
  have behind: "\<exists>k'. ?sent y = Some k' \<and> k \<le> k'" if g: "got y = Some k" for y k
  proof -
    from Cons.prems(7) [OF g] obtain k' where k': "sent y = Some k'" "k \<le> k'" by blast
    with fwd show ?thesis by (cases "y = ?x") auto
  qed
  show ?case
  proof (cases "mi_arrives it")
    case False
    with after have "in_order ?sent got its" by simp
    from Cons.IH [OF a'(2) Cons.prems(2) a'(3) Cons.prems(4) this x(2) behind] a'(1,4) Cons.prems(8,9) False show ?thesis by simp
  next
    case True
    have "case got ?x of None \<Rightarrow> ?e < 2 ^ 16 | Some k \<Rightarrow> k < ?e \<and> ?e < k + 2 ^ 15"
    proof (cases "got ?x")
      case (Some k)
      from Cons.prems(7) [OF Some] fwd near [OF True] Some show ?thesis by auto
    qed (use near [OF True] in simp)
    from unprotect_item [OF Cons.prems(2) S x(1) Cons.prems(4) e this] Cons.prems(8,9)
    obtain b' where b': "unprotect_rtp (wire_packet (ss_rtp_out a) it) b = (Some (item_packet it, 12), b')" "ins.ok S (ss_in b')"
      "in_at (got(?x \<mapsto> ?e)) b'" "ss_rtp_in b' = ss_rtp_out a" by auto
    have "\<exists>k'. ?sent y = Some k' \<and> k \<le> k'" if "(got(?x \<mapsto> ?e)) y = Some k" for y k
      using behind [of y k] that by (auto split: if_splits)
    moreover have "in_order ?sent (got(?x \<mapsto> ?e)) its" using after True by simp
    ultimately have "transmit its a' b' = map (\<lambda>it. Some (item_packet it, 12)) (filter mi_arrives its)"
      using a'(4) b'(4) Cons.prems(9) by (intro Cons.IH [OF a'(2) b'(2) a'(3) b'(3) _ x(2)]) (auto simp del: fun_upd_apply)
    with a'(1) b'(1) True show ?thesis by simp
  qed
qed

text \<open>C39: 
  What one end of a call protects, the other end unprotects to the very packet, header and payload, with the payload where it was. That holds under loss and across the rollovers of the
  sequence number, as long as a stream starts before its first rollover, never falls silent for half the range of its sequence number, and there are no more streams than slots.
\<close>

theorem srtp_media_arrives:
  assumes "in_order (\<lambda>_. None) (\<lambda>_. None) its" "card (mi_ssrc ` set its) \<le> kStreams" "length (mk_salt k) = 14"
  shows "transmit its (srtp_new k k1) (srtp_new k2 k) = map (\<lambda>it. Some (item_packet it, 12)) (filter mi_arrives its)"
proof (rule media_arrives)
  show "outs.ok (mi_ssrc ` set its) (ss_out (srtp_new k k1))" "ins.ok (mi_ssrc ` set its) (ss_in (srtp_new k2 k))"
    by (rule srtp_new_slots)+
  show "out_at (\<lambda>_. None) (srtp_new k k1)" "in_at (\<lambda>_. None) (srtp_new k2 k)" by (simp_all add: out_at_def in_at_def srtp_new_slots)
  show "length (sd_salt (ss_rtp_out (srtp_new k k1))) = 14"
    using assms(3) by (simp add: srtp_new_def srtp_dir_new_def srtp_kdf_def cm_xor_twice)
qed (use assms(1,2) in \<open>simp_all add: srtp_new_def\<close>)

definition demo_items :: "media_item list" where
  "demo_items =
     map (\<lambda>(pos, arrives). \<lparr>mi_ssrc = 7, mi_pos = pos, mi_pt = 96, mi_marker = False, mi_ts = 9, mi_payload = [1, 2, 3], mi_arrives = arrives\<rparr>)
       [(65530, True), (65535, False), (65540, True)]"

theorem srtp_media_arrives_witness:
  "transmit demo_items (srtp_new demo_key demo_key) (srtp_new demo_key demo_key) =
     map (\<lambda>it. Some (item_packet it, 12)) (filter mi_arrives demo_items)"
  by (rule srtp_media_arrives) (simp_all add: demo_items_def demo_key_def kStreams_def Let_def)

end
