(* ===== verification/Spec2Isabelle.thy ===== *)
theory Spec2Isabelle
  imports Lifecycle_Props Staged_Change Route_Manager Network_Txn Cell_Uplink Night_Props
    Modem_Ports Rtp_Jpeg G711 Rtsp_Auth Hls Watchdog Wifi_Text Usb_Host Srtp
begin

text \<open>
  \<^bold>\<open>A verification of machino, the camera daemon\<close>

  machino (\<^verbatim>\<open>src/machino/src\<close>) is a daemon for an IP camera. It starts the vendor's video pipeline only while somebody wants
  pictures, hands the encoded frames to its transports, and keeps the camera reachable: it chooses between Ethernet, Wi-Fi and a
  modem, programs the kernel's default routes and resolver, and makes changes of the network configuration in
  transactions that undo themselves. The daemon has no exceptions: every call that can fail answers with a \<^verbatim>\<open>Result\<close>. Hardware and kernel
  are behind the ports of \<^verbatim>\<open>ports/\<close>, which is also where this development cuts: a port's answers are arguments of the
  definitions (an environment record), the calls that change something are kept in a log in the order they are made, and what
  a port promises is a specification over such logs, or a locale.

  \<^bold>\<open>Theories\<close>

  \<^item> \<^verbatim>\<open>Prelude\<close>, \<^verbatim>\<open>Core_Result\<close>: decimal text, the wrapping millisecond clock, result codes (\<^verbatim>\<open>core/result.hpp\<close>).
  \<^item> \<^verbatim>\<open>Stream_Hub\<close>: frames and their pool (\<^verbatim>\<open>core/frame.hpp\<close>), a consumer's queue and the hub (\<^verbatim>\<open>core/stream_hub.cpp\<close>). A queue is
    the locale \<open>frame_queue\<close>, interpreted on \<open>sink_push\<close> and \<open>sink_pop\<close>. Shown: for every interleaving a decoder never sees
    a frame whose reference was dropped, every frame is accounted for, consumers do not influence each other, and stalled
    queues cannot use up the pool.
  \<^item> \<^verbatim>\<open>Lifecycle\<close>: the pipeline manager (\<^verbatim>\<open>core/lifecycle/pipeline_manager.cpp\<close>), one definition per method. \<^verbatim>\<open>Lifecycle_Inv\<close>: its
    invariant and the step relation \<open>sys_step\<close> of a system of consumers, timers and snapshots around it. \<^verbatim>\<open>Lifecycle_Protocol\<close>: the order in
    which the platform may be called, as an automaton, and that every method's calls follow it. \<^verbatim>\<open>Lifecycle_Props\<close>: the theorems on reachable states.
  \<^item> \<^verbatim>\<open>Staged_Change\<close>, \<^verbatim>\<open>Connectivity\<close>: the in-memory change that undoes itself, and the choice of the uplink with its damping
    (\<^verbatim>\<open>core/net/connectivity.cpp\<close>).
  \<^item> \<^verbatim>\<open>Route_Plan\<close>, \<^verbatim>\<open>Proc_Net\<close>, \<^verbatim>\<open>Route_Manager\<close>: from the uplinks' status to the wanted routes (\<^verbatim>\<open>route_plan.cpp\<close>), the texts of the kernel and
    the resolver (\<^verbatim>\<open>proc_net.cpp\<close>), and the reconciliation of the two (\<^verbatim>\<open>route_manager.cpp\<close>).
  \<^item> \<^verbatim>\<open>State_Store\<close>, \<^verbatim>\<open>Network_Txn\<close>: the store on files with every system call's failure (\<^verbatim>\<open>core/state_store.cpp\<close>; the locale \<open>state_store\<close> is the interface
    the transaction is proved against, interpreted on \<open>file_ops\<close>), and the persistent transaction (\<^verbatim>\<open>core/net/network_txn.cpp\<close>) with every
    intermediate state, so that a crash can fall between any two writes.
  \<^item> \<^verbatim>\<open>At_Parse\<close>, \<^verbatim>\<open>Cellular\<close>: the modem's answers and bands (\<^verbatim>\<open>core/cellular/at_parse.cpp\<close>, \<^verbatim>\<open>at_framing.cpp\<close>, \<^verbatim>\<open>band_plan.cpp\<close>), and the
    vocabulary of configuration, status, the AT port and the link states. The contract of a data link is the locale \<open>data_link\<close>.
  \<^item> \<^verbatim>\<open>Sim_Manager\<close>, \<^verbatim>\<open>Modem_Actions\<close>: the protection of the SIM card, the one-time actions and the status poll. Shown: how often a PIN can be tried, and that a poll
    only reads.
  \<^item> \<^verbatim>\<open>Ppp_Link\<close>, \<^verbatim>\<open>Ecm_Link\<close>: the two data links, each an interpretation of \<open>data_link\<close>. Shown: one daemon or DHCP client at a time, bounded restarts of the modem,
    waits that end, silence that is tolerated.
  \<^item> \<^verbatim>\<open>Radio_Tuner\<close>: the modem's bands and the band scan (\<^verbatim>\<open>radio_tuner.cpp\<close>). Shown: in sync means the radio is on, disagreements are not fought out, a scan ends
    and recommends the best row.
  \<^item> \<^verbatim>\<open>Cell_Uplink\<close>: all of it behind one mutex as an uplink (\<^verbatim>\<open>core/net/cellular_uplink.cpp\<close>), over the locale \<open>uplink_link\<close>, with the calls of other threads in
    the gaps of a tick.
  \<^item> \<^verbatim>\<open>Night_Service\<close>, \<^verbatim>\<open>Night_Props\<close>: the day/night service (\<^verbatim>\<open>core/night/night_service.cpp\<close>), its pins, actuators, buttons and the automation's tick,
    and what holds of any sequence of them: stable light before a switch, retries that go on and that are bounded, the coil's protection.
  \<^item> \<^verbatim>\<open>Modem_Ports\<close>: which serial port of the modem has which role (\<^verbatim>\<open>core/cellular/modem_ports.cpp\<close>), independently of the order of the scan.
  \<^item> \<^verbatim>\<open>Bit_Stream\<close>, \<^verbatim>\<open>H264_Nal\<close>: the Exp-Golomb reader and writer and what is built on them (\<^verbatim>\<open>app/rtsp/h264_nal.cpp\<close>): access units are split into the units they were made of, and a sequence
    parameter set is rewritten so that it states the given bounds, once.
  \<^item> \<^verbatim>\<open>Rtp\<close>, \<^verbatim>\<open>Rtp_Jpeg\<close>, \<^verbatim>\<open>G711\<close>: the packets of the streaming transports (\<^verbatim>\<open>app/rtp\<close>, \<^verbatim>\<open>app/webrtc/rtp.cpp\<close>, \<^verbatim>\<open>app/rtsp/rtp_jpeg.cpp\<close>, \<^verbatim>\<open>core/audio/g711.cpp\<close>), each with a receiver after its RFC: what is sent is what is
    put together again, in packets of the allowed size; the error of the audio codec is bounded relative to the sample.
  \<^item> \<^verbatim>\<open>Base64\<close>, \<^verbatim>\<open>Session_Gate\<close>, \<^verbatim>\<open>Websocket\<close>: the web side (\<^verbatim>\<open>app/http/session.cpp\<close>, \<^verbatim>\<open>websocket.cpp\<close>): a session comes from a login or the setup and from nothing else, frames are recognised as soon as they are complete, and the hash is
    the hash of the padded message.
  \<^item> \<^verbatim>\<open>Fmp4\<close>, \<^verbatim>\<open>Hls\<close>: the muxer, whose boxes a reader finds nested exactly (\<^verbatim>\<open>app/http/fmp4.cpp\<close>), the decode timeline, and the HLS segmenter with its memory bound and its playlist (\<^verbatim>\<open>app/http/hls.cpp\<close>).
  \<^item> \<^verbatim>\<open>Rtsp_Auth\<close>: who may watch over RTSP (\<^verbatim>\<open>app/rtsp/rtsp_auth.cpp\<close>) and the frames between the requests (\<^verbatim>\<open>app/rtsp/rtp_audio.cpp\<close>): nobody without a credential, and a client with the password
    always, since its header is read as it was written.
  \<^item> \<^verbatim>\<open>Watchdog\<close>: the feeder of the hardware watchdog (\<^verbatim>\<open>app/watchdog.cpp\<close>) in timed histories of heartbeats and ticks: a loop that lives is fed in time, one that hangs is not, and the hang is marked once.
  \<^item> \<^verbatim>\<open>Wifi_Text\<close>, \<^verbatim>\<open>Usb_Host\<close>: the texts of the Wi-Fi daemons (\<^verbatim>\<open>core/net/hostapd_conf.cpp\<close>, \<^verbatim>\<open>wpa_parse.cpp\<close>), in which nothing typed adds a line, and the policy of the USB port
    (\<^verbatim>\<open>core/usb/usb_host_service.cpp\<close>), which only drives pins that the board wires.
  \<^item> \<^verbatim>\<open>Aes\<close>, \<^verbatim>\<open>Srtp\<close>: the cipher and the protection of the WebRTC media (\<^verbatim>\<open>app/webrtc/aes.cpp\<close>, \<^verbatim>\<open>srtp.cpp\<close>). The locales \<open>replay_window\<close> and \<open>stream_slots\<close> carry the proofs that no packet is
    accepted twice and that what one end protects the other unprotects.
  \<^item> this theory: what holds of the chain from the uplink manager to the kernel's table.

  \<^bold>\<open>Conventions\<close>

  Machine integers that wrap or are compared across the wrap are words of their width (\<open>u32\<close> milliseconds, counters, tokens);
  counters that the code bounds by construction are \<open>int\<close>; floating-point measurements of the latency and rate windows are \<open>real\<close>. Where the code depends on the size
  of \<^verbatim>\<open>long\<close> or \<^verbatim>\<open>size_t\<close> (the camera is a 32-bit MIPS) the width is a parameter. Locks are not modelled as such: a method, or each of
  its critical sections where it gives up the lock in between, is one step, and the theorems on reachable states quantify over all orders of
  the steps. Loops are structural recursion or have a termination proof; loops over the answers of the outside world take the list of
  answers, and then the theorem says that enough of them make the loop return. There is no fuel.

  \<^bold>\<open>Not modelled\<close>

  The vendor's media library and everything that only calls it (\<^verbatim>\<open>adapters/ingenic\<close>, OSD), sockets and threads of the HTTP, RTSP, WebRTC and
  ONVIF servers, the API's JSON views, the TLS library, and the wiring in \<^verbatim>\<open>app/main.cpp\<close>; the older C streamer and the IKE daemon in the same repository
  are programs of their own. Logging is left out everywhere.
\<close>

section \<open>From the uplink manager to the kernel's table\<close>

text \<open>The status entry the connectivity manager reports for one of its uplinks.\<close>

lemma conn_status_memD:
  "st \<in> set (conn_status v c) \<Longrightarrow> \<exists>u \<in> set (c_uplinks c). us_id st = v_id (v u) \<and> us_info st = v_info (v u)"
  by (auto simp: conn_status_def)

lemma conn_status_memI:
  assumes "u \<in> set (c_uplinks c)"
  shows "\<exists>st \<in> set (conn_status v c). us_id st = v_id (v u) \<and> us_info st = v_info (v u) \<and> us_state st = v_state (v u)
    \<and> us_type st = v_type (v u)"
  using assms by (simp add: conn_status_def) (rule bexI [of _ u], simp_all)

lemma intent_metric_active:
  "active \<noteq> [] \<Longrightarrow> us_id st = active \<Longrightarrow> ri_metric (intent_of p active st) = 10"
  "us_id st \<noteq> active \<Longrightarrow> 100 \<le> ri_metric (intent_of p active st)"
  using intent_metric [of p active st] by (auto simp: intent_of_def Let_def)

text \<open>C5: The uplink the connectivity manager calls active is the one the kernel sends through. Take the manager's status report and
  active uplink, plan the routes from them and reconcile the kernel's table, every call succeeding. If the active uplink has an
  interface, is connected and addressed and has a gateway (or is cellular), the table has its route with metric 10, and every route
  through a managed interface whose metric is as low belongs to the same uplink's interface: no other uplink of machino's can take
  the traffic.\<close>

theorem active_uplink_carries_traffic:
  assumes "c_active c = Some u" and "u \<in> set (c_uplinks c)" and "v_id (v u) \<noteq> []"
    and "\<And>w. w \<in> set (c_uplinks c) \<Longrightarrow> v_id (v w) = v_id (v u) \<Longrightarrow> w = u"
    and "ni_ifname (v_info (v u)) \<noteq> []" and "v_state (v u) = Connected" and "ni_ipv4 (v_info (v u)) \<noteq> []"
    and "ni_gateway (v_info (v u)) \<noteq> [] \<or> v_type (v u) = Cellular"
    and "plan = plan_routes (conn_status v c) (c_policy c) (active_id v c)"
    and "re_routes env = Some actual" and "reconcile env plan = (rep, calls)" and "\<And>n. is_ok (re_answer env n)"
  shows "\<exists>r \<in> table_after (re_answer env) 0 calls (set actual).
           dr_ifname r = ni_ifname (v_info (v u)) \<and> dr_gateway r = ni_gateway (v_info (v u)) \<and> dr_metric r = 10
         \<and> (\<forall>r' \<in> table_after (re_answer env) 0 calls (set actual).
              managed plan (dr_ifname r') \<and> dr_metric r' \<le> dr_metric r \<longrightarrow> dr_ifname r' = ni_ifname (v_info (v u)))"
proof -
  have id: "active_id v c = v_id (v u)" using assms(1) by (simp add: active_id_def id_of_def)
  note T = reconcile_table [OF assms(10-12)]
  from conn_status_memI [OF assms(2), of v] obtain st where st: "st \<in> set (conn_status v c)" "us_id st = v_id (v u)"
      "us_info st = v_info (v u)" "us_state st = v_state (v u)" "us_type st = v_type (v u)" by blast
  let ?i = "intent_of (c_policy c) (v_id (v u)) st"
  have i: "?i \<in> set (rp_routes plan)"
    using st assms(5-8) unfolding assms(9) id plan_routes_members by (auto simp: gets_route_def)
  have "dr_of ?i \<in> table_after (re_answer env) 0 calls (set actual)" using i unfolding T by auto
  moreover have "dr_ifname (dr_of ?i) = ni_ifname (v_info (v u))" "dr_gateway (dr_of ?i) = ni_gateway (v_info (v u))"
    using st by (simp_all add: dr_of_def intent_of_def Let_def)
  moreover have "dr_metric (dr_of ?i) = 10"
    using intent_metric_active(1) [OF assms(3) st(2), of "c_policy c"] by (simp add: dr_of_def)
  moreover have "dr_ifname r' = ni_ifname (v_info (v u))"
    if r': "r' \<in> table_after (re_answer env) 0 calls (set actual)" "managed plan (dr_ifname r')" "dr_metric r' \<le> 10" for r'
  proof -
    from r'(1,2) T obtain st' where st': "st' \<in> set (conn_status v c)" "r' = dr_of (intent_of (c_policy c) (v_id (v u)) st')"
      unfolding assms(9) id plan_routes_members by auto
    with r'(3) have "us_id st' = v_id (v u)"
      using intent_metric_active(2) [of st' "v_id (v u)" "c_policy c"] by (auto simp: dr_of_def)
    with conn_status_memD [OF st'(1)] assms(4) have "us_info st' = v_info (v u)" by metis
    then show ?thesis by (simp add: st'(2) dr_of_def intent_of_def Let_def)
  qed
  ultimately show ?thesis by (metis order_refl)
qed

definition wired_view :: view where
  "wired_view u = (if u = 0
     then \<lparr>v_id = ''eth0'', v_type = Ethernet, v_state = Connected,
           v_info = info0\<lparr>ni_ifname := ''eth0'', ni_ipv4 := ''10.0.0.2'', ni_gateway := ''10.0.0.1''\<rparr>,
           v_metrics = metrics0, v_has_internet = True\<rparr>
     else \<lparr>v_id = ''lte1'', v_type = Cellular, v_state = Connected,
           v_info = info0\<lparr>ni_ifname := ''usb0'', ni_ipv4 := ''10.9.0.2''\<rparr>, v_metrics = metrics0, v_has_internet = True\<rparr>)"

definition wired_conn :: conn where
  "wired_conn = conn_new\<lparr>c_uplinks := [0, 1], c_active := Some 0\<rparr>"

theorem active_uplink_carries_traffic_witness:
  "\<exists>r \<in> table_after (\<lambda>_. result_ok) 0
       (snd (reconcile (env_of [boot_route ''usb0''] (\<lambda>_. result_ok))
         (plan_routes (conn_status wired_view wired_conn) (c_policy wired_conn) (active_id wired_view wired_conn))))
       (set [boot_route ''usb0'']). dr_ifname r = ''eth0'' \<and> dr_metric r = 10"
proof -
  let ?plan = "plan_routes (conn_status wired_view wired_conn) (c_policy wired_conn) (active_id wired_view wired_conn)"
  let ?env = "env_of [boot_route ''usb0''] (\<lambda>_. result_ok)"
  have e: "reconcile ?env ?plan = (fst (reconcile ?env ?plan), snd (reconcile ?env ?plan))" by simp
  have r: "re_routes ?env = Some [boot_route ''usb0'']" "re_answer ?env = (\<lambda>_. result_ok)" "\<And>n. is_ok (re_answer ?env n)"
    by (simp_all add: env_of_def)
  have v: "c_active wired_conn = Some 0" "0 \<in> set (c_uplinks wired_conn)" "v_id (wired_view 0) \<noteq> []"
    "ni_ifname (v_info (wired_view 0)) = ''eth0''" "v_state (wired_view 0) = Connected" "ni_ipv4 (v_info (wired_view 0)) \<noteq> []"
    "ni_gateway (v_info (wired_view 0)) \<noteq> [] \<or> v_type (wired_view 0) = Cellular"
    "\<And>w. w \<in> set (c_uplinks wired_conn) \<Longrightarrow> v_id (wired_view w) = v_id (wired_view 0) \<Longrightarrow> w = 0"
    by (auto simp: wired_conn_def wired_view_def)
  from active_uplink_carries_traffic [of wired_conn 0 wired_view, OF v(1,2,3,8) _ v(5-7) refl r(1) e r(3)] v(4)
  show ?thesis by (auto simp: r(2))
qed

end
